(* ===== verification/Prelude.thy ===== *)
theory Prelude
  imports Main "HOL-Library.Monad_Syntax" "HOL-Library.Multiset"
begin

text \<open>
  Shared vocabulary of the development: machine-word arithmetic as the kernel uses it
  (\<open>size_t\<close> and \<open>uintptr_t\<close> are 64-bit unsigned, represented by \<open>nat\<close> with the
  wrap-around written out), the alignment helpers of \<^verbatim>\<open>misc/misc.h\<close>, the status codes of
  \<^verbatim>\<open>user/status.h\<close>, and the typed object stores in which kernel objects live.

  A computation that may hit a failed \<open>ASSERT\<close>, a \<open>PANIC\<close>, an access to freed
  or unmapped memory, or a lock acquired twice by the same thread has an \<open>option\<close>
  result: \<^const>\<open>None\<close> is "the kernel does not return from here".
\<close>

named_theorems store_simps \<open>rewrite rules of the typed object stores\<close>
named_theorems word_simps \<open>wrap-around arithmetic that does not wrap\<close>

section \<open>Machine arithmetic\<close>

type_synonym addr = nat
type_synonym size_t = nat

definition u64 :: "nat \<Rightarrow> nat" where
  "u64 n = n mod 2 ^ 64"

definition u32 :: "nat \<Rightarrow> nat" where
  "u32 n = n mod 2 ^ 32"

text \<open>\<open>ATOMIC_FETCH_INCREMENT\<close> and \<open>ATOMIC_FETCH_DECREMENT\<close>: the value stored.\<close>

definition inc64 :: "nat \<Rightarrow> nat" where
  "inc64 n = u64 (n + 1)"

definition dec64 :: "nat \<Rightarrow> nat" where
  "dec64 n = u64 (n + (2 ^ 64 - 1))"

text \<open>Subtraction of 64-bit values.\<close>

definition sub64 :: "nat \<Rightarrow> nat \<Rightarrow> nat" where
  "sub64 a b = u64 (a + (2 ^ 64 - b))"

definition align_down :: "nat \<Rightarrow> nat \<Rightarrow> nat" where
  "align_down val align = (val div align) * align"

definition align_up :: "nat \<Rightarrow> nat \<Rightarrow> nat" where
  "align_up val align = align_down (u64 (val + align - 1)) align"

lemma u64_small [word_simps]: "n < 2 ^ 64 \<Longrightarrow> u64 n = n"
  by (simp add: u64_def)

lemma u64_bound [simp]: "u64 n < 2 ^ 64"
  by (simp add: u64_def)

lemma u32_small [word_simps]: "n < 2 ^ 32 \<Longrightarrow> u32 n = n"
  by (simp add: u32_def)

lemma inc64_small [word_simps]: "n + 1 < 2 ^ 64 \<Longrightarrow> inc64 n = n + 1"
  by (simp add: inc64_def u64_def)

lemma inc64_bound [simp]: "inc64 n < 2 ^ 64"
  unfolding inc64_def by (rule u64_bound)

lemma inc64_max: "inc64 (2 ^ 64 - 1) = 0"
  by (simp add: inc64_def u64_def)

lemma dec64_pos [word_simps]:
  assumes "0 < n" "n < 2 ^ 64"
  shows "dec64 n = n - 1"
proof -
  have "n + (2 ^ 64 - 1) = (n - 1) + 2 ^ 64" using assms by simp
  then have "dec64 n = ((n - 1) + 2 ^ 64) mod 2 ^ 64" by (simp only: dec64_def u64_def)
  also have "\<dots> = (n - 1) mod 2 ^ 64" by (rule mod_add_self2)
  also have "\<dots> = n - 1" using assms by simp
  finally show ?thesis .
qed

lemma dec64_zero: "dec64 0 = 2 ^ 64 - 1"
  by (simp add: dec64_def u64_def)

lemma sub64_le [word_simps]:
  assumes "b \<le> a" "a < 2 ^ 64"
  shows "sub64 a b = a - b"
proof -
  have "a + (2 ^ 64 - b) = (a - b) + 2 ^ 64" using assms by simp
  then have "sub64 a b = ((a - b) + 2 ^ 64) mod 2 ^ 64" by (simp only: sub64_def u64_def)
  also have "\<dots> = (a - b) mod 2 ^ 64" by (rule mod_add_self2)
  also have "\<dots> = a - b" using assms by simp
  finally show ?thesis .
qed

lemma align_down_le: "align_down v a \<le> v"
  by (simp add: align_down_def)

lemma align_down_dvd: "a dvd align_down v a"
  by (simp add: align_down_def)

lemma align_down_gt: "0 < a \<Longrightarrow> v < align_down v a + a"
  unfolding align_down_def by (metis add.commute dividend_less_div_times)

lemma align_up_dvd: "a dvd align_up v a"
  by (simp add: align_up_def align_down_dvd)

lemma align_up_ge:
  assumes "0 < a" "v + a - 1 < 2 ^ 64"
  shows "v \<le> align_up v a"
proof -
  have "align_up v a = align_down (v + a - 1) a"
    using assms by (simp add: align_up_def u64_def)
  moreover have "v + a - 1 < align_down (v + a - 1) a + a"
    using assms(1) by (rule align_down_gt)
  ultimately show ?thesis by linarith
qed

lemma align_up_less:
  assumes "0 < a" "v + a - 1 < 2 ^ 64"
  shows "align_up v a < v + a"
proof -
  have "align_up v a \<le> v + a - 1"
    using assms align_down_le [of "v + a - 1" a] by (simp add: align_up_def u64_def)
  then show ?thesis using assms(1) by simp
qed

lemma align_up_aligned:
  assumes "0 < a" "a dvd v" "v + a - 1 < 2 ^ 64"
  shows "align_up v a = v"
proof -
  from assms(2) obtain k where "v = a * k" by (rule dvdE)
  moreover have "(a * k + a - 1) div a = k"
  proof -
    have "a * k + a - 1 = (a - 1) + k * a" using assms(1) by (simp add: mult.commute)
    also have "\<dots> div a = k + (a - 1) div a"
      using assms(1) by (intro div_mult_self1) simp
    finally show ?thesis using assms(1) by simp
  qed
  ultimately show ?thesis
    using assms by (simp add: align_up_def u64_def align_down_def mult.commute)
qed

section \<open>API status codes\<close>

datatype user_status =
    USER_STATUS_SUCCESS
  | USER_STATUS_OUT_OF_BOUNDS
  | USER_STATUS_UNSUPPORTED
  | USER_STATUS_OUT_OF_MEMORY
  | USER_STATUS_TARGET_UNREACHABLE
  | USER_STATUS_QUOTA_EXCEEDED
  | USER_STATUS_EMPTY
  | USER_STATUS_INVALID_MSG
  | USER_STATUS_INVALID_HANDLE
  | USER_STATUS_INVALID_HANDLE_TYPE
  | USER_STATUS_INVALID_RPC_ID
  | USER_STATUS_INVALID_UNIVERSE_ORDER
  | USER_STATUS_SECURITY_VIOLATION
  | USER_STATUS_INVALID_MEM

section \<open>Typed object stores\<close>

text \<open>
  The objects of one type live in a list indexed by their address; a freed object
  leaves \<^const>\<open>None\<close> behind, so that an access through a stale pointer is visible as a
  failed lookup. A new object takes the next unused address.
\<close>

type_synonym 'a store = "'a option list"

definition sget :: "'a store \<Rightarrow> addr \<Rightarrow> 'a option" where
  "sget xs i = (if i < length xs then xs ! i else None)"

definition sput :: "'a store \<Rightarrow> addr \<Rightarrow> 'a \<Rightarrow> 'a store" where
  "sput xs i v = xs[i := Some v]"

definition sdel :: "'a store \<Rightarrow> addr \<Rightarrow> 'a store" where
  "sdel xs i = xs[i := None]"

definition snew :: "'a store \<Rightarrow> 'a \<Rightarrow> addr \<times> 'a store" where
  "snew xs v = (length xs, xs @ [Some v])"

lemma sget_Some_length: "sget xs i = Some v \<Longrightarrow> i < length xs"
  by (simp add: sget_def split: if_splits)

lemma sget_sput [store_simps]:
  "sget (sput xs i v) j = (if i = j \<and> i < length xs then Some v else sget xs j)"
  by (auto simp: sget_def sput_def)

lemma sget_sput_same [store_simps]: "sget xs i = Some w \<Longrightarrow> sget (sput xs i v) i = Some v"
  by (auto simp: sget_def sput_def split: if_splits)

lemma sget_sput_other [store_simps]: "i \<noteq> j \<Longrightarrow> sget (sput xs i v) j = sget xs j"
  by (auto simp: sget_def sput_def)

lemma sget_sdel [store_simps]: "sget (sdel xs i) j = (if i = j then None else sget xs j)"
  by (auto simp: sget_def sdel_def)

lemma sget_snew [store_simps]:
  "snew xs v = (a, ys) \<Longrightarrow> sget ys j = (if j = a then Some v else sget xs j)"
  by (auto simp: sget_def snew_def nth_append)

lemma snew_fresh: "snew xs v = (a, ys) \<Longrightarrow> sget xs a = None"
  by (auto simp: sget_def snew_def)

lemma length_sput [store_simps, simp]: "length (sput xs i v) = length xs"
  by (simp add: sput_def)

lemma length_sdel [store_simps, simp]: "length (sdel xs i) = length xs"
  by (simp add: sdel_def)

lemma sput_sput [store_simps]: "sput (sput xs i v) i w = sput xs i w"
  by (simp add: sput_def)

lemma sdel_sput [store_simps]: "sdel (sput xs i v) i = sdel xs i"
  by (simp add: sput_def sdel_def)

lemma sput_swap: "a \<noteq> b \<Longrightarrow> sput (sput xs a x) b y = sput (sput xs b y) a x"
  by (simp add: sput_def list_update_swap)

lemma sput_same: "sget xs i = Some v \<Longrightarrow> sput xs i v = xs"
  by (auto simp: sget_def sput_def list_update_same_conv split: if_splits)

text \<open>Sums over a store, for the measures of the reference-counting proofs.\<close>

definition ssum :: "('a \<Rightarrow> nat) \<Rightarrow> 'a store \<Rightarrow> nat" where
  "ssum f xs = sum_list (map (\<lambda>x. case x of None \<Rightarrow> 0 | Some v \<Rightarrow> f v) xs)"

lemma ssum_sput:
  assumes "sget xs i = Some v"
  shows "ssum f (sput xs i w) + f v = ssum f xs + f w"
proof -
  have i: "i < length xs" and xi: "xs ! i = Some v"
    using assms by (auto simp: sget_def split: if_splits)
  have "f v \<le> ssum f xs"
    unfolding ssum_def using i xi
    by (metis (no_types, lifting) elem_le_sum_list length_map nth_map option.simps(5))
  then show ?thesis
    unfolding ssum_def sput_def
    using i xi by (simp add: map_update sum_list_update)
qed

lemma ssum_sdel:
  assumes "sget xs i = Some v"
  shows "ssum f (sdel xs i) + f v = ssum f xs"
proof -
  have i: "i < length xs" and xi: "xs ! i = Some v"
    using assms by (auto simp: sget_def split: if_splits)
  have "f v \<le> ssum f xs"
    unfolding ssum_def using i xi
    by (metis (no_types, lifting) elem_le_sum_list length_map nth_map option.simps(5))
  then show ?thesis
    unfolding ssum_def sdel_def
    using i xi by (simp add: map_update sum_list_update)
qed

lemma ssum_ge: "sget xs i = Some v \<Longrightarrow> f v \<le> ssum f xs"
  using ssum_sdel [of xs i v f] by linarith

section \<open>Lists\<close>

lemma find_append:
  "find P (xs @ ys) = (case find P xs of None \<Rightarrow> find P ys | Some x \<Rightarrow> Some x)"
  by (induction xs) auto

lemma distinct_map_find:
  assumes "distinct (map f xs)" "x \<in> set xs"
  shows "find (\<lambda>y. f y = f x) xs = Some x"
  using assms by (induction xs) auto

lemma find_cong_set:
  "(\<And>x. x \<in> set xs \<Longrightarrow> P x = Q x) \<Longrightarrow> find P xs = find Q xs"
  by (induction xs) auto

lemma find_None_set: "find P xs = None \<longleftrightarrow> (\<forall>x \<in> set xs. \<not> P x)"
  by (induction xs) auto

lemma find_Some_set: "find P xs = Some x \<Longrightarrow> x \<in> set xs \<and> P x"
  by (induction xs) (auto split: if_splits)

end
