(* ===== verification/Fifo.thy ===== *)
theory Fifo
  imports Prelude
begin

text \<open>
  The contract of the kernel's intrusive containers, as their clients use it: a container
  descriptor and the memory of its hooks together represent a sequence of nodes; a node
  not yet in the sequence can be appended at the end; the first node can be taken out.
  The locale fixes the operations of an implementation, assumes its laws and proves once
  what a client relies on: nodes come out in the order they went in, and nothing is lost
  or duplicated. \<^verbatim>\<open>lib/queue.h\<close> (theory \<open>Queue\<close>) and \<^verbatim>\<open>lib/list.h\<close>
  (theory \<open>Ilist\<close>) interpret it.
\<close>

locale fifo =
  fixes R :: "'h \<Rightarrow> 'l \<Rightarrow> addr list \<Rightarrow> bool"
    and empty :: "'l"
    and enq :: "'l \<Rightarrow> addr \<Rightarrow> 'h \<Rightarrow> ('l \<times> 'h) option"
    and deq :: "'l \<Rightarrow> 'h \<Rightarrow> (addr option \<times> 'l \<times> 'h) option"
  assumes R_empty: "R h empty []"
    and R_distinct: "R h l xs \<Longrightarrow> distinct xs"
    and R_enq: "R h l xs \<Longrightarrow> x \<notin> set xs \<Longrightarrow>
      \<exists>l' h'. enq l x h = Some (l', h') \<and> R h' l' (xs @ [x])"
    and R_deq_Nil: "R h l [] \<Longrightarrow> \<exists>l' h'. deq l h = Some (None, l', h') \<and> R h' l' []"
    and R_deq_Cons: "R h l (x # xs) \<Longrightarrow> \<exists>l' h'. deq l h = Some (Some x, l', h') \<and> R h' l' xs"
begin

primrec enq_all :: "addr list \<Rightarrow> 'l \<Rightarrow> 'h \<Rightarrow> ('l \<times> 'h) option" where
  "enq_all [] l h = Some (l, h)"
| "enq_all (x # xs) l h = do { (l, h) \<leftarrow> enq l x h; enq_all xs l h }"

primrec deq_n :: "nat \<Rightarrow> 'l \<Rightarrow> 'h \<Rightarrow> (addr option list \<times> 'l \<times> 'h) option" where
  "deq_n 0 l h = Some ([], l, h)"
| "deq_n (Suc n) l h =
     do { (r, l, h) \<leftarrow> deq l h; (rs, l, h) \<leftarrow> deq_n n l h; Some (r # rs, l, h) }"

lemma R_enq_all:
  "R h l xs \<Longrightarrow> distinct ys \<Longrightarrow> set ys \<inter> set xs = {} \<Longrightarrow>
   \<exists>l' h'. enq_all ys l h = Some (l', h') \<and> R h' l' (xs @ ys)"
proof (induction ys arbitrary: l h xs)
  case Nil
  then show ?case by simp
next
  case (Cons y ys)
  then obtain l1 h1 where e: "enq l y h = Some (l1, h1)" "R h1 l1 (xs @ [y])"
    using R_enq [of h l xs y] by auto
  moreover have "\<exists>l' h'. enq_all ys l1 h1 = Some (l', h') \<and> R h' l' ((xs @ [y]) @ ys)"
    by (rule Cons.IH [OF e(2)]) (use Cons.prems in auto)
  ultimately show ?case by auto
qed

lemma R_deq_n:
  "R h l (xs @ ys) \<Longrightarrow>
   \<exists>l' h'. deq_n (length xs) l h = Some (map Some xs, l', h') \<and> R h' l' ys"
proof (induction xs arbitrary: l h)
  case Nil
  then show ?case by simp
next
  case (Cons x xs)
  then obtain l1 h1 where "deq l h = Some (Some x, l1, h1)" "R h1 l1 (xs @ ys)"
    using R_deq_Cons [of h l x "xs @ ys"] by auto
  with Cons.IH [of h1 l1] show ?case by auto
qed

text \<open>First in, first out, for any implementation.\<close>

lemma fifo_order:
  assumes "distinct xs"
  shows "\<exists>l h1 l' h'. enq_all xs empty h = Some (l, h1) \<and>
     deq_n (length xs) l h1 = Some (map Some xs, l', h') \<and> R h' l' []"
  using R_enq_all [OF R_empty [of h] assms] R_deq_n [of _ _ xs "[]"] by fastforce

end

end
