(* ===== verification/Queue.thy ===== *)
theory Queue
  imports Fifo
begin

text \<open>
  \<^verbatim>\<open>lib/queue.h\<close>: the intrusive singly linked queue, at the level of its pointers. A hook
  is an address, the memory of the hooks is a map from addresses to \<open>queue_node\<close>, and
  \<open>NULL\<close> is \<^const>\<open>None\<close>.
\<close>

record queue_node =
  qn_next :: "addr option"

record queue =
  q_head :: "addr option"
  q_tail :: "addr option"

type_synonym queue_mem = "addr \<Rightarrow> queue_node"

definition QUEUE_INIT :: queue where
  "QUEUE_INIT = \<lparr>q_head = None, q_tail = None\<rparr>"

definition queue_enqueue :: "queue \<Rightarrow> addr \<Rightarrow> queue_mem \<Rightarrow> (queue \<times> queue_mem) option" where
  "queue_enqueue queue node m =
     (let m = m(node := (m node)\<lparr>qn_next := None\<rparr>) in
      case q_head queue of
        None \<Rightarrow> Some (queue\<lparr>q_head := Some node, q_tail := Some node\<rparr>, m)
      | Some _ \<Rightarrow>
         do { t \<leftarrow> q_tail queue;
              let m = m(t := (m t)\<lparr>qn_next := Some node\<rparr>);
              Some (queue\<lparr>q_tail := Some node\<rparr>, m) })"

definition queue_dequeue :: "queue \<Rightarrow> queue_mem \<Rightarrow> (addr option \<times> queue \<times> queue_mem) option" where
  "queue_dequeue queue m =
     (case q_head queue of
        None \<Rightarrow> Some (None, queue, m)
      | Some result \<Rightarrow>
         (if qn_next (m result) = None
          then Some (Some result, queue\<lparr>q_head := None, q_tail := None\<rparr>, m)
          else Some (Some result, queue\<lparr>q_head := qn_next (m result)\<rparr>, m)))"

section \<open>What a queue represents\<close>

text \<open>\<open>qlinks m xs\<close>: every hook of \<open>xs\<close> points to its successor, the last one to \<open>NULL\<close>.\<close>

fun qlinks :: "queue_mem \<Rightarrow> addr list \<Rightarrow> bool" where
  "qlinks m [] = True"
| "qlinks m [x] = (qn_next (m x) = None)"
| "qlinks m (x # y # xs) = (qn_next (m x) = Some y \<and> qlinks m (y # xs))"

definition queue_rep :: "queue_mem \<Rightarrow> queue \<Rightarrow> addr list \<Rightarrow> bool" where
  "queue_rep m q xs \<longleftrightarrow>
     distinct xs \<and> qlinks m xs \<and>
     q_head q = (if xs = [] then None else Some (hd xs)) \<and>
     q_tail q = (if xs = [] then None else Some (last xs))"

lemma qlinks_frame: "x \<notin> set xs \<Longrightarrow> qlinks (m(x := v)) xs = qlinks m xs"
  by (induction m xs rule: qlinks.induct) auto

lemma qlinks_snoc:
  "distinct (xs @ [y]) \<Longrightarrow> xs \<noteq> [] \<Longrightarrow> qlinks m xs \<Longrightarrow> qn_next (m y) = None \<Longrightarrow>
   qlinks (m(last xs := (m (last xs))\<lparr>qn_next := Some y\<rparr>)) (xs @ [y])"
proof (induction m xs rule: qlinks.induct)
  case (3 m x z xs)
  have l: "last (z # xs) \<noteq> x" using "3.prems"(1)
    by (metis append_is_Nil_conv distinct.simps(2) last_in_set list.distinct(1) append_Cons
        in_set_conv_decomp_last Un_iff set_append)
  show ?case using 3 l by (auto split: if_splits)
qed auto

lemma qlinks_Cons: "qlinks m (x # xs) \<Longrightarrow>
   qn_next (m x) = (if xs = [] then None else Some (hd xs)) \<and> qlinks m xs"
  by (cases xs) auto

lemma queue_rep_enqueue:
  assumes rep: "queue_rep m q xs" and new: "x \<notin> set xs"
  shows "\<exists>q' m'. queue_enqueue q x m = Some (q', m') \<and> queue_rep m' q' (xs @ [x])"
proof (cases "xs = []")
  case True
  with rep show ?thesis
    by (auto simp: queue_rep_def queue_enqueue_def Let_def split: option.splits)
next
  case False
  define m1 where "m1 = m(x := (m x)\<lparr>qn_next := None\<rparr>)"
  have d: "distinct (xs @ [x])" using rep new by (simp add: queue_rep_def)
  have "qlinks m1 xs" using rep new by (simp add: queue_rep_def m1_def qlinks_frame)
  then have "qlinks (m1(last xs := (m1 (last xs))\<lparr>qn_next := Some x\<rparr>)) (xs @ [x])"
    using d False by (intro qlinks_snoc) (simp_all add: m1_def)
  moreover have "queue_enqueue q x m =
      Some (q\<lparr>q_tail := Some x\<rparr>, m1(last xs := (m1 (last xs))\<lparr>qn_next := Some x\<rparr>))"
    using rep False by (simp add: queue_rep_def queue_enqueue_def Let_def m1_def)
  ultimately show ?thesis
    using rep d False by (simp add: queue_rep_def)
qed

lemma queue_rep_dequeue_Nil:
  "queue_rep m q [] \<Longrightarrow>
   \<exists>q' m'. queue_dequeue q m = Some (None, q', m') \<and> queue_rep m' q' []"
  by (auto simp: queue_rep_def queue_dequeue_def)

lemma queue_rep_dequeue_Cons:
  assumes "queue_rep m q (x # xs)"
  shows "\<exists>q' m'. queue_dequeue q m = Some (Some x, q', m') \<and> queue_rep m' q' xs"
proof -
  have "qlinks m xs" "qn_next (m x) = (if xs = [] then None else Some (hd xs))"
    using assms qlinks_Cons [of m x xs] by (simp_all add: queue_rep_def)
  then show ?thesis
    using assms by (auto simp: queue_rep_def queue_dequeue_def)
qed

interpretation kqueue: fifo queue_rep QUEUE_INIT queue_enqueue queue_dequeue
proof unfold_locales
  show "queue_rep h QUEUE_INIT []" for h by (simp add: queue_rep_def QUEUE_INIT_def)
  show "queue_rep h l xs \<Longrightarrow> distinct xs" for h l xs by (simp add: queue_rep_def)
qed (rule queue_rep_enqueue queue_rep_dequeue_Nil queue_rep_dequeue_Cons; assumption)+

section \<open>Properties\<close>

text \<open>Starting from an empty queue and any contents of the hooks' memory, enqueueing
  pairwise distinct nodes with \<open>queue_enqueue\<close> and calling \<open>queue_dequeue\<close> as often
  never dereferences \<open>NULL\<close>, returns exactly these nodes in the order they went in, and
  leaves the queue empty.\<close>

lemma queue_fifo:
  assumes "distinct xs"
  shows "\<exists>q m1 q' m2. kqueue.enq_all xs QUEUE_INIT m = Some (q, m1) \<and>
     kqueue.deq_n (length xs) q m1 = Some (map Some xs, q', m2) \<and>
     queue_rep m2 q' [] \<and> q' = QUEUE_INIT"
  using kqueue.fifo_order [OF assms, of m] by (fastforce simp: queue_rep_def QUEUE_INIT_def)

end
