(* ===== verification/Ilist.thy ===== *)
theory Ilist
  imports Fifo
begin

text \<open>
  \<^verbatim>\<open>lib/list.h\<close>: the intrusive doubly linked list at the level of its pointers. The
  universes' free lists, the buckets of the integer maps and the TLS tables are such
  lists. Every operation returns \<^const>\<open>None\<close> where the C code would dereference
  \<open>NULL\<close>; the lemmas show that on a well-formed list it never does.
\<close>

record list_node =
  ln_next :: "addr option"
  ln_prev :: "addr option"

record ilist =
  l_head :: "addr option"
  l_tail :: "addr option"

type_synonym list_mem = "addr \<Rightarrow> list_node"

definition LIST_INIT :: ilist where
  "LIST_INIT = \<lparr>l_head = None, l_tail = None\<rparr>"

definition set_next :: "addr \<Rightarrow> addr option \<Rightarrow> list_mem \<Rightarrow> list_mem" where
  "set_next a p m = m(a := (m a)\<lparr>ln_next := p\<rparr>)"

definition set_prev :: "addr \<Rightarrow> addr option \<Rightarrow> list_mem \<Rightarrow> list_mem" where
  "set_prev a p m = m(a := (m a)\<lparr>ln_prev := p\<rparr>)"

definition list_append_head :: "ilist \<Rightarrow> addr \<Rightarrow> list_mem \<Rightarrow> (ilist \<times> list_mem) option" where
  "list_append_head list node m =
     (let m = set_prev node None m in
      case l_head list of
        None \<Rightarrow> Some (list\<lparr>l_head := Some node, l_tail := Some node\<rparr>, set_next node None m)
      | Some old \<Rightarrow>
         Some (list\<lparr>l_head := Some node\<rparr>, set_next node (Some old) (set_prev old (Some node) m)))"

definition list_append_tail :: "ilist \<Rightarrow> addr \<Rightarrow> list_mem \<Rightarrow> (ilist \<times> list_mem) option" where
  "list_append_tail list node m =
     (let m = set_next node None m in
      case l_tail list of
        None \<Rightarrow> Some (list\<lparr>l_head := Some node, l_tail := Some node\<rparr>, set_prev node None m)
      | Some old \<Rightarrow>
         Some (list\<lparr>l_tail := Some node\<rparr>, set_prev node (Some old) (set_next old (Some node) m)))"

definition list_remove_head :: "ilist \<Rightarrow> list_mem \<Rightarrow> (addr option \<times> ilist \<times> list_mem) option" where
  "list_remove_head list m =
     (case l_head list of
        None \<Rightarrow> Some (None, list, m)
      | Some result \<Rightarrow>
         (case ln_next (m result) of
            None \<Rightarrow> Some (Some result, list\<lparr>l_head := None, l_tail := None\<rparr>, m)
          | Some n \<Rightarrow> Some (Some result, list\<lparr>l_head := Some n\<rparr>, set_prev n None m)))"

definition list_remove_tail :: "ilist \<Rightarrow> list_mem \<Rightarrow> (addr option \<times> ilist \<times> list_mem) option" where
  "list_remove_tail list m =
     (case l_tail list of
        None \<Rightarrow> Some (None, list, m)
      | Some result \<Rightarrow>
         (case ln_prev (m result) of
            None \<Rightarrow> Some (Some result, list\<lparr>l_head := None, l_tail := None\<rparr>, m)
          | Some p \<Rightarrow> Some (Some result, list\<lparr>l_tail := Some p\<rparr>, set_next p None m)))"

definition list_remove :: "ilist \<Rightarrow> addr \<Rightarrow> list_mem \<Rightarrow> (ilist \<times> list_mem) option" where
  "list_remove list node m =
     (if l_head list = Some node then
        do { (_, list, m) \<leftarrow> list_remove_head list m; Some (list, m) }
      else if l_tail list = Some node then
        do { (_, list, m) \<leftarrow> list_remove_tail list m; Some (list, m) }
      else
        do { p \<leftarrow> ln_prev (m node);
             let m = set_next p (ln_next (m node)) m;
             n \<leftarrow> ln_next (m node);
             let m = set_prev n (ln_prev (m node)) m;
             Some (list, m) })"

text \<open>\<open>LIST_FOREACH\<close>: follow the \<open>next\<close> pointers from the head, collecting the nodes.\<close>

partial_function (option) list_foreach :: "list_mem \<Rightarrow> addr option \<Rightarrow> addr list option" where
  "list_foreach m p =
     (case p of
        None \<Rightarrow> Some []
      | Some x \<Rightarrow> Option.bind (list_foreach m (ln_next (m x))) (\<lambda>xs. Some (x # xs)))"

section \<open>What a list represents\<close>

definition hd_or :: "addr list \<Rightarrow> addr option \<Rightarrow> addr option" where
  "hd_or xs n = (if xs = [] then n else Some (hd xs))"

definition last_or :: "addr list \<Rightarrow> addr option \<Rightarrow> addr option" where
  "last_or xs p = (if xs = [] then p else Some (last xs))"

lemma hd_or_simps [simp]: "hd_or [] n = n" "hd_or (x # xs) n = Some x"
  by (simp_all add: hd_or_def)

lemma last_or_Nil [simp]: "last_or [] p = p"
  by (simp add: last_or_def)

lemma last_or_append [simp]: "last_or (xs @ ys) p = last_or ys (last_or xs p)"
  by (simp add: last_or_def)

lemma last_or_Cons [simp]: "last_or (x # xs) p = last_or xs (Some x)"
  by (simp add: last_or_def)

lemma hd_or_append: "hd_or (xs @ ys) n = hd_or xs (hd_or ys n)"
  by (simp add: hd_or_def)

lemma hd_or_neq: "x \<notin> set xs \<Longrightarrow> n \<noteq> Some x \<Longrightarrow> hd_or xs n \<noteq> Some x"
  by (auto simp: hd_or_def)

lemma last_or_neq: "x \<notin> set xs \<Longrightarrow> p \<noteq> Some x \<Longrightarrow> last_or xs p \<noteq> Some x"
  by (auto simp: last_or_def)

text \<open>
  \<open>dlinks m p xs n\<close>: the nodes \<open>xs\<close> are chained in both directions, the first one's
  \<open>prev\<close> is \<open>p\<close> and the last one's \<open>next\<close> is \<open>n\<close>.
\<close>

fun dlinks :: "list_mem \<Rightarrow> addr option \<Rightarrow> addr list \<Rightarrow> addr option \<Rightarrow> bool" where
  "dlinks m p [] n = True"
| "dlinks m p (x # xs) n =
     (ln_prev (m x) = p \<and> ln_next (m x) = hd_or xs n \<and> dlinks m (Some x) xs n)"

definition list_rep :: "list_mem \<Rightarrow> ilist \<Rightarrow> addr list \<Rightarrow> bool" where
  "list_rep m l xs \<longleftrightarrow>
     distinct xs \<and> dlinks m None xs None \<and> l_head l = hd_or xs None \<and> l_tail l = last_or xs None"

lemma dlinks_append:
  "dlinks m p (xs @ ys) n \<longleftrightarrow> dlinks m p xs (hd_or ys n) \<and> dlinks m (last_or xs p) ys n"
  by (induction xs arbitrary: p) (auto simp: hd_or_append)

lemma dlinks_frame: "x \<notin> set xs \<Longrightarrow> dlinks (m(x := v)) p xs n = dlinks m p xs n"
  by (induction xs arbitrary: p) auto

lemma dlinks_set_next_frame [simp]:
  "x \<notin> set xs \<Longrightarrow> dlinks (set_next x v m) p xs n = dlinks m p xs n"
  by (simp add: set_next_def dlinks_frame)

lemma dlinks_set_prev_frame [simp]:
  "x \<notin> set xs \<Longrightarrow> dlinks (set_prev x v m) p xs n = dlinks m p xs n"
  by (simp add: set_prev_def dlinks_frame)

lemma ln_set [simp]:
  "ln_next (set_prev a p m x) = ln_next (m x)"
  "ln_prev (set_next a p m x) = ln_prev (m x)"
  "ln_next (set_next a p m x) = (if x = a then p else ln_next (m x))"
  "ln_prev (set_prev a p m x) = (if x = a then p else ln_prev (m x))"
  by (simp_all add: set_next_def set_prev_def)

lemma dlinks_set_prev_hd:
  "x \<notin> set xs \<Longrightarrow> dlinks m p (x # xs) n \<Longrightarrow> dlinks (set_prev x q m) q (x # xs) n"
  by simp

lemma dlinks_set_next_last:
  "x \<notin> set xs \<Longrightarrow> dlinks m p (xs @ [x]) n \<Longrightarrow> dlinks (set_next x q m) p (xs @ [x]) q"
  by (simp add: dlinks_append)

section \<open>The operations on represented lists\<close>

lemma list_rep_append_head:
  assumes rep: "list_rep m l xs" and new: "x \<notin> set xs"
  shows "\<exists>l' m'. list_append_head l x m = Some (l', m') \<and> list_rep m' l' (x # xs)"
proof (cases xs)
  case Nil
  with rep show ?thesis by (auto simp: list_rep_def list_append_head_def Let_def)
next
  case (Cons y ys)
  with rep new show ?thesis
    by (auto simp: list_rep_def list_append_head_def Let_def)
qed

lemma list_rep_append_tail:
  assumes rep: "list_rep m l xs" and new: "x \<notin> set xs"
  shows "\<exists>l' m'. list_append_tail l x m = Some (l', m') \<and> list_rep m' l' (xs @ [x])"
proof (cases xs rule: rev_cases)
  case Nil
  with rep show ?thesis by (auto simp: list_rep_def list_append_tail_def Let_def)
next
  case (snoc ys y)
  with rep new show ?thesis
    by (auto simp: list_rep_def list_append_tail_def Let_def dlinks_append hd_or_append)
qed

lemma list_rep_remove_head_Nil:
  "list_rep m l [] \<Longrightarrow> \<exists>l' m'. list_remove_head l m = Some (None, l', m') \<and> list_rep m' l' []"
  by (auto simp: list_rep_def list_remove_head_def)

lemma list_rep_remove_head_Cons:
  assumes "list_rep m l (x # xs)"
  shows "\<exists>l' m'. list_remove_head l m = Some (Some x, l', m') \<and> list_rep m' l' xs"
proof (cases xs)
  case Nil
  with assms show ?thesis by (auto simp: list_rep_def list_remove_head_def)
next
  case (Cons y ys)
  with assms show ?thesis by (auto simp: list_rep_def list_remove_head_def)
qed

lemma list_rep_remove_tail_Nil:
  "list_rep m l [] \<Longrightarrow> \<exists>l' m'. list_remove_tail l m = Some (None, l', m') \<and> list_rep m' l' []"
  by (auto simp: list_rep_def list_remove_tail_def)

lemma list_rep_remove_tail_snoc:
  assumes "list_rep m l (xs @ [x])"
  shows "\<exists>l' m'. list_remove_tail l m = Some (Some x, l', m') \<and> list_rep m' l' xs"
proof (cases xs rule: rev_cases)
  case Nil
  with assms show ?thesis by (auto simp: list_rep_def list_remove_tail_def)
next
  case (snoc ys y)
  with assms show ?thesis
    by (auto simp: list_rep_def list_remove_tail_def dlinks_append hd_or_append)
qed

lemma list_rep_remove_middle:
  assumes rep: "list_rep m l (ys @ [a] @ [x] @ [b] @ zs)"
  shows "\<exists>l' m'. list_remove l x m = Some (l', m') \<and> list_rep m' l' (ys @ [a] @ [b] @ zs)"
proof -
  have h: "l_head l \<noteq> Some x" and t: "l_tail l \<noteq> Some x"
    using rep by (auto simp: list_rep_def hd_or_append hd_or_neq last_or_neq)
  have px: "ln_prev (m x) = Some a" "ln_next (m x) = Some b"
    using rep by (simp_all add: list_rep_def dlinks_append)
  show ?thesis
    using rep h t px
    by (auto simp: list_rep_def list_remove_def Let_def dlinks_append hd_or_append)
qed

lemma list_rep_remove:
  assumes rep: "list_rep m l xs" and x: "x \<in> set xs"
  shows "\<exists>l' m'. list_remove l x m = Some (l', m') \<and> list_rep m' l' (remove1 x xs)"
proof -
  have d: "distinct xs" using rep by (simp add: list_rep_def)
  from x obtain us vs where xs: "xs = us @ x # vs" and nx: "x \<notin> set us"
    by (meson split_list_first)
  have rem: "remove1 x xs = us @ vs" using nx xs by (simp add: remove1_append)
  consider "us = []" | "us \<noteq> []" "vs = []" | "us \<noteq> []" "vs \<noteq> []" by blast
  then show ?thesis
  proof cases
    case 1
    then have "list_rep m l (x # vs)" "l_head l = Some x"
      using rep xs by (simp_all add: list_rep_def)
    then show ?thesis
      using list_rep_remove_head_Cons [of m l x vs] rem 1 by (auto simp: list_remove_def)
  next
    case 2
    then have "list_rep m l (us @ [x])" "l_head l \<noteq> Some x" "l_tail l = Some x"
      using rep xs nx by (auto simp: list_rep_def hd_or_def)
    then show ?thesis
      using list_rep_remove_tail_snoc [of m l us x] rem 2 by (auto simp: list_remove_def)
  next
    case 3
    then obtain us' a b vs' where "us = us' @ [a]" "vs = b # vs'"
      by (metis list.exhaust rev_exhaust)
    then show ?thesis using list_rep_remove_middle [of m l us' a x b vs'] rep xs rem by simp
  qed
qed

lemma list_foreach_links: "dlinks m p xs None \<Longrightarrow> list_foreach m (hd_or xs None) = Some xs"
proof (induction xs arbitrary: p)
  case Nil
  show ?case by (simp add: list_foreach.simps)
next
  case (Cons x xs)
  then show ?case by (subst list_foreach.simps) auto
qed

lemma list_foreach_rep: "list_rep m l xs \<Longrightarrow> list_foreach m (l_head l) = Some xs"
  by (auto simp: list_rep_def intro: list_foreach_links)

interpretation klist: fifo list_rep LIST_INIT list_append_tail list_remove_head
proof unfold_locales
  show "list_rep h LIST_INIT []" for h by (simp add: list_rep_def LIST_INIT_def)
  show "list_rep h l xs \<Longrightarrow> distinct xs" for h l xs by (simp add: list_rep_def)
qed (rule list_rep_append_tail list_rep_remove_head_Nil list_rep_remove_head_Cons; assumption)+

section \<open>Properties\<close>

text \<open>Removing any member of a well-formed list with \<open>LIST_REMOVE\<close> (head, tail or
  middle) succeeds, and the descriptor and hooks afterwards represent the same sequence
  without that node; a traversal with \<open>LIST_FOREACH\<close> ends and visits exactly the
  remaining nodes in order.\<close>

lemma list_remove_refines:
  assumes "list_rep m l xs" "x \<in> set xs"
  shows "\<exists>l' m'. list_remove l x m = Some (l', m') \<and> list_rep m' l' (remove1 x xs) \<and>
     list_foreach m' (l_head l') = Some (remove1 x xs)"
  using list_rep_remove [OF assms] list_foreach_rep by blast

definition list_example :: "list_mem \<times> ilist" where
  "list_example =
     ((\<lambda>_. \<lparr>ln_next = None, ln_prev = None\<rparr>)
       (1 := \<lparr>ln_next = Some 2, ln_prev = None\<rparr>,
        2 := \<lparr>ln_next = Some 3, ln_prev = Some 1\<rparr>,
        3 := \<lparr>ln_next = None, ln_prev = Some 2\<rparr>),
      \<lparr>l_head = Some 1, l_tail = Some 3\<rparr>)"

end
