(* ===== verification/Pairing_Heap.thy ===== *)
theory Pairing_Heap
  imports Prelude
begin

text \<open>
  \<^verbatim>\<open>lib/pairing_heap.h\<close>: the intrusive pairing heap in which every core keeps its
  runnable tasks. A hook has a \<open>next\<close> sibling and a list of children, so the nodes
  reachable from a hook pointer form a tree; a pointer is modelled by the tree it points
  to, with \<open>NULLH\<close> for \<open>NULL\<close>. The comparator is the heap's own callback.
\<close>

datatype 'a hook = NULLH | Hook (node: 'a) (hk_next: "'a hook") (hk_child: "'a hook")

record 'a pairing_heap =
  ph_cmp :: "'a \<Rightarrow> 'a \<Rightarrow> bool"
  heap_root :: "'a hook"

definition pairing_heap_init :: "('a \<Rightarrow> 'a \<Rightarrow> bool) \<Rightarrow> 'a pairing_heap" where
  "pairing_heap_init cmp = \<lparr>ph_cmp = cmp, heap_root = NULLH\<rparr>"

text \<open>\<open>max->next = min->child; min->child = max\<close>, where \<open>min\<close> keeps its own \<open>next\<close>.\<close>

fun pairing_heap_meld :: "'a hook \<Rightarrow> 'a hook \<Rightarrow> ('a \<Rightarrow> 'a \<Rightarrow> bool) \<Rightarrow> 'a hook" where
  "pairing_heap_meld NULLH heap2 cmp = heap2"
| "pairing_heap_meld heap1 NULLH cmp = heap1"
| "pairing_heap_meld (Hook a na ca) (Hook b nb cb) cmp =
     (if cmp a b then Hook a na (Hook b ca cb) else Hook b nb (Hook a cb ca))"

fun pairing_heap_treeify :: "'a hook \<Rightarrow> ('a \<Rightarrow> 'a \<Rightarrow> bool) \<Rightarrow> 'a hook" where
  "pairing_heap_treeify NULLH cmp = NULLH"
| "pairing_heap_treeify (Hook a NULLH ca) cmp = Hook a NULLH ca"
| "pairing_heap_treeify (Hook a (Hook b nn cb) ca) cmp =
     pairing_heap_meld (pairing_heap_meld (Hook a NULLH ca) (Hook b NULLH cb) cmp)
       (pairing_heap_treeify nn cmp) cmp"

definition pairing_heap_insert :: "'a pairing_heap \<Rightarrow> 'a \<Rightarrow> 'a pairing_heap" where
  "pairing_heap_insert heap x =
     heap\<lparr>heap_root := pairing_heap_meld (heap_root heap) (Hook x NULLH NULLH) (ph_cmp heap)\<rparr>"

definition pairing_heap_get_min :: "'a pairing_heap \<Rightarrow> 'a option" where
  "pairing_heap_get_min heap =
     (case heap_root heap of NULLH \<Rightarrow> None | Hook a _ _ \<Rightarrow> Some a)"

definition pairing_heap_remove_min :: "'a pairing_heap \<Rightarrow> 'a option \<times> 'a pairing_heap" where
  "pairing_heap_remove_min heap =
     (case heap_root heap of
        NULLH \<Rightarrow> (None, heap)
      | Hook a _ c \<Rightarrow> (Some a, heap\<lparr>heap_root := pairing_heap_treeify c (ph_cmp heap)\<rparr>))"

section \<open>Contents and order\<close>

fun hook_mset :: "'a hook \<Rightarrow> 'a multiset" where
  "hook_mset NULLH = {#}"
| "hook_mset (Hook a n c) = {#a#} + hook_mset n + hook_mset c"

text \<open>No node is greater than a node of the child list below it.\<close>

fun hook_ordered :: "('a \<Rightarrow> 'a \<Rightarrow> bool) \<Rightarrow> 'a hook \<Rightarrow> bool" where
  "hook_ordered cmp NULLH = True"
| "hook_ordered cmp (Hook a n c) =
     ((\<forall>x \<in># hook_mset c. \<not> cmp x a) \<and> hook_ordered cmp n \<and> hook_ordered cmp c)"

definition is_root :: "'a hook \<Rightarrow> bool" where
  "is_root h = (case h of NULLH \<Rightarrow> True | Hook _ n _ \<Rightarrow> n = NULLH)"

definition ph_mset :: "'a pairing_heap \<Rightarrow> 'a multiset" where
  "ph_mset heap = hook_mset (heap_root heap)"

definition ph_invar :: "('a \<Rightarrow> 'a \<Rightarrow> bool) \<Rightarrow> 'a pairing_heap \<Rightarrow> bool" where
  "ph_invar cmp heap \<longleftrightarrow>
     ph_cmp heap = cmp \<and> is_root (heap_root heap) \<and> hook_ordered cmp (heap_root heap)"

lemma is_root_simps [simp]: "is_root NULLH" "is_root (Hook a n c) = (n = NULLH)"
  by (simp_all add: is_root_def)

lemma hook_mset_meld:
  "is_root h1 \<Longrightarrow> is_root h2 \<Longrightarrow>
   hook_mset (pairing_heap_meld h1 h2 cmp) = hook_mset h1 + hook_mset h2"
  by (induction h1 h2 cmp rule: pairing_heap_meld.induct) (auto simp: ac_simps)

lemma is_root_meld:
  "is_root h1 \<Longrightarrow> is_root h2 \<Longrightarrow> is_root (pairing_heap_meld h1 h2 cmp)"
  by (induction h1 h2 cmp rule: pairing_heap_meld.induct) auto

lemma is_root_treeify: "is_root (pairing_heap_treeify h cmp)"
  by (induction h cmp rule: pairing_heap_treeify.induct) (auto intro!: is_root_meld)

lemma hook_mset_treeify: "hook_mset (pairing_heap_treeify h cmp) = hook_mset h"
  by (induction h cmp rule: pairing_heap_treeify.induct)
    (auto simp: hook_mset_meld is_root_meld is_root_treeify ac_simps)

text \<open>Induction two siblings at a time, as \<open>_pairing_heap_treeify\<close> recurses.\<close>

lemma hook_pairs_induct [case_names 1 2 3]:
  assumes "P NULLH" "\<And>a ca. P (Hook a NULLH ca)"
    and "\<And>a b nn cb ca. P nn \<Longrightarrow> P (Hook a (Hook b nn cb) ca)"
  shows "P h"
  by (induction h "(\<lambda>_ _. True) :: 'a \<Rightarrow> 'a \<Rightarrow> bool" rule: pairing_heap_treeify.induct)
    (auto intro: assms)

section \<open>The priority-queue contract\<close>

text \<open>
  What the scheduler relies on: insertion and removal keep exactly the inserted elements,
  and the element removed is one that no other element precedes.
\<close>

locale prio_queue =
  fixes before :: "'a \<Rightarrow> 'a \<Rightarrow> bool"
    and invar :: "'q \<Rightarrow> bool"
    and elems :: "'q \<Rightarrow> 'a multiset"
    and ins :: "'q \<Rightarrow> 'a \<Rightarrow> 'q"
    and rem :: "'q \<Rightarrow> 'a option \<times> 'q"
  assumes ins_invar: "invar q \<Longrightarrow> invar (ins q x)"
    and ins_elems: "invar q \<Longrightarrow> elems (ins q x) = elems q + {#x#}"
    and rem_empty: "invar q \<Longrightarrow> elems q = {#} \<Longrightarrow> rem q = (None, q)"
    and rem_some: "invar q \<Longrightarrow> elems q \<noteq> {#} \<Longrightarrow>
      \<exists>x q'. rem q = (Some x, q') \<and> invar q' \<and> elems q = elems q' + {#x#} \<and>
        (\<forall>y \<in># elems q. \<not> before y x)"
begin

primrec drain :: "nat \<Rightarrow> 'q \<Rightarrow> 'a list" where
  "drain 0 q = []"
| "drain (Suc n) q = (case rem q of (None, _) \<Rightarrow> [] | (Some x, q') \<Rightarrow> x # drain n q')"

lemma drain_sorted_perm:
  "invar q \<Longrightarrow> size (elems q) = n \<Longrightarrow>
   mset (drain n q) = elems q \<and> sorted_wrt (\<lambda>x y. \<not> before y x) (drain n q)"
proof (induction n arbitrary: q)
  case 0
  then show ?case by simp
next
  case (Suc n)
  then have "elems q \<noteq> {#}" by auto
  with Suc.prems(1) obtain x q' where r: "rem q = (Some x, q')" "invar q'"
      "elems q = elems q' + {#x#}" "\<forall>y \<in># elems q. \<not> before y x"
    using rem_some by blast
  then have "size (elems q') = n" using Suc.prems(2) by simp
  with Suc.IH [OF r(2)] have IH: "mset (drain n q') = elems q'"
      "sorted_wrt (\<lambda>x y. \<not> before y x) (drain n q')" by auto
  have "\<forall>y \<in> set (drain n q'). \<not> before y x"
    using r(3,4) IH(1) by (metis set_mset_mset union_iff)
  with r IH show ?case by simp
qed

end

section \<open>The heap meets it for every strict weak order\<close>

locale strict_weak_order =
  fixes cmp :: "'a \<Rightarrow> 'a \<Rightarrow> bool"
  assumes asym: "cmp x y \<Longrightarrow> \<not> cmp y x"
    and not_trans: "\<not> cmp x y \<Longrightarrow> \<not> cmp y z \<Longrightarrow> \<not> cmp x z"
begin

lemma ordered_root_min:
  "hook_ordered cmp (Hook a NULLH c) \<Longrightarrow> x \<in># hook_mset (Hook a NULLH c) \<Longrightarrow> \<not> cmp x a"
  using asym by auto

lemma ordered_meld:
  assumes "is_root h1" "is_root h2" "hook_ordered cmp h1" "hook_ordered cmp h2"
  shows "hook_ordered cmp (pairing_heap_meld h1 h2 cmp)"
proof (cases h1)
  case NULLH
  with assms show ?thesis by simp
next
  case h1: (Hook a na ca)
  show ?thesis
  proof (cases h2)
    case NULLH
    with assms h1 show ?thesis by simp
  next
    case h2: (Hook b nb cb)
    show ?thesis
    proof (cases "cmp a b")
      case True
      then have "\<not> cmp b a" by (rule asym)
      then have "\<forall>x \<in># hook_mset cb. \<not> cmp x a" using assms h2 not_trans by auto
      with True assms h1 h2 \<open>\<not> cmp b a\<close> show ?thesis by auto
    next
      case False
      then have "\<forall>x \<in># hook_mset ca. \<not> cmp x b" using assms h1 not_trans by auto
      with False assms h1 h2 show ?thesis by auto
    qed
  qed
qed

lemma ordered_treeify: "hook_ordered cmp h \<Longrightarrow> hook_ordered cmp (pairing_heap_treeify h cmp)"
proof (induction h rule: hook_pairs_induct)
  case (3 a b nn cb ca)
  let ?m = "pairing_heap_meld (Hook a NULLH ca) (Hook b NULLH cb) cmp"
  have "is_root ?m" by (rule is_root_meld) simp_all
  moreover have "hook_ordered cmp ?m" by (rule ordered_meld) (use "3.prems" in simp_all)
  moreover have "hook_ordered cmp (pairing_heap_treeify nn cmp)" using 3 by simp
  ultimately show ?case
    unfolding pairing_heap_treeify.simps by (rule ordered_meld [OF _ is_root_treeify])
qed auto

lemma ph_insert_invar: "ph_invar cmp q \<Longrightarrow> ph_invar cmp (pairing_heap_insert q x)"
  by (simp add: ph_invar_def pairing_heap_insert_def ordered_meld is_root_meld)

lemma ph_insert_mset: "ph_invar cmp q \<Longrightarrow> ph_mset (pairing_heap_insert q x) = ph_mset q + {#x#}"
  by (simp add: ph_invar_def ph_mset_def pairing_heap_insert_def hook_mset_meld)

lemma ph_remove_min_some:
  assumes "ph_invar cmp q" "ph_mset q \<noteq> {#}"
  shows "\<exists>x q'. pairing_heap_remove_min q = (Some x, q') \<and> ph_invar cmp q' \<and>
     ph_mset q = ph_mset q' + {#x#} \<and> (\<forall>y \<in># ph_mset q. \<not> cmp y x)"
proof -
  from assms obtain a c where root: "heap_root q = Hook a NULLH c"
    by (cases "heap_root q") (auto simp: ph_invar_def ph_mset_def)
  with assms(1) have o: "hook_ordered cmp (Hook a NULLH c)" and cmp: "ph_cmp q = cmp"
    by (simp_all add: ph_invar_def)
  have min: "\<forall>y \<in># ph_mset q. \<not> cmp y a"
    using ordered_root_min [OF o] root by (simp add: ph_mset_def)
  show ?thesis
    using root o cmp min
    by (simp add: pairing_heap_remove_min_def ph_invar_def ph_mset_def hook_mset_treeify
        is_root_treeify ordered_treeify)
qed

lemma ph_get_min:
  assumes "ph_invar cmp q"
  shows "if ph_mset q = {#} then pairing_heap_get_min q = None
    else \<exists>x. pairing_heap_get_min q = Some x \<and> x \<in># ph_mset q \<and> (\<forall>y \<in># ph_mset q. \<not> cmp y x)"
proof (cases "heap_root q")
  case (Hook a n c)
  then have "n = NULLH" "hook_ordered cmp (Hook a NULLH c)" using assms by (simp_all add: ph_invar_def)
  with Hook ordered_root_min [of a c] show ?thesis
    by (simp add: ph_mset_def pairing_heap_get_min_def)
qed (simp add: ph_mset_def pairing_heap_get_min_def)

lemma ph_remove_min_none:
  "ph_mset q = {#} \<Longrightarrow> pairing_heap_remove_min q = (None, q)"
  by (cases "heap_root q") (auto simp: ph_mset_def pairing_heap_remove_min_def)

end

sublocale strict_weak_order \<subseteq> pq: prio_queue cmp "ph_invar cmp" ph_mset
  pairing_heap_insert pairing_heap_remove_min
  by unfold_locales
    (erule ph_insert_invar ph_insert_mset ph_remove_min_none ph_remove_min_some, assumption?)+

end
