(* ===== verification/Dynarray.thy ===== *)
theory Dynarray
  imports Prelude
begin

text \<open>
  \<^verbatim>\<open>lib/dynarray.h\<close>: the resizable array. \<open>da_data\<close> holds the \<open>count\<close> elements in
  use and \<open>capacity\<close> the number of allocated slots. Whether the heap can satisfy a
  request is an argument \<open>ok\<close> of the operations that allocate; the slots of freshly
  allocated memory that are counted in but not yet written have the contents the
  argument \<open>junk\<close> gives.
\<close>

definition DYNARRAY_GROWTH_DELTA :: nat where
  "DYNARRAY_GROWTH_DELTA = 16"

record 'a dynarray =
  da_data :: "'a list"
  capacity :: nat

definition dynarray_len :: "'a dynarray \<Rightarrow> nat" where
  "dynarray_len d = length (da_data d)"

definition dynarray_new :: "bool \<Rightarrow> 'a dynarray option" where
  "dynarray_new ok = (if ok then Some \<lparr>da_data = [], capacity = 0\<rparr> else None)"

text \<open>
  \<open>mem_heap_realloc\<close> keeps the old block when it fails; then shrinking returns the old
  array unchanged and growing returns \<open>NULL\<close>.
\<close>

definition dynarray_change_cap :: "bool \<Rightarrow> 'a dynarray \<Rightarrow> nat \<Rightarrow> 'a dynarray option" where
  "dynarray_change_cap ok d newcap =
     (if \<not> ok then (if newcap \<le> capacity d then Some d else None)
      else Some (d\<lparr>capacity := newcap\<rparr>))"

definition dynarray_push :: "bool \<Rightarrow> 'a dynarray \<Rightarrow> 'a \<Rightarrow> 'a dynarray option" where
  "dynarray_push ok d elem =
     (if dynarray_len d < capacity d then Some (d\<lparr>da_data := da_data d @ [elem]\<rparr>)
      else do { d \<leftarrow> dynarray_change_cap ok d (capacity d + DYNARRAY_GROWTH_DELTA);
                Some (d\<lparr>da_data := da_data d @ [elem]\<rparr>) })"

definition set_count :: "(nat \<Rightarrow> 'a) \<Rightarrow> 'a dynarray \<Rightarrow> nat \<Rightarrow> 'a dynarray" where
  "set_count junk d n =
     d\<lparr>da_data := take n (da_data d) @ map junk [dynarray_len d ..< n]\<rparr>"

definition dynarray_resize :: "bool \<Rightarrow> (nat \<Rightarrow> 'a) \<Rightarrow> 'a dynarray \<Rightarrow> nat \<Rightarrow> 'a dynarray option" where
  "dynarray_resize ok junk d newsize =
     (let newcap = align_up newsize DYNARRAY_GROWTH_DELTA in
      if newcap = capacity d then Some (set_count junk d newsize)
      else do { d \<leftarrow> dynarray_change_cap ok d newcap; Some (set_count junk d newsize) })"

text \<open>Does this push go to the heap?\<close>

definition push_allocates :: "'a dynarray \<Rightarrow> bool" where
  "push_allocates d \<longleftrightarrow> \<not> dynarray_len d < capacity d"

section \<open>Correctness\<close>

text \<open>The elements in use fit into the allocated slots, and slots come in multiples of 16.\<close>

definition dynarray_wf :: "'a dynarray \<Rightarrow> bool" where
  "dynarray_wf d \<longleftrightarrow> dynarray_len d \<le> capacity d \<and> DYNARRAY_GROWTH_DELTA dvd capacity d"

lemma dynarray_new_wf: "dynarray_new ok = Some d \<Longrightarrow> dynarray_wf d \<and> da_data d = []"
  by (auto simp: dynarray_new_def dynarray_wf_def dynarray_len_def split: if_splits)

lemma dynarray_push_Some:
  "dynarray_push ok d x = Some d' \<Longrightarrow> da_data d' = da_data d @ [x]"
  by (auto simp: dynarray_push_def dynarray_change_cap_def DYNARRAY_GROWTH_DELTA_def
      split: if_splits)

lemma dynarray_push_wf:
  assumes "dynarray_wf d" "dynarray_push ok d x = Some d'"
  shows "dynarray_wf d'"
  using assms
  by (auto simp: dynarray_push_def dynarray_change_cap_def dynarray_wf_def dynarray_len_def
      DYNARRAY_GROWTH_DELTA_def split: if_splits)

lemma dynarray_push_None: "dynarray_push ok d x = None \<longleftrightarrow> push_allocates d \<and> \<not> ok"
  by (auto simp: dynarray_push_def dynarray_change_cap_def push_allocates_def
      DYNARRAY_GROWTH_DELTA_def)

lemma set_count_len [simp]: "length (da_data (set_count junk d n)) = n"
  by (auto simp: set_count_def dynarray_len_def)

lemma set_count_nth:
  "i < n \<Longrightarrow> i < dynarray_len d \<Longrightarrow> da_data (set_count junk d n) ! i = da_data d ! i"
  by (simp add: set_count_def dynarray_len_def nth_append)

lemma dynarray_resize_Some:
  "dynarray_resize ok junk d n = Some d' \<Longrightarrow>
   dynarray_len d' = n \<and> (\<forall>i < min n (dynarray_len d). da_data d' ! i = da_data d ! i)"
  by (auto simp: dynarray_resize_def dynarray_change_cap_def Let_def dynarray_len_def
      set_count_nth split: if_splits)

lemma dynarray_resize_wf:
  assumes "dynarray_wf d" "n + 15 < 2 ^ 64" "dynarray_resize ok junk d n = Some d'"
  shows "dynarray_wf d'"
proof -
  have "n \<le> align_up n DYNARRAY_GROWTH_DELTA" "DYNARRAY_GROWTH_DELTA dvd align_up n DYNARRAY_GROWTH_DELTA"
    using assms(2) by (auto intro: align_up_ge align_up_dvd simp: DYNARRAY_GROWTH_DELTA_def)
  moreover have "dynarray_len (set_count junk e n) = n" for e :: "'a dynarray"
    by (simp add: dynarray_len_def)
  moreover have "capacity (set_count junk e n) = capacity e" for e :: "'a dynarray"
    by (simp add: set_count_def)
  ultimately show ?thesis
    using assms(1,3)
    by (auto simp: dynarray_resize_def dynarray_change_cap_def Let_def dynarray_wf_def
        split: if_splits)
qed

section \<open>Properties\<close>

text \<open>A dynamic array stays well-formed (elements fit into the allocated slots) under
  \<open>push\<close> and \<open>resize\<close>, also when the heap fails; a push appends and fails only if it
  needs memory and gets none; a resize to \<open>n\<close> elements keeps the common prefix.\<close>

lemma dynarray_ops_correct:
  assumes "dynarray_wf d" "n + 15 < 2 ^ 64"
  shows "(case dynarray_push ok d x of
            None \<Rightarrow> dynarray_len d = capacity d \<and> \<not> ok
          | Some d' \<Rightarrow> dynarray_wf d' \<and> da_data d' = da_data d @ [x]) \<and>
     (case dynarray_resize ok junk d n of
            None \<Rightarrow> capacity d < align_up n DYNARRAY_GROWTH_DELTA \<and> \<not> ok
          | Some d' \<Rightarrow> dynarray_wf d' \<and> dynarray_len d' = n \<and>
              take (min n (dynarray_len d)) (da_data d') = take n (da_data d))"
proof
  show "case dynarray_push ok d x of None \<Rightarrow> dynarray_len d = capacity d \<and> \<not> ok
      | Some d' \<Rightarrow> dynarray_wf d' \<and> da_data d' = da_data d @ [x]"
  proof (cases "dynarray_push ok d x")
    case None
    then have "\<not> dynarray_len d < capacity d \<and> \<not> ok"
      by (simp only: dynarray_push_None push_allocates_def not_False_eq_True simp_thms)
    with None show ?thesis using assms(1) by (simp add: dynarray_wf_def)
  next
    case (Some d')
    then show ?thesis
      using dynarray_push_wf [OF assms(1) Some] dynarray_push_Some [OF Some] by simp
  qed
  show "case dynarray_resize ok junk d n of
            None \<Rightarrow> capacity d < align_up n DYNARRAY_GROWTH_DELTA \<and> \<not> ok
          | Some d' \<Rightarrow> dynarray_wf d' \<and> dynarray_len d' = n \<and>
              take (min n (dynarray_len d)) (da_data d') = take n (da_data d)"
  proof (cases "dynarray_resize ok junk d n")
    case None
    then show ?thesis
      by (auto simp: dynarray_resize_def dynarray_change_cap_def Let_def split: if_splits)
  next
    case (Some d')
    then show ?thesis
      using dynarray_resize_wf [OF assms Some] dynarray_resize_Some [OF Some]
      by (auto simp: dynarray_len_def intro!: nth_equalityI)
  qed
qed

end
