(* ===== verification/Intmap.thy ===== *)
theory Intmap
  imports Prelude
begin

text \<open>
  \<^verbatim>\<open>lib/intmap.h\<close>: the hash map from integers to intrusive list nodes. A bucket is the
  sequence of nodes its \<open>struct list\<close> represents (theory \<open>Ilist\<close>: append at the
  head is consing, \<open>LIST_REMOVE\<close> is \<^const>\<open>remove1\<close>, \<open>LIST_FOREACH\<close> visits the nodes
  in order). The key is stored in the node, so the operations take the function that
  reads it. An access to a bucket array of size 0 (a division by zero) is \<^const>\<open>None\<close>.
\<close>

record 'a intmap =
  buckets_count :: nat
  im_nodes :: "'a list list"

definition intmap_init :: "bool \<Rightarrow> nat \<Rightarrow> 'a intmap option" where
  "intmap_init ok buckets =
     (if \<not> ok then None
      else Some \<lparr>buckets_count = buckets, im_nodes = replicate buckets []\<rparr>)"

definition intmap_insert :: "('a \<Rightarrow> nat) \<Rightarrow> 'a intmap \<Rightarrow> 'a \<Rightarrow> 'a intmap option" where
  "intmap_insert key im node =
     (if buckets_count im = 0 then None
      else let m = key node mod buckets_count im in
           Some (im\<lparr>im_nodes := (im_nodes im)[m := node # im_nodes im ! m]\<rparr>))"

definition intmap_search :: "('a \<Rightarrow> nat) \<Rightarrow> 'a intmap \<Rightarrow> nat \<Rightarrow> 'a option option" where
  "intmap_search key im k =
     (if buckets_count im = 0 then None
      else Some (find (\<lambda>current. key current = k) (im_nodes im ! (k mod buckets_count im))))"

definition intmap_remove :: "('a \<Rightarrow> nat) \<Rightarrow> 'a intmap \<Rightarrow> 'a \<Rightarrow> 'a intmap option" where
  "intmap_remove key im node =
     (if buckets_count im = 0 then None
      else let m = key node mod buckets_count im in
           Some (im\<lparr>im_nodes := (im_nodes im)[m := remove1 node (im_nodes im ! m)]\<rparr>))"

section \<open>Correctness\<close>

text \<open>Every node sits in the bucket of its key, and no key occurs twice.\<close>

definition intmap_wf :: "('a \<Rightarrow> nat) \<Rightarrow> 'a intmap \<Rightarrow> bool" where
  "intmap_wf key im \<longleftrightarrow>
     0 < buckets_count im \<and> length (im_nodes im) = buckets_count im \<and>
     (\<forall>b < buckets_count im.
        (\<forall>n \<in> set (im_nodes im ! b). key n mod buckets_count im = b) \<and>
        distinct (map key (im_nodes im ! b)))"

definition intmap_members :: "'a intmap \<Rightarrow> 'a set" where
  "intmap_members im = (\<Union>b < length (im_nodes im). set (im_nodes im ! b))"

lemma intmap_init_wf:
  "0 < n \<Longrightarrow> intmap_init ok n = Some im \<Longrightarrow> intmap_wf key im \<and> intmap_members im = {}"
  by (auto simp: intmap_init_def intmap_wf_def intmap_members_def split: if_splits)

lemma intmap_members_bucket:
  assumes "intmap_wf key im"
  shows "n \<in> intmap_members im \<longleftrightarrow> n \<in> set (im_nodes im ! (key n mod buckets_count im))"
  using assms by (force simp: intmap_wf_def intmap_members_def)

lemma intmap_key_inj:
  assumes "intmap_wf key im" "m \<in> intmap_members im" "n \<in> intmap_members im" "key m = key n"
  shows "m = n"
proof -
  let ?b = "key n mod buckets_count im"
  have "m \<in> set (im_nodes im ! ?b)" "n \<in> set (im_nodes im ! ?b)"
    using assms intmap_members_bucket [OF assms(1)] by auto
  moreover have "distinct (map key (im_nodes im ! ?b))"
    using assms(1) by (simp add: intmap_wf_def)
  ultimately show ?thesis using assms(4) by (auto simp: distinct_map inj_on_def)
qed

lemma intmap_search_Some_iff:
  assumes "intmap_wf key im"
  shows "intmap_search key im k = Some (Some n) \<longleftrightarrow> n \<in> intmap_members im \<and> key n = k"
proof -
  let ?l = "im_nodes im ! (k mod buckets_count im)"
  have pos: "0 < buckets_count im" and d: "distinct (map key ?l)"
    using assms by (auto simp: intmap_wf_def)
  show ?thesis
  proof
    assume "intmap_search key im k = Some (Some n)"
    then have "n \<in> set ?l" "key n = k"
      using pos by (auto simp: intmap_search_def dest: find_Some_set)
    then show "n \<in> intmap_members im \<and> key n = k"
      using intmap_members_bucket [OF assms] by auto
  next
    assume "n \<in> intmap_members im \<and> key n = k"
    then have "n \<in> set ?l" "key n = k" using intmap_members_bucket [OF assms] by auto
    then show "intmap_search key im k = Some (Some n)"
      using pos distinct_map_find [OF d] by (auto simp: intmap_search_def)
  qed
qed

lemma intmap_search_total:
  "intmap_wf key im \<Longrightarrow> \<exists>r. intmap_search key im k = Some r"
  by (auto simp: intmap_search_def intmap_wf_def)

lemma intmap_search_None_iff:
  assumes "intmap_wf key im"
  shows "intmap_search key im k = Some None \<longleftrightarrow> (\<forall>n \<in> intmap_members im. key n \<noteq> k)"
  using intmap_search_Some_iff [OF assms] intmap_search_total [OF assms, of k]
  by (metis not_None_eq option.inject)

lemma intmap_wf_update:
  assumes "intmap_wf key im" "b < buckets_count im"
    and "\<And>n. n \<in> set l \<Longrightarrow> key n mod buckets_count im = b" "distinct (map key l)"
  shows "intmap_wf key (im\<lparr>im_nodes := (im_nodes im)[b := l]\<rparr>)"
  using assms by (simp add: intmap_wf_def nth_list_update)

lemma intmap_insert_wf:
  assumes wf: "intmap_wf key im" and new: "\<forall>m \<in> intmap_members im. key m \<noteq> key n"
  shows "\<exists>im'. intmap_insert key im n = Some im' \<and> intmap_wf key im' \<and>
           intmap_members im' = insert n (intmap_members im)"
proof -
  let ?b = "key n mod buckets_count im"
  define im' where "im' = im\<lparr>im_nodes := (im_nodes im)[?b := n # im_nodes im ! ?b]\<rparr>"
  have b: "?b < buckets_count im" "length (im_nodes im) = buckets_count im"
    using wf by (auto simp: intmap_wf_def)
  have ins: "intmap_insert key im n = Some im'"
    using wf by (simp add: intmap_insert_def intmap_wf_def im'_def Let_def)
  have "key n \<notin> key ` set (im_nodes im ! ?b)"
    using new b by (force simp: intmap_members_def)
  then have wf': "intmap_wf key im'"
    unfolding im'_def using wf b by (intro intmap_wf_update) (auto simp: intmap_wf_def)
  have "intmap_members im' = insert n (intmap_members im)"
    unfolding set_eq_iff insert_iff intmap_members_bucket [OF wf] intmap_members_bucket [OF wf']
    using b by (auto simp: im'_def nth_list_update)
  with ins wf' show ?thesis by blast
qed

lemma intmap_remove_wf:
  assumes wf: "intmap_wf key im"
  shows "\<exists>im'. intmap_remove key im n = Some im' \<and> intmap_wf key im' \<and>
           intmap_members im' = intmap_members im - {n}"
proof -
  let ?b = "key n mod buckets_count im"
  define im' where "im' = im\<lparr>im_nodes := (im_nodes im)[?b := remove1 n (im_nodes im ! ?b)]\<rparr>"
  have b: "?b < buckets_count im" "length (im_nodes im) = buckets_count im"
    and d: "distinct (map key (im_nodes im ! ?b))"
    using wf by (auto simp: intmap_wf_def)
  have rem: "intmap_remove key im n = Some im'"
    using wf by (simp add: intmap_remove_def intmap_wf_def im'_def Let_def)
  have d1: "distinct (map key (remove1 n (im_nodes im ! ?b)))"
    using d by (auto simp: distinct_map inj_on_diff)
  have wf': "intmap_wf key im'"
    unfolding im'_def using wf b d1
    by (intro intmap_wf_update) (auto simp: intmap_wf_def dest: subsetD [OF set_remove1_subset])
  have "intmap_members im' = intmap_members im - {n}"
    unfolding set_eq_iff Diff_iff intmap_members_bucket [OF wf] intmap_members_bucket [OF wf']
    using b d by (auto simp: im'_def nth_list_update distinct_map set_remove1_eq)
  with rem wf' show ?thesis by blast
qed

section \<open>The partial-map contract\<close>

text \<open>
  What the TLS tables, the SHM registry and the RPC callees rely on: the map is a partial
  function from keys to nodes, insertion and removal are pointwise updates, and a search
  reads it.
\<close>

locale key_map =
  fixes key :: "'n \<Rightarrow> nat"
    and wf :: "'m \<Rightarrow> bool"
    and look :: "'m \<Rightarrow> nat \<Rightarrow> 'n option"
    and ins :: "'m \<Rightarrow> 'n \<Rightarrow> 'm option"
    and rem :: "'m \<Rightarrow> 'n \<Rightarrow> 'm option"
    and search :: "'m \<Rightarrow> nat \<Rightarrow> 'n option option"
  assumes look_ins: "wf m \<Longrightarrow> look m (key n) = None \<Longrightarrow>
      \<exists>m'. ins m n = Some m' \<and> wf m' \<and> look m' = (look m)(key n \<mapsto> n)"
    and look_rem: "wf m \<Longrightarrow> look m (key n) = Some n \<Longrightarrow>
      \<exists>m'. rem m n = Some m' \<and> wf m' \<and> look m' = (look m)(key n := None)"
    and search_look: "wf m \<Longrightarrow> search m k = Some (look m k)"
begin

lemma search_ins:
  assumes "wf m" "look m (key n) = None" "ins m n = Some m'"
  shows "search m' k = Some (if k = key n then Some n else look m k)"
  using look_ins [OF assms(1,2)] assms(3) search_look by auto

lemma search_rem:
  assumes "wf m" "look m (key n) = Some n" "rem m n = Some m'"
  shows "search m' k = Some (if k = key n then None else look m k)"
  using look_rem [OF assms(1,2)] assms(3) search_look by auto

lemma ins_rem_inverse:
  assumes "wf m" "look m (key n) = None" "ins m n = Some m'"
  shows "\<exists>m''. rem m' n = Some m'' \<and> wf m'' \<and> look m'' = look m"
proof -
  have m': "wf m'" "look m' = (look m)(key n \<mapsto> n)"
    using look_ins [OF assms(1,2)] assms(3) by auto
  then obtain m'' where "rem m' n = Some m''" "wf m''" "look m'' = (look m')(key n := None)"
    using look_rem [of m' n] by auto
  with m'(2) assms(2) show ?thesis by auto
qed

end

definition intmap_lookup :: "('a \<Rightarrow> nat) \<Rightarrow> 'a intmap \<Rightarrow> nat \<Rightarrow> 'a option" where
  "intmap_lookup key im k =
     find (\<lambda>current. key current = k) (im_nodes im ! (k mod buckets_count im))"

lemma intmap_lookup_iff:
  assumes "intmap_wf key im"
  shows "intmap_lookup key im k = Some n \<longleftrightarrow> n \<in> intmap_members im \<and> key n = k"
  using intmap_search_Some_iff [OF assms, of k n] assms
  by (simp add: intmap_lookup_def intmap_search_def intmap_wf_def)

lemma intmap_lookup_None_iff:
  assumes "intmap_wf key im"
  shows "intmap_lookup key im k = None \<longleftrightarrow> (\<forall>n \<in> intmap_members im. key n \<noteq> k)"
  using intmap_lookup_iff [OF assms, of k] by (metis not_None_eq)

lemma intmap_lookup_ext:
  assumes "intmap_wf key im" "intmap_wf key im'"
    and "\<And>n. n \<in> intmap_members im' \<and> key n = k \<longleftrightarrow> r = Some n"
  shows "intmap_lookup key im' k = r"
  using intmap_lookup_iff [OF assms(2)] assms(3) by (metis not_None_eq)

interpretation imap: key_map key "intmap_wf key" "intmap_lookup key" "intmap_insert key"
  "intmap_remove key" "intmap_search key" for key :: "'n \<Rightarrow> nat"
proof unfold_locales
  fix m :: "'n intmap" and n :: 'n and k :: nat
  assume wf: "intmap_wf key m"
  show "intmap_search key m k = Some (intmap_lookup key m k)"
    using wf by (simp add: intmap_search_def intmap_lookup_def intmap_wf_def)
  {
    assume "intmap_lookup key m (key n) = None"
    then obtain m' where m': "intmap_insert key m n = Some m'" "intmap_wf key m'"
        "intmap_members m' = insert n (intmap_members m)"
      using intmap_insert_wf [OF wf, of n] intmap_lookup_None_iff [OF wf] by auto
    have "intmap_lookup key m' = (intmap_lookup key m)(key n \<mapsto> n)"
    proof
      fix k
      show "intmap_lookup key m' k = ((intmap_lookup key m)(key n \<mapsto> n)) k"
        by (rule intmap_lookup_ext [OF wf m'(2)])
          (use m'(3) intmap_lookup_iff [OF wf] intmap_lookup_None_iff [OF wf]
             \<open>intmap_lookup key m (key n) = None\<close> in auto)
    qed
    with m' show "\<exists>m'. intmap_insert key m n = Some m' \<and> intmap_wf key m' \<and>
        intmap_lookup key m' = (intmap_lookup key m)(key n \<mapsto> n)" by blast
  }
  {
    assume n: "intmap_lookup key m (key n) = Some n"
    obtain m' where m': "intmap_remove key m n = Some m'" "intmap_wf key m'"
        "intmap_members m' = intmap_members m - {n}"
      using intmap_remove_wf [OF wf, of n] by auto
    have "intmap_lookup key m' = (intmap_lookup key m)(key n := None)"
    proof
      fix k
      show "intmap_lookup key m' k = ((intmap_lookup key m)(key n := None)) k"
        by (rule intmap_lookup_ext [OF wf m'(2)])
          (use m'(3) n intmap_lookup_iff [OF wf] intmap_key_inj [OF wf] in auto)
    qed
    with m' show "\<exists>m'. intmap_remove key m n = Some m' \<and> intmap_wf key m' \<and>
        intmap_lookup key m' = (intmap_lookup key m)(key n := None)" by blast
  }
qed

section \<open>Properties\<close>

text \<open>A well-formed \<open>struct intmap\<close> is a finite map: a search finds what the abstract
  map holds; inserting a node under a new key updates the map at that key only; removing
  that node again restores the map, whatever bucket the key falls into.\<close>

lemma intmap_is_map:
  assumes "intmap_wf key im" "intmap_lookup key im (key n) = None"
  shows "\<exists>im'. intmap_insert key im n = Some im' \<and> intmap_wf key im' \<and>
     (\<forall>k. intmap_search key im' k =
        Some (if k = key n then Some n else intmap_lookup key im k)) \<and>
     (\<exists>im''. intmap_remove key im' n = Some im'' \<and> intmap_wf key im'' \<and>
        (\<forall>k. intmap_search key im'' k = intmap_search key im k))"
proof -
  obtain im' where ins: "intmap_insert key im n = Some im'" "intmap_wf key im'"
    using imap.look_ins [OF assms] by blast
  obtain im'' where "intmap_remove key im' n = Some im''" "intmap_wf key im''"
      "intmap_lookup key im'' = intmap_lookup key im"
    using imap.ins_rem_inverse [OF assms ins(1)] by blast
  then show ?thesis
    using ins imap.search_ins [OF assms ins(1)] imap.search_look assms(1) by metis
qed

end
