(* ===== verification/Kstate.thy ===== *)
theory Kstate
  imports Prelude Dynarray Intmap
begin

text \<open>
  The kernel objects behind the user API and the state they live in. Each C structure of
  \<^verbatim>\<open>user/\<close> is a record; the objects of one type are a typed store (theory \<open>Prelude\<close>),
  and a pointer is an index into it. Intrusive queues and lists are the sequences of nodes
  they represent (theories \<open>Queue\<close>, \<open>Ilist\<close>).

  Objects have up to three reference counters (\<open>struct mem_rc\<close> members); \<open>rc_id\<close> names a
  counter by the object and the member, as a \<open>struct mem_rc *\<close> does in the C code. The
  model is of the checked build (\<open>DEBUG\<close>), in which failed assertions and a drop of a
  counter that is 0 stop the kernel.

  What the environment decides is part of the state: whether the next heap request can be
  satisfied, what uninitialised memory holds, on which core and for which task the code runs.
  Sections between locking and unlocking a spinlock are atomic steps; the mutexes of
  universes and entry cookies are modelled by their \<open>taken\<close> flag, since the thread that
  takes one twice never returns.
\<close>

section \<open>Object references\<close>

datatype obj_type =
    USER_OBJ_TYPE_NONE
  | USER_OBJ_TYPE_CALLER
  | USER_OBJ_TYPE_CALLEE
  | USER_OBJ_TYPE_TOKEN
  | USER_OBJ_TYPE_MAILBOX
  | USER_OBJ_TYPE_UNIVERSE
  | USER_OBJ_TYPE_GROUP_COOKIE
  | USER_OBJ_TYPE_ENTRY_COOKIE
  | USER_OBJ_TYPE_SHM_OWNER
  | USER_OBJ_TYPE_SHM_RW_REF
  | USER_OBJ_TYPE_SHM_RO_REF

record user_ref =
  ref_ptr :: addr
  ref_type :: obj_type
  pin_cookie :: nat

datatype rc_id =
    RcUniverse addr
  | RcGroup addr
  | RcEntry addr
  | RcTls addr
  | RcMailboxShutdown addr
  | RcMailboxDealloc addr
  | RcRaiser addr
  | RcCallerShutdown addr
  | RcCallerDealloc addr
  | RcCalleeShutdown addr
  | RcCalleeDealloc addr
  | RcToken addr
  | RcShmShutdown addr
  | RcShmRef addr

text \<open>
  The counter \<open>ref.ref\<close> of the union points to: the first member of the object, which is
  the shutdown counter where there are two. A token pointer is identified by the callee
  it is embedded in, an SHM reference by the SHM owner object.
\<close>

fun rc_of_type :: "obj_type \<Rightarrow> addr \<Rightarrow> rc_id option" where
  "rc_of_type USER_OBJ_TYPE_NONE p = None"
| "rc_of_type USER_OBJ_TYPE_CALLER p = Some (RcCallerShutdown p)"
| "rc_of_type USER_OBJ_TYPE_CALLEE p = Some (RcCalleeShutdown p)"
| "rc_of_type USER_OBJ_TYPE_TOKEN p = Some (RcToken p)"
| "rc_of_type USER_OBJ_TYPE_MAILBOX p = Some (RcMailboxShutdown p)"
| "rc_of_type USER_OBJ_TYPE_UNIVERSE p = Some (RcUniverse p)"
| "rc_of_type USER_OBJ_TYPE_GROUP_COOKIE p = Some (RcGroup p)"
| "rc_of_type USER_OBJ_TYPE_ENTRY_COOKIE p = Some (RcEntry p)"
| "rc_of_type USER_OBJ_TYPE_SHM_OWNER p = Some (RcShmShutdown p)"
| "rc_of_type USER_OBJ_TYPE_SHM_RW_REF p = Some (RcShmRef p)"
| "rc_of_type USER_OBJ_TYPE_SHM_RO_REF p = Some (RcShmRef p)"

definition rc_of_ref :: "user_ref \<Rightarrow> rc_id option" where
  "rc_of_ref r = rc_of_type (ref_type r) (ref_ptr r)"

section \<open>Objects\<close>

record user_universe_cell =
  in_use :: bool
  cell_ref :: user_ref

record user_universe =
  u_refcount :: nat
  u_taken :: bool
  u_free_list :: "nat list"
  u_id :: nat
  u_cells :: "user_universe_cell dynarray"

text \<open>\<open>g_drop\<close> is the callback word of the counter: 0 for \<open>NULL\<close>, 1 for
  \<open>user_group_cookie_destroy\<close>, anything else an address that is no such function. The other
  objects set their callbacks when they are created, so theirs are fixed (theory \<open>Drop\<close>).\<close>

record user_group_cookie =
  g_refcount :: nat
  g_drop :: nat
  g_key :: nat

record user_entry_cookie =
  e_refcount :: nat
  e_key :: nat
  e_taken :: bool
  e_grp_keys :: "nat dynarray"

datatype note_type = USER_NOTE_TYPE_RPC_INCOMING | USER_NOTE_TYPE_RPC_REPLY

record user_notification =
  note_type :: note_type
  note_opaque :: nat

text \<open>
  A raiser channel is named by its owner and its index (the core for a per-CPU mailbox,
  0 for the single channel of a global one).
\<close>

type_synonym channel = "addr \<times> nat"

record user_raiser =
  r_refcount :: nat
  r_notification :: user_notification
  r_mailbox :: addr
  r_pending :: "nat list"

record user_mailbox =
  mb_shutdown_rc :: nat
  mb_dealloc_rc :: nat
  mb_msg_queue :: "channel list list"
  mb_task_queue :: "nat list list"
  mb_is_shut_down :: bool
  mb_is_per_cpu :: bool

record user_rpc_msg =
  msg_opaque :: nat
  msg_status :: nat
  msg_len :: nat
  msg_payload :: "nat list"

record user_rpc_container =
  ct_message :: user_rpc_msg
  ct_client_opaque :: nat
  ct_key :: nat
  ct_caller :: addr

record user_rpc_caller =
  cr_shutdown_rc :: nat
  cr_dealloc_rc :: nat
  cr_raiser :: addr
  cr_free_containers :: "addr list"
  cr_incoming_replies :: "addr list"
  cr_is_shut_down :: bool

record user_rpc_callee =
  ce_shutdown_rc :: nat
  ce_dealloc_rc :: nat
  ce_token_rc :: nat
  ce_raiser :: addr
  ce_incoming_rpcs :: "addr list"
  ce_awaiting_reply :: "(nat \<times> addr) intmap"
  ce_seq :: nat
  ce_is_shut_down :: bool

record user_shm_owner =
  sh_shutdown_rc :: nat
  sh_ref_rc :: nat
  sh_data :: "nat list"
  sh_size :: nat
  sh_key :: nat
  sh_ro_key :: nat
  sh_rw_key :: nat

record user_tls_table =
  tl_refcount :: nat
  tl_keys :: "(nat \<times> addr) intmap"

record user_tls_node =
  tn_value :: nat

section \<open>The state\<close>

record kstate =
  alloc_outcome :: "nat \<Rightarrow> bool"
  alloc_calls :: nat
  uninit_word :: "nat \<Rightarrow> nat"
  wild_writes :: "(nat \<times> nat) list"
  max_cpus :: nat
  logical_id :: nat
  current_task :: nat
  woken :: "(nat \<times> channel) list"
  user_cookie_last :: nat
  user_universe_last_id :: nat
  user_shm_last_allocated_id :: nat
  universes :: "user_universe store"
  groups :: "user_group_cookie store"
  entries :: "user_entry_cookie store"
  mailboxes :: "user_mailbox store"
  raisers :: "user_raiser store"
  callers :: "user_rpc_caller store"
  callees :: "user_rpc_callee store"
  containers :: "user_rpc_container store"
  shms :: "user_shm_owner store"
  shm_intmap :: "(nat \<times> addr) intmap"
  tls_tables :: "user_tls_table store"
  tls_nodes :: "user_tls_node store"

text \<open>The state before any object exists: the static initialisers of the source, one core,
  a heap that never fails.\<close>

definition init_kstate :: kstate where
  "init_kstate = \<lparr>
     alloc_outcome = (\<lambda>_. True), alloc_calls = 0, uninit_word = (\<lambda>_. 0), wild_writes = [],
     max_cpus = 1, logical_id = 0, current_task = 0, woken = [],
     user_cookie_last = 2, user_universe_last_id = 2, user_shm_last_allocated_id = 0,
     universes = [], groups = [], entries = [], mailboxes = [], raisers = [], callers = [],
     callees = [], containers = [], shms = [], shm_intmap = \<lparr>buckets_count = 0, im_nodes = []\<rparr>,
     tls_tables = [], tls_nodes = []\<rparr>"

text \<open>The client's view of \<open>mem_heap_alloc\<close>: the next request succeeds or fails.\<close>

definition kalloc :: "kstate \<Rightarrow> bool \<times> kstate" where
  "kalloc s = (alloc_outcome s (alloc_calls s), s\<lparr>alloc_calls := Suc (alloc_calls s)\<rparr>)"

section \<open>Reference counters\<close>

fun rc_get :: "rc_id \<Rightarrow> kstate \<Rightarrow> nat option" where
  "rc_get (RcUniverse p) s = map_option u_refcount (sget (universes s) p)"
| "rc_get (RcGroup p) s = map_option g_refcount (sget (groups s) p)"
| "rc_get (RcEntry p) s = map_option e_refcount (sget (entries s) p)"
| "rc_get (RcTls p) s = map_option tl_refcount (sget (tls_tables s) p)"
| "rc_get (RcMailboxShutdown p) s = map_option mb_shutdown_rc (sget (mailboxes s) p)"
| "rc_get (RcMailboxDealloc p) s = map_option mb_dealloc_rc (sget (mailboxes s) p)"
| "rc_get (RcRaiser p) s = map_option r_refcount (sget (raisers s) p)"
| "rc_get (RcCallerShutdown p) s = map_option cr_shutdown_rc (sget (callers s) p)"
| "rc_get (RcCallerDealloc p) s = map_option cr_dealloc_rc (sget (callers s) p)"
| "rc_get (RcCalleeShutdown p) s = map_option ce_shutdown_rc (sget (callees s) p)"
| "rc_get (RcCalleeDealloc p) s = map_option ce_dealloc_rc (sget (callees s) p)"
| "rc_get (RcToken p) s = map_option ce_token_rc (sget (callees s) p)"
| "rc_get (RcShmShutdown p) s = map_option sh_shutdown_rc (sget (shms s) p)"
| "rc_get (RcShmRef p) s = map_option sh_ref_rc (sget (shms s) p)"

definition smod :: "('a \<Rightarrow> 'a) \<Rightarrow> 'a store \<Rightarrow> addr \<Rightarrow> 'a store" where
  "smod f xs p = (case sget xs p of None \<Rightarrow> xs | Some v \<Rightarrow> sput xs p (f v))"

fun rc_set :: "rc_id \<Rightarrow> nat \<Rightarrow> kstate \<Rightarrow> kstate" where
  "rc_set (RcUniverse p) n s = s\<lparr>universes := smod (u_refcount_update (\<lambda>_. n)) (universes s) p\<rparr>"
| "rc_set (RcGroup p) n s = s\<lparr>groups := smod (g_refcount_update (\<lambda>_. n)) (groups s) p\<rparr>"
| "rc_set (RcEntry p) n s = s\<lparr>entries := smod (e_refcount_update (\<lambda>_. n)) (entries s) p\<rparr>"
| "rc_set (RcTls p) n s = s\<lparr>tls_tables := smod (tl_refcount_update (\<lambda>_. n)) (tls_tables s) p\<rparr>"
| "rc_set (RcMailboxShutdown p) n s =
     s\<lparr>mailboxes := smod (mb_shutdown_rc_update (\<lambda>_. n)) (mailboxes s) p\<rparr>"
| "rc_set (RcMailboxDealloc p) n s =
     s\<lparr>mailboxes := smod (mb_dealloc_rc_update (\<lambda>_. n)) (mailboxes s) p\<rparr>"
| "rc_set (RcRaiser p) n s = s\<lparr>raisers := smod (r_refcount_update (\<lambda>_. n)) (raisers s) p\<rparr>"
| "rc_set (RcCallerShutdown p) n s =
     s\<lparr>callers := smod (cr_shutdown_rc_update (\<lambda>_. n)) (callers s) p\<rparr>"
| "rc_set (RcCallerDealloc p) n s =
     s\<lparr>callers := smod (cr_dealloc_rc_update (\<lambda>_. n)) (callers s) p\<rparr>"
| "rc_set (RcCalleeShutdown p) n s =
     s\<lparr>callees := smod (ce_shutdown_rc_update (\<lambda>_. n)) (callees s) p\<rparr>"
| "rc_set (RcCalleeDealloc p) n s =
     s\<lparr>callees := smod (ce_dealloc_rc_update (\<lambda>_. n)) (callees s) p\<rparr>"
| "rc_set (RcToken p) n s = s\<lparr>callees := smod (ce_token_rc_update (\<lambda>_. n)) (callees s) p\<rparr>"
| "rc_set (RcShmShutdown p) n s = s\<lparr>shms := smod (sh_shutdown_rc_update (\<lambda>_. n)) (shms s) p\<rparr>"
| "rc_set (RcShmRef p) n s = s\<lparr>shms := smod (sh_ref_rc_update (\<lambda>_. n)) (shms s) p\<rparr>"

definition mem_rc_borrow :: "rc_id \<Rightarrow> kstate \<Rightarrow> kstate option" where
  "mem_rc_borrow r s = do { n \<leftarrow> rc_get r s; Some (rc_set r (inc64 n) s) }"

definition user_borrow_ref :: "user_ref \<Rightarrow> kstate \<Rightarrow> (user_ref \<times> kstate) option" where
  "user_borrow_ref ref s =
     do { r \<leftarrow> rc_of_ref ref; s \<leftarrow> mem_rc_borrow r s; Some (ref, s) }"

lemma sget_smod [store_simps]:
  "sget (smod f xs p) q = (if p = q then map_option f (sget xs p) else sget xs q)"
  by (auto simp: smod_def store_simps dest: sget_Some_length split: option.splits)

lemma length_smod [simp]: "length (smod f xs p) = length xs"
  by (simp add: smod_def split: option.split)

lemma rc_get_set:
  "rc_get r s = Some m \<Longrightarrow> rc_get q (rc_set r n s) = (if q = r then Some n else rc_get q s)"
  by (cases r; cases q) (auto simp: store_simps)

lemma rc_set_back: "rc_get r s = Some n \<Longrightarrow> rc_set r n (rc_set r m s) = s"
  by (cases r) (auto simp: smod_def store_simps sput_same sget_Some_length)

lemma rc_set_set: "rc_set r n (rc_set r m s) = rc_set r n s"
  by (cases r) (auto simp: smod_def store_simps sget_Some_length split: option.split)

lemma smod_commute:
  "(p = q \<Longrightarrow> \<forall>x. f (g x) = g (f x)) \<Longrightarrow> smod f (smod g xs p) q = smod g (smod f xs q) p"
  by (cases "p = q") (auto simp: smod_def store_simps sget_Some_length sput_swap [of p q] split: option.split)

lemma rc_set_commute: "q \<noteq> r \<Longrightarrow> rc_set q m (rc_set r n s) = rc_set r n (rc_set q m s)"
  by (cases q; cases r) (simp_all add: smod_commute)

end
