(* ===== verification/Raiser.thy ===== *)
theory Raiser
  imports Kstate
begin

text \<open>
  \<^verbatim>\<open>user/notifications.c\<close>, the sending side: mailboxes, notification raisers and the
  local/global queues behind them. \<open>union user_local_global_queue\<close> is a list of queues:
  one queue for a global mailbox, one per core otherwise. A waiting task is named by its
  number; a woken task and the channel its waker stored in its wait node are recorded in
  \<open>woken\<close> until the task resumes (theory \<open>Notifications\<close>). The section under the
  mailbox lock is one atomic step.
\<close>

section \<open>Local/global queues\<close>

definition user_local_global_init :: "bool \<Rightarrow> kstate \<Rightarrow> 'a list list option \<times> kstate" where
  "user_local_global_init is_per_cpu s =
     (if is_per_cpu then
        let (ok, s) = kalloc s in
        (if ok then (Some (replicate (max_cpus s) []), s) else (None, s))
      else (Some [[]], s))"

definition lg_index :: "bool \<Rightarrow> nat \<Rightarrow> nat" where
  "lg_index is_per_cpu core = (if is_per_cpu then core else 0)"

definition user_local_global_enqueue ::
  "'a list list \<Rightarrow> 'a \<Rightarrow> bool \<Rightarrow> nat \<Rightarrow> 'a list list option" where
  "user_local_global_enqueue q node is_per_cpu core =
     (let i = lg_index is_per_cpu core in
      if i < length q then Some (q[i := q ! i @ [node]]) else None)"

definition user_local_global_dequeue ::
  "'a list list \<Rightarrow> bool \<Rightarrow> nat \<Rightarrow> ('a option \<times> 'a list list) option" where
  "user_local_global_dequeue q is_per_cpu core =
     (let i = lg_index is_per_cpu core in
      if i < length q then
        (case q ! i of [] \<Rightarrow> Some (None, q) | x # xs \<Rightarrow> Some (Some x, q[i := xs]))
      else None)"

section \<open>Creation\<close>

definition user_create_mailbox :: "bool \<Rightarrow> kstate \<Rightarrow> (user_status \<times> addr option) \<times> kstate" where
  "user_create_mailbox percpu s =
     (let (ok, s) = kalloc s in
      if \<not> ok then ((USER_STATUS_OUT_OF_MEMORY, None), s)
      else let (tq, s) = user_local_global_init percpu s in
      case tq of None \<Rightarrow> ((USER_STATUS_OUT_OF_MEMORY, None), s)
      | Some tq \<Rightarrow>
         let (mq, s) = user_local_global_init percpu s in
         (case mq of None \<Rightarrow> ((USER_STATUS_OUT_OF_MEMORY, None), s)
          | Some mq \<Rightarrow>
             let (a, mbs) = snew (mailboxes s)
                  \<lparr>mb_shutdown_rc = 1, mb_dealloc_rc = 1, mb_msg_queue = mq,
                   mb_task_queue = tq, mb_is_shut_down = False, mb_is_per_cpu = percpu\<rparr>
             in ((USER_STATUS_SUCCESS, Some a), s\<lparr>mailboxes := mbs\<rparr>)))"

definition user_create_raiser ::
  "addr \<Rightarrow> user_notification \<Rightarrow> kstate \<Rightarrow> ((user_status \<times> addr option) \<times> kstate) option" where
  "user_create_raiser mailbox notification s =
     (let (ok, s) = kalloc s in
      if \<not> ok then Some ((USER_STATUS_OUT_OF_MEMORY, None), s)
      else do {
        mb \<leftarrow> sget (mailboxes s) mailbox;
        let (ok, s) = (if mb_is_per_cpu mb then kalloc s else (True, s));
        if \<not> ok then Some ((USER_STATUS_OUT_OF_MEMORY, None), s)
        else do {
          s \<leftarrow> mem_rc_borrow (RcMailboxDealloc mailbox) s;
          let (a, rs) = snew (raisers s)
             \<lparr>r_refcount = 1, r_notification = notification, r_mailbox = mailbox,
              r_pending = replicate (if mb_is_per_cpu mb then max_cpus s else 1) 0\<rparr>;
          Some ((USER_STATUS_SUCCESS, Some a), s\<lparr>raisers := rs\<rparr>) }})"

section \<open>Raising\<close>

definition user_raiser_enqueue_nolock :: "addr \<Rightarrow> nat \<Rightarrow> kstate \<Rightarrow> kstate option" where
  "user_raiser_enqueue_nolock raiser core s = do {
     s \<leftarrow> mem_rc_borrow (RcRaiser raiser) s;
     r \<leftarrow> sget (raisers s) raiser;
     mb \<leftarrow> sget (mailboxes s) (r_mailbox r);
     let channel = (raiser, lg_index (mb_is_per_cpu mb) core);
     (wait_node, tq) \<leftarrow> user_local_global_dequeue (mb_task_queue mb) (mb_is_per_cpu mb) core;
     case wait_node of
       Some task \<Rightarrow>
         Some (s\<lparr>mailboxes := sput (mailboxes s) (r_mailbox r) (mb\<lparr>mb_task_queue := tq\<rparr>),
                 woken := woken s @ [(task, channel)]\<rparr>)
     | None \<Rightarrow> do {
         mq \<leftarrow> user_local_global_enqueue (mb_msg_queue mb) channel (mb_is_per_cpu mb) core;
         Some (s\<lparr>mailboxes := sput (mailboxes s) (r_mailbox r) (mb\<lparr>mb_msg_queue := mq\<rparr>)\<rparr>) }}"

definition set_pending :: "addr \<Rightarrow> nat \<Rightarrow> nat \<Rightarrow> kstate \<Rightarrow> kstate" where
  "set_pending raiser i n s =
     s\<lparr>raisers := smod (\<lambda>r. r\<lparr>r_pending := (r_pending r)[i := n]\<rparr>) (raisers s) raiser\<rparr>"

definition user_send_notification_to_core :: "addr \<Rightarrow> nat \<Rightarrow> kstate \<Rightarrow> kstate option" where
  "user_send_notification_to_core raiser core s = do {
     r \<leftarrow> sget (raisers s) raiser;
     mb \<leftarrow> sget (mailboxes s) (r_mailbox r);
     if mb_is_shut_down mb then Some s
     else let i = lg_index (mb_is_per_cpu mb) core in
       if i < length (r_pending r) then
         let pending = inc64 (r_pending r ! i); s = set_pending raiser i pending s in
         (if pending = 1 then user_raiser_enqueue_nolock raiser core s else Some s)
       else None }"

definition user_send_notification :: "addr \<Rightarrow> kstate \<Rightarrow> kstate option" where
  "user_send_notification raiser s = user_send_notification_to_core raiser (logical_id s) s"

end
