(* ===== verification/Drop.thy ===== *)
theory Drop
  imports Raiser
begin

text \<open>
  \<open>mem_rc_drop\<close> (\<^verbatim>\<open>mem/rc.h\<close>) together with every destructor it can reach: dropping the last
  reference of a universe drops the references in its cells, shutting down a callee answers
  its pending requests, and so on, recursively. The pending work of a destructor is a list of
  actions, executed from the left; the actions a step spawns come before those already
  pending, as nested calls do.

  A destructor that empties a queue in a loop takes all nodes out of the queue in the step
  that starts it and processes them one by one as actions. No other code can reach the
  queue in between: the object's counter is already 0 or its shutdown flag already set.
\<close>

datatype act =
    ADrop rc_id
  | AFree rc_id
  | AFreeContainer addr
  | AFreeTlsNode addr
  | AReply addr
  | ANoReply addr

definition USER_RPC_STATUS_NOREPLY :: nat where
  "USER_RPC_STATUS_NOREPLY = 0"

definition USER_TLS_BUCKETS :: nat where
  "USER_TLS_BUCKETS = 16"

text \<open>\<open>mem_heap_free\<close> of the object a counter belongs to; freeing twice is an error.\<close>

fun free_object :: "rc_id \<Rightarrow> kstate \<Rightarrow> kstate option" where
  "free_object (RcUniverse p) s =
     do { _ \<leftarrow> sget (universes s) p; Some (s\<lparr>universes := sdel (universes s) p\<rparr>) }"
| "free_object (RcGroup p) s =
     do { _ \<leftarrow> sget (groups s) p; Some (s\<lparr>groups := sdel (groups s) p\<rparr>) }"
| "free_object (RcEntry p) s =
     do { _ \<leftarrow> sget (entries s) p; Some (s\<lparr>entries := sdel (entries s) p\<rparr>) }"
| "free_object (RcTls p) s =
     do { _ \<leftarrow> sget (tls_tables s) p; Some (s\<lparr>tls_tables := sdel (tls_tables s) p\<rparr>) }"
| "free_object (RcMailboxShutdown p) s =
     do { _ \<leftarrow> sget (mailboxes s) p; Some (s\<lparr>mailboxes := sdel (mailboxes s) p\<rparr>) }"
| "free_object (RcMailboxDealloc p) s =
     do { _ \<leftarrow> sget (mailboxes s) p; Some (s\<lparr>mailboxes := sdel (mailboxes s) p\<rparr>) }"
| "free_object (RcRaiser p) s =
     do { _ \<leftarrow> sget (raisers s) p; Some (s\<lparr>raisers := sdel (raisers s) p\<rparr>) }"
| "free_object (RcCallerShutdown p) s =
     do { _ \<leftarrow> sget (callers s) p; Some (s\<lparr>callers := sdel (callers s) p\<rparr>) }"
| "free_object (RcCallerDealloc p) s =
     do { _ \<leftarrow> sget (callers s) p; Some (s\<lparr>callers := sdel (callers s) p\<rparr>) }"
| "free_object (RcCalleeShutdown p) s =
     do { _ \<leftarrow> sget (callees s) p; Some (s\<lparr>callees := sdel (callees s) p\<rparr>) }"
| "free_object (RcCalleeDealloc p) s =
     do { _ \<leftarrow> sget (callees s) p; Some (s\<lparr>callees := sdel (callees s) p\<rparr>) }"
| "free_object (RcToken p) s =
     do { _ \<leftarrow> sget (callees s) p; Some (s\<lparr>callees := sdel (callees s) p\<rparr>) }"
| "free_object (RcShmShutdown p) s =
     do { _ \<leftarrow> sget (shms s) p; Some (s\<lparr>shms := sdel (shms s) p\<rparr>) }"
| "free_object (RcShmRef p) s =
     do { _ \<leftarrow> sget (shms s) p; Some (s\<lparr>shms := sdel (shms s) p\<rparr>) }"

section \<open>Destructors\<close>

type_synonym work = "(act list \<times> kstate) option"

definition user_universe_destroy :: "addr \<Rightarrow> kstate \<Rightarrow> work" where
  "user_universe_destroy universe s = do {
     u \<leftarrow> sget (universes s) universe;
     rcs \<leftarrow> those (map (\<lambda>c. rc_of_ref (cell_ref c)) (filter in_use (da_data (u_cells u))));
     Some (map ADrop rcs @ [AFree (RcUniverse universe)], s) }"

definition user_entry_cookie_destroy :: "addr \<Rightarrow> kstate \<Rightarrow> work" where
  "user_entry_cookie_destroy cookie s = Some ([AFree (RcEntry cookie)], s)"

definition user_group_cookie_destroy :: "addr \<Rightarrow> kstate \<Rightarrow> work" where
  "user_group_cookie_destroy cookie s = Some ([AFree (RcGroup cookie)], s)"

text \<open>The constructor of group cookies leaves their callback uninitialised
  (\<open>user_group_cookie_create\<close>), so the call goes where the word left in the heap points.\<close>

definition group_cookie_callback :: "addr \<Rightarrow> kstate \<Rightarrow> work" where
  "group_cookie_callback cookie s = do {
     g \<leftarrow> sget (groups s) cookie;
     if g_drop g = 0 then Some ([], s)
     else if g_drop g = 1 then user_group_cookie_destroy cookie s
     else None }"

definition user_tls_table_destroy :: "addr \<Rightarrow> kstate \<Rightarrow> work" where
  "user_tls_table_destroy table s = do {
     t \<leftarrow> sget (tls_tables s) table;
     if length (im_nodes (tl_keys t)) < USER_TLS_BUCKETS then None
     else Some (map (\<lambda>n. AFreeTlsNode (snd n)) (concat (take USER_TLS_BUCKETS (im_nodes (tl_keys t))))
            @ [AFree (RcTls table)],
          s\<lparr>tls_tables := sput (tls_tables s) table
               (t\<lparr>tl_keys := \<lparr>buckets_count = 0, im_nodes = []\<rparr>\<rparr>)\<rparr>) }"

definition user_shutdown_mailbox :: "addr \<Rightarrow> kstate \<Rightarrow> work" where
  "user_shutdown_mailbox mailbox s = do {
     mb \<leftarrow> sget (mailboxes s) mailbox;
     Some (map (\<lambda>channel. ADrop (RcRaiser (fst channel))) (concat (mb_msg_queue mb))
             @ [ADrop (RcMailboxDealloc mailbox)],
           s\<lparr>mailboxes := sput (mailboxes s) mailbox
               (mb\<lparr>mb_is_shut_down := True,
                   mb_msg_queue := map (\<lambda>_. []) (mb_msg_queue mb)\<rparr>)\<rparr>) }"

definition user_destroy_mailbox :: "addr \<Rightarrow> kstate \<Rightarrow> work" where
  "user_destroy_mailbox mailbox s = Some ([AFree (RcMailboxDealloc mailbox)], s)"

definition user_destroy_raiser :: "addr \<Rightarrow> kstate \<Rightarrow> work" where
  "user_destroy_raiser raiser s = do {
     r \<leftarrow> sget (raisers s) raiser;
     mb \<leftarrow> sget (mailboxes s) (r_mailbox r);
     Some ([ADrop (RcMailboxDealloc (r_mailbox r)), AFree (RcRaiser raiser)], s) }"

definition user_rpc_destroy_msg_queue :: "addr list \<Rightarrow> act list" where
  "user_rpc_destroy_msg_queue queue = map AFreeContainer queue"

definition user_rpc_shutdown_caller :: "addr \<Rightarrow> kstate \<Rightarrow> work" where
  "user_rpc_shutdown_caller caller s = do {
     c \<leftarrow> sget (callers s) caller;
     if cr_is_shut_down c then None
     else Some (ADrop (RcRaiser (cr_raiser c))
             # user_rpc_destroy_msg_queue (cr_free_containers c)
             @ [ADrop (RcCallerDealloc caller)],
           s\<lparr>callers := sput (callers s) caller
               (c\<lparr>cr_is_shut_down := True, cr_free_containers := []\<rparr>)\<rparr>) }"

definition user_rpc_dealloc_caller :: "addr \<Rightarrow> kstate \<Rightarrow> work" where
  "user_rpc_dealloc_caller caller s = do {
     c \<leftarrow> sget (callers s) caller;
     Some (user_rpc_destroy_msg_queue (cr_incoming_replies c) @ [AFree (RcCallerDealloc caller)],
           s\<lparr>callers := sput (callers s) caller (c\<lparr>cr_incoming_replies := []\<rparr>)\<rparr>) }"

definition user_rpc_dealloc_callee :: "addr \<Rightarrow> kstate \<Rightarrow> work" where
  "user_rpc_dealloc_callee callee s = Some ([AFree (RcCalleeDealloc callee)], s)"

definition user_rpc_notify_callee_undiscoverable :: "addr \<Rightarrow> kstate \<Rightarrow> work" where
  "user_rpc_notify_callee_undiscoverable callee s = Some ([ADrop (RcCalleeDealloc callee)], s)"

definition user_rpc_enqueue_reply_container :: "addr \<Rightarrow> kstate \<Rightarrow> work" where
  "user_rpc_enqueue_reply_container container s = do {
     ct \<leftarrow> sget (containers s) container;
     c \<leftarrow> sget (callers s) (ct_caller ct);
     let s = s\<lparr>callers := sput (callers s) (ct_caller ct)
                 (c\<lparr>cr_incoming_replies := cr_incoming_replies c @ [container]\<rparr>)\<rparr>;
     s \<leftarrow> (if cr_is_shut_down c then Some s else user_send_notification (cr_raiser c) s);
     Some ([ADrop (RcCallerDealloc (ct_caller ct))], s) }"

text \<open>The answer a shut down callee gives to a request: status \<open>NOREPLY\<close>, length 0.\<close>

definition noreply :: "user_rpc_container \<Rightarrow> user_rpc_container" where
  "noreply ct = ct\<lparr>ct_message := (ct_message ct)\<lparr>msg_status := USER_RPC_STATUS_NOREPLY,
                                              msg_len := 0\<rparr>\<rparr>"

definition user_rpc_shutdown_callee :: "addr \<Rightarrow> kstate \<Rightarrow> work" where
  "user_rpc_shutdown_callee callee s = do {
     c \<leftarrow> sget (callees s) callee;
     if ce_is_shut_down c then None
     else Some (map ANoReply (ce_incoming_rpcs c)
             @ map (\<lambda>n. ANoReply (snd n)) (concat (im_nodes (ce_awaiting_reply c)))
             @ [ADrop (RcRaiser (ce_raiser c)), ADrop (RcCalleeDealloc callee)],
           s\<lparr>callees := sput (callees s) callee
               (c\<lparr>ce_is_shut_down := True, ce_incoming_rpcs := [],
                  ce_awaiting_reply := \<lparr>buckets_count = 0, im_nodes = []\<rparr>\<rparr>)\<rparr>) }"

definition user_shm_shutdown :: "addr \<Rightarrow> kstate \<Rightarrow> work" where
  "user_shm_shutdown shm s = do {
     o' \<leftarrow> sget (shms s) shm;
     im \<leftarrow> intmap_remove fst (shm_intmap s) (sh_key o', shm);
     Some ([ADrop (RcShmRef shm)], s\<lparr>shm_intmap := im\<rparr>) }"

definition user_shm_dealloc :: "addr \<Rightarrow> kstate \<Rightarrow> work" where
  "user_shm_dealloc shm s = Some ([AFree (RcShmRef shm)], s)"

text \<open>The callback each kind of counter is initialised with.\<close>

fun dispose :: "rc_id \<Rightarrow> kstate \<Rightarrow> work" where
  "dispose (RcUniverse p) = user_universe_destroy p"
| "dispose (RcGroup p) = group_cookie_callback p"
| "dispose (RcEntry p) = user_entry_cookie_destroy p"
| "dispose (RcTls p) = user_tls_table_destroy p"
| "dispose (RcMailboxShutdown p) = user_shutdown_mailbox p"
| "dispose (RcMailboxDealloc p) = user_destroy_mailbox p"
| "dispose (RcRaiser p) = user_destroy_raiser p"
| "dispose (RcCallerShutdown p) = user_rpc_shutdown_caller p"
| "dispose (RcCallerDealloc p) = user_rpc_dealloc_caller p"
| "dispose (RcCalleeShutdown p) = user_rpc_shutdown_callee p"
| "dispose (RcCalleeDealloc p) = user_rpc_dealloc_callee p"
| "dispose (RcToken p) = user_rpc_notify_callee_undiscoverable p"
| "dispose (RcShmShutdown p) = user_shm_shutdown p"
| "dispose (RcShmRef p) = user_shm_dealloc p"

section \<open>One step\<close>

definition drop_step :: "rc_id \<Rightarrow> kstate \<Rightarrow> work" where
  "drop_step r s =
     (case rc_get r s of
        None \<Rightarrow> None
      | Some 0 \<Rightarrow> None
      | Some (Suc n) \<Rightarrow>
         let s = rc_set r n s in if n = 0 then dispose r s else Some ([], s))"

fun act_step :: "act \<Rightarrow> kstate \<Rightarrow> work" where
  "act_step (ADrop r) s = drop_step r s"
| "act_step (AFree r) s = do { s \<leftarrow> free_object r s; Some ([], s) }"
| "act_step (AFreeContainer c) s =
     do { _ \<leftarrow> sget (containers s) c; Some ([], s\<lparr>containers := sdel (containers s) c\<rparr>) }"
| "act_step (AFreeTlsNode n) s =
     do { _ \<leftarrow> sget (tls_nodes s) n; Some ([], s\<lparr>tls_nodes := sdel (tls_nodes s) n\<rparr>) }"
| "act_step (AReply c) s = user_rpc_enqueue_reply_container c s"
| "act_step (ANoReply c) s = do {
     _ \<leftarrow> sget (containers s) c;
     user_rpc_enqueue_reply_container c (s\<lparr>containers := smod noreply (containers s) c\<rparr>) }"


section \<open>Termination of the cascade\<close>

text \<open>
  The weight of a state: all reference counters, and two units for every request a callee
  still has to answer. A step that decrements a counter pays for everything it spawns;
  answering a request may borrow the caller's raiser once, which its two units pay for.
\<close>

definition callee_weight :: "user_rpc_callee \<Rightarrow> nat" where
  "callee_weight c = ce_shutdown_rc c + ce_dealloc_rc c + ce_token_rc c +
     2 * length (ce_incoming_rpcs c) + 2 * length (concat (im_nodes (ce_awaiting_reply c)))"

definition weight :: "kstate \<Rightarrow> nat" where
  "weight s = ssum u_refcount (universes s) + ssum g_refcount (groups s) +
     ssum e_refcount (entries s) + ssum tl_refcount (tls_tables s) +
     ssum (\<lambda>m. mb_shutdown_rc m + mb_dealloc_rc m) (mailboxes s) +
     ssum r_refcount (raisers s) + ssum (\<lambda>c. cr_shutdown_rc c + cr_dealloc_rc c) (callers s) +
     ssum callee_weight (callees s) + ssum (\<lambda>o'. sh_shutdown_rc o' + sh_ref_rc o') (shms s)"

fun act_weight :: "act \<Rightarrow> nat" where
  "act_weight (AReply c) = 2"
| "act_weight (ANoReply c) = 2"
| "act_weight a = 0"

primrec acts_weight :: "act list \<Rightarrow> nat" where
  "acts_weight [] = 0"
| "acts_weight (a # as) = act_weight a + acts_weight as"

lemma acts_weight_append [simp]: "acts_weight (as @ bs) = acts_weight as + acts_weight bs"
  by (induction as) auto

lemma ssum_smod:
  "sget xs p = Some v \<Longrightarrow> ssum f (smod g xs p) + f v = ssum f xs + f (g v)"
  by (simp add: smod_def ssum_sput)

lemma ssum_sput_less:
  "sget xs p = Some v \<Longrightarrow> f w < f v \<Longrightarrow> ssum f (sput xs p w) < ssum f xs"
  using ssum_sput [of xs p v f w] by linarith

lemma ssum_sput_le:
  "sget xs p = Some v \<Longrightarrow> f w \<le> f v + k \<Longrightarrow> ssum f (sput xs p w) \<le> ssum f xs + k"
  using ssum_sput [of xs p v f w] by linarith

lemma ssum_sput_eq:
  "sget xs p = Some v \<Longrightarrow> f w = f v \<Longrightarrow> ssum f (sput xs p w) = ssum f xs"
  using ssum_sput [of xs p v f w] by linarith

lemma ssum_sdel_le: "ssum f (sdel xs p) \<le> ssum f xs"
proof (cases "sget xs p")
  case (Some v)
  then show ?thesis using ssum_sdel [of xs p v f] by linarith
next
  case None
  then have "sdel xs p = xs"
    by (cases "p < length xs") (auto simp: sget_def sdel_def list_update_same_conv list_update_beyond)
  then show ?thesis by simp
qed

lemma ssum_sput_shift:
  "sget xs p = Some v \<Longrightarrow> f w + a = f v + b \<Longrightarrow> ssum f (sput xs p w) + a = ssum f xs + b"
  using ssum_sput [of xs p v f w] by linarith

lemma weight_rc_set:
  assumes "rc_get r s = Some m"
  shows "weight (rc_set r n s) + m = weight s + n"
  using assms
  by (cases r) (auto simp: weight_def smod_def callee_weight_def intro!: ssum_sput_shift)

lemma weight_borrow: "mem_rc_borrow r s = Some s' \<Longrightarrow> weight s' \<le> weight s + 1"
proof -
  assume "mem_rc_borrow r s = Some s'"
  then obtain n where n: "rc_get r s = Some n" "s' = rc_set r (inc64 n) s"
    by (auto simp: mem_rc_borrow_def bind_eq_Some_conv)
  moreover have "inc64 n \<le> n + 1" by (simp add: inc64_def u64_def)
  ultimately show ?thesis using weight_rc_set [OF n(1), of "inc64 n"] by simp
qed

lemma weight_woken [simp]: "weight (s\<lparr>woken := w\<rparr>) = weight s"
  by (simp add: weight_def)

lemma weight_mailbox:
  "sget (mailboxes s) m = Some mb \<Longrightarrow> mb_shutdown_rc mb' = mb_shutdown_rc mb \<Longrightarrow>
   mb_dealloc_rc mb' = mb_dealloc_rc mb \<Longrightarrow>
   weight (s\<lparr>mailboxes := sput (mailboxes s) m mb'\<rparr>) = weight s"
  by (simp add: weight_def ssum_sput_eq)

lemma weight_pending [simp]: "weight (set_pending r i n s) = weight s"
  by (auto simp: weight_def set_pending_def smod_def ssum_sput_eq split: option.split)

lemma weight_enqueue:
  assumes "user_raiser_enqueue_nolock raiser core s = Some s'"
  shows "weight s' \<le> weight s + 1"
  using assms unfolding user_raiser_enqueue_nolock_def
  by (auto simp: bind_eq_Some_conv Let_def weight_mailbox split: option.splits
      dest!: weight_borrow)

lemma weight_send:
  "user_send_notification raiser s = Some s' \<Longrightarrow> weight s' \<le> weight s + 1"
  unfolding user_send_notification_def user_send_notification_to_core_def
  by (auto simp: bind_eq_Some_conv Let_def split: if_splits dest!: weight_enqueue)

lemma weight_caller:
  "sget (callers s) p = Some c \<Longrightarrow> cr_shutdown_rc c' = cr_shutdown_rc c \<Longrightarrow>
   cr_dealloc_rc c' = cr_dealloc_rc c \<Longrightarrow>
   weight (s\<lparr>callers := sput (callers s) p c'\<rparr>) = weight s"
  by (simp add: weight_def ssum_sput_eq)

lemma weight_reply:
  assumes "user_rpc_enqueue_reply_container c s = Some (bs, s')"
  shows "weight s' \<le> weight s + 1 \<and> acts_weight bs = 0"
  using assms unfolding user_rpc_enqueue_reply_container_def
  by (auto simp: bind_eq_Some_conv Let_def weight_caller split: if_splits dest!: weight_send)

lemma weight_free: "free_object r s = Some s' \<Longrightarrow> weight s' \<le> weight s"
  by (cases r) (auto simp: bind_eq_Some_conv weight_def ssum_sdel_le)

lemma acts_weight_map:
  "(\<And>x. x \<in> set xs \<Longrightarrow> act_weight (f x) = k) \<Longrightarrow> acts_weight (map f xs) = k * length xs"
  by (induction xs) auto

lemma acts_weight_maps [simp]:
  "acts_weight (map ADrop rs) = 0" "acts_weight (map (\<lambda>x. ADrop (f x)) xs) = 0"
  "acts_weight (map AFreeContainer cs) = 0" "acts_weight (map (\<lambda>x. AFreeTlsNode (g x)) ys) = 0"
  "acts_weight (map ANoReply ds) = 2 * length ds"
  "acts_weight (map (\<lambda>x. ANoReply (h x)) zs) = 2 * length zs"
  by (simp_all add: acts_weight_map [where k = 0] acts_weight_map [where k = 2])

lemma callee_weight_shut_down:
  "sget (callees s) p = Some c \<Longrightarrow>
   ssum callee_weight (sput (callees s) p
      (c\<lparr>ce_is_shut_down := True, ce_incoming_rpcs := [],
         ce_awaiting_reply := \<lparr>buckets_count = 0, im_nodes = []\<rparr>\<rparr>)) +
    (2 * length (ce_incoming_rpcs c) + 2 * length (concat (im_nodes (ce_awaiting_reply c))))
   = ssum callee_weight (callees s)"
  using ssum_sput_shift [where f = callee_weight and b = 0] by (simp add: callee_weight_def)

lemmas destructor_defs =
  user_universe_destroy_def group_cookie_callback_def user_group_cookie_destroy_def user_entry_cookie_destroy_def
  user_tls_table_destroy_def user_shutdown_mailbox_def user_destroy_mailbox_def
  user_destroy_raiser_def user_rpc_shutdown_caller_def user_rpc_dealloc_caller_def
  user_rpc_shutdown_callee_def user_rpc_dealloc_callee_def user_shm_shutdown_def
  user_rpc_notify_callee_undiscoverable_def user_shm_dealloc_def
  user_rpc_destroy_msg_queue_def

lemma weight_dispose:
  assumes "dispose r s = Some (bs, s')"
  shows "weight s' + acts_weight bs \<le> weight s"
proof (cases r)
  case (RcCalleeShutdown p)
  then show ?thesis
    using assms callee_weight_shut_down [of s p]
    by (auto simp: destructor_defs bind_eq_Some_conv weight_def simp del: length_concat
        split: if_splits)
qed (use assms in \<open>auto simp: destructor_defs bind_eq_Some_conv weight_def ssum_sput_eq
       split: if_splits\<close>)


lemma weight_drop_step:
  assumes "drop_step r s = Some (bs, s')"
  shows "weight s' + acts_weight bs < weight s"
proof -
  from assms obtain n where n: "rc_get r s = Some (Suc n)"
    and s': "(if n = 0 then dispose r (rc_set r n s) else Some ([], rc_set r n s)) = Some (bs, s')"
    by (auto simp: drop_step_def Let_def split: option.splits nat.splits)
  have "weight (rc_set r n s) < weight s" using weight_rc_set [OF n, of n] by simp
  with s' weight_dispose [of r "rc_set r n s" bs s'] show ?thesis
    by (auto split: if_splits)
qed

lemma weight_act_step:
  assumes "act_step a s = Some (bs, s')"
  shows "weight s' + acts_weight bs < weight s + act_weight a \<or>
     bs = [] \<and> weight s' \<le> weight s"
proof (cases a)
  case (ANoReply c)
  let ?s = "s\<lparr>containers := smod noreply (containers s) c\<rparr>"
  have "weight ?s = weight s" by (simp add: weight_def)
  then show ?thesis
    using assms ANoReply weight_reply [of c ?s bs s'] by (auto simp: bind_eq_Some_conv)
next
  case (AFreeContainer c)
  then show ?thesis using assms by (auto simp: bind_eq_Some_conv weight_def)
next
  case (AFreeTlsNode c)
  then show ?thesis using assms by (auto simp: bind_eq_Some_conv weight_def)
qed (use assms in \<open>auto simp: bind_eq_Some_conv dest!: weight_drop_step weight_reply weight_free\<close>)

function run_acts :: "act list \<Rightarrow> kstate \<Rightarrow> kstate option" where
  "run_acts [] s = Some s"
| "run_acts (a # as) s =
     (case act_step a s of None \<Rightarrow> None | Some (bs, s') \<Rightarrow> run_acts (bs @ as) s')"
  by pat_completeness auto
termination
  by (relation "measures [\<lambda>(as, s). weight s + acts_weight as, \<lambda>(as, s). length as]")
    (auto dest!: weight_act_step)

definition mem_rc_drop :: "rc_id \<Rightarrow> kstate \<Rightarrow> kstate option" where
  "mem_rc_drop r s = run_acts [ADrop r] s"

definition user_drop_ref :: "user_ref \<Rightarrow> kstate \<Rightarrow> kstate option" where
  "user_drop_ref ref s = do { r \<leftarrow> rc_of_ref ref; mem_rc_drop r s }"

text \<open>A call of \<open>user_rpc_enqueue_reply_container\<close> with all it entails.\<close>

definition rpc_reply :: "addr \<Rightarrow> kstate \<Rightarrow> kstate option" where
  "rpc_reply container s = run_acts [AReply container] s"

lemma run_acts_append:
  "run_acts (as @ bs) s = do { s \<leftarrow> run_acts as s; run_acts bs s }"
proof (induction as s rule: run_acts.induct)
  case (2 a as s)
  then show ?case by (cases "act_step a s") (auto split: prod.split)
qed simp

lemma mem_rc_drop_alive:
  "rc_get r s = Some (Suc (Suc n)) \<Longrightarrow> mem_rc_drop r s = Some (rc_set r (Suc n) s)"
  by (simp add: mem_rc_drop_def drop_step_def)

lemma mem_rc_drop_back:
  assumes "rc_get r s = Some n" "0 < n"
  shows "mem_rc_drop r (rc_set r (Suc n) s) = Some s"
  using assms rc_get_set [OF assms(1), of r "Suc n"] rc_set_back [OF assms(1), of "Suc n"]
  by (cases n) (auto simp: mem_rc_drop_alive)

lemma mem_rc_drop_last:
  "rc_get r s = Some (Suc 0) \<Longrightarrow>
   mem_rc_drop r s = do { (as, s) \<leftarrow> dispose r (rc_set r 0 s); run_acts as s }"
  by (auto simp: mem_rc_drop_def drop_step_def Let_def split: option.split)


section \<open>Properties\<close>

text \<open>The cascade as a relation on pending work and state.\<close>

inductive cascade :: "act list \<times> kstate \<Rightarrow> act list \<times> kstate \<Rightarrow> bool" where
  step: "act_step a s = Some (bs, s') \<Longrightarrow> cascade (a # as, s) (bs @ as, s')"

inductive_cases cascadeE [elim!]: "cascade (as, s) y"
inductive_simps cascade_Cons: "cascade (a # as, s) y"

lemma cascade_run_acts: "cascade (as, s) (bs, t) \<Longrightarrow> run_acts as s = run_acts bs t"
  by auto

lemma cascade_star_run_acts:
  "cascade\<^sup>*\<^sup>* x y \<Longrightarrow> run_acts (fst x) (snd x) = run_acts (fst y) (snd y)"
  by (induction rule: rtranclp_induct) (auto dest: cascade_run_acts)

lemma run_acts_cascade: "run_acts as s = Some s' \<Longrightarrow> cascade\<^sup>*\<^sup>* (as, s) ([], s')"
proof (induction as s rule: run_acts.induct)
  case (2 a as s)
  then obtain bs t where t: "act_step a s = Some (bs, t)" "run_acts (bs @ as) t = Some s'"
    by (auto split: option.splits)
  with 2 have "cascade\<^sup>*\<^sup>* (bs @ as, t) ([], s')" by auto
  moreover have "cascade (a # as, s) (bs @ as, t)" using t(1) by (rule cascade.step)
  ultimately show ?case by (rule converse_rtranclp_into_rtranclp [rotated])
qed simp

lemma cascade_measure:
  "cascade x y \<Longrightarrow> (y, x) \<in> measures [\<lambda>(as, s). weight s + acts_weight as, \<lambda>(as, s). length as]"
  by (auto elim!: cascade.cases dest!: weight_act_step)


end
