(* ===== verification/Notifications.thy ===== *)
theory Notifications
  imports Drop
begin

text \<open>
  \<^verbatim>\<open>user/notifications.c\<close>, the receiving side, and the notification protocol as a whole:
  a channel with pending notifications is in exactly one place (a message queue or the hands
  of a woken task), no task sleeps while a message is queued for it, and sending and
  receiving keep count.

  A receiver that finds its queue empty suspends; the function is then split into the part
  before the suspension (\<open>user_recieve_notification\<close> returning \<open>Blocked\<close>) and the part the
  woken task executes (\<open>user_recieve_resume\<close>).
\<close>

section \<open>Receiving\<close>

datatype recv_result = Received user_notification | Blocked nat

text \<open>From \<open>channel->owner\<close> to the end of \<open>user_recieve_notification\<close>.\<close>

definition recieve_finish :: "nat \<Rightarrow> channel \<Rightarrow> kstate \<Rightarrow> (user_notification \<times> kstate) option" where
  "recieve_finish core channel s = do {
     r \<leftarrow> sget (raisers s) (fst channel);
     if snd channel < length (r_pending r) then do {
       let pending = dec64 (r_pending r ! snd channel);
       let s = set_pending (fst channel) (snd channel) pending s;
       s \<leftarrow> (if pending \<noteq> 0 then user_raiser_enqueue_nolock (fst channel) core s else Some s);
       s \<leftarrow> mem_rc_drop (RcRaiser (fst channel)) s;
       Some (r_notification r, s) }
     else None }"

definition user_recieve_notification :: "addr \<Rightarrow> kstate \<Rightarrow> (recv_result \<times> kstate) option" where
  "user_recieve_notification mailbox s = do {
     mb \<leftarrow> sget (mailboxes s) mailbox;
     let core = logical_id s;
     (node, mq) \<leftarrow> user_local_global_dequeue (mb_msg_queue mb) (mb_is_per_cpu mb) core;
     case node of
       Some channel \<Rightarrow> do {
         let s = s\<lparr>mailboxes := sput (mailboxes s) mailbox (mb\<lparr>mb_msg_queue := mq\<rparr>)\<rparr>;
         (note, s) \<leftarrow> recieve_finish core channel s;
         Some (Received note, s) }
     | None \<Rightarrow> do {
         tq \<leftarrow> user_local_global_enqueue (mb_task_queue mb) (current_task s) (mb_is_per_cpu mb) core;
         Some (Blocked core, s\<lparr>mailboxes := sput (mailboxes s) mailbox (mb\<lparr>mb_task_queue := tq\<rparr>)\<rparr>) }}"

text \<open>The rest of the call, once the scheduler runs the task again: \<open>node.channel\<close> is what
  the waker stored.\<close>

definition user_recieve_resume :: "nat \<Rightarrow> nat \<Rightarrow> kstate \<Rightarrow> (user_notification \<times> kstate) option" where
  "user_recieve_resume task core s = do {
     w \<leftarrow> find (\<lambda>w. fst w = task) (woken s);
     recieve_finish core (snd w) (s\<lparr>woken := remove1 w (woken s)\<rparr>) }"

section \<open>The protocol invariant\<close>

definition raisers_of :: "kstate \<Rightarrow> addr \<Rightarrow> nat" where
  "raisers_of s m = ssum (\<lambda>r. if r_mailbox r = m then 1 else 0) (raisers s)"

definition lg_size :: "user_mailbox \<Rightarrow> kstate \<Rightarrow> nat" where
  "lg_size mb s = (if mb_is_per_cpu mb then max_cpus s else 1)"

text \<open>A mailbox whose queues have the right shape, and in which no task sleeps next to a
  message.\<close>

definition mailbox_ok :: "user_mailbox \<Rightarrow> nat \<Rightarrow> bool" where
  "mailbox_ok mb n \<longleftrightarrow> \<not> mb_is_shut_down mb \<and>
     length (mb_msg_queue mb) = n \<and> length (mb_task_queue mb) = n \<and>
     (\<forall>i < n. mb_task_queue mb ! i \<noteq> [] \<longrightarrow> mb_msg_queue mb ! i = []) \<and>
     (\<forall>i < n. \<forall>ch \<in> set (mb_msg_queue mb ! i). snd ch = i)"

primrec nonzero :: "nat list \<Rightarrow> nat" where
  "nonzero [] = 0"
| "nonzero (p # ps) = (if p = 0 then 0 else 1) + nonzero ps"

text \<open>Channel \<open>i\<close> of raiser \<open>a\<close> is in one place if it has pending notifications and
  nowhere otherwise; every channel in flight holds a reference to the raiser.\<close>

definition raiser_ok :: "addr \<Rightarrow> user_raiser \<Rightarrow> user_mailbox \<Rightarrow> channel list \<Rightarrow> nat \<Rightarrow> bool" where
  "raiser_ok a r mb ws n \<longleftrightarrow> length (r_pending r) = n \<and>
     (\<forall>i < n. r_pending r ! i < 2 ^ 64 \<and>
        count_list (mb_msg_queue mb ! i) (a, i) + count_list ws (a, i) =
          (if r_pending r ! i = 0 then 0 else 1)) \<and>
     nonzero (r_pending r) \<le> r_refcount r"

text \<open>\<open>xs\<close> are channels a receiver has taken out and not yet dealt with.\<close>

definition note_inv_with :: "channel list \<Rightarrow> addr \<Rightarrow> kstate \<Rightarrow> bool" where
  "note_inv_with xs m s \<longleftrightarrow>
     (\<exists>mb. sget (mailboxes s) m = Some mb \<and> mailbox_ok mb (lg_size mb s) \<and>
        (\<forall>q \<in> set (mb_msg_queue mb). \<forall>ch \<in> set q.
           \<exists>r. sget (raisers s) (fst ch) = Some r \<and> r_mailbox r = m) \<and>
        (\<forall>a r. sget (raisers s) a = Some r \<and> r_mailbox r = m \<longrightarrow>
           raiser_ok a r mb (map snd (woken s) @ xs) (lg_size mb s)) \<and>
        raisers_of s m < mb_dealloc_rc mb)"

definition note_inv :: "addr \<Rightarrow> kstate \<Rightarrow> bool" where
  "note_inv m s = note_inv_with [] m s"

text \<open>Notifications raised on a mailbox and not yet received.\<close>

definition outstanding :: "addr \<Rightarrow> kstate \<Rightarrow> nat" where
  "outstanding m s = ssum (\<lambda>r. if r_mailbox r = m then sum_list (r_pending r) else 0) (raisers s)"

section \<open>Effect of one enqueue\<close>

lemma user_raiser_enqueue_eq:
  assumes r: "sget (raisers s) a = Some r" and mb: "sget (mailboxes s) (r_mailbox r) = Some mb"
    and i: "i = lg_index (mb_is_per_cpu mb) core" "i < length (mb_task_queue mb)"
      "i < length (mb_msg_queue mb)"
  shows "user_raiser_enqueue_nolock a core s = Some
    (case mb_task_queue mb ! i of
       [] \<Rightarrow> s\<lparr>raisers := sput (raisers s) a (r\<lparr>r_refcount := inc64 (r_refcount r)\<rparr>),
             mailboxes := sput (mailboxes s) (r_mailbox r)
               (mb\<lparr>mb_msg_queue := (mb_msg_queue mb)[i := mb_msg_queue mb ! i @ [(a, i)]]\<rparr>)\<rparr>
     | t # ts \<Rightarrow> s\<lparr>raisers := sput (raisers s) a (r\<lparr>r_refcount := inc64 (r_refcount r)\<rparr>),
             mailboxes := sput (mailboxes s) (r_mailbox r)
               (mb\<lparr>mb_task_queue := (mb_task_queue mb)[i := ts]\<rparr>),
             woken := woken s @ [(t, (a, i))]\<rparr>)"
  using assms
  by (auto simp: user_raiser_enqueue_nolock_def mem_rc_borrow_def user_local_global_dequeue_def
      user_local_global_enqueue_def smod_def store_simps Let_def split: list.split
      dest: sget_Some_length)


section \<open>Preservation\<close>

text \<open>Replacing the mailbox and one raiser of a state that satisfies the invariant.\<close>

lemma note_inv_update:
  assumes inv: "note_inv_with xs m s" and mb: "sget (mailboxes s) m = Some mb"
    and r: "sget (raisers s) a = Some r" "r_mailbox r = m"
    and s': "mailboxes s' = sput (mailboxes s) m mb'" "raisers s' = sput (raisers s) a r'"
      "max_cpus s' = max_cpus s"
    and mb': "mailbox_ok mb' (lg_size mb s)" "mb_is_per_cpu mb' = mb_is_per_cpu mb"
      "mb_dealloc_rc mb' = mb_dealloc_rc mb"
    and r': "r_mailbox r' = m" "raiser_ok a r' mb' (map snd (woken s') @ ys) (lg_size mb s)"
    and cnt: "\<And>b j. b \<noteq> a \<Longrightarrow> j < lg_size mb s \<Longrightarrow>
      count_list (mb_msg_queue mb' ! j) (b, j) + count_list (map snd (woken s') @ ys) (b, j) =
      count_list (mb_msg_queue mb ! j) (b, j) + count_list (map snd (woken s) @ xs) (b, j)"
    and chans: "\<And>q ch. q \<in> set (mb_msg_queue mb') \<Longrightarrow> ch \<in> set q \<Longrightarrow> fst ch \<noteq> a \<Longrightarrow>
      \<exists>q \<in> set (mb_msg_queue mb). ch \<in> set q"
  shows "note_inv_with ys m s' \<and>
    outstanding m s' + sum_list (r_pending r) = outstanding m s + sum_list (r_pending r')"
proof -
  have n: "lg_size mb' s' = lg_size mb s" using mb'(2) s'(3) by (simp add: lg_size_def)
  have get: "sget (raisers s') b = (if b = a then Some r' else sget (raisers s) b)" for b
    using r(1) s'(2) by (auto simp: store_simps dest: sget_Some_length)
  have "raisers_of s' m = raisers_of s m"
    using ssum_sput_eq [OF r(1), of "\<lambda>r. if r_mailbox r = m then 1 else 0" r'] r(2) r'(1) s'(2)
    by (simp add: raisers_of_def)
  moreover have "sget (mailboxes s') m = Some mb'"
    using mb s'(1) by (auto simp: store_simps dest: sget_Some_length)
  moreover have "raiser_ok b q mb' (map snd (woken s') @ ys) (lg_size mb s)"
    if "sget (raisers s') b = Some q" "r_mailbox q = m" for b q
  proof (cases "b = a")
    case True
    then show ?thesis using that get r'(2) by simp
  next
    case False
    then have "raiser_ok b q mb (map snd (woken s) @ xs) (lg_size mb s)"
      using that get inv mb by (auto simp: note_inv_with_def)
    with False cnt show ?thesis by (simp add: raiser_ok_def)
  qed
  moreover have "\<exists>q. sget (raisers s') (fst ch) = Some q \<and> r_mailbox q = m"
    if q: "qu \<in> set (mb_msg_queue mb')" "ch \<in> set qu" for qu ch
  proof (cases "fst ch = a")
    case False
    then obtain qu' where "qu' \<in> set (mb_msg_queue mb)" "ch \<in> set qu'" using chans q by blast
    then show ?thesis using False get inv mb by (auto simp: note_inv_with_def)
  qed (use get r'(1) in simp)
  moreover have "raisers_of s m < mb_dealloc_rc mb'"
    using inv mb mb'(3) by (auto simp: note_inv_with_def)
  ultimately have "note_inv_with ys m s'"
    unfolding note_inv_with_def using mb'(1) n by auto
  moreover have "outstanding m s' + sum_list (r_pending r) = outstanding m s + sum_list (r_pending r')"
    using ssum_sput_shift [OF r(1), of "\<lambda>r. if r_mailbox r = m then sum_list (r_pending r) else 0"
        r' "sum_list (r_pending r)" "sum_list (r_pending r')"] r(2) r'(1) s'(2)
    by (simp add: outstanding_def)
  ultimately show ?thesis ..
qed


lemma nonzero_update: "i < length ps \<Longrightarrow>
   nonzero (ps[i := p]) + (if ps ! i = 0 then 0 else 1) = nonzero ps + (if p = 0 then 0 else 1)"
proof (induction ps arbitrary: i)
  case (Cons q ps)
  then show ?case by (cases i) (simp_all del: One_nat_def)
qed simp

lemma sum_list_pending: "i < length ps \<Longrightarrow> sum_list (ps[i := p]) + ps ! i = sum_list ps + (p::nat)"
  by (induction ps arbitrary: i) (auto split: nat.split)

lemma note_inv_withD:
  assumes "note_inv_with xs m s" "sget (mailboxes s) m = Some mb"
  shows "mailbox_ok mb (lg_size mb s)" "raisers_of s m < mb_dealloc_rc mb"
    and "sget (raisers s) a = Some r \<Longrightarrow> r_mailbox r = m \<Longrightarrow>
      raiser_ok a r mb (map snd (woken s) @ xs) (lg_size mb s)"
  using assms by (auto simp: note_inv_with_def)

text \<open>Putting a channel with pending notifications into the queue or into the hands of a
  waiting task.\<close>

lemma enqueue_inv:
  assumes inv: "note_inv_with xs m s" and mb: "sget (mailboxes s) m = Some mb"
    and r: "sget (raisers s) a = Some r" "r_mailbox r = m"
    and i: "i = lg_index (mb_is_per_cpu mb) core" "i < lg_size mb s"
    and xs: "set xs \<subseteq> {(a, i)}"
    and out: "count_list (mb_msg_queue mb ! i) (a, i) + count_list (map snd (woken s)) (a, i) = 0"
    and p: "0 < p" "p < 2 ^ 64" and rc: "r_refcount r + 1 < 2 ^ 64"
  obtains s' where "user_raiser_enqueue_nolock a core (set_pending a i p s) = Some s'"
    and "note_inv_with [] m s'"
    and "outstanding m s' + r_pending r ! i = outstanding m s + p"
    and "sget (raisers s') a =
      Some (r\<lparr>r_pending := (r_pending r)[i := p], r_refcount := r_refcount r + 1\<rparr>)"
proof -
  note mok = note_inv_withD(1) [OF inv mb]
  note rok = note_inv_withD(3) [OF inv mb r]
  let ?r1 = "r\<lparr>r_pending := (r_pending r)[i := p]\<rparr>"
  let ?r2 = "?r1\<lparr>r_refcount := r_refcount r + 1\<rparr>"
  let ?s = "set_pending a i p s"
  have r1: "sget (raisers ?s) a = Some ?r1" "raisers ?s = sput (raisers s) a ?r1"
    using r(1) by (auto simp: set_pending_def smod_def store_simps dest: sget_Some_length)
  have same: "mailboxes ?s = mailboxes s" "woken ?s = woken s" "max_cpus ?s = max_cpus s"
    by (simp_all add: set_pending_def)
  have len: "i < length (mb_task_queue mb)" "i < length (mb_msg_queue mb)"
      "length (r_pending r) = lg_size mb s"
    using mok rok i by (auto simp: mailbox_ok_def raiser_ok_def)
  have inc: "inc64 (r_refcount r) = r_refcount r + 1" using rc by (rule inc64_small)
  have eq: "user_raiser_enqueue_nolock a core ?s = Some
    (case mb_task_queue mb ! i of
       [] \<Rightarrow> ?s\<lparr>raisers := sput (raisers ?s) a ?r2,
             mailboxes := sput (mailboxes s) m
               (mb\<lparr>mb_msg_queue := (mb_msg_queue mb)[i := mb_msg_queue mb ! i @ [(a, i)]]\<rparr>)\<rparr>
     | t # ts \<Rightarrow> ?s\<lparr>raisers := sput (raisers ?s) a ?r2,
             mailboxes := sput (mailboxes s) m (mb\<lparr>mb_task_queue := (mb_task_queue mb)[i := ts]\<rparr>),
             woken := woken s @ [(t, (a, i))]\<rparr>)"
    using user_raiser_enqueue_eq [OF r1(1) _ i(1) len(1,2)] mb same r(2) inc
    by (simp split: list.split)
  have xs0: "b \<noteq> a \<Longrightarrow> count_list xs (b, j) = 0" "j \<noteq> i \<Longrightarrow> count_list xs (a, j) = 0" for b j
    using xs by (auto simp: count_list_0_iff)
  have pend: "sum_list (r_pending ?r2) + r_pending r ! i = sum_list (r_pending r) + p"
    using len i by (simp add: sum_list_pending)
  have nz: "nonzero (r_pending ?r2) \<le> r_refcount r + 1"
    using nonzero_update [of i "r_pending r" p] rok len i by (simp add: raiser_ok_def split: if_splits)
  show thesis
  proof (cases "mb_task_queue mb ! i")
    case Nil
    let ?mb = "mb\<lparr>mb_msg_queue := (mb_msg_queue mb)[i := mb_msg_queue mb ! i @ [(a, i)]]\<rparr>"
    let ?s' = "?s\<lparr>raisers := sput (raisers ?s) a ?r2, mailboxes := sput (mailboxes s) m ?mb\<rparr>"
    have "raiser_ok a ?r2 ?mb (map snd (woken ?s') @ []) (lg_size mb s)"
      using rok out p nz xs0 i len same by (auto simp: raiser_ok_def nth_list_update)
    moreover have "mailbox_ok ?mb (lg_size mb s)"
      using mok Nil i(2) by (auto simp: mailbox_ok_def nth_list_update split: if_splits)
    moreover have "\<exists>q\<in>set (mb_msg_queue mb). ch \<in> set q"
      if "q \<in> set (mb_msg_queue ?mb)" "ch \<in> set q" "fst ch \<noteq> a" for q ch
      using that
      by (auto dest!: subsetD [OF set_update_subset_insert] intro: bexI [OF _ nth_mem [OF len(2)]])
    moreover have "count_list (mb_msg_queue ?mb ! j) (b, j) + count_list (map snd (woken ?s') @ []) (b, j) =
        count_list (mb_msg_queue mb ! j) (b, j) + count_list (map snd (woken s) @ xs) (b, j)"
      if "b \<noteq> a" for b j
      using that xs0 len(2) same by (cases "j = i") auto
    ultimately have "note_inv_with [] m ?s' \<and>
      outstanding m ?s' + sum_list (r_pending r) = outstanding m s + sum_list (r_pending ?r2)"
      using r1 same r by (intro note_inv_update [OF inv mb r, where mb' = ?mb and r' = ?r2])
        (auto simp: store_simps)
    then show thesis
      using eq Nil pend r1(2) sget_Some_length [OF r(1)]
      by (intro that [of ?s']) (auto simp: store_simps)
  next
    case (Cons t ts)
    let ?mb = "mb\<lparr>mb_task_queue := (mb_task_queue mb)[i := ts]\<rparr>"
    let ?s' = "?s\<lparr>raisers := sput (raisers ?s) a ?r2, mailboxes := sput (mailboxes s) m ?mb,
                woken := woken s @ [(t, (a, i))]\<rparr>"
    have "raiser_ok a ?r2 ?mb (map snd (woken ?s') @ []) (lg_size mb s)"
      using rok out p nz xs0 i len same by (auto simp: raiser_ok_def nth_list_update)
    moreover have "mailbox_ok ?mb (lg_size mb s)"
      using mok Cons i(2) by (auto simp: mailbox_ok_def nth_list_update split: if_splits)
    moreover have "count_list (mb_msg_queue ?mb ! j) (b, j) + count_list (map snd (woken ?s') @ []) (b, j) =
        count_list (mb_msg_queue mb ! j) (b, j) + count_list (map snd (woken s) @ xs) (b, j)"
      if "b \<noteq> a" for b j
      using that xs0 len(2) same by (cases "j = i") auto
    ultimately have "note_inv_with [] m ?s' \<and>
      outstanding m ?s' + sum_list (r_pending r) = outstanding m s + sum_list (r_pending ?r2)"
      using r1 same r by (intro note_inv_update [OF inv mb r, where mb' = ?mb and r' = ?r2])
        (auto simp: store_simps)
    then show thesis
      using eq Cons pend r1(2) sget_Some_length [OF r(1)]
      by (intro that [of ?s']) (auto simp: store_simps)
  qed
qed


lemma pending_inv:
  assumes inv: "note_inv_with xs m s" and mb: "sget (mailboxes s) m = Some mb"
    and r: "sget (raisers s) a = Some r" "r_mailbox r = m"
    and i: "i < lg_size mb s" and xs: "set xs \<subseteq> {(a, i)}"
    and cnt: "count_list (mb_msg_queue mb ! i) (a, i) + count_list (map snd (woken s)) (a, i) =
      (if p = 0 then 0 else 1)"
    and p: "p < 2 ^ 64" "p \<noteq> 0 \<Longrightarrow> r_pending r ! i \<noteq> 0"
  shows "note_inv_with [] m (set_pending a i p s) \<and>
     outstanding m (set_pending a i p s) + r_pending r ! i = outstanding m s + p \<and>
     sget (raisers (set_pending a i p s)) a = Some (r\<lparr>r_pending := (r_pending r)[i := p]\<rparr>)"
proof -
  note rok = note_inv_withD(3) [OF inv mb r]
  let ?r = "r\<lparr>r_pending := (r_pending r)[i := p]\<rparr>"
  let ?s = "set_pending a i p s"
  have len: "i < length (r_pending r)" using rok i by (simp add: raiser_ok_def)
  have s': "raisers ?s = sput (raisers s) a ?r" "sget (raisers ?s) a = Some ?r"
      "mailboxes ?s = sput (mailboxes s) m mb" "woken ?s = woken s" "max_cpus ?s = max_cpus s"
    using r(1) sget_Some_length [OF r(1)] mb
    by (simp_all add: set_pending_def smod_def store_simps sput_same)
  have xs0: "b \<noteq> a \<Longrightarrow> count_list xs (b, j) = 0" "j \<noteq> i \<Longrightarrow> count_list xs (a, j) = 0" for b j
    using xs by (auto simp: count_list_0_iff)
  have "nonzero (r_pending ?r) \<le> r_refcount r"
    using nonzero_update [OF len, of p] p(2) rok by (simp add: raiser_ok_def split: if_splits)
  then have "raiser_ok a ?r mb (map snd (woken ?s) @ []) (lg_size mb s)"
    using rok cnt p(1) xs0 s'(4) len by (auto simp: raiser_ok_def nth_list_update)
  then have "note_inv_with [] m ?s \<and>
      outstanding m ?s + sum_list (r_pending r) = outstanding m s + sum_list (r_pending ?r)"
    using note_inv_withD(1) [OF inv mb] r(2) s' xs0
    by (intro note_inv_update [OF inv mb r, where mb' = mb and r' = ?r]) auto
  then show ?thesis using s'(2) sum_list_pending [OF len, of p] by simp
qed

lemma nonzero_0: "nonzero ps = 0 \<Longrightarrow> p \<in> set ps \<Longrightarrow> p = 0"
  by (induction ps) (auto split: if_splits)

lemma destroy_raiser_inv:
  assumes inv: "note_inv_with [] m s" and mb: "sget (mailboxes s) m = Some mb"
    and r: "sget (raisers s) a = Some r" "r_mailbox r = m"
    and nz: "nonzero (r_pending r) = 0" and k: "raisers_of s m - 1 < k"
  defines "s' \<equiv> s\<lparr>mailboxes := sput (mailboxes s) m (mb\<lparr>mb_dealloc_rc := k\<rparr>),
                 raisers := sdel (raisers s) a\<rparr>"
  shows "note_inv_with [] m s' \<and> outstanding m s' = outstanding m s"
proof -
  note mok = note_inv_withD(1) [OF inv mb]
  note rok = note_inv_withD(3) [OF inv mb r]
  let ?mb = "mb\<lparr>mb_dealloc_rc := k\<rparr>"
  have zero: "r_pending r ! i = 0" if "i < lg_size mb s" for i
    using that rok nonzero_0 [OF nz] by (simp add: raiser_ok_def)
  have "ch \<notin> set (mb_msg_queue mb ! i)" if i: "i < lg_size mb s" and ch: "fst ch = a" for i ch
  proof
    assume mem: "ch \<in> set (mb_msg_queue mb ! i)"
    then have "ch = (a, i)" using mok i ch by (auto simp: mailbox_ok_def prod_eq_iff)
    then show False using mem rok zero [OF i] i by (auto simp: raiser_ok_def count_list_0_iff)
  qed
  then have none: "\<forall>q \<in> set (mb_msg_queue mb). \<forall>ch \<in> set q. fst ch \<noteq> a"
    using mok by (auto simp: mailbox_ok_def in_set_conv_nth)
  have "raisers_of s' m = raisers_of s m - 1"
    using ssum_sdel [OF r(1), of "\<lambda>r. if r_mailbox r = m then 1 else 0"] r(2)
    by (simp add: raisers_of_def s'_def)
  moreover have "sget (mailboxes s') m = Some ?mb"
    using mb by (simp add: s'_def store_simps sget_Some_length)
  moreover have "lg_size ?mb s' = lg_size mb s" by (simp add: lg_size_def s'_def)
  moreover have "mailbox_ok ?mb (lg_size mb s)" using mok by (simp add: mailbox_ok_def)
  moreover have "raisers s' = sdel (raisers s) a" "woken s' = woken s" by (simp_all add: s'_def)
  ultimately have "note_inv_with [] m s'"
    using inv mb none k by (auto simp: note_inv_with_def store_simps raiser_ok_def)
  moreover have sum0: "sum_list (r_pending r) = 0"
    using nonzero_0 [OF nz] by (simp add: sum_list_eq_0_iff)
  have "outstanding m s' = outstanding m s"
    using ssum_sdel [OF r(1), of "\<lambda>r. if r_mailbox r = m then sum_list (r_pending r) else 0"] r(2)
    by (simp only: outstanding_def s'_def sum0) simp
  ultimately show ?thesis ..
qed

text \<open>Giving back one reference of a raiser that has one to spare; the last one takes the raiser
  along.\<close>

lemma drop_raiser_inv:
  assumes inv: "note_inv_with [] m s" and mb: "sget (mailboxes s) m = Some mb"
    and r: "sget (raisers s) a = Some r" "r_mailbox r = m"
    and rc: "nonzero (r_pending r) < r_refcount r"
  obtains s' where "mem_rc_drop (RcRaiser a) s = Some s'" "note_inv_with [] m s'"
    "outstanding m s' = outstanding m s"
proof (cases "r_refcount r = 1")
  case False
  define n where "n = r_refcount r - 2"
  have n: "r_refcount r = Suc (Suc n)" using False rc by (simp add: n_def)
  let ?r = "r\<lparr>r_refcount := Suc n\<rparr>"
  let ?s = "rc_set (RcRaiser a) (Suc n) s"
  have s': "raisers ?s = sput (raisers s) a ?r" "mailboxes ?s = sput (mailboxes s) m mb"
      "woken ?s = woken s" "max_cpus ?s = max_cpus s"
    using r(1) mb by (simp_all add: smod_def sput_same)
  have "raiser_ok a ?r mb (map snd (woken ?s) @ []) (lg_size mb s)"
    using note_inv_withD(3) [OF inv mb r] rc n s'(3) by (simp add: raiser_ok_def)
  then have "note_inv_with [] m ?s \<and>
      outstanding m ?s + sum_list (r_pending r) = outstanding m s + sum_list (r_pending ?r)"
    using note_inv_withD(1) [OF inv mb] r(2) s'
    by (intro note_inv_update [OF inv mb r, where mb' = mb and r' = ?r]) auto
  moreover have "mem_rc_drop (RcRaiser a) s = Some ?s"
    by (rule mem_rc_drop_alive) (simp add: r(1) n)
  ultimately show thesis using that by simp
next
  case True
  define n where "n = mb_dealloc_rc mb - 2"
  have "1 \<le> raisers_of s m"
    using ssum_ge [OF r(1), of "\<lambda>r. if r_mailbox r = m then 1 else 0"] r(2)
    by (simp add: raisers_of_def)
  then have n: "mb_dealloc_rc mb = Suc (Suc n)" "raisers_of s m - 1 < Suc n"
    using note_inv_withD(2) [OF inv mb] by (simp_all add: n_def)
  let ?mb = "mb\<lparr>mb_dealloc_rc := Suc n\<rparr>"
  let ?s = "s\<lparr>mailboxes := sput (mailboxes s) m ?mb, raisers := sdel (raisers s) a\<rparr>"
  have "mem_rc_drop (RcRaiser a) s = Some ?s"
    using r mb True n(1)
    by (simp add: mem_rc_drop_last user_destroy_raiser_def drop_step_def smod_def store_simps
        sget_Some_length)
  moreover have "note_inv_with [] m ?s \<and> outstanding m ?s = outstanding m s"
    using rc True n by (intro destroy_raiser_inv [OF inv mb r]) simp_all
  ultimately show thesis using that by blast
qed


section \<open>Sending and receiving\<close>

lemma send_inv:
  assumes inv: "note_inv m s" and mb: "sget (mailboxes s) m = Some mb"
    and r: "sget (raisers s) a = Some r" "r_mailbox r = m"
    and i: "i = lg_index (mb_is_per_cpu mb) core" "i < lg_size mb s"
    and bounds: "r_pending r ! i + 1 < 2 ^ 64" "r_refcount r + 1 < 2 ^ 64"
  obtains s' where "user_send_notification_to_core a core s = Some s'" "note_inv m s'"
    "outstanding m s' = outstanding m s + 1"
proof -
  note inv' = inv [unfolded note_inv_def]
  note rok = note_inv_withD(3) [OF inv' mb r]
  note mok = note_inv_withD(1) [OF inv' mb]
  let ?p = "r_pending r ! i + 1"
  have inc: "inc64 (r_pending r ! i) = ?p" using bounds(1) by (rule inc64_small)
  have len: "i < length (r_pending r)" using rok i(2) by (simp add: raiser_ok_def)
  have eq: "user_send_notification_to_core a core s =
      (if ?p = 1 then user_raiser_enqueue_nolock a core (set_pending a i ?p s)
       else Some (set_pending a i ?p s))"
    unfolding user_send_notification_to_core_def
    using mb r mok len inc by (simp add: mailbox_ok_def Let_def i(1) [symmetric])
  have cnt: "count_list (mb_msg_queue mb ! i) (a, i) + count_list (map snd (woken s)) (a, i) =
      (if r_pending r ! i = 0 then 0 else 1)"
    using rok i(2) by (auto simp: raiser_ok_def)
  show thesis
  proof (cases "r_pending r ! i = 0")
    case True
    then obtain s' where "user_raiser_enqueue_nolock a core (set_pending a i ?p s) = Some s'"
        "note_inv_with [] m s'" "outstanding m s' + r_pending r ! i = outstanding m s + ?p"
      using enqueue_inv [OF inv' mb r i _ _ _ bounds(1) bounds(2)] cnt by auto
    then show thesis using that [of s'] eq True by (simp add: note_inv_def)
  next
    case False
    then show thesis
      using pending_inv [OF inv' mb r i(2) _ _ bounds(1)] cnt that eq by (simp add: note_inv_def)
  qed
qed

text \<open>The common end of both ways to receive: the channel is in the receiver's hands.\<close>

lemma recieve_finish_inv:
  assumes inv: "note_inv_with [(a, i)] m s" and mb: "sget (mailboxes s) m = Some mb"
    and r: "sget (raisers s) a = Some r" "r_mailbox r = m"
    and i: "i = lg_index (mb_is_per_cpu mb) core" "i < lg_size mb s"
    and rc: "r_refcount r + 1 < 2 ^ 64"
  obtains s' where "recieve_finish core (a, i) s = Some (r_notification r, s')" "note_inv m s'"
    "outstanding m s' + 1 = outstanding m s"
proof -
  note rok = note_inv_withD(3) [OF inv mb r]
  define p where "p = r_pending r ! i - 1"
  have cnt: "count_list (mb_msg_queue mb ! i) (a, i) + count_list (map snd (woken s)) (a, i) = 0"
    and pos: "0 < r_pending r ! i" "r_pending r ! i < 2 ^ 64"
    using rok i(2) by (auto simp: raiser_ok_def split: if_splits)
  have len: "i < length (r_pending r)" using rok i(2) by (simp add: raiser_ok_def)
  have dec: "dec64 (r_pending r ! i) = p" using dec64_pos [OF pos] by (simp add: p_def)
  let ?s = "set_pending a i p s"
  obtain s1 r1 where s1: "(if p \<noteq> 0 then user_raiser_enqueue_nolock a core ?s else Some ?s) = Some s1"
      "note_inv_with [] m s1" "outstanding m s1 + r_pending r ! i = outstanding m s + p"
      "sget (raisers s1) a = Some r1" "r_mailbox r1 = m" "nonzero (r_pending r1) < r_refcount r1"
  proof (cases "p = 0")
    case True
    have "nonzero ((r_pending r)[i := p]) < r_refcount r"
      using nonzero_update [OF len, of p] rok pos(1) True by (simp add: raiser_ok_def)
    moreover have "p < 2 ^ 64" using True by simp
    ultimately show thesis
      using pending_inv [OF inv mb r i(2) _ _ \<open>p < 2 ^ 64\<close>] cnt True r(2)
      by (intro that [of ?s "r\<lparr>r_pending := (r_pending r)[i := p]\<rparr>"]) auto
  next
    case False
    have "nonzero ((r_pending r)[i := p]) < r_refcount r + 1"
      using nonzero_update [OF len, of p] rok pos(1) False by (simp add: raiser_ok_def)
    moreover have p: "0 < p" "p < 2 ^ 64" using False pos by (simp_all add: p_def)
    moreover obtain s' where "user_raiser_enqueue_nolock a core ?s = Some s'"
        "note_inv_with [] m s'" "outstanding m s' + r_pending r ! i = outstanding m s + p"
        "sget (raisers s') a =
          Some (r\<lparr>r_pending := (r_pending r)[i := p], r_refcount := r_refcount r + 1\<rparr>)"
      by (rule enqueue_inv [OF inv mb r i _ cnt p rc]) auto
    ultimately show thesis
      using False r(2) by (intro that [of s'
        "r\<lparr>r_pending := (r_pending r)[i := p], r_refcount := r_refcount r + 1\<rparr>"]) auto
  qed
  from s1(2) obtain mb1 where mb1: "sget (mailboxes s1) m = Some mb1"
    by (auto simp: note_inv_with_def)
  obtain s2 where s2: "mem_rc_drop (RcRaiser a) s1 = Some s2" "note_inv_with [] m s2"
      "outstanding m s2 = outstanding m s1"
    by (rule drop_raiser_inv [OF s1(2) mb1 s1(4,5,6)])
  have "recieve_finish core (a, i) s = Some (r_notification r, s2)"
    using r(1) len dec s1(1) s2(1) by (simp add: recieve_finish_def Let_def split: if_splits)
  then show thesis using that s2 s1(3) pos(1) by (simp add: note_inv_def p_def)
qed


lemma dequeue_inv:
  assumes inv: "note_inv m s" and mb: "sget (mailboxes s) m = Some mb"
    and i: "i < lg_size mb s" and q: "mb_msg_queue mb ! i = ch # q"
  defines "s' \<equiv> s\<lparr>mailboxes := sput (mailboxes s) m
      (mb\<lparr>mb_msg_queue := (mb_msg_queue mb)[i := q]\<rparr>)\<rparr>"
  shows "snd ch = i \<and> note_inv_with [ch] m s' \<and> outstanding m s' = outstanding m s \<and>
     (\<exists>r. sget (raisers s) (fst ch) = Some r \<and> r_mailbox r = m)"
proof -
  note inv' = inv [unfolded note_inv_def]
  note mok = note_inv_withD(1) [OF inv' mb]
  let ?mb = "mb\<lparr>mb_msg_queue := (mb_msg_queue mb)[i := q]\<rparr>"
  have len: "i < length (mb_msg_queue mb)" using mok i by (simp add: mailbox_ok_def)
  have ch: "ch = (fst ch, i)" using mok i q by (force simp: mailbox_ok_def)
  have mem: "mb_msg_queue mb ! i \<in> set (mb_msg_queue mb)" using len by (rule nth_mem)
  then have "\<exists>r. sget (raisers s) (fst ch) = Some r \<and> r_mailbox r = m"
    using inv' mb q unfolding note_inv_with_def by (metis list.set_intros(1) option.inject)
  then obtain r where r: "sget (raisers s) (fst ch) = Some r" "r_mailbox r = m" by blast
  have ok: "mailbox_ok ?mb (lg_size mb s)"
    using mok i q by (auto simp: mailbox_ok_def nth_list_update split: if_splits)
  have cnt: "count_list (mb_msg_queue ?mb ! j) (b, j) + count_list (map snd (woken s') @ [ch]) (b, j) =
      count_list (mb_msg_queue mb ! j) (b, j) + count_list (map snd (woken s) @ []) (b, j)"
    if "j < lg_size mb s" for b j
    using len q ch by (cases "j = i") (auto simp: s'_def)
  have "\<exists>q\<in>set (mb_msg_queue mb). c \<in> set q"
    if "q' \<in> set (mb_msg_queue ?mb)" "c \<in> set q'" for q' c
    using that q mem by (auto dest!: subsetD [OF set_update_subset_insert] intro: bexI [OF _ mem])
  moreover have "raiser_ok (fst ch) r ?mb (map snd (woken s') @ [ch]) (lg_size mb s)"
    using note_inv_withD(3) [OF inv' mb r] cnt by (simp add: raiser_ok_def)
  ultimately have "note_inv_with [ch] m s' \<and>
      outstanding m s' + sum_list (r_pending r) = outstanding m s + sum_list (r_pending r)"
    using ok r(2) cnt
    by (intro note_inv_update [OF inv' mb r, where mb' = ?mb and r' = r])
      (auto simp: s'_def sput_same [OF r(1)])
  then show ?thesis using r ch by (metis add_right_cancel snd_conv)
qed

lemma raiser_ok_cong: "count_list ws = count_list ws' \<Longrightarrow> raiser_ok a r mb ws n = raiser_ok a r mb ws' n"
  by (simp add: raiser_ok_def)

lemma resume_inv:
  assumes inv: "note_inv m s" and w: "woken s = us @ (t, (a, i)) # vs"
  shows "note_inv_with [(a, i)] m (s\<lparr>woken := us @ vs\<rparr>)"
proof -
  have "count_list (map snd (us @ vs) @ [(a, i)]) = count_list (map snd (woken s) @ [])"
    using w by auto
  then have "raiser_ok b r mb (map snd (us @ vs) @ [(a, i)]) n =
      raiser_ok b r mb (map snd (woken s) @ []) n" for b r mb n
    by (rule raiser_ok_cong)
  moreover have "lg_size mb (s\<lparr>woken := us @ vs\<rparr>) = lg_size mb s"
      "raisers_of (s\<lparr>woken := us @ vs\<rparr>) m = raisers_of s m" for mb
    by (simp_all add: lg_size_def raisers_of_def)
  ultimately show ?thesis using inv by (simp add: note_inv_def note_inv_with_def)
qed

section \<open>Properties\<close>

text \<open>A boot-time state with one global mailbox and one raiser on it.\<close>

definition note_example :: "kstate \<times> addr \<times> addr" where
  "note_example =
     (case user_create_mailbox False init_kstate of ((_, mb), s) \<Rightarrow>
      case user_create_raiser (the mb) \<lparr>note_type = USER_NOTE_TYPE_RPC_REPLY, note_opaque = 42\<rparr> s of
        Some ((_, r), s) \<Rightarrow> (s, the mb, the r) | None \<Rightarrow> (s, 0, 0))"

definition note_example_mailbox :: user_mailbox where
  "note_example_mailbox = \<lparr>mb_shutdown_rc = 1, mb_dealloc_rc = 2, mb_msg_queue = [[]],
     mb_task_queue = [[]], mb_is_shut_down = False, mb_is_per_cpu = False\<rparr>"

definition note_example_raiser :: user_raiser where
  "note_example_raiser = \<lparr>r_refcount = 1,
     r_notification = \<lparr>note_type = USER_NOTE_TYPE_RPC_REPLY, note_opaque = 42\<rparr>,
     r_mailbox = 0, r_pending = [0]\<rparr>"

lemma note_example_eval:
  "mailboxes (fst note_example) = [Some note_example_mailbox]"
  "raisers (fst note_example) = [Some note_example_raiser]"
  "woken (fst note_example) = []" "max_cpus (fst note_example) = 1"
  "logical_id (fst note_example) = 0" "snd note_example = (0, 0)"
  by (simp_all add: note_example_def user_create_mailbox_def user_local_global_init_def
      user_create_raiser_def kalloc_def init_kstate_def snew_def sget_def mem_rc_borrow_def
      smod_def sput_def inc64_def u64_def Let_def note_example_mailbox_def
      note_example_raiser_def)

lemma note_example_inv: "note_inv 0 (fst note_example)"
  by (simp add: note_inv_def note_inv_with_def note_example_eval sget_def lg_size_def
      mailbox_ok_def raiser_ok_def raisers_of_def ssum_def
      note_example_mailbox_def note_example_raiser_def)

lemmas note_example_simps =
  note_example_eval note_example_mailbox_def note_example_raiser_def sget_def lg_index_def lg_size_def






text \<open>A task woken by a sender finds in its wait node the channel it was woken for; when it
  runs again it receives that raiser's notification, one outstanding notification is consumed
  and the protocol invariant holds again, even if the channel has to be queued or handed on
  once more.\<close>

lemma recieve_resume_correct:
  assumes "note_inv m s" "sget (mailboxes s) m = Some mb"
    and "woken s = us @ (t, (a, i)) # vs" "t \<notin> fst ` set us"
    and "sget (raisers s) a = Some r" "r_mailbox r = m" "r_refcount r + 1 < 2 ^ 64"
    and "i = lg_index (mb_is_per_cpu mb) core" "i < lg_size mb s"
  shows "\<exists>s'. user_recieve_resume t core s = Some (r_notification r, s') \<and>
     note_inv m s' \<and> outstanding m s' + 1 = outstanding m s"
proof -
  let ?s = "s\<lparr>woken := us @ vs\<rparr>"
  have inv: "note_inv_with [(a, i)] m ?s" by (rule resume_inv [OF assms(1,3)])
  obtain s' where s': "recieve_finish core (a, i) ?s = Some (r_notification r, s')"
      "note_inv m s'" "outstanding m s' + 1 = outstanding m ?s"
    by (rule recieve_finish_inv [OF inv, of mb r core]) (use assms in \<open>auto simp: lg_size_def\<close>)
  have "find (\<lambda>w. fst w = t) (woken s) = Some (t, (a, i))"
    using assms(3,4) by (auto simp: find_append find_None_set split: option.split dest!: find_Some_set)
  moreover have "remove1 (t, (a, i)) (woken s) = us @ vs"
    using assms(3,4) by (force simp: remove1_append)
  ultimately have "user_recieve_resume t core s = Some (r_notification r, s')"
    using s'(1) by (simp add: user_recieve_resume_def)
  then show ?thesis using s'(2,3) by (auto simp: outstanding_def)
qed

definition note_example_woken :: kstate where
  "note_example_woken = (fst note_example)
     \<lparr>raisers := [Some (note_example_raiser\<lparr>r_refcount := 2, r_pending := [1]\<rparr>)],
      woken := [(5, (0, 0))]\<rparr>"

end
