(* ===== verification/Cookie.thy ===== *)
theory Cookie
  imports Drop
begin

text \<open>
  \<^verbatim>\<open>user/cookie.c\<close>: group cookies and entry cookies, the credentials of the user API. Key 0
  authorises nobody, key 1 everybody; other keys are handed out by a counter. The entry
  cookie's mutex is its \<open>e_taken\<close> flag: locking a taken mutex does not return.
\<close>

definition USER_COOKIE_KEY_ONLY_KERNEL :: nat where
  "USER_COOKIE_KEY_ONLY_KERNEL = 0"

definition USER_COOKIE_KEY_UNIVERSAL :: nat where
  "USER_COOKIE_KEY_UNIVERSAL = 1"

lemmas cookie_key_defs = USER_COOKIE_KEY_ONLY_KERNEL_def USER_COOKIE_KEY_UNIVERSAL_def

section \<open>Locking an entry cookie\<close>

definition entry_lock :: "addr \<Rightarrow> kstate \<Rightarrow> kstate option" where
  "entry_lock entry s = do {
     e \<leftarrow> sget (entries s) entry;
     if e_taken e then None
     else Some (s\<lparr>entries := sput (entries s) entry (e\<lparr>e_taken := True\<rparr>)\<rparr>) }"

definition entry_unlock :: "addr \<Rightarrow> kstate \<Rightarrow> kstate option" where
  "entry_unlock entry s = do {
     e \<leftarrow> sget (entries s) entry;
     Some (s\<lparr>entries := sput (entries s) entry (e\<lparr>e_taken := False\<rparr>)\<rparr>) }"

definition set_grp_keys :: "addr \<Rightarrow> nat dynarray \<Rightarrow> kstate \<Rightarrow> kstate" where
  "set_grp_keys entry d s =
     s\<lparr>entries := smod (\<lambda>e. e\<lparr>e_grp_keys := d\<rparr>) (entries s) entry\<rparr>"

section \<open>Operations\<close>

text \<open>\<open>MEM_REF_INIT(res->key, ...)\<close> initialises a counter at the address the key happens to
  be, not the counter of the new object: the write goes to \<open>wild_writes\<close> and the object's
  counter and callback keep what the heap memory held.\<close>

definition user_group_cookie_create :: "kstate \<Rightarrow> (user_status \<times> addr option) \<times> kstate" where
  "user_group_cookie_create s =
     (let (ok, s) = kalloc s in
      if \<not> ok then ((USER_STATUS_OUT_OF_MEMORY, None), s)
      else let key = user_cookie_last s;
               (a, gs) = snew (groups s) \<lparr>g_refcount = uninit_word s (2 * length (groups s)),
                  g_drop = uninit_word s (2 * length (groups s) + 1), g_key = key\<rparr>
           in ((USER_STATUS_SUCCESS, Some a),
               s\<lparr>user_cookie_last := inc64 key, wild_writes := wild_writes s @ [(key, 1)],
                 groups := gs\<rparr>))"

definition user_entry_cookie_create :: "kstate \<Rightarrow> (user_status \<times> addr option) \<times> kstate" where
  "user_entry_cookie_create s =
     (let (ok, s) = kalloc s in
      if \<not> ok then ((USER_STATUS_OUT_OF_MEMORY, None), s)
      else let (ok, s) = kalloc s in
      case dynarray_new ok of
        None \<Rightarrow> ((USER_STATUS_OUT_OF_MEMORY, None), s)
      | Some keys \<Rightarrow>
         let key = user_cookie_last s;
             (a, es) = snew (entries s)
                \<lparr>e_refcount = 1, e_key = key, e_taken = False, e_grp_keys = keys\<rparr>
         in ((USER_STATUS_SUCCESS, Some a), s\<lparr>user_cookie_last := inc64 key, entries := es\<rparr>))"

definition user_entry_cookie_grp_key_present :: "user_entry_cookie \<Rightarrow> nat \<Rightarrow> bool" where
  "user_entry_cookie_grp_key_present entry key = list_ex (\<lambda>k. k = key) (da_data (e_grp_keys entry))"

text \<open>The first index of a list at which an element satisfies a test.\<close>

fun index_of :: "('a \<Rightarrow> bool) \<Rightarrow> 'a list \<Rightarrow> nat option" where
  "index_of P [] = None"
| "index_of P (x # xs) = (if P x then Some 0 else map_option Suc (index_of P xs))"

definition user_entry_cookie_add_to_grp :: "addr \<Rightarrow> addr \<Rightarrow> kstate \<Rightarrow> (user_status \<times> kstate) option" where
  "user_entry_cookie_add_to_grp entry cookie s = do {
     s \<leftarrow> entry_lock entry s;
     e \<leftarrow> sget (entries s) entry;
     g \<leftarrow> sget (groups s) cookie;
     if user_entry_cookie_grp_key_present e (g_key g) then do {
       s \<leftarrow> entry_unlock entry s;
       Some (USER_STATUS_SUCCESS, s) }
     else case index_of (\<lambda>k. k = 0) (da_data (e_grp_keys e)) of
       Some i \<Rightarrow> do {
         s \<leftarrow> entry_unlock entry (set_grp_keys entry
            ((e_grp_keys e)\<lparr>da_data := (da_data (e_grp_keys e))[i := g_key g]\<rparr>) s);
         Some (USER_STATUS_SUCCESS, s) }
     | None \<Rightarrow> do {
         let (ok, s) = (if push_allocates (e_grp_keys e) then kalloc s else (True, s));
         (case dynarray_push ok (e_grp_keys e) (g_key g) of
            None \<Rightarrow> do { s \<leftarrow> entry_unlock entry s; Some (USER_STATUS_OUT_OF_MEMORY, s) }
          | Some d \<Rightarrow> do {
              s \<leftarrow> entry_unlock entry (set_grp_keys entry d s);
              Some (USER_STATUS_SUCCESS, s) }) }}"

text \<open>The mutex is released inside the loop, only when the key was found.\<close>

definition user_entry_cookie_remove_from_grp :: "addr \<Rightarrow> addr \<Rightarrow> kstate \<Rightarrow> (user_status \<times> kstate) option" where
  "user_entry_cookie_remove_from_grp entry cookie s = do {
     s \<leftarrow> entry_lock entry s;
     e \<leftarrow> sget (entries s) entry;
     if da_data (e_grp_keys e) = [] then Some (USER_STATUS_SUCCESS, s)
     else do {
       g \<leftarrow> sget (groups s) cookie;
       case index_of (\<lambda>k. k = g_key g) (da_data (e_grp_keys e)) of
         Some i \<Rightarrow> do {
           s \<leftarrow> entry_unlock entry (set_grp_keys entry
              ((e_grp_keys e)\<lparr>da_data := (da_data (e_grp_keys e))[i := 0]\<rparr>) s);
           Some (USER_STATUS_SUCCESS, s) }
       | None \<Rightarrow> Some (USER_STATUS_SUCCESS, s) }}"

definition user_entry_cookie_auth :: "addr \<Rightarrow> nat \<Rightarrow> kstate \<Rightarrow> (bool \<times> kstate) option" where
  "user_entry_cookie_auth entry key s = do {
     e \<leftarrow> (if key = USER_COOKIE_KEY_UNIVERSAL then Some None
           else map_option Some (sget (entries s) entry));
     if key = USER_COOKIE_KEY_UNIVERSAL \<or> e \<noteq> None \<and> key = e_key (the e) then Some (True, s)
     else if key = USER_COOKIE_KEY_ONLY_KERNEL then Some (False, s)
     else do {
       s \<leftarrow> entry_lock entry s;
       e \<leftarrow> sget (entries s) entry;
       let result = user_entry_cookie_grp_key_present e key;
       s \<leftarrow> entry_unlock entry s;
       Some (result, s) }}"

definition user_group_cookie_get_key :: "addr \<Rightarrow> kstate \<Rightarrow> nat option" where
  "user_group_cookie_get_key grp s = map_option g_key (sget (groups s) grp)"

definition user_entry_cookie_get_key :: "addr \<Rightarrow> kstate \<Rightarrow> nat option" where
  "user_entry_cookie_get_key entry s = map_option e_key (sget (entries s) entry)"

text \<open>\<open>user_unpinned_for\<close> of \<^verbatim>\<open>user/object.h\<close>.\<close>

definition user_unpinned_for :: "user_ref \<Rightarrow> addr \<Rightarrow> kstate \<Rightarrow> (bool \<times> kstate) option" where
  "user_unpinned_for ref cookie s = user_entry_cookie_auth cookie (pin_cookie ref) s"

section \<open>What an entry cookie authorises\<close>

definition entry_auth :: "user_entry_cookie \<Rightarrow> nat set" where
  "entry_auth e = {USER_COOKIE_KEY_UNIVERSAL, e_key e} \<union>
     (set (da_data (e_grp_keys e)) - {USER_COOKIE_KEY_ONLY_KERNEL})"

text \<open>No key is stored twice (removed keys leave a 0).\<close>

definition entry_wf :: "user_entry_cookie \<Rightarrow> bool" where
  "entry_wf e \<longleftrightarrow> e_key e \<noteq> 0 \<and> dynarray_wf (e_grp_keys e) \<and>
     distinct (filter (\<lambda>k. k \<noteq> 0) (da_data (e_grp_keys e)))"

lemma index_of_Some: "index_of P xs = Some i \<Longrightarrow> i < length xs \<and> P (xs ! i)"
  by (induction xs arbitrary: i) (auto split: if_splits)

lemma index_of_None: "index_of P xs = None \<longleftrightarrow> (\<forall>x \<in> set xs. \<not> P x)"
  by (induction xs) auto

lemma key_present_iff: "user_entry_cookie_grp_key_present e k \<longleftrightarrow> k \<in> set (da_data (e_grp_keys e))"
  by (auto simp: user_entry_cookie_grp_key_present_def list_ex_iff)

lemma auth_eq:
  assumes "sget (entries s) entry = Some e" "\<not> e_taken e" "e_key e \<noteq> 0"
  shows "user_entry_cookie_auth entry key s = Some (key \<in> entry_auth e, s)"
proof -
  have e: "e\<lparr>e_taken := False\<rparr> = e" using assms(2) by simp
  show ?thesis
    using assms sget_Some_length [OF assms(1)] sput_same [OF assms(1)]
    by (auto simp: user_entry_cookie_auth_def entry_lock_def entry_unlock_def store_simps Let_def e
        key_present_iff entry_auth_def cookie_key_defs)
qed


section \<open>Effect on the list of keys\<close>

lemma list_update_split: "i < length xs \<Longrightarrow> xs[i := y] = take i xs @ y # drop (Suc i) xs"
  by (rule upd_conv_take_nth_drop)

lemma insert_key_list:
  assumes "i < length ks" "ks ! i = 0" "k \<noteq> 0" "k \<notin> set ks"
  shows "set (ks[i := k]) - {0} = insert k (set ks - {0})"
    and "distinct (filter (\<lambda>k. k \<noteq> 0) ks) \<Longrightarrow> distinct (filter (\<lambda>k. k \<noteq> 0) (ks[i := k]))"
proof -
  have ks: "ks = take i ks @ 0 # drop (Suc i) ks" using assms(1,2) id_take_nth_drop by metis
  have s: "set ks = set (take i ks) \<union> {0} \<union> set (drop (Suc i) ks)"
    by (subst ks) auto
  show "set (ks[i := k]) - {0} = insert k (set ks - {0})"
    using assms(1,3) s by (auto simp: list_update_split)
  assume "distinct (filter (\<lambda>k. k \<noteq> 0) ks)"
  then have "distinct (filter (\<lambda>k. k \<noteq> 0) (take i ks @ drop (Suc i) ks))"
    by (subst (asm) ks) simp
  then show "distinct (filter (\<lambda>k. k \<noteq> 0) (ks[i := k]))"
    using assms s by (auto simp: list_update_split)
qed

lemma remove_key_list:
  assumes "i < length ks" "ks ! i = k" "k \<noteq> 0" "distinct (filter (\<lambda>k. k \<noteq> 0) ks)"
  shows "set (ks[i := 0]) - {0} = set ks - {0} - {k}"
    and "distinct (filter (\<lambda>k. k \<noteq> 0) (ks[i := 0]))"
proof -
  have ks: "ks = take i ks @ k # drop (Suc i) ks" using assms(1,2) id_take_nth_drop by metis
  have s: "set ks = set (take i ks) \<union> {k} \<union> set (drop (Suc i) ks)"
    by (subst ks) auto
  have d: "distinct (filter (\<lambda>k. k \<noteq> 0) (take i ks) @ k # filter (\<lambda>k. k \<noteq> 0) (drop (Suc i) ks))"
    using assms(3,4) by (subst (asm) ks) simp
  then show "set (ks[i := 0]) - {0} = set ks - {0} - {k}"
    using assms(1,3) s by (auto simp: list_update_split)
  show "distinct (filter (\<lambda>k. k \<noteq> 0) (ks[i := 0]))"
    using d assms(1) by (simp add: list_update_split)
qed

lemma sget_alloc_entries [simp]: "entries (s\<lparr>alloc_calls := n\<rparr>) = entries s"
  by simp

section \<open>Properties\<close>

text \<open>An entry cookie in group 2 and two groups, with keys 2 and 4.\<close>

definition cookie_example_entry :: user_entry_cookie where
  "cookie_example_entry = \<lparr>e_refcount = 1, e_key = 3, e_taken = False,
     e_grp_keys = \<lparr>da_data = [2], capacity = 16\<rparr>\<rparr>"

definition cookie_example :: kstate where
  "cookie_example = init_kstate\<lparr>user_cookie_last := 5,
     groups := [Some \<lparr>g_refcount = 1, g_drop = 1, g_key = 2\<rparr>, Some \<lparr>g_refcount = 1, g_drop = 1, g_key = 4\<rparr>],
     entries := [Some cookie_example_entry]\<rparr>"

lemma cookie_example_facts:
  "sget (entries cookie_example) 0 = Some cookie_example_entry" "entry_wf cookie_example_entry"
  "\<not> e_taken cookie_example_entry"
  "sget (groups cookie_example) 0 = Some \<lparr>g_refcount = 1, g_drop = 1, g_key = 2\<rparr>"
  "sget (groups cookie_example) 1 = Some \<lparr>g_refcount = 1, g_drop = 1, g_key = 4\<rparr>"
  "entry_auth cookie_example_entry = {1, 2, 3}"
  by (auto simp: cookie_example_def cookie_example_entry_def sget_def entry_wf_def entry_auth_def
      dynarray_wf_def dynarray_len_def DYNARRAY_GROWTH_DELTA_def cookie_key_defs)

text \<open>Joining a group is atomic. \<open>user_entry_cookie_add_to_grp\<close> on an unlocked entry cookie
  returns with the mutex released; on success the cookie authorises exactly one key more, the
  group's, and stays well-formed; otherwise (only when the key list has to grow and the heap is
  exhausted) it authorises what it did before.\<close>

lemma add_to_grp_correct:
  assumes e: "sget (entries s) entry = Some e" "\<not> e_taken e" "entry_wf e"
    and g: "sget (groups s) grp = Some g" "1 < g_key g"
  shows "\<exists>st s' e'. user_entry_cookie_add_to_grp entry grp s = Some (st, s') \<and>
     sget (entries s') entry = Some e' \<and> \<not> e_taken e' \<and> entry_wf e' \<and> e_key e' = e_key e \<and>
     (st = USER_STATUS_SUCCESS \<and> entry_auth e' = insert (g_key g) (entry_auth e) \<or>
      st = USER_STATUS_OUT_OF_MEMORY \<and> entry_auth e' = entry_auth e \<and>
        \<not> alloc_outcome s (alloc_calls s))"
proof -
  let ?ks = "da_data (e_grp_keys e)"
  note len = sget_Some_length [OF e(1)]
  note defs = user_entry_cookie_add_to_grp_def entry_lock_def entry_unlock_def set_grp_keys_def
    smod_def store_simps key_present_iff Let_def
  have wf: "dynarray_wf (e_grp_keys e)" "distinct (filter (\<lambda>k. k \<noteq> 0) ?ks)" "e_key e \<noteq> 0"
    using e(3) by (simp_all add: entry_wf_def)
  consider "g_key g \<in> set ?ks"
    | i where "g_key g \<notin> set ?ks" "index_of (\<lambda>k. k = 0) ?ks = Some i"
    | "g_key g \<notin> set ?ks" "index_of (\<lambda>k. k = 0) ?ks = None"
    by (cases "index_of (\<lambda>k. k = 0) ?ks") auto
  then show ?thesis
  proof cases
    case 1
    then show ?thesis
      using e g len by (auto simp: defs entry_auth_def entry_wf_def cookie_key_defs)
  next
    case (2 i)
    then have i: "i < length ?ks" "?ks ! i = 0" using index_of_Some by force+
    let ?d = "(e_grp_keys e)\<lparr>da_data := ?ks[i := g_key g]\<rparr>"
    have "dynarray_wf ?d" using wf(1) by (simp add: dynarray_wf_def dynarray_len_def)
    then show ?thesis
      using 2 e g len wf insert_key_list [OF i _ 2(1)]
      by (auto simp: defs entry_auth_def entry_wf_def cookie_key_defs)
  next
    case 3
    let ?ok = "if push_allocates (e_grp_keys e) then alloc_outcome s (alloc_calls s) else True"
    have no0: "0 \<notin> set ?ks" using 3(2) by (auto simp: index_of_None)
    show ?thesis
    proof (cases "dynarray_push ?ok (e_grp_keys e) (g_key g)")
      case None
      then have "\<not> alloc_outcome s (alloc_calls s)" "push_allocates (e_grp_keys e)"
        by (auto simp: dynarray_push_None split: if_splits)
      then show ?thesis
        using 3 e g len None by (auto simp: defs kalloc_def entry_auth_def entry_wf_def)
    next
      case (Some d)
      note d = dynarray_push_wf [OF wf(1) Some] dynarray_push_Some [OF Some]
      then show ?thesis
        using 3 e g len wf Some no0
        by (cases "push_allocates (e_grp_keys e)")
          (auto simp: defs kalloc_def entry_auth_def entry_wf_def cookie_key_defs)
    qed
  qed
qed

text \<open>Leaving a group. If the cookie holds the group's key, \<open>user_entry_cookie_remove_from_grp\<close>
  returns with the mutex released and the cookie authorises everything it did before except
  that key.\<close>

lemma remove_from_grp_correct:
  assumes e: "sget (entries s) entry = Some e" "\<not> e_taken e" "entry_wf e"
    and g: "sget (groups s) grp = Some g" "1 < g_key g" "g_key g \<noteq> e_key e"
    and k: "g_key g \<in> entry_auth e"
  shows "\<exists>s' e'. user_entry_cookie_remove_from_grp entry grp s = Some (USER_STATUS_SUCCESS, s') \<and>
     sget (entries s') entry = Some e' \<and> \<not> e_taken e' \<and> entry_wf e' \<and>
     entry_auth e' = entry_auth e - {g_key g}"
proof -
  let ?ks = "da_data (e_grp_keys e)"
  have mem: "g_key g \<in> set ?ks" using k g by (auto simp: entry_auth_def cookie_key_defs)
  then obtain i where i: "index_of (\<lambda>k. k = g_key g) ?ks = Some i"
    using index_of_None [of "\<lambda>k. k = g_key g" ?ks] by (cases "index_of (\<lambda>k. k = g_key g) ?ks") auto
  have wf: "dynarray_wf (e_grp_keys e)" "distinct (filter (\<lambda>k. k \<noteq> 0) ?ks)"
    using e(3) by (simp_all add: entry_wf_def)
  let ?d = "(e_grp_keys e)\<lparr>da_data := ?ks[i := 0]\<rparr>"
  let ?e = "e\<lparr>e_grp_keys := ?d, e_taken := False\<rparr>"
  have data: "g_key g \<noteq> 0" "i < length ?ks" "?ks ! i = g_key g" "?ks \<noteq> []"
    using g index_of_Some [OF i] mem by auto
  have "user_entry_cookie_remove_from_grp entry grp s =
      Some (USER_STATUS_SUCCESS, s\<lparr>entries := sput (entries s) entry ?e\<rparr>)"
    using e g(1) i data(4) sget_Some_length [OF e(1)]
    by (simp add: user_entry_cookie_remove_from_grp_def entry_lock_def entry_unlock_def
        set_grp_keys_def smod_def store_simps)
  moreover have "sget (entries (s\<lparr>entries := sput (entries s) entry ?e\<rparr>)) entry = Some ?e"
    using sget_Some_length [OF e(1)] by (simp add: store_simps)
  moreover have "entry_wf ?e"
    using wf e(3) remove_key_list(2) [OF data(2,3,1) wf(2)]
    by (simp add: entry_wf_def dynarray_wf_def dynarray_len_def)
  moreover have "entry_auth ?e = {1, e_key e} \<union> (set ?ks - {0} - {g_key g})"
    by (simp add: entry_auth_def cookie_key_defs remove_key_list(1) [OF data(2,3,1) wf(2)])
  moreover have "\<dots> = entry_auth e - {g_key g}"
    using g(2,3) by (auto simp: entry_auth_def cookie_key_defs)
  ultimately show ?thesis by auto
qed

text \<open>The early return of \<open>user_entry_cookie_remove_from_grp\<close> for a key the cookie does not
  hold leaves the mutex taken: the call reports success, and the next authorisation of that
  cookie against any group key never returns.\<close>

lemma remove_from_grp_keeps_lock:
  assumes e: "sget (entries s) entry = Some e" "\<not> e_taken e"
    and g: "sget (groups s) grp = Some g" "g_key g \<notin> set (da_data (e_grp_keys e))"
    and key: "1 < key" "key \<noteq> e_key e"
  shows "\<exists>s'. user_entry_cookie_remove_from_grp entry grp s = Some (USER_STATUS_SUCCESS, s') \<and>
     user_entry_cookie_auth entry key s' = None"
proof -
  have "index_of (\<lambda>k. k = g_key g) (da_data (e_grp_keys e)) = None"
    using g(2) by (auto simp: index_of_None)
  then show ?thesis
    using e g(1) key sget_Some_length [OF e(1)]
    by (auto simp: user_entry_cookie_remove_from_grp_def entry_lock_def store_simps
        user_entry_cookie_auth_def cookie_key_defs)
qed

end
