(* ===== verification/Universe.thy ===== *)
theory Universe
  imports Cookie
begin

text \<open>
  \<^verbatim>\<open>user/universe.c\<close>: universes, the handle tables of the user API. A universe is a dynamic
  array of cells and an intrusive list of free cells; the list nodes live inside the array, so a
  cell is named by its index (the array only moves while the list is empty). The mutex of a
  universe is its \<open>u_taken\<close> flag. An access to the cell one past the end, which
  \<open>user_universe_check_ref_nolock\<close> lets through, is an access to memory that is not part of
  the array and has no result.
\<close>

section \<open>Locks and cells\<close>

definition universe_lock :: "addr \<Rightarrow> kstate \<Rightarrow> kstate option" where
  "universe_lock universe s = do {
     u \<leftarrow> sget (universes s) universe;
     if u_taken u then None
     else Some (s\<lparr>universes := sput (universes s) universe (u\<lparr>u_taken := True\<rparr>)\<rparr>) }"

definition universe_unlock :: "addr \<Rightarrow> kstate \<Rightarrow> kstate option" where
  "universe_unlock universe s = do {
     u \<leftarrow> sget (universes s) universe;
     Some (s\<lparr>universes := sput (universes s) universe (u\<lparr>u_taken := False\<rparr>)\<rparr>) }"

abbreviation cells :: "user_universe \<Rightarrow> user_universe_cell list" where
  "cells u \<equiv> da_data (u_cells u)"

definition set_cell :: "nat \<Rightarrow> user_universe_cell \<Rightarrow> user_universe \<Rightarrow> user_universe" where
  "set_cell i c u = u\<lparr>u_cells := (u_cells u)\<lparr>da_data := (cells u)[i := c]\<rparr>\<rparr>"

text \<open>\<open>in_use = false; LIST_APPEND_TAIL(&free_list, ...)\<close>\<close>

definition free_cell :: "nat \<Rightarrow> user_universe \<Rightarrow> user_universe" where
  "free_cell i u = (set_cell i ((cells u ! i)\<lparr>in_use := False\<rparr>) u)\<lparr>u_free_list := u_free_list u @ [i]\<rparr>"

definition put_universe :: "addr \<Rightarrow> user_universe \<Rightarrow> kstate \<Rightarrow> kstate" where
  "put_universe universe u s = s\<lparr>universes := sput (universes s) universe u\<rparr>"

section \<open>Operations\<close>

definition user_universe_create :: "kstate \<Rightarrow> (user_status \<times> addr option) \<times> kstate" where
  "user_universe_create s =
     (let (ok, s) = kalloc s in
      if \<not> ok then ((USER_STATUS_OUT_OF_MEMORY, None), s)
      else let (ok, s) = kalloc s in
      case dynarray_new ok of
        None \<Rightarrow> ((USER_STATUS_OUT_OF_MEMORY, None), s)
      | Some cs \<Rightarrow>
         let uid = user_universe_last_id s;
             (a, us) = snew (universes s)
                \<lparr>u_refcount = 1, u_taken = False, u_free_list = [], u_id = uid, u_cells = cs\<rparr>
         in ((USER_STATUS_SUCCESS, Some a),
             s\<lparr>user_universe_last_id := inc64 uid, universes := us\<rparr>))"

definition cyclical_dep :: "user_ref \<Rightarrow> user_universe \<Rightarrow> kstate \<Rightarrow> bool option" where
  "cyclical_dep ref u s =
     (if ref_type ref = USER_OBJ_TYPE_UNIVERSE
      then do { v \<leftarrow> sget (universes s) (ref_ptr ref); Some (u_id v < u_id u) }
      else Some False)"

definition user_universe_move_in_nolock ::
  "addr \<Rightarrow> user_ref \<Rightarrow> kstate \<Rightarrow> ((user_status \<times> nat option) \<times> kstate) option" where
  "user_universe_move_in_nolock universe ref s = do {
     u \<leftarrow> sget (universes s) universe;
     bad \<leftarrow> cyclical_dep ref u s;
     if bad then Some ((USER_STATUS_INVALID_UNIVERSE_ORDER, None), s)
     else case u_free_list u of
       i # fl \<Rightarrow>
         if i < length (cells u) \<and> \<not> in_use (cells u ! i) then
           Some ((USER_STATUS_SUCCESS, Some i),
             put_universe universe (set_cell i \<lparr>in_use = True, cell_ref = ref\<rparr> u\<lparr>u_free_list := fl\<rparr>) s)
         else None
     | [] \<Rightarrow> do {
         let (ok, s) = (if push_allocates (u_cells u) then kalloc s else (True, s));
         (case dynarray_push ok (u_cells u) \<lparr>in_use = True, cell_ref = ref\<rparr> of
            None \<Rightarrow> Some ((USER_STATUS_OUT_OF_MEMORY, None), s)
          | Some cs \<Rightarrow> Some ((USER_STATUS_SUCCESS, Some (dynarray_len (u_cells u))),
                           put_universe universe (u\<lparr>u_cells := cs\<rparr>) s)) }}"

definition user_universe_move_in ::
  "addr \<Rightarrow> user_ref \<Rightarrow> kstate \<Rightarrow> ((user_status \<times> nat option) \<times> kstate) option" where
  "user_universe_move_in universe ref s = do {
     s \<leftarrow> universe_lock universe s;
     (res, s) \<leftarrow> user_universe_move_in_nolock universe ref s;
     s \<leftarrow> universe_unlock universe s;
     Some (res, s) }"

definition user_universe_move_in_pair ::
  "addr \<Rightarrow> user_ref \<Rightarrow> user_ref \<Rightarrow> kstate \<Rightarrow> ((user_status \<times> (nat \<times> nat) option) \<times> kstate) option" where
  "user_universe_move_in_pair universe ref0 ref1 s =
     (if ref_type ref0 = USER_OBJ_TYPE_UNIVERSE \<or> ref_type ref1 = USER_OBJ_TYPE_UNIVERSE then None
      else do {
        s \<leftarrow> universe_lock universe s;
        ((status0, cell0), s) \<leftarrow> user_universe_move_in_nolock universe ref0 s;
        if status0 \<noteq> USER_STATUS_SUCCESS then do {
          s \<leftarrow> universe_unlock universe s; Some ((status0, None), s) }
        else do {
          c0 \<leftarrow> cell0;
          ((status1, cell1), s) \<leftarrow> user_universe_move_in_nolock universe ref1 s;
          if status1 \<noteq> USER_STATUS_SUCCESS then do {
            u \<leftarrow> sget (universes s) universe;
            let s = put_universe universe (free_cell c0 u) s;
            s \<leftarrow> universe_unlock universe s; Some ((status1, None), s) }
          else do {
            c1 \<leftarrow> cell1;
            s \<leftarrow> universe_unlock universe s;
            Some ((USER_STATUS_SUCCESS, Some (c0, c1)), s) }}})"

text \<open>The test is \<open>cell > len\<close>, so index \<open>len\<close> reads behind the array.\<close>

definition user_universe_check_ref_nolock :: "user_universe \<Rightarrow> nat \<Rightarrow> bool option" where
  "user_universe_check_ref_nolock u cell =
     (if cell > dynarray_len (u_cells u) then Some False
      else if cell = dynarray_len (u_cells u) then None
      else Some (in_use (cells u ! cell)))"

definition user_universe_drop_cell ::
  "addr \<Rightarrow> nat \<Rightarrow> addr \<Rightarrow> kstate \<Rightarrow> (user_status \<times> kstate) option" where
  "user_universe_drop_cell universe cell cookie s = do {
     s \<leftarrow> universe_lock universe s;
     u \<leftarrow> sget (universes s) universe;
     valid \<leftarrow> user_universe_check_ref_nolock u cell;
     if \<not> valid then do {
       s \<leftarrow> universe_unlock universe s; Some (USER_STATUS_INVALID_HANDLE, s) }
     else do {
       let ref = cell_ref (cells u ! cell);
       (unpinned, s) \<leftarrow> user_unpinned_for ref cookie s;
       if \<not> unpinned then do {
         s \<leftarrow> universe_unlock universe s; Some (USER_STATUS_SECURITY_VIOLATION, s) }
       else do {
         let s = put_universe universe (free_cell cell u) s;
         s \<leftarrow> universe_unlock universe s;
         s \<leftarrow> user_drop_ref ref s;
         Some (USER_STATUS_SUCCESS, s) }}}"

text \<open>Only type and pointer of the caller's buffer are written.\<close>

definition user_universe_borrow_out ::
  "addr \<Rightarrow> nat \<Rightarrow> kstate \<Rightarrow> ((user_status \<times> user_ref option) \<times> kstate) option" where
  "user_universe_borrow_out universe cell s = do {
     s \<leftarrow> universe_lock universe s;
     u \<leftarrow> sget (universes s) universe;
     valid \<leftarrow> user_universe_check_ref_nolock u cell;
     if \<not> valid then do {
       s \<leftarrow> universe_unlock universe s; Some ((USER_STATUS_INVALID_HANDLE, None), s) }
     else do {
       let ref = cell_ref (cells u ! cell);
       r \<leftarrow> rc_of_ref ref;
       s \<leftarrow> mem_rc_borrow r s;
       s \<leftarrow> universe_unlock universe s;
       Some ((USER_STATUS_SUCCESS,
         Some \<lparr>ref_ptr = ref_ptr ref, ref_type = ref_type ref, pin_cookie = uninit_word s 0\<rparr>), s) }}"

definition user_universe_move_out ::
  "addr \<Rightarrow> nat \<Rightarrow> kstate \<Rightarrow> ((user_status \<times> user_ref option) \<times> kstate) option" where
  "user_universe_move_out universe cell s = do {
     s \<leftarrow> universe_lock universe s;
     u \<leftarrow> sget (universes s) universe;
     valid \<leftarrow> user_universe_check_ref_nolock u cell;
     if \<not> valid then do {
       s \<leftarrow> universe_unlock universe s; Some ((USER_STATUS_INVALID_HANDLE, None), s) }
     else do {
       let s = put_universe universe (free_cell cell u) s;
       s \<leftarrow> universe_unlock universe s;
       Some ((USER_STATUS_SUCCESS, Some (cell_ref (cells u ! cell))), s) }}"

text \<open>There is no return after locking the common universe of an equal pair.\<close>

definition user_universe_lock_pair :: "addr \<Rightarrow> addr \<Rightarrow> kstate \<Rightarrow> kstate option" where
  "user_universe_lock_pair universe1 universe2 s = do {
     s \<leftarrow> (if universe1 = universe2 then universe_lock universe1 s else Some s);
     u1 \<leftarrow> sget (universes s) universe1;
     u2 \<leftarrow> sget (universes s) universe2;
     if u_id u1 < u_id u2 then do { s \<leftarrow> universe_lock universe1 s; universe_lock universe2 s }
     else do { s \<leftarrow> universe_lock universe2 s; universe_lock universe1 s } }"

definition user_universe_unlock_pair :: "addr \<Rightarrow> addr \<Rightarrow> kstate \<Rightarrow> kstate option" where
  "user_universe_unlock_pair universe1 universe2 s = do {
     s \<leftarrow> universe_unlock universe1 s;
     if universe1 \<noteq> universe2 then universe_unlock universe2 s else Some s }"

definition user_universe_move_across ::
  "addr \<Rightarrow> addr \<Rightarrow> nat \<Rightarrow> addr \<Rightarrow> kstate \<Rightarrow> ((user_status \<times> nat option) \<times> kstate) option" where
  "user_universe_move_across src dst hsrc cookie s = do {
     s \<leftarrow> user_universe_lock_pair src dst s;
     u \<leftarrow> sget (universes s) src;
     valid \<leftarrow> user_universe_check_ref_nolock u hsrc;
     if \<not> valid then do {
       s \<leftarrow> user_universe_unlock_pair src dst s; Some ((USER_STATUS_INVALID_HANDLE, None), s) }
     else do {
       let moved_ref = cell_ref (cells u ! hsrc);
       (unpinned, s) \<leftarrow> user_unpinned_for moved_ref cookie s;
       if \<not> unpinned then do {
         s \<leftarrow> user_universe_unlock_pair src dst s; Some ((USER_STATUS_SECURITY_VIOLATION, None), s) }
       else do {
         ((status, hdst), s) \<leftarrow> user_universe_move_in_nolock dst moved_ref s;
         if status \<noteq> USER_STATUS_SUCCESS then do {
           s \<leftarrow> user_universe_unlock_pair src dst s; Some ((status, None), s) }
         else do {
           u \<leftarrow> sget (universes s) src;
           let s = put_universe src (free_cell hsrc u) s;
           s \<leftarrow> user_universe_unlock_pair src dst s;
           Some ((status, hdst), s) }}}}"

definition user_universe_borrow_across ::
  "addr \<Rightarrow> addr \<Rightarrow> nat \<Rightarrow> addr \<Rightarrow> kstate \<Rightarrow> ((user_status \<times> nat option) \<times> kstate) option" where
  "user_universe_borrow_across src dst hsrc cookie s = do {
     s \<leftarrow> user_universe_lock_pair src dst s;
     u \<leftarrow> sget (universes s) src;
     valid \<leftarrow> user_universe_check_ref_nolock u hsrc;
     if \<not> valid then do {
       s \<leftarrow> user_universe_unlock_pair src dst s; Some ((USER_STATUS_INVALID_HANDLE, None), s) }
     else do {
       (moved_ref, s) \<leftarrow> user_borrow_ref (cell_ref (cells u ! hsrc)) s;
       (unpinned, s) \<leftarrow> user_unpinned_for moved_ref cookie s;
       ((status, hdst), s) \<leftarrow>
         (if \<not> unpinned then Some ((USER_STATUS_SECURITY_VIOLATION, None), s)
          else user_universe_move_in_nolock dst moved_ref s);
       s \<leftarrow> user_universe_unlock_pair src dst s;
       s \<leftarrow> (if status \<noteq> USER_STATUS_SUCCESS then user_drop_ref moved_ref s else Some s);
       Some ((status, hdst), s) }}"

section \<open>Pinning\<close>

definition set_pin :: "nat \<Rightarrow> nat \<Rightarrow> user_universe \<Rightarrow> user_universe" where
  "set_pin i key u =
     set_cell i ((cells u ! i)\<lparr>cell_ref := (cell_ref (cells u ! i))\<lparr>pin_cookie := key\<rparr>\<rparr>) u"

definition user_universe_unpin :: "addr \<Rightarrow> nat \<Rightarrow> addr \<Rightarrow> kstate \<Rightarrow> (user_status \<times> kstate) option" where
  "user_universe_unpin universe handle cookie s = do {
     s \<leftarrow> universe_lock universe s;
     u \<leftarrow> sget (universes s) universe;
     valid \<leftarrow> user_universe_check_ref_nolock u handle;
     if \<not> valid then do {
       s \<leftarrow> universe_unlock universe s; Some (USER_STATUS_INVALID_HANDLE, s) }
     else do {
       let pin = pin_cookie (cell_ref (cells u ! handle));
       entry_key \<leftarrow> user_entry_cookie_get_key cookie s;
       if pin \<noteq> entry_key \<and> pin \<noteq> USER_COOKIE_KEY_UNIVERSAL then do {
         s \<leftarrow> universe_unlock universe s; Some (USER_STATUS_SECURITY_VIOLATION, s) }
       else do {
         s \<leftarrow> universe_unlock universe (put_universe universe (set_pin handle USER_COOKIE_KEY_UNIVERSAL u) s);
         Some (USER_STATUS_SUCCESS, s) }}}"

definition user_universe_pin :: "addr \<Rightarrow> nat \<Rightarrow> addr \<Rightarrow> kstate \<Rightarrow> (user_status \<times> kstate) option" where
  "user_universe_pin universe handle cookie s = do {
     s \<leftarrow> universe_lock universe s;
     u \<leftarrow> sget (universes s) universe;
     valid \<leftarrow> user_universe_check_ref_nolock u handle;
     if \<not> valid then do {
       s \<leftarrow> universe_unlock universe s; Some (USER_STATUS_INVALID_HANDLE, s) }
     else do {
       let pin = pin_cookie (cell_ref (cells u ! handle));
       entry_key \<leftarrow> user_entry_cookie_get_key cookie s;
       if pin \<noteq> USER_COOKIE_KEY_UNIVERSAL \<and> pin \<noteq> entry_key then do {
         s \<leftarrow> universe_unlock universe s; Some (USER_STATUS_SECURITY_VIOLATION, s) }
       else do {
         s \<leftarrow> universe_unlock universe (put_universe universe (set_pin handle entry_key u) s);
         Some (USER_STATUS_SUCCESS, s) }}}"

definition user_universe_unpin_from_group ::
  "addr \<Rightarrow> nat \<Rightarrow> addr \<Rightarrow> addr \<Rightarrow> kstate \<Rightarrow> (user_status \<times> kstate) option" where
  "user_universe_unpin_from_group universe handle entry grp s = do {
     s \<leftarrow> universe_lock universe s;
     u \<leftarrow> sget (universes s) universe;
     valid \<leftarrow> user_universe_check_ref_nolock u handle;
     if \<not> valid then do {
       s \<leftarrow> universe_unlock universe s; Some (USER_STATUS_INVALID_HANDLE, s) }
     else do {
       group_key \<leftarrow> user_group_cookie_get_key grp s;
       entry_key \<leftarrow> user_entry_cookie_get_key entry s;
       let pin = pin_cookie (cell_ref (cells u ! handle));
       if pin \<noteq> group_key \<and> pin \<noteq> USER_COOKIE_KEY_UNIVERSAL \<and> pin \<noteq> entry_key then do {
         s \<leftarrow> universe_unlock universe s; Some (USER_STATUS_SECURITY_VIOLATION, s) }
       else do {
         s \<leftarrow> universe_unlock universe (put_universe universe (set_pin handle USER_COOKIE_KEY_UNIVERSAL u) s);
         Some (USER_STATUS_SUCCESS, s) }}}"

definition user_universe_pin_to_group ::
  "addr \<Rightarrow> nat \<Rightarrow> addr \<Rightarrow> addr \<Rightarrow> kstate \<Rightarrow> (user_status \<times> kstate) option" where
  "user_universe_pin_to_group universe handle entry grp s = do {
     s \<leftarrow> universe_lock universe s;
     u \<leftarrow> sget (universes s) universe;
     valid \<leftarrow> user_universe_check_ref_nolock u handle;
     if \<not> valid then do {
       s \<leftarrow> universe_unlock universe s; Some (USER_STATUS_INVALID_HANDLE, s) }
     else do {
       group_key \<leftarrow> user_group_cookie_get_key grp s;
       entry_key \<leftarrow> user_entry_cookie_get_key entry s;
       let pin = pin_cookie (cell_ref (cells u ! handle));
       if pin \<noteq> USER_COOKIE_KEY_UNIVERSAL \<and> pin \<noteq> group_key \<and> pin \<noteq> entry_key then do {
         s \<leftarrow> universe_unlock universe s; Some (USER_STATUS_SECURITY_VIOLATION, s) }
       else do {
         s \<leftarrow> universe_unlock universe (put_universe universe (set_pin handle group_key u) s);
         Some (USER_STATUS_SUCCESS, s) }}}"

section \<open>Forking\<close>

text \<open>The copy loop: \<open>src\<close> are the source cells still to visit, \<open>new\<close> the (uninitialised)
  cells of the fork at the same indices, \<open>i\<close> the index of the first of them.\<close>

fun fork_cells :: "user_universe_cell list \<Rightarrow> user_universe_cell list \<Rightarrow> nat \<Rightarrow> addr \<Rightarrow> kstate \<Rightarrow>
    (user_universe_cell list \<times> nat list \<times> kstate) option" where
  "fork_cells (c # src) (n # new) i cookie s = do {
     (take_it, s) \<leftarrow> (if in_use c then user_unpinned_for (cell_ref c) cookie s else Some (False, s));
     if take_it then do {
       (ref, s) \<leftarrow> user_borrow_ref (cell_ref c) s;
       (cs, fl, s) \<leftarrow> fork_cells src new (Suc i) cookie s;
       Some (\<lparr>in_use = True, cell_ref = ref\<rparr> # cs, fl, s) }
     else do {
       (cs, fl, s) \<leftarrow> fork_cells src new (Suc i) cookie s;
       Some (n\<lparr>in_use := False\<rparr> # cs, i # fl, s) }}"
| "fork_cells [] new i cookie s = Some ([], [], s)"
| "fork_cells (c # src) [] i cookie s = None"

definition junk_cell :: "(nat \<Rightarrow> nat) \<Rightarrow> nat \<Rightarrow> user_universe_cell" where
  "junk_cell w i = \<lparr>in_use = (w i \<noteq> 0),
     cell_ref = \<lparr>ref_ptr = w i, ref_type = USER_OBJ_TYPE_NONE, pin_cookie = w i\<rparr>\<rparr>"

text \<open>When the resize fails, dropping the new universe runs its destructor over a cell array that
  was never assigned.\<close>

definition user_universe_fork :: "addr \<Rightarrow> addr \<Rightarrow> kstate \<Rightarrow> ((user_status \<times> addr option) \<times> kstate) option" where
  "user_universe_fork src cookie s =
     (let (ok, s) = kalloc s in
      if \<not> ok then Some ((USER_STATUS_OUT_OF_MEMORY, None), s)
      else let (ok, s) = kalloc s in
      case dynarray_new ok of
        None \<Rightarrow> Some ((USER_STATUS_OUT_OF_MEMORY, None), s)
      | Some cs \<Rightarrow> do {
         let uid = user_universe_last_id s;
         let s = s\<lparr>user_universe_last_id := inc64 uid\<rparr>;
         s \<leftarrow> universe_lock src s;
         u \<leftarrow> sget (universes s) src;
         let (ok, s) = (if align_up (dynarray_len (u_cells u)) DYNARRAY_GROWTH_DELTA = capacity cs
                        then (True, s) else kalloc s);
         resized \<leftarrow> dynarray_resize ok (junk_cell (uninit_word s)) cs (dynarray_len (u_cells u));
         (new, fl, s) \<leftarrow> fork_cells (cells u) (da_data resized) 0 cookie s;
         s \<leftarrow> universe_unlock src s;
         let (a, us) = snew (universes s)
            \<lparr>u_refcount = 1, u_taken = False, u_free_list = fl, u_id = uid,
             u_cells = resized\<lparr>da_data := new\<rparr>\<rparr>;
         Some ((USER_STATUS_SUCCESS, Some a), s\<lparr>universes := us\<rparr>) })"


section \<open>A universe as a table of handles\<close>

definition handles :: "user_universe \<Rightarrow> nat \<rightharpoonup> user_ref" where
  "handles u i = (if i < length (cells u) \<and> in_use (cells u ! i)
                  then Some (cell_ref (cells u ! i)) else None)"

text \<open>The free list holds exactly the unused cells, each once.\<close>

definition universe_wf :: "user_universe \<Rightarrow> bool" where
  "universe_wf u \<longleftrightarrow> distinct (u_free_list u) \<and> dynarray_wf (u_cells u) \<and>
     set (u_free_list u) = {i. i < length (cells u) \<and> \<not> in_use (cells u ! i)}"

text \<open>The contract: inserting always finds a free handle or runs out of memory, never hits an
  occupied one, and both operations are pointwise updates of the table.\<close>

locale handle_table =
  fixes wf :: "'u \<Rightarrow> bool"
    and look :: "'u \<Rightarrow> nat \<rightharpoonup> 'r"
    and put :: "bool \<Rightarrow> 'r \<Rightarrow> 'u \<Rightarrow> (nat \<times> 'u) option option"
    and del :: "nat \<Rightarrow> 'u \<Rightarrow> 'u"
  assumes put_defined: "wf u \<Longrightarrow> put ok x u \<noteq> None"
    and put_fails: "wf u \<Longrightarrow> put ok x u = Some None \<Longrightarrow> \<not> ok"
    and put_ok: "wf u \<Longrightarrow> put ok x u = Some (Some (i, u')) \<Longrightarrow>
      wf u' \<and> look u i = None \<and> look u' = (look u)(i \<mapsto> x)"
    and del_ok: "wf u \<Longrightarrow> look u i \<noteq> None \<Longrightarrow>
      wf (del i u) \<and> look (del i u) = (look u)(i := None)"
begin

lemma put_cases:
  assumes "wf u"
  obtains (fail) "put ok x u = Some None" "\<not> ok"
  | (ok) i u' where "put ok x u = Some (Some (i, u'))" "wf u'" "look u i = None"
      "look u' = (look u)(i \<mapsto> x)"
proof -
  obtain r where r: "put ok x u = Some r" using put_defined [OF assms] by blast
  show thesis
  proof (cases r)
    case None
    with r show thesis using fail put_fails [OF assms] by blast
  next
    case (Some p)
    with r have "put ok x u = Some (Some (fst p, snd p))" by simp
    then show thesis using ok put_ok [OF assms] by blast
  qed
qed

lemma put_del:
  assumes "wf u" "put ok x u = Some (Some (i, u'))"
  shows "wf (del i u') \<and> look (del i u') = look u"
  using put_ok [OF assms] del_ok [of u' i] by auto

lemma put_put_distinct:
  assumes "wf u" "put ok x u = Some (Some (i, u1))" "put ok' y u1 = Some (Some (j, u2))"
  shows "i \<noteq> j \<and> look u2 = (look u)(i \<mapsto> x, j \<mapsto> y)"
  using put_ok [OF assms(1,2)] put_ok [of u1 ok' y j u2] assms(3) by auto

end

text \<open>The part of \<open>user_universe_move_in_nolock\<close> that finds a cell.\<close>

definition alloc_cell :: "bool \<Rightarrow> user_ref \<Rightarrow> user_universe \<Rightarrow> (nat \<times> user_universe) option option" where
  "alloc_cell ok ref u =
     (case u_free_list u of
        i # fl \<Rightarrow>
          if i < length (cells u) \<and> \<not> in_use (cells u ! i) then
            Some (Some (i, set_cell i \<lparr>in_use = True, cell_ref = ref\<rparr> u\<lparr>u_free_list := fl\<rparr>))
          else None
      | [] \<Rightarrow> Some (map_option (\<lambda>cs. (dynarray_len (u_cells u), u\<lparr>u_cells := cs\<rparr>))
               (dynarray_push (push_allocates (u_cells u) \<longrightarrow> ok) (u_cells u) \<lparr>in_use = True, cell_ref = ref\<rparr>)))"

lemma cells_set_cell [simp]:
  "cells (set_cell i c u) = (cells u)[i := c]" "u_free_list (set_cell i c u) = u_free_list u"
  "u_taken (set_cell i c u) = u_taken u" "u_id (set_cell i c u) = u_id u"
  "u_refcount (set_cell i c u) = u_refcount u"
  by (simp_all add: set_cell_def)

lemma free_cell_fields [simp]:
  "u_taken (free_cell i u) = u_taken u" "u_id (free_cell i u) = u_id u"
  "u_refcount (free_cell i u) = u_refcount u"
  "cells (free_cell i u) = (cells u)[i := (cells u ! i)\<lparr>in_use := False\<rparr>]"
  "u_free_list (free_cell i u) = u_free_list u @ [i]"
  by (simp_all add: free_cell_def)

lemma dynarray_wf_set_cell [simp]: "dynarray_wf (u_cells (set_cell i c u)) = dynarray_wf (u_cells u)"
  by (simp add: set_cell_def dynarray_wf_def dynarray_len_def)

lemma alloc_cell_free:
  assumes wf: "universe_wf u" and fl: "u_free_list u = i # fl"
  shows "i < length (cells u) \<and> \<not> in_use (cells u ! i)"
  using assms by (auto simp: universe_wf_def)

lemma alloc_cell_ok:
  assumes wf: "universe_wf u" and a: "alloc_cell ok ref u = Some (Some (i, u'))"
  shows "universe_wf u' \<and> handles u i = None \<and> handles u' = (handles u)(i \<mapsto> ref)"
proof (cases "u_free_list u")
  case (Cons j fl)
  note j = alloc_cell_free [OF wf Cons]
  have u': "i = j" "u' = set_cell j \<lparr>in_use = True, cell_ref = ref\<rparr> u\<lparr>u_free_list := fl\<rparr>"
    using a Cons j by (auto simp: alloc_cell_def)
  have fl: "distinct fl" "set fl = {k. k < length (cells u) \<and> \<not> in_use (cells u ! k)} - {j}"
    using wf Cons unfolding universe_wf_def by (simp, metis Diff_insert_absorb distinct.simps(2) list.simps(15))
  have "{k. k < length (cells u') \<and> \<not> in_use (cells u' ! k)} =
      {k. k < length (cells u) \<and> \<not> in_use (cells u ! k)} - {j}"
    using j u' by (auto simp: nth_list_update split: if_splits)
  moreover have "u_free_list u' = fl" "dynarray_wf (u_cells u')"
    using wf u' by (simp_all add: universe_wf_def set_cell_def dynarray_wf_def dynarray_len_def)
  ultimately have "universe_wf u'" using fl by (simp add: universe_wf_def)
  moreover have "handles u' = (handles u)(i \<mapsto> ref)"
    using j u' by (auto simp: handles_def nth_list_update fun_eq_iff)
  ultimately show ?thesis using j u' by (simp add: handles_def)
next
  case Nil
  then obtain cs where cs: "dynarray_push (push_allocates (u_cells u) \<longrightarrow> ok) (u_cells u)
      \<lparr>in_use = True, cell_ref = ref\<rparr> = Some cs" "i = length (cells u)" "u' = u\<lparr>u_cells := cs\<rparr>"
    using a by (auto simp: alloc_cell_def dynarray_len_def)
  note d = dynarray_push_Some [OF cs(1)]
  have all: "\<forall>k < length (cells u). in_use (cells u ! k)" using wf Nil by (auto simp: universe_wf_def)
  have "universe_wf u'"
    using wf Nil cs d all dynarray_push_wf [OF _ cs(1)]
    by (auto simp: universe_wf_def nth_append less_Suc_eq)
  moreover have "handles u' = (handles u)(i \<mapsto> ref)"
    using cs d by (auto simp: handles_def nth_append fun_eq_iff)
  ultimately show ?thesis using cs by (simp add: handles_def)
qed

lemma free_cell_ok:
  assumes wf: "universe_wf u" and i: "handles u i \<noteq> None"
  shows "universe_wf (free_cell i u) \<and> handles (free_cell i u) = (handles u)(i := None)"
proof -
  have i: "i < length (cells u)" "in_use (cells u ! i)" using i by (auto simp: handles_def split: if_splits)
  then have "i \<notin> set (u_free_list u)" using wf by (auto simp: universe_wf_def)
  moreover have "dynarray_wf (u_cells (free_cell i u))"
    using wf by (simp add: universe_wf_def free_cell_def)
  ultimately have "universe_wf (free_cell i u)"
    using wf i by (auto simp: universe_wf_def nth_list_update)
  moreover have "handles (free_cell i u) = (handles u)(i := None)"
    using i by (auto simp: handles_def nth_list_update fun_eq_iff)
  ultimately show ?thesis ..
qed

interpretation universe: handle_table universe_wf handles alloc_cell free_cell
proof unfold_locales
  fix u ok x
  assume wf: "universe_wf u"
  show "alloc_cell ok x u \<noteq> None"
    using alloc_cell_free [OF wf] by (auto simp: alloc_cell_def split: list.split)
  show "\<not> ok" if "alloc_cell ok x u = Some None"
    using that by (auto simp: alloc_cell_def dynarray_push_None split: list.splits if_splits)
qed (use alloc_cell_ok free_cell_ok in blast)+


lemma universe_lock_fields [simp]:
  "handles (u\<lparr>u_taken := b\<rparr>) = handles u" "universe_wf (u\<lparr>u_taken := b\<rparr>) = universe_wf u"
  by (simp_all add: handles_def universe_wf_def fun_eq_iff)

definition table_at :: "kstate \<Rightarrow> addr \<Rightarrow> user_universe \<Rightarrow> bool" where
  "table_at s a u \<longleftrightarrow> sget (universes s) a = Some u \<and> \<not> u_taken u \<and> universe_wf u"

text \<open>A reference may be stored in a universe: it is not a universe with a smaller id.\<close>

definition order_ok :: "user_ref \<Rightarrow> user_universe \<Rightarrow> kstate \<Rightarrow> bool" where
  "order_ok ref u s \<longleftrightarrow> (ref_type ref = USER_OBJ_TYPE_UNIVERSE \<longrightarrow>
     (\<exists>v. sget (universes s) (ref_ptr ref) = Some v \<and> u_id u \<le> u_id v))"

lemma alloc_cell_fields:
  "alloc_cell ok ref u = Some (Some (i, u')) \<Longrightarrow>
   u_taken u' = u_taken u \<and> u_id u' = u_id u \<and> u_refcount u' = u_refcount u"
  by (auto simp: alloc_cell_def split: list.splits if_splits)

lemma move_in_nolock_cases:
  assumes u: "sget (universes s) a = Some u" and wf: "universe_wf u" and ord: "order_ok ref u s"
  obtains (oom) n where
    "user_universe_move_in_nolock a ref s = Some ((USER_STATUS_OUT_OF_MEMORY, None), s\<lparr>alloc_calls := n\<rparr>)"
  | (ok) n i u' where
    "user_universe_move_in_nolock a ref s =
       Some ((USER_STATUS_SUCCESS, Some i), s\<lparr>alloc_calls := n, universes := sput (universes s) a u'\<rparr>)"
    "universe_wf u'" "handles u i = None" "handles u' = (handles u)(i \<mapsto> ref)"
    "u_taken u' = u_taken u" "u_id u' = u_id u" "u_refcount u' = u_refcount u"
proof -
  let ?ok = "alloc_outcome s (alloc_calls s)"
  define n where "n = (if u_free_list u = [] \<and> push_allocates (u_cells u) then Suc (alloc_calls s)
                       else alloc_calls s)"
  have bad: "cyclical_dep ref u s = Some False"
    using ord by (auto simp: order_ok_def cyclical_dep_def)
  have eq: "user_universe_move_in_nolock a ref s =
      (case alloc_cell ?ok ref u of
         None \<Rightarrow> None
       | Some None \<Rightarrow> Some ((USER_STATUS_OUT_OF_MEMORY, None), s\<lparr>alloc_calls := n\<rparr>)
       | Some (Some (i, u')) \<Rightarrow> Some ((USER_STATUS_SUCCESS, Some i),
            s\<lparr>alloc_calls := n, universes := sput (universes s) a u'\<rparr>))"
    using dynarray_push_None [of ?ok "u_cells u"]
    by (auto simp: user_universe_move_in_nolock_def u bad n_def alloc_cell_def put_universe_def
        kalloc_def Let_def split: list.split option.split)
  show thesis
  proof (rule universe.put_cases [OF wf, of ?ok ref])
    assume "alloc_cell ?ok ref u = Some None"
    then show thesis using eq oom by simp
  next
    fix i u'
    assume a: "alloc_cell ?ok ref u = Some (Some (i, u'))" "universe_wf u'" "handles u i = None"
      "handles u' = (handles u)(i \<mapsto> ref)"
    then show thesis using eq ok alloc_cell_fields [OF a(1)] by simp
  qed
qed

lemma universe_lock_eq:
  "table_at s a u \<Longrightarrow> universe_lock a s = Some (put_universe a (u\<lparr>u_taken := True\<rparr>) s)"
  by (simp add: table_at_def universe_lock_def put_universe_def)

lemma sget_put_universe [simp]:
  "sget (universes s) a = Some u \<Longrightarrow>
   sget (universes (put_universe a v s)) b = (if b = a then Some v else sget (universes s) b)"
  by (auto simp: put_universe_def store_simps dest: sget_Some_length)

lemma put_universe_twice [simp]: "put_universe a v (put_universe a w s) = put_universe a v s"
  by (simp add: put_universe_def store_simps)

text \<open>The effect of an operation on one universe: the heap may have been asked, the universe is
  replaced, nothing else changes.\<close>

definition only_universe :: "addr \<Rightarrow> user_universe \<Rightarrow> kstate \<Rightarrow> kstate \<Rightarrow> bool" where
  "only_universe a u s s' \<longleftrightarrow> (\<exists>n. s' = put_universe a u (s\<lparr>alloc_calls := n\<rparr>))"

lemma only_universe_self: "only_universe a u s (put_universe a u s)"
  unfolding only_universe_def by (rule exI [of _ "alloc_calls s"]) simp

text \<open>Two universes and an entry cookie: universe 0 holds a mailbox reference (handle 0), a reference
  pinned to another cookie (handle 1) and a free cell; universe 1 is empty.\<close>

definition example_refs :: "user_ref list" where
  "example_refs = [\<lparr>ref_ptr = 0, ref_type = USER_OBJ_TYPE_MAILBOX, pin_cookie = 1\<rparr>,
     \<lparr>ref_ptr = 0, ref_type = USER_OBJ_TYPE_MAILBOX, pin_cookie = 9\<rparr>]"

definition example_u0 :: user_universe where
  "example_u0 = \<lparr>u_refcount = 1, u_taken = False, u_free_list = [2], u_id = 2,
     u_cells = \<lparr>da_data = [\<lparr>in_use = True, cell_ref = example_refs ! 0\<rparr>,
       \<lparr>in_use = True, cell_ref = example_refs ! 1\<rparr>,
       \<lparr>in_use = False, cell_ref = example_refs ! 1\<rparr>], capacity = 16\<rparr>\<rparr>"

definition example_u1 :: user_universe where
  "example_u1 = \<lparr>u_refcount = 1, u_taken = False, u_free_list = [], u_id = 3,
     u_cells = \<lparr>da_data = [], capacity = 0\<rparr>\<rparr>"

definition example_entry :: user_entry_cookie where
  "example_entry = \<lparr>e_refcount = 1, e_key = 2, e_taken = False,
     e_grp_keys = \<lparr>da_data = [], capacity = 0\<rparr>\<rparr>"

definition universe_example :: kstate where
  "universe_example = init_kstate\<lparr>universes := [Some example_u0, Some example_u1],
     entries := [Some example_entry],
     mailboxes := [Some \<lparr>mb_shutdown_rc = 2, mb_dealloc_rc = 1, mb_msg_queue = [[]],
       mb_task_queue = [[]], mb_is_shut_down = False, mb_is_per_cpu = False\<rparr>]\<rparr>"

lemma example_wf: "universe_wf example_u0" "universe_wf example_u1"
proof -
  have "{i. i < 3 \<and> \<not> in_use ([\<lparr>in_use = True, cell_ref = a\<rparr>, \<lparr>in_use = True, cell_ref = b\<rparr>,
      \<lparr>in_use = False, cell_ref = c\<rparr>] ! i)} = {2}" for a b c
    by (auto simp: less_Suc_eq numeral_eq_Suc)
  then show "universe_wf example_u0"
    by (simp add: example_u0_def universe_wf_def dynarray_wf_def dynarray_len_def
        DYNARRAY_GROWTH_DELTA_def eval_nat_numeral)
qed (simp add: example_u1_def universe_wf_def dynarray_wf_def dynarray_len_def)

lemma example_tables:
  "table_at universe_example 0 example_u0" "table_at universe_example 1 example_u1"
  using example_wf
  by (simp_all add: universe_example_def table_at_def sget_def example_u0_def example_u1_def)

lemma example_cookie:
  "sget (entries universe_example) 0 = Some example_entry" "\<not> e_taken example_entry"
  "e_key example_entry \<noteq> 0" "entry_auth example_entry = {1, 2}"
  by (auto simp: universe_example_def example_entry_def sget_def entry_auth_def cookie_key_defs)

lemma example_handles: "handles example_u0 0 = Some (example_refs ! 0)"
  "handles example_u0 1 = Some (example_refs ! 1)" "length (cells example_u0) = 3"
  by (simp_all add: handles_def example_u0_def)

lemma move_in_spec:
  assumes t: "table_at s a u"
    and live: "ref_type ref = USER_OBJ_TYPE_UNIVERSE \<Longrightarrow> sget (universes s) (ref_ptr ref) \<noteq> None"
  shows "\<exists>st h u' s'. user_universe_move_in a ref s = Some ((st, h), s') \<and>
     only_universe a u' s s' \<and> \<not> u_taken u' \<and> universe_wf u' \<and>
     (st = USER_STATUS_SUCCESS \<and>
        (\<exists>i. h = Some i \<and> handles u i = None \<and> handles u' = (handles u)(i \<mapsto> ref)) \<or>
      st = USER_STATUS_OUT_OF_MEMORY \<and> h = None \<and> handles u' = handles u \<or>
      st = USER_STATUS_INVALID_UNIVERSE_ORDER \<and> h = None \<and> handles u' = handles u \<and>
        \<not> order_ok ref u s)"
proof -
  let ?ul = "u\<lparr>u_taken := True\<rparr>"
  let ?s = "put_universe a ?ul s"
  have u: "sget (universes s) a = Some u" "universe_wf u" "\<not> u_taken u" using t by (simp_all add: table_at_def)
  have ul: "sget (universes ?s) a = Some ?ul" using u(1) by simp
  have unl: "u\<lparr>u_taken := False\<rparr> = u" using u(3) by simp
  note defs = user_universe_move_in_def universe_lock_eq [OF t] universe_unlock_def ul
  show ?thesis
  proof (cases "order_ok ref u s")
    case True
    then have "order_ok ref ?ul ?s" using u(1) by (auto simp: order_ok_def)
    from ul _ this show ?thesis
    proof (rule move_in_nolock_cases)
      show "universe_wf ?ul" using u(2) by simp
    next
      fix n
      assume "user_universe_move_in_nolock a ref ?s =
        Some ((USER_STATUS_OUT_OF_MEMORY, None), ?s\<lparr>alloc_calls := n\<rparr>)"
      then have "user_universe_move_in a ref s =
          Some ((USER_STATUS_OUT_OF_MEMORY, None), put_universe a u (s\<lparr>alloc_calls := n\<rparr>))"
        using ul unl by (simp add: defs) (simp add: put_universe_def store_simps)
      then show ?thesis using u by (auto simp: only_universe_def)
    next
      fix n i u'
      assume m: "user_universe_move_in_nolock a ref ?s = Some ((USER_STATUS_SUCCESS, Some i),
          ?s\<lparr>alloc_calls := n, universes := sput (universes ?s) a u'\<rparr>)" "universe_wf u'"
        "handles ?ul i = None" "handles u' = (handles ?ul)(i \<mapsto> ref)"
      then have "user_universe_move_in a ref s = Some ((USER_STATUS_SUCCESS, Some i),
          put_universe a (u'\<lparr>u_taken := False\<rparr>) (s\<lparr>alloc_calls := n\<rparr>))"
        using u(1) sget_Some_length [OF u(1)]
        by (simp add: defs) (simp add: put_universe_def store_simps)
      then show ?thesis using m by (auto simp: only_universe_def)
    qed
  next
    case False
    then have "cyclical_dep ref ?ul ?s = Some True"
      using live u(1) by (auto simp: order_ok_def cyclical_dep_def)
    then have "user_universe_move_in a ref s =
        Some ((USER_STATUS_INVALID_UNIVERSE_ORDER, None), put_universe a u s)"
      using ul unl by (simp add: defs user_universe_move_in_nolock_def) (simp add: put_universe_def store_simps)
    moreover have "only_universe a u s (put_universe a u s)" by (rule only_universe_self)
    ultimately show ?thesis using False u by blast
  qed
qed


section \<open>Properties\<close>

text \<open>Storing a reference. On an unlocked well-formed universe \<open>user_universe_move_in\<close>
  returns with the universe unlocked and well-formed and nothing else changed; the assertion that
  free cells are not in use never fails. With status success a handle that was unused now denotes
  the reference and all other handles are as before; with any other status no handle changed, and
  the status is out-of-memory only if the heap refused, invalid-order only for a universe with a
  smaller id.\<close>

lemma move_in_correct:
  assumes t: "table_at s a u"
    and live: "ref_type ref = USER_OBJ_TYPE_UNIVERSE \<Longrightarrow> sget (universes s) (ref_ptr ref) \<noteq> None"
  shows "\<exists>st h u' s'. user_universe_move_in a ref s = Some ((st, h), s') \<and>
     only_universe a u' s s' \<and> \<not> u_taken u' \<and> universe_wf u' \<and>
     (st = USER_STATUS_SUCCESS \<and>
        (\<exists>i. h = Some i \<and> handles u i = None \<and> handles u' = (handles u)(i \<mapsto> ref)) \<or>
      st = USER_STATUS_OUT_OF_MEMORY \<and> h = None \<and> handles u' = handles u \<or>
      st = USER_STATUS_INVALID_UNIVERSE_ORDER \<and> h = None \<and> handles u' = handles u \<and>
        \<not> order_ok ref u s)"
  by (rule move_in_spec [OF assms])

section \<open>Operations on two universes\<close>

definition put2 :: "addr \<Rightarrow> user_universe \<Rightarrow> addr \<Rightarrow> user_universe \<Rightarrow> kstate \<Rightarrow> kstate" where
  "put2 a x b y s = s\<lparr>universes := sput (sput (universes s) b y) a x\<rparr>"

lemma put2_put2 [simp]: "a \<noteq> b \<Longrightarrow> put2 a x b y (put2 a x' b y' s) = put2 a x b y s"
  by (simp add: put2_def sput_swap [of a b] store_simps)

lemma put2_fields [simp]:
  "entries (put2 a x b y s) = entries s" "groups (put2 a x b y s) = groups s"
  "alloc_calls (put2 a x b y s) = alloc_calls s"
  "put2 a x b y s\<lparr>alloc_calls := n\<rparr> = put2 a x b y (s\<lparr>alloc_calls := n\<rparr>)"
  by (simp_all add: put2_def)

lemma sget_put2 [simp]:
  assumes "sget (universes s) a = Some u" "sget (universes s) b = Some v"
  shows "sget (universes (put2 a x b y s)) c =
    (if c = a then Some x else if c = b then Some y else sget (universes s) c)"
  using assms by (auto simp: put2_def store_simps dest: sget_Some_length)

lemma put2_update:
  "a \<noteq> b \<Longrightarrow> put_universe a x' (put2 a x b y s) = put2 a x' b y s"
  "a \<noteq> b \<Longrightarrow> (put2 a x b y s)\<lparr>universes := sput (universes (put2 a x b y s)) b y'\<rparr> = put2 a x b y' s"
  by (simp_all add: put2_def put_universe_def sput_swap [of a b] store_simps)

lemma lock_pair_eq:
  assumes "a \<noteq> b" "table_at s a u" "table_at s b v"
  shows "user_universe_lock_pair a b s = Some (put2 a (u\<lparr>u_taken := True\<rparr>) b (v\<lparr>u_taken := True\<rparr>) s)"
proof -
  have "put2 a (u\<lparr>u_taken := True\<rparr>) b (v\<lparr>u_taken := True\<rparr>) s =
      s\<lparr>universes := sput (sput (universes s) a (u\<lparr>u_taken := True\<rparr>)) b (v\<lparr>u_taken := True\<rparr>)\<rparr>"
    unfolding put2_def by (subst sput_swap [OF assms(1)]) (rule refl)
  then show ?thesis
    using assms
    by (cases "u_id u < u_id v")
      (simp_all add: user_universe_lock_pair_def universe_lock_def table_at_def store_simps,
        simp add: put2_def)
qed

lemma unlock_pair_eq:
  assumes "a \<noteq> b" "sget (universes s) a = Some u" "sget (universes s) b = Some v"
  shows "user_universe_unlock_pair a b s = Some (put2 a (u\<lparr>u_taken := False\<rparr>) b (v\<lparr>u_taken := False\<rparr>) s)"
proof -
  have "put2 a (u\<lparr>u_taken := False\<rparr>) b (v\<lparr>u_taken := False\<rparr>) s =
      s\<lparr>universes := sput (sput (universes s) a (u\<lparr>u_taken := False\<rparr>)) b (v\<lparr>u_taken := False\<rparr>)\<rparr>"
    unfolding put2_def by (subst sput_swap [OF assms(1)]) (rule refl)
  then show ?thesis
    using assms by (simp add: user_universe_unlock_pair_def universe_unlock_def store_simps)
qed

lemma check_ref_eq:
  "i \<noteq> length (cells u) \<Longrightarrow> user_universe_check_ref_nolock u i = Some (handles u i \<noteq> None)"
  by (simp add: user_universe_check_ref_nolock_def handles_def dynarray_len_def)

lemma handles_SomeD:
  "handles u i = Some ref \<Longrightarrow> i < length (cells u) \<and> in_use (cells u ! i) \<and> cell_ref (cells u ! i) = ref"
  by (simp add: handles_def split: if_splits)

text \<open>Locking the same universe twice: the source has no early return for equal universes.\<close>

lemma lock_pair_same:
  "table_at s a u \<Longrightarrow> user_universe_lock_pair a a s = None"
  by (auto simp: user_universe_lock_pair_def universe_lock_def table_at_def store_simps
      sget_Some_length)

text \<open>The state in which the two universes are replaced and nothing else happens.\<close>

definition only_universes ::
  "addr \<Rightarrow> user_universe \<Rightarrow> addr \<Rightarrow> user_universe \<Rightarrow> kstate \<Rightarrow> kstate \<Rightarrow> bool" where
  "only_universes a u b v s s' \<longleftrightarrow> (\<exists>n. s' = put2 a u b v (s\<lparr>alloc_calls := n\<rparr>))"

lemma only_universes_self: "only_universes a u b v s (put2 a u b v s)"
  unfolding only_universes_def by (rule exI [of _ "alloc_calls s"]) simp

lemma only_universesI: "only_universes a u b v s (put2 a u b v (s\<lparr>alloc_calls := n\<rparr>))"
  unfolding only_universes_def by blast

text \<open>C12: moving a reference between two universes transfers it exactly once or not at all.
  For distinct unlocked well-formed universes and an unlocked entry cookie the call returns, both
  universes are unlocked and well-formed afterwards and nothing else changed. It succeeds only if
  the source handle denotes a reference whose pin cookie the entry cookie authorises; then that
  handle is gone from the source and an unused handle of the destination denotes the same
  reference. Otherwise both tables are untouched; an unused handle is reported as invalid, a
  reference pinned to somebody else as a security violation.\<close>

theorem move_across_correct:
  assumes ab: "src \<noteq> dst" and u: "table_at s src u" and v: "table_at s dst v"
    and e: "sget (entries s) cookie = Some e" "\<not> e_taken e" "e_key e \<noteq> 0"
    and h: "hsrc \<noteq> length (cells u)"
    and live: "\<And>ref. handles u hsrc = Some ref \<Longrightarrow> ref_type ref = USER_OBJ_TYPE_UNIVERSE \<Longrightarrow>
      sget (universes s) (ref_ptr ref) \<noteq> None"
  shows "\<exists>st hd' u' v' s'. user_universe_move_across src dst hsrc cookie s = Some ((st, hd'), s') \<and>
     only_universes src u' dst v' s s' \<and> \<not> u_taken u' \<and> \<not> u_taken v' \<and>
     universe_wf u' \<and> universe_wf v' \<and>
     (case handles u hsrc of
        None \<Rightarrow> st = USER_STATUS_INVALID_HANDLE
      | Some ref \<Rightarrow> (pin_cookie ref \<notin> entry_auth e \<longleftrightarrow> st = USER_STATUS_SECURITY_VIOLATION)) \<and>
     (if st = USER_STATUS_SUCCESS
      then \<exists>ref i. handles u hsrc = Some ref \<and> pin_cookie ref \<in> entry_auth e \<and> hd' = Some i \<and>
         handles v i = None \<and> handles u' = (handles u)(hsrc := None) \<and>
         handles v' = (handles v)(i \<mapsto> ref)
      else hd' = None \<and> handles u' = handles u \<and> handles v' = handles v)"
proof -
  let ?ul = "u\<lparr>u_taken := True\<rparr>" and ?vl = "v\<lparr>u_taken := True\<rparr>"
  let ?s = "put2 src ?ul dst ?vl s"
  have su: "sget (universes s) src = Some u" "universe_wf u" "u\<lparr>u_taken := False\<rparr> = u" "\<not> u_taken u"
    and sv: "sget (universes s) dst = Some v" "universe_wf v" "v\<lparr>u_taken := False\<rparr> = v" "\<not> u_taken v"
    using u v by (simp_all add: table_at_def)
  note get = sget_put2 [OF su(1) sv(1)]
  have chk: "user_universe_check_ref_nolock ?ul hsrc = Some (handles u hsrc \<noteq> None)"
    using check_ref_eq [of hsrc ?ul] h by simp
  have auth: "user_unpinned_for ref cookie ?s = Some (pin_cookie ref \<in> entry_auth e, ?s)" for ref
    unfolding user_unpinned_for_def using e by (intro auth_eq) simp_all
  have unl: "user_universe_unlock_pair src dst ?s = Some (put2 src u dst v s)"
    using unlock_pair_eq [OF ab, of ?s ?ul ?vl] ab su sv get by simp
  note defs = user_universe_move_across_def lock_pair_eq [OF ab u v] get chk Let_def auth unl
  show ?thesis
  proof (cases "handles u hsrc")
    case None
    then have eq: "user_universe_move_across src dst hsrc cookie s =
        Some ((USER_STATUS_INVALID_HANDLE, None), put2 src u dst v s)"
      using ab by (simp add: defs)
    show ?thesis by (intro exI conjI, rule eq, rule only_universes_self) (use None su sv in auto)
  next
    case (Some ref)
    then have ref: "cell_ref (cells ?ul ! hsrc) = ref" using handles_SomeD by simp
    show ?thesis
    proof (cases "pin_cookie ref \<in> entry_auth e")
      case False
      then have eq: "user_universe_move_across src dst hsrc cookie s =
          Some ((USER_STATUS_SECURITY_VIOLATION, None), put2 src u dst v s)"
        using ab Some ref by (simp add: defs)
      show ?thesis by (intro exI conjI, rule eq, rule only_universes_self) (use Some False su sv in auto)
    next
      case True
      show ?thesis
      proof (cases "order_ok ref v s")
        case False
        then have "cyclical_dep ref ?vl ?s = Some True"
          using live [OF Some] get su(1) sv(1) by (auto simp: order_ok_def cyclical_dep_def)
        then have eq: "user_universe_move_across src dst hsrc cookie s =
            Some ((USER_STATUS_INVALID_UNIVERSE_ORDER, None), put2 src u dst v s)"
          using ab Some ref True by (simp add: defs user_universe_move_in_nolock_def)
        show ?thesis by (intro exI conjI, rule eq, rule only_universes_self) (use Some True su sv in auto)
      next
        case ord: True
        have vl: "sget (universes ?s) dst = Some ?vl" "universe_wf ?vl" "order_ok ref ?vl ?s"
          using ab get su(1) sv ord by (auto simp: order_ok_def)
        show ?thesis
        proof (rule move_in_nolock_cases [OF vl])
          fix n
          assume m: "user_universe_move_in_nolock dst ref ?s =
            Some ((USER_STATUS_OUT_OF_MEMORY, None), ?s\<lparr>alloc_calls := n\<rparr>)"
          have "user_universe_unlock_pair src dst (?s\<lparr>alloc_calls := n\<rparr>) =
              Some (put2 src u dst v (s\<lparr>alloc_calls := n\<rparr>))"
            using unlock_pair_eq [OF ab, of "?s\<lparr>alloc_calls := n\<rparr>" ?ul ?vl] ab su sv get by simp
          then have eq: "user_universe_move_across src dst hsrc cookie s =
              Some ((USER_STATUS_OUT_OF_MEMORY, None), put2 src u dst v (s\<lparr>alloc_calls := n\<rparr>))"
            using ab Some ref True m by (simp add: defs)
          show ?thesis
            by (intro exI conjI, rule eq, rule only_universesI) (use Some True su sv in auto)
        next
          fix n i v'
          let ?s2 = "?s\<lparr>alloc_calls := n, universes := sput (universes ?s) dst v'\<rparr>"
          assume m: "user_universe_move_in_nolock dst ref ?s = Some ((USER_STATUS_SUCCESS, Some i), ?s2)"
            "universe_wf v'" "handles ?vl i = None" "handles v' = (handles ?vl)(i \<mapsto> ref)"
          have s2: "?s2 = put2 src ?ul dst v' (s\<lparr>alloc_calls := n\<rparr>)"
            using put2_update(2) [OF ab, of ?ul ?vl "s\<lparr>alloc_calls := n\<rparr>" v'] by (simp add: put2_def)
          let ?u' = "(free_cell hsrc ?ul)\<lparr>u_taken := False\<rparr>" and ?v' = "v'\<lparr>u_taken := False\<rparr>"
          let ?s' = "put2 src ?u' dst ?v' (s\<lparr>alloc_calls := n\<rparr>)"
          have get': "sget (universes (put2 src x dst y (s\<lparr>alloc_calls := n\<rparr>))) c =
              (if c = src then Some x else if c = dst then Some y else sget (universes s) c)" for x y c
            using su sv by simp
          have "user_universe_unlock_pair src dst
              (put_universe src (free_cell hsrc ?ul) (put2 src ?ul dst v' (s\<lparr>alloc_calls := n\<rparr>))) = Some ?s'"
            unfolding put2_update(1) [OF ab] by (subst unlock_pair_eq [OF ab]) (use ab get' in auto)
          then have eq: "user_universe_move_across src dst hsrc cookie s =
              Some ((USER_STATUS_SUCCESS, Some i), ?s')"
            using ab Some ref True m(1) s2 get' by (simp add: defs)
          have free: "universe_wf (free_cell hsrc ?ul)"
              "handles (free_cell hsrc ?ul) = (handles u)(hsrc := None)"
            using free_cell_ok [of ?ul hsrc] su Some by auto
          show ?thesis
            by (intro exI conjI, rule eq, rule only_universesI) (use Some True m free in auto)
        qed
      qed
    qed
  qed
qed


theorem move_across_correct_witness:
  "(\<exists>st hd' u' v' s'. user_universe_move_across 0 1 1 0 universe_example = Some ((st, hd'), s') \<and>
     st = USER_STATUS_SECURITY_VIOLATION \<and> handles u' = handles example_u0 \<and>
     only_universes 0 u' 1 v' universe_example s')"
  using move_across_correct [OF _ example_tables example_cookie(1-3), of 1] example_handles example_cookie(4)
  by (auto simp: example_refs_def split: if_splits)

section \<open>Forking\<close>

lemma borrow_frame:
  assumes "mem_rc_borrow r s = Some s'"
  shows "sget (entries s) c = Some e \<Longrightarrow> \<exists>k. sget (entries s') c = Some (e\<lparr>e_refcount := k\<rparr>)"
    and "sget (universes s) a = Some u \<Longrightarrow> \<exists>k. sget (universes s') a = Some (u\<lparr>u_refcount := k\<rparr>)"
    and "length (universes s') = length (universes s)"
    and "rc_get q s' = (if q = r then map_option inc64 (rc_get r s) else rc_get q s)"
proof -
  obtain n where n: "rc_get r s = Some n" "s' = rc_set r (inc64 n) s"
    using assms by (auto simp: mem_rc_borrow_def bind_eq_Some_conv)
  have e: "e\<lparr>e_refcount := e_refcount e\<rparr> = e" and u: "u\<lparr>u_refcount := u_refcount u\<rparr> = u" by simp_all
  show "sget (entries s) c = Some e \<Longrightarrow> \<exists>k. sget (entries s') c = Some (e\<lparr>e_refcount := k\<rparr>)"
    using n(2) e by (cases r) (auto simp: store_simps intro: exI [of _ "e_refcount e"])
  show "sget (universes s) a = Some u \<Longrightarrow> \<exists>k. sget (universes s') a = Some (u\<lparr>u_refcount := k\<rparr>)"
    using n(2) u by (cases r) (auto simp: store_simps intro: exI [of _ "u_refcount u"])
  show "length (universes s') = length (universes s)"
    using n(2) by (cases r) simp_all
  show "rc_get q s' = (if q = r then map_option inc64 (rc_get r s) else rc_get q s)"
    using n rc_get_set [OF n(1), of q "inc64 n"] by simp
qed

text \<open>The references a fork takes along.\<close>

definition forked :: "user_entry_cookie \<Rightarrow> user_universe_cell \<Rightarrow> bool" where
  "forked e c \<longleftrightarrow> in_use c \<and> pin_cookie (cell_ref c) \<in> entry_auth e"

definition fork_rcs :: "user_entry_cookie \<Rightarrow> user_universe_cell list \<Rightarrow> rc_id option list" where
  "fork_rcs e cs = map (\<lambda>c. rc_of_ref (cell_ref c)) (filter (forked e) cs)"

text \<open>The cells \<open>cs\<close> of the fork and the state after the copy loop: the taken references are at
  their old handles, every counter went up by the number of references taken to it, and universes
  change in their counter only.\<close>

definition fork_result :: "user_entry_cookie \<Rightarrow> user_universe_cell list \<Rightarrow> user_universe_cell list \<Rightarrow>
    kstate \<Rightarrow> kstate \<Rightarrow> bool" where
  "fork_result e src cs s s' \<longleftrightarrow>
     length cs = length src \<and>
     (\<forall>k < length src. in_use (cs ! k) = forked e (src ! k) \<and>
        (forked e (src ! k) \<longrightarrow> cell_ref (cs ! k) = cell_ref (src ! k))) \<and>
     (\<forall>q. rc_get q s' = map_option (inc64 ^^ count_list (fork_rcs e src) (Some q)) (rc_get q s)) \<and>
     (\<forall>a u. sget (universes s) a = Some u \<longrightarrow> (\<exists>k. sget (universes s') a = Some (u\<lparr>u_refcount := k\<rparr>))) \<and>
     length (universes s') = length (universes s)"

lemma entry_auth_refcount [simp]:
  "entry_auth (e\<lparr>e_refcount := k\<rparr>) = entry_auth e" "forked (e\<lparr>e_refcount := k\<rparr>) = forked e"
  by (simp_all add: entry_auth_def forked_def fun_eq_iff)

lemma fork_cells_correct:
  assumes "length new = length src"
    and "sget (entries s) cookie = Some e" "\<not> e_taken e" "e_key e \<noteq> 0"
    and "\<forall>c \<in> set src. forked e c \<longrightarrow> (\<exists>r n. rc_of_ref (cell_ref c) = Some r \<and> rc_get r s = Some n)"
  shows "\<exists>cs s'. fork_cells src new i cookie s =
      Some (cs, map (\<lambda>k. i + k) (filter (\<lambda>k. \<not> forked e (src ! k)) [0 ..< length src]), s') \<and>
     fork_result e src cs s s'"
  using assms
proof (induction src arbitrary: new i s e)
  case Nil
  have "u\<lparr>u_refcount := u_refcount u\<rparr> = u" for u :: user_universe by simp
  then have "\<exists>k. u = u\<lparr>u_refcount := k\<rparr>" for u :: user_universe by metis
  then show ?case using Nil by (auto simp: fork_result_def fork_rcs_def option.map_ident option.map_id)
next
  case (Cons c src)
  then obtain n new' where new: "new = n # new'" "length new' = length src" by (cases new) auto
  have auth: "user_unpinned_for (cell_ref c) cookie s = Some (pin_cookie (cell_ref c) \<in> entry_auth e, s)"
    unfolding user_unpinned_for_def by (rule auth_eq [OF Cons.prems(2,3,4)])
  have shift: "[0 ..< length (c # src)] = 0 # map Suc [0 ..< length src]"
    by (simp add: upt_conv_Cons map_Suc_upt del: upt_Suc)
  show ?case
  proof (cases "forked e c")
    case False
    then have take: "(if in_use c then user_unpinned_for (cell_ref c) cookie s else Some (False, s)) = Some (False, s)"
      using auth by (auto simp: forked_def)
    obtain cs s' where IH: "fork_cells src new' (Suc i) cookie s =
        Some (cs, map (\<lambda>k. Suc i + k) (filter (\<lambda>k. \<not> forked e (src ! k)) [0 ..< length src]), s')"
      "fork_result e src cs s s'"
      using Cons.IH [OF new(2) Cons.prems(2-4), of "Suc i"] Cons.prems(5) by auto
    show ?thesis
      unfolding new(1) fork_cells.simps take shift
      using IH False
      by (auto simp: fork_result_def fork_rcs_def filter_map comp_def nth_Cons split: nat.split)
  next
    case True
    then have take: "(if in_use c then user_unpinned_for (cell_ref c) cookie s else Some (False, s)) = Some (True, s)"
      using auth by (auto simp: forked_def)
    obtain r m where r: "rc_of_ref (cell_ref c) = Some r" "rc_get r s = Some m"
      using Cons.prems(5) True by auto
    obtain s1 where s1: "mem_rc_borrow r s = Some s1" using r by (simp add: mem_rc_borrow_def)
    note fr = borrow_frame [OF s1]
    obtain k where e1: "sget (entries s1) cookie = Some (e\<lparr>e_refcount := k\<rparr>)"
      using fr(1) [OF Cons.prems(2)] by blast
    have live: "\<forall>c \<in> set src. forked (e\<lparr>e_refcount := k\<rparr>) c \<longrightarrow>
        (\<exists>r n. rc_of_ref (cell_ref c) = Some r \<and> rc_get r s1 = Some n)"
      using Cons.prems(5) fr(4) by fastforce
    obtain cs s' where IH: "fork_cells src new' (Suc i) cookie s1 =
        Some (cs, map (\<lambda>k. Suc i + k) (filter (\<lambda>k. \<not> forked e (src ! k)) [0 ..< length src]), s')"
      "fork_result e src cs s1 s'"
      using Cons.IH [OF new(2) e1 _ _ live, of "Suc i"] Cons.prems(3,4)
      by (auto simp: fork_result_def fork_rcs_def)
    note res = IH(2) [unfolded fork_result_def]
    have rcs: "rc_get q s' = map_option (inc64 ^^ count_list (fork_rcs e (c # src)) (Some q)) (rc_get q s)" for q
      using res fr(4) [of q] r True
      by (auto simp: fork_rcs_def option.map_comp comp_def funpow_swap1)
    have us: "\<exists>k. sget (universes s') a = Some (u\<lparr>u_refcount := k\<rparr>)"
      if "sget (universes s) a = Some u" for a u
      using fr(2) [OF that] res by fastforce
    show ?thesis
      unfolding new(1) fork_cells.simps take shift
      using IH(1) res True r s1 rcs us fr(3)
      by (auto simp: fork_result_def user_borrow_ref_def filter_map comp_def nth_Cons split: nat.split)
  qed
qed


lemma fork_result_handles:
  fixes i :: nat
  assumes "fork_result e (cells u) cs s s'"
    and "fl = filter (\<lambda>k. \<not> forked e (cells u ! k)) [0 ..< length (cells u)]"
    and "dynarray_wf d" "dynarray_len d = length (cells u)"
  defines "v \<equiv> \<lparr>u_refcount = 1, u_taken = False, u_free_list = fl, u_id = i, u_cells = d\<lparr>da_data := cs\<rparr>\<rparr>"
  shows "universe_wf v \<and> handles v = (\<lambda>h. case handles u h of None \<Rightarrow> None
     | Some ref \<Rightarrow> if pin_cookie ref \<in> entry_auth e then Some ref else None)"
proof
  show "universe_wf v"
    using assms by (auto simp: universe_wf_def fork_result_def dynarray_wf_def dynarray_len_def)
  show "handles v = (\<lambda>h. case handles u h of None \<Rightarrow> None
     | Some ref \<Rightarrow> if pin_cookie ref \<in> entry_auth e then Some ref else None)"
    using assms(1) by (auto simp: v_def fork_result_def handles_def forked_def fun_eq_iff)
qed


text \<open>The state in which the copy loop starts.\<close>

definition fork_start :: "addr \<Rightarrow> user_universe \<Rightarrow> kstate \<Rightarrow> kstate" where
  "fork_start src u s =
     (let s1 = s\<lparr>alloc_calls := Suc (Suc (alloc_calls s)),
        user_universe_last_id := inc64 (user_universe_last_id s),
        universes := sput (universes s) src (u\<lparr>u_taken := True\<rparr>)\<rparr> in
      if align_up (dynarray_len (u_cells u)) DYNARRAY_GROWTH_DELTA = 0 then s1
      else s1\<lparr>alloc_calls := Suc (Suc (Suc (alloc_calls s)))\<rparr>)"

lemma fork_eq:
  assumes u: "sget (universes s) src = Some u" "\<not> u_taken u" and mem: "\<forall>k. alloc_outcome s k"
    and d: "dynarray_resize True (junk_cell (uninit_word s)) \<lparr>da_data = [], capacity = 0\<rparr>
      (dynarray_len (u_cells u)) = Some d"
    and loop: "fork_cells (cells u) (da_data d) 0 cookie (fork_start src u s) = Some (cs, fl, s3)"
    and w: "sget (universes s3) src = Some w"
  shows "user_universe_fork src cookie s = Some ((USER_STATUS_SUCCESS, Some (length (universes s3))),
     s3\<lparr>universes := sput (universes s3) src (w\<lparr>u_taken := False\<rparr>) @
       [Some \<lparr>u_refcount = 1, u_taken = False, u_free_list = fl, u_id = user_universe_last_id s,
              u_cells = d\<lparr>da_data := cs\<rparr>\<rparr>]\<rparr>)"
  using u mem d loop w sget_Some_length [OF u(1)]
  by (cases "align_up (dynarray_len (u_cells u)) DYNARRAY_GROWTH_DELTA = 0")
    (simp_all add: user_universe_fork_def kalloc_def Let_def dynarray_new_def universe_lock_def
      universe_unlock_def snew_def fork_start_def store_simps)

lemma resize_ok: "\<exists>d'. dynarray_resize True junk d n = Some d'"
  by (simp add: dynarray_resize_def dynarray_change_cap_def Let_def)

text \<open>Forking a universe. With enough memory, an unlocked source and an unlocked entry cookie,
  \<open>user_universe_fork\<close> yields a new unlocked well-formed universe that holds, at the same handles,
  exactly the references of the source whose pin cookie the entry cookie authorises; every
  reference counter is incremented once per reference taken; the source keeps its handles.\<close>

lemma fork_correct:
  assumes u: "table_at s src u" and e: "sget (entries s) cookie = Some e" "\<not> e_taken e" "e_key e \<noteq> 0"
    and len: "length (cells u) + 15 < 2 ^ 64" and mem: "\<forall>k. alloc_outcome s k"
    and live: "\<forall>c \<in> set (cells u). forked e c \<longrightarrow>
      (\<exists>r n. rc_of_ref (cell_ref c) = Some r \<and> rc_get r s = Some n)"
  shows "\<exists>a v u' s'. user_universe_fork src cookie s = Some ((USER_STATUS_SUCCESS, Some a), s') \<and>
     table_at s' a v \<and> u_refcount v = 1 \<and>
     handles v = (\<lambda>h. case handles u h of None \<Rightarrow> None
        | Some ref \<Rightarrow> if pin_cookie ref \<in> entry_auth e then Some ref else None) \<and>
     table_at s' src u' \<and> handles u' = handles u \<and>
     (\<forall>q. q \<noteq> RcUniverse a \<longrightarrow>
        rc_get q s' = map_option (inc64 ^^ count_list (fork_rcs e (cells u)) (Some q)) (rc_get q s))"
proof -
  have su: "sget (universes s) src = Some u" "universe_wf u" "\<not> u_taken u" using u by (simp_all add: table_at_def)
  let ?s2 = "fork_start src u s" and ?fl = "filter (\<lambda>k. \<not> forked e (cells u ! k)) [0 ..< length (cells u)]"
  obtain d where d: "dynarray_resize True (junk_cell (uninit_word s)) \<lparr>da_data = [], capacity = 0\<rparr>
      (dynarray_len (u_cells u)) = Some d" using resize_ok by blast
  have dw: "dynarray_wf d" "dynarray_len d = length (cells u)"
    using dynarray_resize_wf [OF _ _ d] dynarray_resize_Some [OF d] len
    by (simp_all add: dynarray_len_def dynarray_wf_def)
  have s2: "entries ?s2 = entries s" "sget (universes ?s2) src = Some (u\<lparr>u_taken := True\<rparr>)"
      "rc_get q ?s2 = rc_get q s" for q
    using su(1) by (simp_all add: fork_start_def Let_def store_simps sget_Some_length)
      (cases q, auto simp: store_simps dest: sget_Some_length)
  obtain cs s3 where loop: "fork_cells (cells u) (da_data d) 0 cookie ?s2 = Some (cs, ?fl, s3)"
      "fork_result e (cells u) cs ?s2 s3"
    using fork_cells_correct [of "da_data d" "cells u" ?s2 cookie e 0] dw(2) e s2 live
    by (auto simp: dynarray_len_def)
  obtain k where w: "sget (universes s3) src = Some (u\<lparr>u_taken := True, u_refcount := k\<rparr>)"
    using loop(2) s2(2) unfolding fork_result_def by blast
  let ?u' = "u\<lparr>u_refcount := k, u_taken := False\<rparr>"
  let ?v = "\<lparr>u_refcount = 1, u_taken = False, u_free_list = ?fl, u_id = user_universe_last_id s,
     u_cells = d\<lparr>da_data := cs\<rparr>\<rparr>"
  let ?s' = "s3\<lparr>universes := sput (universes s3) src ?u' @ [Some ?v]\<rparr>"
  have eq: "user_universe_fork src cookie s =
      Some ((USER_STATUS_SUCCESS, Some (length (universes s3))), ?s')"
    using fork_eq [OF su(1,3) mem d loop(1) w] by simp
  have v: "universe_wf ?v \<and> handles ?v = (\<lambda>h. case handles u h of None \<Rightarrow> None
     | Some ref \<Rightarrow> if pin_cookie ref \<in> entry_auth e then Some ref else None)"
    by (rule fork_result_handles [OF loop(2) refl dw])
  have get: "sget (universes ?s') (length (universes s3)) = Some ?v" "sget (universes ?s') src = Some ?u'"
    using sget_Some_length [OF w] by (simp_all add: sget_def sput_def nth_append)
  have rc: "rc_get q ?s' = map_option (inc64 ^^ count_list (fork_rcs e (cells u)) (Some q)) (rc_get q s)"
    if "q \<noteq> RcUniverse (length (universes s3))" for q
  proof -
    have "rc_get q ?s' = rc_get q s3"
      using that w by (cases q) (auto simp: sget_def sput_def nth_append nth_list_update split: if_splits)
    then show ?thesis using loop(2) s2(3) by (simp add: fork_result_def)
  qed
  have "handles ?u' = handles u" "universe_wf ?u'"
    using su(2) by (simp_all add: handles_def universe_wf_def fun_eq_iff)
  then have tab: "table_at ?s' (length (universes s3)) ?v" "table_at ?s' src ?u'" "handles ?u' = handles u"
    using v get by (simp_all add: table_at_def)
  show ?thesis
    by (rule exI [of _ "length (universes s3)"], rule exI [of _ ?v], rule exI [of _ ?u'], rule exI [of _ ?s'])
      (use eq tab v rc in simp)
qed


section \<open>Pairs, pins and drops\<close>

text \<open>Two references are stored together or not at all: when the second one does not fit, the
  cell of the first is given back and every handle is as before.\<close>

lemma move_in_pair_correct:
  assumes t: "table_at s a u"
    and ty: "ref_type r0 \<noteq> USER_OBJ_TYPE_UNIVERSE" "ref_type r1 \<noteq> USER_OBJ_TYPE_UNIVERSE"
  shows "\<exists>st h u' s'. user_universe_move_in_pair a r0 r1 s = Some ((st, h), s') \<and>
     only_universe a u' s s' \<and> \<not> u_taken u' \<and> universe_wf u' \<and>
     (case h of
        Some (i, j) \<Rightarrow> st = USER_STATUS_SUCCESS \<and> i \<noteq> j \<and> handles u i = None \<and> handles u j = None \<and>
          handles u' = (handles u)(i \<mapsto> r0, j \<mapsto> r1)
      | None \<Rightarrow> st = USER_STATUS_OUT_OF_MEMORY \<and> handles u' = handles u)"
proof -
  have u: "sget (universes s) a = Some u" "universe_wf u" "u\<lparr>u_taken := False\<rparr> = u" "\<not> u_taken u"
    using t by (simp_all add: table_at_def)
  note len = sget_Some_length [OF u(1)]
  let ?ul = "u\<lparr>u_taken := True\<rparr>"
  let ?s = "put_universe a ?ul s"
  have ul: "sget (universes ?s) a = Some ?ul" "universe_wf ?ul" "order_ok r0 ?ul ?s"
    using u ty by (simp_all add: order_ok_def)
  note defs = user_universe_move_in_pair_def ty universe_lock_eq [OF t] universe_unlock_def
    put_universe_def store_simps only_universe_def
  show ?thesis
  proof (rule move_in_nolock_cases [OF ul])
    fix n
    assume "user_universe_move_in_nolock a r0 ?s = Some ((USER_STATUS_OUT_OF_MEMORY, None), ?s\<lparr>alloc_calls := n\<rparr>)"
    then have "user_universe_move_in_pair a r0 r1 s =
        Some ((USER_STATUS_OUT_OF_MEMORY, None), put_universe a u (s\<lparr>alloc_calls := n\<rparr>))"
      using u(1) len by (simp add: defs u(3))
    then show ?thesis using u by (fastforce simp: only_universe_def)
  next
    fix n i u1
    assume m: "user_universe_move_in_nolock a r0 ?s = Some ((USER_STATUS_SUCCESS, Some i),
        ?s\<lparr>alloc_calls := n, universes := sput (universes ?s) a u1\<rparr>)" "universe_wf u1"
      "handles ?ul i = None" "handles u1 = (handles ?ul)(i \<mapsto> r0)"
    let ?s1 = "s\<lparr>alloc_calls := n, universes := sput (universes s) a u1\<rparr>"
    have s1: "?s\<lparr>alloc_calls := n, universes := sput (universes ?s) a u1\<rparr> = ?s1"
      by (simp add: put_universe_def store_simps)
    have u1: "sget (universes ?s1) a = Some u1" "order_ok r1 u1 ?s1"
      using len ty by (simp_all add: store_simps order_ok_def)
    show ?thesis
    proof (rule move_in_nolock_cases [OF u1(1) m(2) u1(2)])
      fix k
      assume "user_universe_move_in_nolock a r1 ?s1 =
        Some ((USER_STATUS_OUT_OF_MEMORY, None), ?s1\<lparr>alloc_calls := k\<rparr>)"
      then have "user_universe_move_in_pair a r0 r1 s = Some ((USER_STATUS_OUT_OF_MEMORY, None),
          put_universe a ((free_cell i u1)\<lparr>u_taken := False\<rparr>) (s\<lparr>alloc_calls := k\<rparr>))"
        using m(1) s1 u len by (simp add: defs)
      moreover have "universe_wf (free_cell i u1)" "handles (free_cell i u1) = handles u"
        using free_cell_ok [OF m(2), of i] m(3,4) by auto
      ultimately show ?thesis by (fastforce simp: only_universe_def)
    next
      fix k j u2
      assume p: "user_universe_move_in_nolock a r1 ?s1 = Some ((USER_STATUS_SUCCESS, Some j),
          ?s1\<lparr>alloc_calls := k, universes := sput (universes ?s1) a u2\<rparr>)" "universe_wf u2"
        "handles u1 j = None" "handles u2 = (handles u1)(j \<mapsto> r1)"
      then have "user_universe_move_in_pair a r0 r1 s = Some ((USER_STATUS_SUCCESS, Some (i, j)),
          put_universe a (u2\<lparr>u_taken := False\<rparr>) (s\<lparr>alloc_calls := k\<rparr>))"
        using m(1) s1 u len by (simp add: defs)
      moreover have "i \<noteq> j" using p(3) m(4) by auto
      ultimately show ?thesis using m p by (fastforce simp: only_universe_def)
    qed
  qed
qed

text \<open>Dropping a handle respects pins. A reference pinned to a key the entry cookie does not
  authorise is refused and nothing at all changes; otherwise the cell becomes free and the
  reference is dropped, with the universe already unlocked, so that the destructors the drop may
  run can use it.\<close>

lemma drop_cell_correct:
  assumes t: "table_at s a u" and e: "sget (entries s) cookie = Some e" "\<not> e_taken e" "e_key e \<noteq> 0"
    and h: "handles u h = Some ref"
  shows "user_universe_drop_cell a h cookie s =
     (if pin_cookie ref \<in> entry_auth e
      then map_option (\<lambda>s'. (USER_STATUS_SUCCESS, s')) (user_drop_ref ref (put_universe a (free_cell h u) s))
      else Some (USER_STATUS_SECURITY_VIOLATION, s)) \<and>
     table_at (put_universe a (free_cell h u) s) a (free_cell h u) \<and>
     handles (free_cell h u) = (handles u)(h := None)"
proof -
  have u: "sget (universes s) a = Some u" "universe_wf u" "u\<lparr>u_taken := False\<rparr> = u" "\<not> u_taken u"
    using t by (simp_all add: table_at_def)
  note len = sget_Some_length [OF u(1)]
  let ?ul = "u\<lparr>u_taken := True\<rparr>"
  let ?s = "put_universe a ?ul s"
  note hd' = handles_SomeD [OF h]
  have chk: "user_universe_check_ref_nolock ?ul h = Some True"
    using check_ref_eq [of h ?ul] hd' h by simp
  have auth: "user_unpinned_for ref cookie ?s = Some (pin_cookie ref \<in> entry_auth e, ?s)"
    unfolding user_unpinned_for_def using e by (intro auth_eq) (simp_all add: put_universe_def)
  have ul: "sget (universes ?s) a = Some ?ul" using u(1) by simp
  have "put_universe a u s = s" using sput_same [OF u(1)] by (simp add: put_universe_def)
  then have unl0: "universe_unlock a ?s = Some s"
    using ul u(3) by (simp add: universe_unlock_def) (simp add: put_universe_def store_simps)
  have fr: "(free_cell h ?ul)\<lparr>u_taken := False\<rparr> = free_cell h u"
    using u(4) by (simp add: free_cell_def set_cell_def)
  have unl: "universe_unlock a (put_universe a (free_cell h ?ul) s) = Some (put_universe a (free_cell h u) s)"
    using u(1) fr by (simp add: universe_unlock_def) (simp add: put_universe_def store_simps)
  have "user_universe_drop_cell a h cookie s =
     (if pin_cookie ref \<in> entry_auth e
      then map_option (\<lambda>s'. (USER_STATUS_SUCCESS, s')) (user_drop_ref ref (put_universe a (free_cell h u) s))
      else Some (USER_STATUS_SECURITY_VIOLATION, s))"
    using ul hd' auth chk unl0 unl
    by (cases "user_drop_ref ref (put_universe a (free_cell h u) s)")
      (simp_all add: user_universe_drop_cell_def universe_lock_eq [OF t] Let_def)
  moreover have "sget (universes (put_universe a (free_cell h u) s)) a = Some (free_cell h u)"
    using u(1) by simp
  ultimately show ?thesis
    using free_cell_ok [OF u(2), of h] h u(4) by (simp add: table_at_def)
qed

lemma unlock_put:
  "sget (universes s) a = Some u \<Longrightarrow>
   universe_unlock a (put_universe a w s) = Some (put_universe a (w\<lparr>u_taken := False\<rparr>) s)"
  by (simp add: universe_unlock_def) (simp add: put_universe_def store_simps)

lemma put_universe_same: "sget (universes s) a = Some u \<Longrightarrow> put_universe a u s = s"
  by (simp add: put_universe_def sput_same)

lemma set_pin_ok:
  assumes "handles u h = Some ref" "universe_wf u"
  shows "universe_wf (set_pin h key u) \<and> handles (set_pin h key u) = (handles u)(h \<mapsto> ref\<lparr>pin_cookie := key\<rparr>) \<and>
     u_taken (set_pin h key u) = u_taken u"
proof -
  note h = handles_SomeD [OF assms(1)]
  have "in_use (cells (set_pin h key u) ! i) = in_use (cells u ! i)" if "i < length (cells u)" for i
    using h that by (simp add: set_pin_def nth_list_update)
  then have "universe_wf (set_pin h key u)"
    using assms(2) by (auto simp: universe_wf_def set_pin_def)
  moreover have "handles (set_pin h key u) = (handles u)(h \<mapsto> ref\<lparr>pin_cookie := key\<rparr>)"
    using h by (auto simp: handles_def set_pin_def nth_list_update fun_eq_iff)
  ultimately show ?thesis by (simp add: set_pin_def)
qed

lemma drop_cell_refused:
  assumes t: "table_at s a u" and e: "sget (entries s) cookie = Some e" "\<not> e_taken e" "e_key e \<noteq> 0"
    and h: "handles u h = Some ref" "pin_cookie ref \<notin> entry_auth e"
  shows "user_universe_drop_cell a h cookie s = Some (USER_STATUS_SECURITY_VIOLATION, s)"
proof -
  have u: "sget (universes s) a = Some u" "u\<lparr>u_taken := False\<rparr> = u" using t by (simp_all add: table_at_def)
  let ?ul = "u\<lparr>u_taken := True\<rparr>"
  let ?s = "put_universe a ?ul s"
  note hd' = handles_SomeD [OF h(1)]
  have "user_unpinned_for ref cookie ?s = Some (False, ?s)"
    unfolding user_unpinned_for_def using auth_eq [of ?s cookie e] e h(2) by (simp add: put_universe_def)
  moreover have "user_universe_check_ref_nolock ?ul h = Some True"
    using check_ref_eq [of h ?ul] hd' h by simp
  moreover have "sget (universes ?s) a = Some ?ul" using u(1) by simp
  ultimately show ?thesis
    using hd' by (simp add: user_universe_drop_cell_def universe_lock_eq [OF t] Let_def
        unlock_put [OF u(1)] put_universe_same [OF u(1)] u(2))
qed

text \<open>Pinning. A holder of an entry cookie can pin a reference that is unpinned or already
  pinned to itself; the handle then carries the cookie's own key and nothing else changes. A
  reference pinned to any other key is refused and the state is untouched. Until it is unpinned, a
  cookie that does not authorise that key cannot drop the handle.\<close>

lemma pin_correct:
  assumes t: "table_at s a u" and e: "sget (entries s) cookie = Some e"
    and h: "handles u h = Some ref"
    and e2: "sget (entries s) cookie2 = Some e2" "\<not> e_taken e2" "e_key e2 \<noteq> 0" "e_key e \<notin> entry_auth e2"
  shows "if pin_cookie ref \<in> {USER_COOKIE_KEY_UNIVERSAL, e_key e}
     then \<exists>u'. user_universe_pin a h cookie s = Some (USER_STATUS_SUCCESS, put_universe a u' s) \<and>
       table_at (put_universe a u' s) a u' \<and>
       handles u' = (handles u)(h \<mapsto> ref\<lparr>pin_cookie := e_key e\<rparr>) \<and>
       user_universe_drop_cell a h cookie2 (put_universe a u' s) =
         Some (USER_STATUS_SECURITY_VIOLATION, put_universe a u' s)
     else user_universe_pin a h cookie s = Some (USER_STATUS_SECURITY_VIOLATION, s)"
proof -
  have u: "sget (universes s) a = Some u" "universe_wf u" "\<not> u_taken u" using t by (simp_all add: table_at_def)
  have eqF: "u\<lparr>u_taken := False\<rparr> = u" using u(3) by simp
  let ?ul = "u\<lparr>u_taken := True\<rparr>"
  note hd' = handles_SomeD [OF h]
  have chk: "user_universe_check_ref_nolock ?ul h = Some True"
    using check_ref_eq [of h ?ul] hd' h by simp
  have ul: "sget (universes (put_universe a ?ul s)) a = Some ?ul"
      "entries (put_universe a ?ul s) = entries s"
    using u(1) by (simp, simp add: put_universe_def)
  note defs = user_universe_pin_def universe_lock_eq [OF t] user_entry_cookie_get_key_def Let_def
    unlock_put [OF u(1)] put_universe_same [OF u(1)]
  show ?thesis
  proof (cases "pin_cookie ref \<in> {USER_COOKIE_KEY_UNIVERSAL, e_key e}")
    case False
    then show ?thesis using ul chk hd' e by (simp add: defs eqF)
  next
    case True
    define u' where "u' = (set_pin h (e_key e) ?ul)\<lparr>u_taken := False\<rparr>"
    have "user_universe_pin a h cookie s = Some (USER_STATUS_SUCCESS, put_universe a u' s)"
      using True ul chk hd' e by (auto simp: defs u'_def)
    moreover have u': "universe_wf u'" "handles u' = (handles u)(h \<mapsto> ref\<lparr>pin_cookie := e_key e\<rparr>)"
        "\<not> u_taken u'"
      using set_pin_ok [of ?ul h ref "e_key e"] h u(2) by (simp_all add: u'_def)
    moreover have "table_at (put_universe a u' s) a u'" using u' u(1) by (simp add: table_at_def)
    moreover have "user_universe_drop_cell a h cookie2 (put_universe a u' s) =
        Some (USER_STATUS_SECURITY_VIOLATION, put_universe a u' s)"
      using drop_cell_refused [OF \<open>table_at (put_universe a u' s) a u'\<close>, of cookie2 e2 h] e2 u'(2)
      by (simp add: put_universe_def)
    ultimately show ?thesis using True by auto
  qed
qed

text \<open>C34: the two defects of handle checking in the source. A handle equal to the number of cells
  passes the bounds check and reads behind the array; moving a reference within one universe locks
  its mutex a second time and never returns.\<close>

theorem handle_check_defects:
  assumes "table_at s a u"
  shows "user_universe_check_ref_nolock u (length (cells u)) = None \<and>
     user_universe_borrow_out a (length (cells u)) s = None \<and>
     (\<forall>h. length (cells u) < h \<longrightarrow> user_universe_check_ref_nolock u h = Some False) \<and>
     (\<forall>h cookie. user_universe_move_across a a h cookie s = None)"
proof -
  have "sget (universes (put_universe a (u\<lparr>u_taken := True\<rparr>) s)) a = Some (u\<lparr>u_taken := True\<rparr>)"
    using assms by (simp add: table_at_def)
  then show ?thesis
    using lock_pair_same [OF assms]
    by (simp add: user_universe_check_ref_nolock_def dynarray_len_def user_universe_borrow_out_def
        universe_lock_eq [OF assms] user_universe_move_across_def)
qed

theorem handle_check_defects_witness:
  "user_universe_borrow_out 0 3 universe_example = None \<and>
   user_universe_move_across 0 0 0 0 universe_example = None"
  using handle_check_defects [OF example_tables(1)] example_handles(3) by simp

end
