(* ===== verification/Rpc.thy ===== *)
theory Rpc
  imports Notifications
begin

text \<open>
  \<^verbatim>\<open>user/rpc.c\<close>: callers, callees and the containers that travel between them. A request's
  container goes from the caller's pool of free containers to the callee's incoming queue
  (\<open>user_rpc_initiate\<close>), from there into the callee's map of accepted requests under a fresh
  sequence number (\<open>user_rpc_accept\<close>), with the result into the caller's queue of replies
  (\<open>user_rpc_return\<close>) and back into the pool (\<open>user_rpc_get_result\<close>). A token is identified
  with the callee it is embedded in.
\<close>

definition USER_RPC_MAX_PAYLOAD_SIZE :: nat where
  "USER_RPC_MAX_PAYLOAD_SIZE = 112"

section \<open>Creation\<close>

definition user_rpc_create_caller ::
  "addr \<Rightarrow> nat \<Rightarrow> kstate \<Rightarrow> ((user_status \<times> addr option) \<times> kstate) option" where
  "user_rpc_create_caller mailbox opaque s =
     (let (ok, s) = kalloc s in
      if \<not> ok then Some ((USER_STATUS_OUT_OF_MEMORY, None), s)
      else do {
        ((status, raiser), s) \<leftarrow> user_create_raiser mailbox
            \<lparr>note_type = USER_NOTE_TYPE_RPC_REPLY, note_opaque = opaque\<rparr> s;
        if status \<noteq> USER_STATUS_SUCCESS then Some ((status, None), s)
        else do {
          r \<leftarrow> raiser;
          let (a, cs) = snew (callers s)
             \<lparr>cr_shutdown_rc = 1, cr_dealloc_rc = 1, cr_raiser = r, cr_free_containers = [],
              cr_incoming_replies = [], cr_is_shut_down = False\<rparr>;
          Some ((USER_STATUS_SUCCESS, Some a), s\<lparr>callers := cs\<rparr>) }})"

text \<open>When the bucket array cannot be allocated, the function returns \<open>status\<close>, which is still
  the success of the raiser's creation, without storing a callee or a token.\<close>

definition user_rpc_create_callee ::
  "addr \<Rightarrow> nat \<Rightarrow> nat \<Rightarrow> kstate \<Rightarrow> ((user_status \<times> addr option) \<times> kstate) option" where
  "user_rpc_create_callee mailbox opaque buckets s =
     (let (ok, s) = kalloc s in
      if \<not> ok then Some ((USER_STATUS_OUT_OF_MEMORY, None), s)
      else do {
        ((status, raiser), s) \<leftarrow> user_create_raiser mailbox
            \<lparr>note_type = USER_NOTE_TYPE_RPC_INCOMING, note_opaque = opaque\<rparr> s;
        if status \<noteq> USER_STATUS_SUCCESS then Some ((status, None), s)
        else do {
          r \<leftarrow> raiser;
          let (ok, s) = kalloc s;
          (case intmap_init ok (if buckets = 0 then 1 else buckets) of
             None \<Rightarrow> do { s \<leftarrow> mem_rc_drop (RcRaiser r) s; Some ((status, None), s) }
           | Some im \<Rightarrow> do {
               let (a, cs) = snew (callees s)
                  \<lparr>ce_shutdown_rc = 1, ce_dealloc_rc = 2, ce_token_rc = 1, ce_raiser = r,
                   ce_incoming_rpcs = [], ce_awaiting_reply = im, ce_seq = 0,
                   ce_is_shut_down = False\<rparr>;
               Some ((USER_STATUS_SUCCESS, Some a), s\<lparr>callees := cs\<rparr>) }) }})"

section \<open>Messages\<close>

definition user_rpc_copy_contents_from_user :: "user_rpc_msg \<Rightarrow> user_rpc_msg \<Rightarrow> user_rpc_msg option" where
  "user_rpc_copy_contents_from_user dst src =
     (let len = msg_len src in
      if len > USER_RPC_MAX_PAYLOAD_SIZE then None
      else Some (dst\<lparr>msg_len := len, msg_payload := take len (msg_payload src) @ drop len (msg_payload dst)\<rparr>))"

definition user_rpc_copy_contents_from_kernel :: "user_rpc_msg \<Rightarrow> user_rpc_msg \<Rightarrow> user_rpc_msg" where
  "user_rpc_copy_contents_from_kernel dst src =
     (let len = msg_len src in
      dst\<lparr>msg_len := len, msg_payload := take len (msg_payload src) @ drop len (msg_payload dst)\<rparr>)"

text \<open>A container fresh from the heap.\<close>

definition uninit_container :: "(nat \<Rightarrow> nat) \<Rightarrow> user_rpc_container" where
  "uninit_container w = \<lparr>ct_message = \<lparr>msg_opaque = w 0, msg_status = w 1, msg_len = w 2,
      msg_payload = map w [3 ..< 3 + USER_RPC_MAX_PAYLOAD_SIZE]\<rparr>,
     ct_client_opaque = w 0, ct_key = w 0, ct_caller = w 0\<rparr>"

section \<open>Requests and replies\<close>

text \<open>\<open>QUEUE_DEQUEUE(&caller->free_containers, ...)\<close>, or the heap.\<close>

definition take_container :: "addr \<Rightarrow> user_rpc_caller \<Rightarrow> kstate \<Rightarrow> addr option \<times> kstate" where
  "take_container caller c s =
     (case cr_free_containers c of
        ct # rest \<Rightarrow> (Some ct, s\<lparr>callers := sput (callers s) caller (c\<lparr>cr_free_containers := rest\<rparr>)\<rparr>)
      | [] \<Rightarrow> let (ok, s) = kalloc s in
             if ok then let (a, cts) = snew (containers s) (uninit_container (uninit_word s))
                        in (Some a, s\<lparr>containers := cts\<rparr>)
             else (None, s))"

definition put_container_back :: "addr \<Rightarrow> addr \<Rightarrow> kstate \<Rightarrow> kstate" where
  "put_container_back caller container s =
     s\<lparr>callers := smod (\<lambda>c. c\<lparr>cr_free_containers := cr_free_containers c @ [container]\<rparr>) (callers s) caller\<rparr>"

definition user_rpc_initiate :: "addr \<Rightarrow> addr \<Rightarrow> user_rpc_msg \<Rightarrow> kstate \<Rightarrow> (user_status \<times> kstate) option" where
  "user_rpc_initiate caller token msg s = do {
     c \<leftarrow> sget (callers s) caller;
     if cr_is_shut_down c then None
     else do {
       let (container, s) = take_container caller c s;
       (case container of
          None \<Rightarrow> Some (USER_STATUS_OUT_OF_MEMORY, s)
        | Some container \<Rightarrow> do {
            ct \<leftarrow> sget (containers s) container;
            case user_rpc_copy_contents_from_user (ct_message ct) msg of
              None \<Rightarrow> Some (USER_STATUS_INVALID_MSG, put_container_back caller container s)
            | Some message \<Rightarrow> do {
                s \<leftarrow> mem_rc_borrow (RcCallerDealloc caller) s;
                let s = s\<lparr>containers := sput (containers s) container
                     (ct\<lparr>ct_message := message\<lparr>msg_status := msg_status msg\<rparr>,
                         ct_client_opaque := msg_opaque msg, ct_caller := caller\<rparr>)\<rparr>;
                callee \<leftarrow> sget (callees s) token;
                if ce_is_shut_down callee then do {
                  c \<leftarrow> sget (callers s) caller;
                  if cr_is_shut_down c then None
                  else Some (USER_STATUS_TARGET_UNREACHABLE, put_container_back caller container s) }
                else do {
                  let s = s\<lparr>callees := sput (callees s) token
                       (callee\<lparr>ce_incoming_rpcs := ce_incoming_rpcs callee @ [container]\<rparr>)\<rparr>;
                  s \<leftarrow> user_send_notification (ce_raiser callee) s;
                  Some (USER_STATUS_SUCCESS, s) }}}) }}"

definition user_rpc_accept ::
  "addr \<Rightarrow> user_rpc_msg \<Rightarrow> kstate \<Rightarrow> ((user_status \<times> user_rpc_msg) \<times> kstate) option" where
  "user_rpc_accept callee msg s = do {
     c \<leftarrow> sget (callees s) callee;
     if ce_is_shut_down c then None
     else case ce_incoming_rpcs c of
       [] \<Rightarrow> Some ((USER_STATUS_EMPTY, msg), s)
     | container # rest \<Rightarrow> do {
         ct \<leftarrow> sget (containers s) container;
         let seq = ce_seq c;
         im \<leftarrow> intmap_insert fst (ce_awaiting_reply c) (seq, container);
         let msg = (user_rpc_copy_contents_from_kernel msg (ct_message ct))
              \<lparr>msg_opaque := seq, msg_status := msg_status (ct_message ct)\<rparr>;
         Some ((USER_STATUS_SUCCESS, msg),
           s\<lparr>callees := sput (callees s) callee
                (c\<lparr>ce_incoming_rpcs := rest, ce_awaiting_reply := im, ce_seq := inc64 seq\<rparr>),
             containers := sput (containers s) container (ct\<lparr>ct_key := seq\<rparr>)\<rparr>) }}"

definition user_rpc_return :: "addr \<Rightarrow> user_rpc_msg \<Rightarrow> kstate \<Rightarrow> (user_status \<times> kstate) option" where
  "user_rpc_return callee msg s = do {
     c \<leftarrow> sget (callees s) callee;
     if ce_is_shut_down c then None
     else do {
       found \<leftarrow> intmap_search fst (ce_awaiting_reply c) (msg_opaque msg);
       case found of
         None \<Rightarrow> Some (USER_STATUS_INVALID_RPC_ID, s)
       | Some (key, container) \<Rightarrow> do {
           ct \<leftarrow> sget (containers s) container;
           case user_rpc_copy_contents_from_user (ct_message ct) msg of
             None \<Rightarrow> Some (USER_STATUS_INVALID_MSG, s)
           | Some message \<Rightarrow> do {
               im \<leftarrow> intmap_remove fst (ce_awaiting_reply c) (key, container);
               let s = s\<lparr>containers := sput (containers s) container
                          (ct\<lparr>ct_message := message\<lparr>msg_status := msg_status msg\<rparr>\<rparr>),
                         callees := sput (callees s) callee (c\<lparr>ce_awaiting_reply := im\<rparr>)\<rparr>;
               s \<leftarrow> rpc_reply container s;
               Some (USER_STATUS_SUCCESS, s) }}}}"

definition user_rpc_get_result ::
  "addr \<Rightarrow> user_rpc_msg \<Rightarrow> kstate \<Rightarrow> ((user_status \<times> user_rpc_msg) \<times> kstate) option" where
  "user_rpc_get_result caller msg s = do {
     c \<leftarrow> sget (callers s) caller;
     if cr_is_shut_down c then None
     else case cr_incoming_replies c of
       [] \<Rightarrow> Some ((USER_STATUS_EMPTY, msg), s)
     | container # rest \<Rightarrow> do {
         ct \<leftarrow> sget (containers s) container;
         let msg = (user_rpc_copy_contents_from_kernel msg (ct_message ct))
              \<lparr>msg_opaque := ct_client_opaque ct, msg_status := msg_status (ct_message ct)\<rparr>;
         Some ((USER_STATUS_SUCCESS, msg),
           s\<lparr>callers := sput (callers s) caller
                (c\<lparr>cr_incoming_replies := rest,
                   cr_free_containers := cr_free_containers c @ [container]\<rparr>)\<rparr>) }}"


section \<open>Notifications never block a request\<close>

definition can_notify :: "kstate \<Rightarrow> addr \<Rightarrow> bool" where
  "can_notify s a \<longleftrightarrow> (\<exists>r mb. sget (raisers s) a = Some r \<and> sget (mailboxes s) (r_mailbox r) = Some mb \<and>
     (mb_is_shut_down mb \<or>
      (let i = lg_index (mb_is_per_cpu mb) (logical_id s) in
       i < length (r_pending r) \<and> i < length (mb_msg_queue mb) \<and> i < length (mb_task_queue mb))))"

text \<open>Two states that differ in raisers, mailboxes and woken tasks only, with all of these still
  of the same shape.\<close>

definition raiser_shape :: "user_raiser \<Rightarrow> addr \<times> nat" where
  "raiser_shape r = (r_mailbox r, length (r_pending r))"

definition mailbox_shape :: "user_mailbox \<Rightarrow> bool \<times> bool \<times> nat \<times> nat" where
  "mailbox_shape mb = (mb_is_shut_down mb, mb_is_per_cpu mb, length (mb_msg_queue mb), length (mb_task_queue mb))"

definition forget_notes :: "kstate \<Rightarrow> kstate" where
  "forget_notes s = s\<lparr>mailboxes := [], raisers := [], woken := []\<rparr>"

definition notes_only :: "kstate \<Rightarrow> kstate \<Rightarrow> bool" where
  "notes_only s s' \<longleftrightarrow> forget_notes s' = forget_notes s \<and>
     map (map_option raiser_shape) (raisers s') = map (map_option raiser_shape) (raisers s) \<and>
     map (map_option mailbox_shape) (mailboxes s') = map (map_option mailbox_shape) (mailboxes s)"

lemma forget_notes_fields [simp]:
  "callers (forget_notes s) = callers s" "callees (forget_notes s) = callees s"
  "containers (forget_notes s) = containers s" "logical_id (forget_notes s) = logical_id s"
  by (simp_all add: forget_notes_def)

lemma notes_only_fields:
  assumes "notes_only s s'"
  shows "callers s' = callers s" "callees s' = callees s" "containers s' = containers s"
    "logical_id s' = logical_id s"
  using assms unfolding notes_only_def by (metis forget_notes_fields)+

lemma sget_map: "sget (map (map_option f) xs) a = map_option f (sget xs a)"
  by (simp add: sget_def)

lemma map_shape_sput:
  "sget xs a = Some r \<Longrightarrow> f r' = f r \<Longrightarrow> map (map_option f) (sput xs a r') = map (map_option f) xs"
  by (auto simp: sget_def sput_def map_update list_update_same_conv split: if_splits)

lemma can_notify_shape:
  "can_notify s a \<longleftrightarrow>
   (case sget (map (map_option raiser_shape) (raisers s)) a of None \<Rightarrow> False
    | Some (m, n) \<Rightarrow> (case sget (map (map_option mailbox_shape) (mailboxes s)) m of None \<Rightarrow> False
       | Some (sd, pc, l1, l2) \<Rightarrow> sd \<or> (let i = lg_index pc (logical_id s) in i < n \<and> i < l1 \<and> i < l2)))"
  by (auto simp: can_notify_def sget_map raiser_shape_def mailbox_shape_def split: option.splits)

lemma notes_only_can_notify:
  assumes "notes_only s s'"
  shows "can_notify s' a = can_notify s a"
proof -
  have "map (map_option raiser_shape) (raisers s') = map (map_option raiser_shape) (raisers s)"
    "map (map_option mailbox_shape) (mailboxes s') = map (map_option mailbox_shape) (mailboxes s)"
    using assms by (simp_all add: notes_only_def)
  then show ?thesis by (simp only: can_notify_shape notes_only_fields [OF assms])
qed

lemma notes_only_refl [simp]: "notes_only s s"
  by (simp add: notes_only_def)

lemma send_ok:
  assumes "can_notify s a"
  obtains s' where "user_send_notification a s = Some s'" "notes_only s s'"
proof -
  obtain r mb where r: "sget (raisers s) a = Some r" and mb: "sget (mailboxes s) (r_mailbox r) = Some mb"
    and i: "mb_is_shut_down mb \<or> (let i = lg_index (mb_is_per_cpu mb) (logical_id s) in
       i < length (r_pending r) \<and> i < length (mb_msg_queue mb) \<and> i < length (mb_task_queue mb))"
    using assms by (auto simp: can_notify_def)
  define i where "i = lg_index (mb_is_per_cpu mb) (logical_id s)"
  let ?p = "inc64 (r_pending r ! i)"
  let ?s = "set_pending a i ?p s" and ?r = "r\<lparr>r_pending := (r_pending r)[i := ?p]\<rparr>"
  show thesis
  proof (cases "mb_is_shut_down mb")
    case True
    then show thesis
      using that [of s] r mb
      by (simp add: user_send_notification_def user_send_notification_to_core_def)
  next
    case False
    with i have len: "i < length (r_pending r)" "i < length (mb_task_queue mb)" "i < length (mb_msg_queue mb)"
      by (simp_all add: i_def Let_def)
    have s: "?s = s\<lparr>raisers := sput (raisers s) a ?r\<rparr>" "sget (raisers ?s) a = Some ?r"
        "sget (mailboxes ?s) (r_mailbox ?r) = Some mb"
      using r mb sget_Some_length [OF r] by (simp_all add: set_pending_def smod_def store_simps)
    note enq = user_raiser_enqueue_eq [OF s(2,3) i_def len(2,3)]
    have eq: "user_send_notification a s =
        (if ?p = 1 then user_raiser_enqueue_nolock a (logical_id s) ?s else Some ?s)"
      using r mb False len
      by (simp add: user_send_notification_def user_send_notification_to_core_def Let_def i_def)
    show thesis
      using that eq enq s(1) r mb
      by (cases "?p = 1")
        (auto simp: notes_only_def forget_notes_def raiser_shape_def mailbox_shape_def store_simps
          map_shape_sput split: list.split)
  qed
qed


section \<open>The steps of a request\<close>

text \<open>Same status, length and contents; opaque values and bytes behind the length do not matter.\<close>

definition msg_same :: "user_rpc_msg \<Rightarrow> user_rpc_msg \<Rightarrow> bool" where
  "msg_same m m' \<longleftrightarrow> msg_status m = msg_status m' \<and> msg_len m = msg_len m' \<and>
     take (msg_len m) (msg_payload m) = take (msg_len m') (msg_payload m')"

text \<open>A message buffer of the ABI: 112 bytes of payload, a length that fits.\<close>

definition msg_ok :: "user_rpc_msg \<Rightarrow> bool" where
  "msg_ok m \<longleftrightarrow> msg_len m \<le> USER_RPC_MAX_PAYLOAD_SIZE \<and> length (msg_payload m) = USER_RPC_MAX_PAYLOAD_SIZE"

lemma copy_from_user_ok:
  assumes "msg_ok msg"
  obtains m where "user_rpc_copy_contents_from_user dst msg = Some m"
    "msg_same (m\<lparr>msg_status := msg_status msg\<rparr>) msg" "msg_len m = msg_len msg"
    "length (msg_payload dst) = USER_RPC_MAX_PAYLOAD_SIZE \<Longrightarrow> msg_ok m"
  using assms that
  by (auto simp: msg_ok_def user_rpc_copy_contents_from_user_def msg_same_def Let_def)

lemma copy_from_kernel_same:
  "msg_ok m \<Longrightarrow> msg_same ((user_rpc_copy_contents_from_kernel buf m)\<lparr>msg_opaque := x, msg_status := msg_status m\<rparr>) m"
  by (auto simp: msg_ok_def user_rpc_copy_contents_from_kernel_def msg_same_def Let_def)

text \<open>A caller that can take on a request: alive, and with a container in its pool or memory for
  a new one.\<close>

definition caller_ready :: "kstate \<Rightarrow> addr \<Rightarrow> user_rpc_caller \<Rightarrow> bool" where
  "caller_ready s caller c \<longleftrightarrow> sget (callers s) caller = Some c \<and> \<not> cr_is_shut_down c \<and>
     0 < cr_dealloc_rc c \<and> cr_dealloc_rc c + 1 < 2 ^ 64 \<and>
     (case cr_free_containers c of [] \<Rightarrow> alloc_outcome s (alloc_calls s)
      | x # _ \<Rightarrow> \<exists>ct. sget (containers s) x = Some ct \<and>
           length (msg_payload (ct_message ct)) = USER_RPC_MAX_PAYLOAD_SIZE)"

lemma take_container_ok:
  assumes "caller_ready s caller c"
  obtains x ct s1 c1 where "take_container caller c s = (Some x, s1)"
    "sget (containers s1) x = Some ct" "length (msg_payload (ct_message ct)) = USER_RPC_MAX_PAYLOAD_SIZE"
    "sget (callers s1) caller = Some c1"
    "c1 = c\<lparr>cr_free_containers := tl (cr_free_containers c)\<rparr>"
    "callees s1 = callees s" "\<And>a. can_notify s1 a = can_notify s a"
    "x = (case cr_free_containers c of [] \<Rightarrow> length (containers s) | y # _ \<Rightarrow> y)"
    "\<And>y. y \<noteq> x \<Longrightarrow> sget (containers s1) y = sget (containers s) y"
proof (cases "cr_free_containers c")
  case Nil
  have "c\<lparr>cr_free_containers := tl (cr_free_containers c)\<rparr> = c" using Nil by simp
  then show thesis
    using that [of "length (containers s)" "s\<lparr>alloc_calls := Suc (alloc_calls s),
        containers := containers s @ [Some (uninit_container (uninit_word s))]\<rparr>"
        "uninit_container (uninit_word s)" c] assms Nil
    by (auto simp: take_container_def caller_ready_def kalloc_def snew_def sget_def nth_append
        uninit_container_def can_notify_def)
next
  case (Cons x xs)
  then obtain ct where ct: "sget (containers s) x = Some ct"
      "length (msg_payload (ct_message ct)) = USER_RPC_MAX_PAYLOAD_SIZE"
    using assms by (auto simp: caller_ready_def)
  let ?c = "c\<lparr>cr_free_containers := xs\<rparr>"
  let ?s = "s\<lparr>callers := sput (callers s) caller ?c\<rparr>"
  have "sget (callers ?s) caller = Some ?c"
    using assms by (auto simp: caller_ready_def store_simps dest: sget_Some_length)
  then show thesis
    using Cons ct by (intro that [of x ?s ct ?c]) (simp_all add: take_container_def can_notify_def)
qed

lemma initiate_ok:
  assumes c: "caller_ready s caller c" and e: "sget (callees s) token = Some e" "\<not> ce_is_shut_down e"
    and n: "can_notify s (ce_raiser e)" and msg: "msg_ok msg"
  obtains s' x ct c' where "user_rpc_initiate caller token msg s = Some (USER_STATUS_SUCCESS, s')"
    "sget (callees s') token = Some (e\<lparr>ce_incoming_rpcs := ce_incoming_rpcs e @ [x]\<rparr>)"
    "sget (containers s') x = Some ct" "msg_same (ct_message ct) msg" "msg_ok (ct_message ct)"
    "ct_client_opaque ct = msg_opaque msg" "ct_caller ct = caller"
    "sget (callers s') caller = Some c'"
    "c' = c\<lparr>cr_free_containers := tl (cr_free_containers c), cr_dealloc_rc := cr_dealloc_rc c + 1\<rparr>"
    "\<And>a. can_notify s' a = can_notify s a"
    "x = (case cr_free_containers c of [] \<Rightarrow> length (containers s) | y # _ \<Rightarrow> y)"
    "\<And>y. y \<noteq> x \<Longrightarrow> sget (containers s') y = sget (containers s) y"
proof -
  obtain x ct s1 where t: "take_container caller c s = (Some x, s1)"
    "sget (containers s1) x = Some ct" "length (msg_payload (ct_message ct)) = USER_RPC_MAX_PAYLOAD_SIZE"
    "sget (callers s1) caller = Some (c\<lparr>cr_free_containers := tl (cr_free_containers c)\<rparr>)"
    "callees s1 = callees s" "\<And>a. can_notify s1 a = can_notify s a"
    "x = (case cr_free_containers c of [] \<Rightarrow> length (containers s) | y # _ \<Rightarrow> y)"
    "\<And>y. y \<noteq> x \<Longrightarrow> sget (containers s1) y = sget (containers s) y"
    by (rule take_container_ok [OF c]) blast
  obtain m where m: "user_rpc_copy_contents_from_user (ct_message ct) msg = Some m"
    "msg_same (m\<lparr>msg_status := msg_status msg\<rparr>) msg" "msg_ok m"
    using copy_from_user_ok [OF msg, of "ct_message ct"] t(3) by blast
  let ?c = "c\<lparr>cr_free_containers := tl (cr_free_containers c), cr_dealloc_rc := cr_dealloc_rc c + 1\<rparr>"
  let ?ct = "ct\<lparr>ct_message := m\<lparr>msg_status := msg_status msg\<rparr>, ct_client_opaque := msg_opaque msg, ct_caller := caller\<rparr>"
  let ?e = "e\<lparr>ce_incoming_rpcs := ce_incoming_rpcs e @ [x]\<rparr>"
  have c0: "sget (callers s) caller = Some c" "\<not> cr_is_shut_down c" "cr_dealloc_rc c + 1 < 2 ^ 64"
    using c by (simp_all add: caller_ready_def)
  have inc: "inc64 (cr_dealloc_rc c) = cr_dealloc_rc c + 1" using c0(3) by (rule inc64_small)
  let ?s2 = "s1\<lparr>callers := sput (callers s1) caller ?c, containers := sput (containers s1) x ?ct,
      callees := sput (callees s) token ?e\<rparr>"
  have n2: "can_notify ?s2 a = can_notify s a" for a
    using t(6) [of a] by (simp add: can_notify_def)
  obtain s' where s': "user_send_notification (ce_raiser e) ?s2 = Some s'" "notes_only ?s2 s'"
    using send_ok n n2 by metis
  have "user_rpc_initiate caller token msg s = Some (USER_STATUS_SUCCESS, s')"
    using c0 t m(1) e inc s'(1)
    by (simp add: user_rpc_initiate_def Let_def mem_rc_borrow_def smod_def)
  then show thesis
    using e t m s' n2 sget_Some_length [OF e(1)] sget_Some_length [OF t(2)] sget_Some_length [OF t(4)]
    by (intro that [of s' x ?ct ?c])
      (simp_all add: notes_only_fields [OF s'(2)] notes_only_can_notify [OF s'(2)] store_simps msg_ok_def)
qed


text \<open>Accepted requests are filed under sequence numbers already handed out.\<close>

definition callee_keys_ok :: "user_rpc_callee \<Rightarrow> bool" where
  "callee_keys_ok e \<longleftrightarrow> intmap_wf fst (ce_awaiting_reply e) \<and>
     (\<forall>n \<in> intmap_members (ce_awaiting_reply e). fst n < ce_seq e) \<and> ce_seq e + 1 < 2 ^ 64"

lemma accept_ok:
  assumes e: "sget (callees s) callee = Some e" "\<not> ce_is_shut_down e" "callee_keys_ok e"
    and x: "ce_incoming_rpcs e = x # rest" "sget (containers s) x = Some ct" "msg_ok (ct_message ct)"
  obtains im m where "user_rpc_accept callee buf s = Some ((USER_STATUS_SUCCESS, m),
      s\<lparr>callees := sput (callees s) callee
          (e\<lparr>ce_incoming_rpcs := rest, ce_awaiting_reply := im, ce_seq := ce_seq e + 1\<rparr>),
        containers := sput (containers s) x (ct\<lparr>ct_key := ce_seq e\<rparr>)\<rparr>)"
    "msg_same m (ct_message ct)" "msg_opaque m = ce_seq e" "intmap_wf fst im"
    "intmap_lookup fst im = (intmap_lookup fst (ce_awaiting_reply e))(ce_seq e \<mapsto> (ce_seq e, x))"
proof -
  have wf: "intmap_wf fst (ce_awaiting_reply e)" using e(3) by (simp add: callee_keys_ok_def)
  have "intmap_lookup fst (ce_awaiting_reply e) (fst (ce_seq e, x)) = None"
    using e(3) intmap_lookup_None_iff [OF wf] by (auto simp: callee_keys_ok_def)
  then obtain im where im: "intmap_insert fst (ce_awaiting_reply e) (ce_seq e, x) = Some im"
      "intmap_wf fst im"
      "intmap_lookup fst im = (intmap_lookup fst (ce_awaiting_reply e))(fst (ce_seq e, x) \<mapsto> (ce_seq e, x))"
    using imap.look_ins [OF wf] by blast
  have "inc64 (ce_seq e) = ce_seq e + 1" using e(3) by (simp add: callee_keys_ok_def inc64_small)
  then show thesis
    using e(1,2) x im copy_from_kernel_same [OF x(3), of "ce_seq e" buf]
    by (intro that [of _ im]) (auto simp: user_rpc_accept_def Let_def)
qed

lemma return_ok:
  assumes e: "sget (callees s) callee = Some e" "\<not> ce_is_shut_down e" "intmap_wf fst (ce_awaiting_reply e)"
    and x: "intmap_lookup fst (ce_awaiting_reply e) (msg_opaque msg) = Some (msg_opaque msg, x)"
      "sget (containers s) x = Some ct" "length (msg_payload (ct_message ct)) = USER_RPC_MAX_PAYLOAD_SIZE"
    and c: "sget (callers s) (ct_caller ct) = Some c" "\<not> cr_is_shut_down c" "1 < cr_dealloc_rc c"
      "can_notify s (cr_raiser c)"
    and msg: "msg_ok msg"
  obtains s' im ct' where "user_rpc_return callee msg s = Some (USER_STATUS_SUCCESS, s')"
    "sget (callers s') (ct_caller ct) = Some (c\<lparr>cr_incoming_replies := cr_incoming_replies c @ [x],
       cr_dealloc_rc := cr_dealloc_rc c - 1\<rparr>)"
    "sget (containers s') x = Some ct'" "msg_same (ct_message ct') msg" "msg_ok (ct_message ct')"
    "ct_client_opaque ct' = ct_client_opaque ct"
    "sget (callees s') callee = Some (e\<lparr>ce_awaiting_reply := im\<rparr>)" "intmap_wf fst im"
    "intmap_lookup fst im = (intmap_lookup fst (ce_awaiting_reply e))(msg_opaque msg := None)"
proof -
  let ?k = "msg_opaque msg"
  obtain m where m: "user_rpc_copy_contents_from_user (ct_message ct) msg = Some m"
      "msg_same (m\<lparr>msg_status := msg_status msg\<rparr>) msg" "msg_ok m"
    using copy_from_user_ok [OF msg, of "ct_message ct"] x(3) by blast
  obtain im where im: "intmap_remove fst (ce_awaiting_reply e) (?k, x) = Some im" "intmap_wf fst im"
      "intmap_lookup fst im = (intmap_lookup fst (ce_awaiting_reply e))(fst (?k, x) := None)"
    using imap.look_rem [OF e(3), of "(?k, x)"] x(1) by auto
  have search: "intmap_search fst (ce_awaiting_reply e) ?k = Some (Some (?k, x))"
    using imap.search_look [OF e(3)] x(1) by simp
  let ?ct = "ct\<lparr>ct_message := m\<lparr>msg_status := msg_status msg\<rparr>\<rparr>"
  let ?e = "e\<lparr>ce_awaiting_reply := im\<rparr>"
  let ?c = "c\<lparr>cr_incoming_replies := cr_incoming_replies c @ [x]\<rparr>"
  let ?s1 = "s\<lparr>containers := sput (containers s) x ?ct, callees := sput (callees s) callee ?e,
      callers := sput (callers s) (ct_caller ct) ?c\<rparr>"
  have n: "can_notify ?s1 (cr_raiser c)" using c(4) by (simp add: can_notify_def)
  obtain s2 where s2: "user_send_notification (cr_raiser c) ?s1 = Some s2" "notes_only ?s1 s2"
    using send_ok [OF n] by blast
  note f = notes_only_fields [OF s2(2)]
  have rc: "rc_get (RcCallerDealloc (ct_caller ct)) s2 = Some (Suc (Suc (cr_dealloc_rc c - 2)))"
    using f(1) c(1,3) by (simp add: store_simps)
  let ?s' = "rc_set (RcCallerDealloc (ct_caller ct)) (Suc (cr_dealloc_rc c - 2)) s2"
  have "rpc_reply x (s\<lparr>containers := sput (containers s) x ?ct, callees := sput (callees s) callee ?e\<rparr>) = Some ?s'"
    using c x(2) s2(1) mem_rc_drop_alive [OF rc] sget_Some_length [OF x(2)]
    by (simp add: rpc_reply_def user_rpc_enqueue_reply_container_def store_simps mem_rc_drop_def)
  then have "user_rpc_return callee msg s = Some (USER_STATUS_SUCCESS, ?s')"
    using e x(2) search m(1) im(1) by (simp add: user_rpc_return_def Let_def)
  moreover have "Suc (cr_dealloc_rc c - 2) = cr_dealloc_rc c - 1" using c(3) by simp
  ultimately show thesis
    using f m im e(1) x(2) c(1) sget_Some_length [OF e(1)] sget_Some_length [OF x(2)] sget_Some_length [OF c(1)]
    by (intro that [of ?s' ?ct im]) (simp_all add: store_simps msg_ok_def)
qed

lemma get_result_ok:
  assumes c: "sget (callers s) caller = Some c" "\<not> cr_is_shut_down c"
    and x: "cr_incoming_replies c = x # rest" "sget (containers s) x = Some ct" "msg_ok (ct_message ct)"
  obtains m where "user_rpc_get_result caller buf s = Some ((USER_STATUS_SUCCESS, m),
      s\<lparr>callers := sput (callers s) caller (c\<lparr>cr_incoming_replies := rest,
          cr_free_containers := cr_free_containers c @ [x]\<rparr>)\<rparr>)"
    "msg_same m (ct_message ct)" "msg_opaque m = ct_client_opaque ct"
  using assms copy_from_kernel_same [OF x(3), of "ct_client_opaque ct" buf]
  by (intro that) (auto simp: user_rpc_get_result_def Let_def)


section \<open>Shutting down a callee\<close>

lemma noreply_step:
  assumes ct: "sget (containers s) x = Some ct" and c: "sget (callers s) (ct_caller ct) = Some c"
      "\<not> cr_is_shut_down c" "1 < cr_dealloc_rc c" "can_notify s (cr_raiser c)"
  obtains s' where "run_acts (ANoReply x # as) s = run_acts as s'"
    "callers s' = sput (callers s) (ct_caller ct) (c\<lparr>cr_incoming_replies := cr_incoming_replies c @ [x],
       cr_dealloc_rc := cr_dealloc_rc c - 1\<rparr>)"
    "containers s' = sput (containers s) x (noreply ct)" "callees s' = callees s"
    "\<And>a. can_notify s' a = can_notify s a"
proof -
  let ?c = "c\<lparr>cr_incoming_replies := cr_incoming_replies c @ [x]\<rparr>"
  let ?s1 = "s\<lparr>containers := sput (containers s) x (noreply ct),
      callers := sput (callers s) (ct_caller ct) ?c\<rparr>"
  have n1: "can_notify ?s1 a = can_notify s a" for a by (simp add: can_notify_def)
  obtain s2 where s2: "user_send_notification (cr_raiser c) ?s1 = Some s2" "notes_only ?s1 s2"
    using send_ok n1 c(4) by metis
  note f = notes_only_fields [OF s2(2)]
  define k where "k = cr_dealloc_rc c - 2"
  have k: "cr_dealloc_rc c = Suc (Suc k)" using c(3) by (simp add: k_def)
  have rc: "rc_get (RcCallerDealloc (ct_caller ct)) s2 = Some (Suc (Suc k))"
    using f(1) c(1) k by (simp add: store_simps)
  let ?s' = "rc_set (RcCallerDealloc (ct_caller ct)) (Suc k) s2"
  have step: "act_step (ANoReply x) s = Some ([ADrop (RcCallerDealloc (ct_caller ct))], s2)"
    using ct c s2(1) sget_Some_length [OF ct]
    by (simp add: user_rpc_enqueue_reply_container_def smod_def store_simps noreply_def)
  have "drop_step (RcCallerDealloc (ct_caller ct)) s2 = Some ([], ?s')"
    unfolding drop_step_def rc by simp
  then have "run_acts (ANoReply x # as) s = run_acts as ?s'"
    unfolding run_acts.simps(2) step by simp
  moreover have "can_notify ?s' a = can_notify s a" for a
    using n1 notes_only_can_notify [OF s2(2)] by (simp add: can_notify_def)
  moreover have "callers ?s' = sput (callers s) (ct_caller ct)
      (c\<lparr>cr_incoming_replies := cr_incoming_replies c @ [x], cr_dealloc_rc := Suc k\<rparr>)"
    using f(1) c(1) sget_Some_length [OF c(1)] by (simp add: smod_def store_simps)
  ultimately show thesis
    using f k by (intro that [of ?s']) simp_all
qed

lemma noreply_all:
  assumes "\<forall>x \<in> set xs. \<exists>ct. sget (containers s) x = Some ct \<and> ct_caller ct = caller"
    and "sget (callers s) caller = Some c" "\<not> cr_is_shut_down c" "length xs < cr_dealloc_rc c"
      "can_notify s (cr_raiser c)"
  shows "\<exists>s'. run_acts (map ANoReply xs @ as) s = run_acts as s' \<and>
    sget (callers s') caller = Some (c\<lparr>cr_incoming_replies := cr_incoming_replies c @ xs,
       cr_dealloc_rc := cr_dealloc_rc c - length xs\<rparr>) \<and>
    (\<forall>x. sget (containers s') x =
       (if x \<in> set xs then map_option noreply (sget (containers s) x) else sget (containers s) x)) \<and>
    callees s' = callees s"
  using assms
proof (induction xs arbitrary: s c)
  case Nil
  then show ?case by (intro exI [of _ s]) simp
next
  case (Cons x xs)
  then obtain ct where ct: "sget (containers s) x = Some ct" "ct_caller ct = caller" by auto
  let ?c = "c\<lparr>cr_incoming_replies := cr_incoming_replies c @ [x], cr_dealloc_rc := cr_dealloc_rc c - 1\<rparr>"
  obtain s1 where s1: "run_acts (ANoReply x # map ANoReply xs @ as) s = run_acts (map ANoReply xs @ as) s1"
      "callers s1 = sput (callers s) caller ?c" "containers s1 = sput (containers s) x (noreply ct)"
      "callees s1 = callees s" "\<And>a. can_notify s1 a = can_notify s a"
    by (rule noreply_step [OF ct(1), of c "map ANoReply xs @ as"]) (use Cons.prems ct(2) in auto)
  have get: "sget (containers s1) y = (if y = x then Some (noreply ct) else sget (containers s) y)" for y
    using s1(3) ct(1) by (auto simp: store_simps dest: sget_Some_length)
  have nr: "ct_caller (noreply ct) = ct_caller ct" "noreply (noreply ct) = noreply ct" for ct
    by (simp_all add: noreply_def)
  have c1: "sget (callers s1) caller = Some ?c"
    using s1(2) Cons.prems(2) by (auto simp: store_simps dest: sget_Some_length)
  have "\<forall>x \<in> set xs. \<exists>ct. sget (containers s1) x = Some ct \<and> ct_caller ct = caller"
    using Cons.prems(1) get ct(2) nr(1) by auto
  moreover have "\<not> cr_is_shut_down ?c" "length xs < cr_dealloc_rc ?c" "can_notify s1 (cr_raiser ?c)"
    using Cons.prems(3,4,5) s1(5) by simp_all
  ultimately obtain s' where
    "run_acts (map ANoReply xs @ as) s1 = run_acts as s'"
    "sget (callers s') caller = Some (?c\<lparr>cr_incoming_replies := cr_incoming_replies ?c @ xs,
       cr_dealloc_rc := cr_dealloc_rc ?c - length xs\<rparr>)"
    "\<forall>x. sget (containers s') x =
       (if x \<in> set xs then map_option noreply (sget (containers s1) x) else sget (containers s1) x)"
    "callees s' = callees s1" using Cons.IH [OF _ c1] by blast
  then show ?case
    using s1(1,4) get ct(1) nr(2) by (intro exI [of _ s']) auto
qed

section \<open>Properties\<close>



text \<open>A caller and a callee on one mailbox, and a message of three bytes.\<close>

definition rpc_example_caller :: user_rpc_caller where
  "rpc_example_caller = \<lparr>cr_shutdown_rc = 1, cr_dealloc_rc = 1, cr_raiser = 0, cr_free_containers = [],
     cr_incoming_replies = [], cr_is_shut_down = False\<rparr>"

definition rpc_example_callee :: user_rpc_callee where
  "rpc_example_callee = \<lparr>ce_shutdown_rc = 1, ce_dealloc_rc = 2, ce_token_rc = 1, ce_raiser = 1,
     ce_incoming_rpcs = [], ce_awaiting_reply = \<lparr>buckets_count = 2, im_nodes = [[], []]\<rparr>,
     ce_seq = 0, ce_is_shut_down = False\<rparr>"

definition rpc_example_msg :: "nat \<Rightarrow> user_rpc_msg" where
  "rpc_example_msg x = \<lparr>msg_opaque = x, msg_status = 7, msg_len = 3,
     msg_payload = [x, x + 1, x + 2] @ replicate 109 0\<rparr>"

definition rpc_example :: kstate where
  "rpc_example = (fst note_example)
     \<lparr>raisers := [Some note_example_raiser, Some note_example_raiser],
      callers := [Some rpc_example_caller], callees := [Some rpc_example_callee]\<rparr>"

lemma rpc_example_facts:
  "caller_ready rpc_example 0 rpc_example_caller" "sget (callees rpc_example) 0 = Some rpc_example_callee"
  "can_notify rpc_example 0" "can_notify rpc_example 1" "callee_keys_ok rpc_example_callee"
  "msg_ok (rpc_example_msg x)"
proof -
  show "caller_ready rpc_example 0 rpc_example_caller"
    by (simp add: caller_ready_def rpc_example_def rpc_example_caller_def sget_def note_example_def
        user_create_mailbox_def user_local_global_init_def user_create_raiser_def kalloc_def init_kstate_def
        snew_def mem_rc_borrow_def smod_def Let_def)
  show "callee_keys_ok rpc_example_callee"
    by (auto simp: callee_keys_ok_def rpc_example_callee_def intmap_wf_def intmap_members_def less_2_cases_iff less_Suc_eq)
qed (simp_all add: rpc_example_def rpc_example_callee_def can_notify_def note_example_simps
    rpc_example_msg_def msg_ok_def USER_RPC_MAX_PAYLOAD_SIZE_def)




definition rpc_example_pending :: kstate where
  "rpc_example_pending = rpc_example
     \<lparr>callers := [Some (rpc_example_caller\<lparr>cr_dealloc_rc := 2\<rparr>)],
      callees := [Some (rpc_example_callee\<lparr>ce_incoming_rpcs := [0]\<rparr>)],
      containers := [Some \<lparr>ct_message = rpc_example_msg 5, ct_client_opaque = 5, ct_key = 0, ct_caller = 0\<rparr>]\<rparr>"


end
