(* ===== verification/Shm.thy ===== *)
theory Shm
  imports Cookie
begin

text \<open>
  \<^verbatim>\<open>user/shm.c\<close>: shared memory objects, reached through references (capabilities) or through
  a global id with cookie keys. The per-bucket spinlocks of the global map protect one map
  operation each, so each of these is a step. User buffers are lists of bytes; touching a byte
  behind the end of one is an access that does not return (\<^verbatim>\<open>mem/usercopy.h\<close> copies without
  checking and always reports success).
\<close>

definition USER_SHM_INTMAP_BUCKETS :: nat where
  "USER_SHM_INTMAP_BUCKETS = 1024"

section \<open>Copying\<close>

definition mem_copy_from_user :: "nat list \<Rightarrow> nat \<Rightarrow> nat list \<Rightarrow> nat \<Rightarrow> (bool \<times> nat list) option" where
  "mem_copy_from_user kernel_mem off user_mem sz =
     (if off + sz \<le> length kernel_mem \<and> sz \<le> length user_mem
      then Some (True, take off kernel_mem @ take sz user_mem @ drop (off + sz) kernel_mem)
      else None)"

definition mem_copy_to_user :: "nat list \<Rightarrow> nat list \<Rightarrow> nat \<Rightarrow> nat \<Rightarrow> (bool \<times> nat list) option" where
  "mem_copy_to_user user_mem kernel_mem off sz =
     (if off + sz \<le> length kernel_mem \<and> sz \<le> length user_mem
      then Some (True, take sz (drop off kernel_mem) @ drop sz user_mem)
      else None)"

section \<open>Operations\<close>

definition user_shm_init :: "kstate \<Rightarrow> kstate option" where
  "user_shm_init s =
     (let (ok, s) = kalloc s in do {
        im \<leftarrow> intmap_init ok USER_SHM_INTMAP_BUCKETS;
        let (ok, s) = kalloc s;
        if \<not> ok then None else Some (s\<lparr>shm_intmap := im\<rparr>) })"

definition user_shm_create ::
  "nat \<Rightarrow> addr \<Rightarrow> kstate \<Rightarrow> ((user_status \<times> (addr \<times> nat) option) \<times> kstate) option" where
  "user_shm_create sz cookie s =
     (let (ok, s) = kalloc s in
      if \<not> ok then Some ((USER_STATUS_OUT_OF_MEMORY, None), s)
      else let (ok, s) = kalloc s in
      if \<not> ok then Some ((USER_STATUS_OUT_OF_MEMORY, None), s)
      else do {
        let key = user_shm_last_allocated_id s;
        let s = s\<lparr>user_shm_last_allocated_id := inc64 key\<rparr>;
        ck \<leftarrow> user_entry_cookie_get_key cookie s;
        let (a, os) = snew (shms s)
           \<lparr>sh_shutdown_rc = 1, sh_ref_rc = 1, sh_data = replicate sz 0, sh_size = sz,
            sh_key = key, sh_ro_key = ck, sh_rw_key = ck\<rparr>;
        im \<leftarrow> intmap_insert fst (shm_intmap s) (key, a);
        Some ((USER_STATUS_SUCCESS, Some (a, key)), s\<lparr>shms := os, shm_intmap := im\<rparr>) })"

definition user_shm_create_ref :: "addr \<Rightarrow> kstate \<Rightarrow> (addr \<times> kstate) option" where
  "user_shm_create_ref owner s = do { s \<leftarrow> mem_rc_borrow (RcShmRef owner) s; Some (owner, s) }"

text \<open>\<open>__builtin_add_overflow\<close> on 64-bit sizes.\<close>

definition user_shm_check_bounds :: "user_shm_owner \<Rightarrow> nat \<Rightarrow> nat \<Rightarrow> bool" where
  "user_shm_check_bounds shm offset len =
     (if offset + len \<ge> 2 ^ 64 then False else u64 (offset + len) \<le> sh_size shm)"

definition user_shm_write_by_ref ::
  "addr \<Rightarrow> nat \<Rightarrow> nat \<Rightarrow> nat list \<Rightarrow> kstate \<Rightarrow> (user_status \<times> kstate) option" where
  "user_shm_write_by_ref ref offset len data s = do {
     shm \<leftarrow> sget (shms s) ref;
     if \<not> user_shm_check_bounds shm offset len then Some (USER_STATUS_OUT_OF_BOUNDS, s)
     else do {
       (ok, mem) \<leftarrow> mem_copy_from_user (sh_data shm) offset data len;
       if \<not> ok then Some (USER_STATUS_INVALID_MEM, s)
       else Some (USER_STATUS_SUCCESS, s\<lparr>shms := sput (shms s) ref (shm\<lparr>sh_data := mem\<rparr>)\<rparr>) }}"

definition user_shm_read_by_ref ::
  "addr \<Rightarrow> nat \<Rightarrow> nat \<Rightarrow> nat list \<Rightarrow> kstate \<Rightarrow> ((user_status \<times> nat list) \<times> kstate) option" where
  "user_shm_read_by_ref ref offset len data s = do {
     shm \<leftarrow> sget (shms s) ref;
     if \<not> user_shm_check_bounds shm offset len then Some ((USER_STATUS_OUT_OF_BOUNDS, data), s)
     else do {
       (ok, buf) \<leftarrow> mem_copy_to_user data (sh_data shm) offset len;
       if \<not> ok then Some ((USER_STATUS_INVALID_MEM, data), s)
       else Some ((USER_STATUS_SUCCESS, buf), s) }}"

definition user_shm_auth_read :: "user_shm_owner \<Rightarrow> addr \<Rightarrow> kstate \<Rightarrow> (bool \<times> kstate) option" where
  "user_shm_auth_read shm cookie s = do {
     (rw, s) \<leftarrow> user_entry_cookie_auth cookie (sh_rw_key shm) s;
     if rw then Some (True, s) else user_entry_cookie_auth cookie (sh_ro_key shm) s }"

definition user_shm_auth_write :: "user_shm_owner \<Rightarrow> addr \<Rightarrow> kstate \<Rightarrow> (bool \<times> kstate) option" where
  "user_shm_auth_write shm cookie s = user_entry_cookie_auth cookie (sh_rw_key shm) s"

definition user_shm_find_by_id :: "nat \<Rightarrow> kstate \<Rightarrow> (addr option \<times> kstate) option" where
  "user_shm_find_by_id id' s = do {
     found \<leftarrow> intmap_search fst (shm_intmap s) id';
     case found of
       None \<Rightarrow> Some (None, s)
     | Some (key, a) \<Rightarrow> do { s \<leftarrow> mem_rc_borrow (RcShmRef a) s; Some (Some a, s) }}"

definition user_shm_write_by_id ::
  "nat \<Rightarrow> nat \<Rightarrow> nat \<Rightarrow> nat list \<Rightarrow> addr \<Rightarrow> kstate \<Rightarrow> (user_status \<times> kstate) option" where
  "user_shm_write_by_id id' offset len data cookie s = do {
     (found, s) \<leftarrow> user_shm_find_by_id id' s;
     case found of
       None \<Rightarrow> Some (USER_STATUS_SECURITY_VIOLATION, s)
     | Some a \<Rightarrow> do {
         shm \<leftarrow> sget (shms s) a;
         (auth, s) \<leftarrow> user_shm_auth_write shm cookie s;
         if \<not> auth then do {
           s \<leftarrow> mem_rc_drop (RcShmRef a) s; Some (USER_STATUS_SECURITY_VIOLATION, s) }
         else if \<not> user_shm_check_bounds shm offset len then do {
           s \<leftarrow> mem_rc_drop (RcShmRef a) s; Some (USER_STATUS_OUT_OF_BOUNDS, s) }
         else do {
           (ok, mem) \<leftarrow> mem_copy_from_user (sh_data shm) offset data len;
           if \<not> ok then do {
             s \<leftarrow> mem_rc_drop (RcShmRef a) s; Some (USER_STATUS_INVALID_MEM, s) }
           else do {
             s \<leftarrow> mem_rc_drop (RcShmRef a) (s\<lparr>shms := sput (shms s) a (shm\<lparr>sh_data := mem\<rparr>)\<rparr>);
             Some (USER_STATUS_SUCCESS, s) }}}}"

definition user_shm_read_by_id ::
  "nat \<Rightarrow> nat \<Rightarrow> nat \<Rightarrow> nat list \<Rightarrow> addr \<Rightarrow> kstate \<Rightarrow> ((user_status \<times> nat list) \<times> kstate) option" where
  "user_shm_read_by_id id' offset len data cookie s = do {
     (found, s) \<leftarrow> user_shm_find_by_id id' s;
     case found of
       None \<Rightarrow> Some ((USER_STATUS_SECURITY_VIOLATION, data), s)
     | Some a \<Rightarrow> do {
         shm \<leftarrow> sget (shms s) a;
         (auth, s) \<leftarrow> user_shm_auth_read shm cookie s;
         if \<not> auth then do {
           s \<leftarrow> mem_rc_drop (RcShmRef a) s; Some ((USER_STATUS_SECURITY_VIOLATION, data), s) }
         else if \<not> user_shm_check_bounds shm offset len then do {
           s \<leftarrow> mem_rc_drop (RcShmRef a) s; Some ((USER_STATUS_OUT_OF_BOUNDS, data), s) }
         else do {
           (ok, buf) \<leftarrow> mem_copy_to_user data (sh_data shm) offset len;
           if \<not> ok then do {
             s \<leftarrow> mem_rc_drop (RcShmRef a) s; Some ((USER_STATUS_INVALID_MEM, data), s) }
           else do {
             s \<leftarrow> mem_rc_drop (RcShmRef a) s;
             Some ((USER_STATUS_SUCCESS, buf), s) }}}}"

definition user_shm_modify_perms :: "addr \<Rightarrow> nat \<Rightarrow> bool \<Rightarrow> kstate \<Rightarrow> kstate option" where
  "user_shm_modify_perms a key rw s = do {
     shm \<leftarrow> sget (shms s) a;
     Some (s\<lparr>shms := sput (shms s) a (if rw then shm\<lparr>sh_ro_key := key\<rparr> else shm\<lparr>sh_rw_key := key\<rparr>)\<rparr>) }"

definition user_shm_drop_ownership :: "addr \<Rightarrow> bool \<Rightarrow> kstate \<Rightarrow> (user_status \<times> kstate) option" where
  "user_shm_drop_ownership a rw s = do {
     s \<leftarrow> user_shm_modify_perms a USER_COOKIE_KEY_UNIVERSAL rw s;
     Some (USER_STATUS_SUCCESS, s) }"

definition user_shm_acquire_ownership :: "addr \<Rightarrow> addr \<Rightarrow> bool \<Rightarrow> kstate \<Rightarrow> (user_status \<times> kstate) option" where
  "user_shm_acquire_ownership a cookie rw s = do {
     key \<leftarrow> user_entry_cookie_get_key cookie s;
     s \<leftarrow> user_shm_modify_perms a key rw s;
     Some (USER_STATUS_SUCCESS, s) }"

definition user_shm_give_ownership_to_grp :: "addr \<Rightarrow> addr \<Rightarrow> bool \<Rightarrow> kstate \<Rightarrow> (user_status \<times> kstate) option" where
  "user_shm_give_ownership_to_grp a grp rw s = do {
     key \<leftarrow> user_group_cookie_get_key grp s;
     s \<leftarrow> user_shm_modify_perms a key rw s;
     Some (USER_STATUS_SUCCESS, s) }"

section \<open>Correctness\<close>

text \<open>A shared memory object whose buffer has the recorded size.\<close>

definition shm_ok :: "user_shm_owner \<Rightarrow> bool" where
  "shm_ok shm \<longleftrightarrow> length (sh_data shm) = sh_size shm \<and> sh_size shm < 2 ^ 64"

lemma check_bounds_iff:
  "shm_ok shm \<Longrightarrow> user_shm_check_bounds shm offset len \<longleftrightarrow> offset + len \<le> sh_size shm"
  by (auto simp: user_shm_check_bounds_def shm_ok_def word_simps)

text \<open>The registry: ids below the counter, each naming a live object that carries it.\<close>

definition shm_inv :: "kstate \<Rightarrow> bool" where
  "shm_inv s \<longleftrightarrow> intmap_wf fst (shm_intmap s) \<and>
     (\<forall>(k, a) \<in> intmap_members (shm_intmap s). k < user_shm_last_allocated_id s \<and>
        (\<exists>shm. sget (shms s) a = Some shm \<and> sh_key shm = k \<and> shm_ok shm \<and>
           0 < sh_ref_rc shm \<and> sh_ref_rc shm + 1 < 2 ^ 64))"

definition shm_lookup :: "kstate \<Rightarrow> nat \<rightharpoonup> addr" where
  "shm_lookup s shm_id = map_option snd (intmap_lookup fst (shm_intmap s) shm_id)"

lemma shm_lookup_SomeD:
  assumes "shm_inv s" "shm_lookup s shm_id = Some a"
  obtains shm where "sget (shms s) a = Some shm" "sh_key shm = shm_id" "shm_ok shm"
    "0 < sh_ref_rc shm" "sh_ref_rc shm + 1 < 2 ^ 64"
proof -
  have "(shm_id, a) \<in> intmap_members (shm_intmap s)"
    using assms intmap_lookup_iff by (fastforce simp: shm_lookup_def shm_inv_def)
  then show thesis using assms(1) that by (fastforce simp: shm_inv_def)
qed

lemma find_by_id_eq:
  assumes "shm_inv s"
  shows "user_shm_find_by_id shm_id s = (case shm_lookup s shm_id of
      None \<Rightarrow> Some (None, s)
    | Some a \<Rightarrow> do { s \<leftarrow> mem_rc_borrow (RcShmRef a) s; Some (Some a, s) })"
proof -
  have "intmap_search fst (shm_intmap s) shm_id = Some (intmap_lookup fst (shm_intmap s) shm_id)"
    using assms by (intro imap.search_look) (simp add: shm_inv_def)
  then show ?thesis
    by (auto simp: user_shm_find_by_id_def shm_lookup_def split: option.split)
qed

lemma find_by_id_found:
  assumes "shm_inv s" "shm_lookup s shm_id = Some a"
  shows "\<exists>shm. sget (shms s) a = Some shm \<and> shm_ok shm \<and> 0 < sh_ref_rc shm \<and>
     user_shm_find_by_id shm_id s = Some (Some a, rc_set (RcShmRef a) (Suc (sh_ref_rc shm)) s)"
proof -
  obtain shm where "sget (shms s) a = Some shm" "shm_ok shm" "0 < sh_ref_rc shm" "sh_ref_rc shm + 1 < 2 ^ 64"
    using shm_lookup_SomeD [OF assms] by blast
  then show ?thesis
    using assms(2) by (auto simp: find_by_id_eq [OF assms(1)] mem_rc_borrow_def word_simps)
qed

lemma shm_rc_set:
  "sget (shms s) a = Some shm \<Longrightarrow>
   sget (shms (rc_set (RcShmRef a) n s)) a = Some (shm\<lparr>sh_ref_rc := n\<rparr>)"
  by (simp add: store_simps)

lemma shm_drop_borrowed:
  assumes "sget (shms s) a = Some shm" "0 < sh_ref_rc shm"
  shows "mem_rc_drop (RcShmRef a) (rc_set (RcShmRef a) (Suc (sh_ref_rc shm)) s) = Some s"
  using assms by (intro mem_rc_drop_back) simp_all

lemma shm_drop_written:
  assumes "sget (shms s) a = Some shm" "0 < sh_ref_rc shm"
  shows "mem_rc_drop (RcShmRef a)
      (s\<lparr>shms := sput (shms s) a (shm\<lparr>sh_ref_rc := Suc (sh_ref_rc shm), sh_data := mem\<rparr>)\<rparr>) =
     Some (s\<lparr>shms := sput (shms s) a (shm\<lparr>sh_data := mem\<rparr>)\<rparr>)"
proof -
  let ?s = "s\<lparr>shms := sput (shms s) a (shm\<lparr>sh_data := mem\<rparr>)\<rparr>"
  have "mem_rc_drop (RcShmRef a) (rc_set (RcShmRef a) (Suc (sh_ref_rc shm)) ?s) = Some ?s"
    using assms sget_Some_length [OF assms(1)] by (intro mem_rc_drop_back) (simp_all add: store_simps)
  moreover have "shm\<lparr>sh_ref_rc := Suc (sh_ref_rc shm), sh_data := mem\<rparr> =
      shm\<lparr>sh_data := mem, sh_ref_rc := Suc (sh_ref_rc shm)\<rparr>" by simp
  ultimately show ?thesis
    using sget_Some_length [OF assms(1)] by (simp only: rc_set.simps) (simp add: smod_def store_simps)
qed

lemma by_id_eq:
  assumes inv: "shm_inv s" and e: "sget (entries s) cookie = Some e" "\<not> e_taken e" "e_key e \<noteq> 0"
  shows "user_shm_write_by_id shm_id offset len data cookie s =
     (case shm_lookup s shm_id of
        None \<Rightarrow> Some (USER_STATUS_SECURITY_VIOLATION, s)
      | Some a \<Rightarrow>
         if sh_rw_key (the (sget (shms s) a)) \<in> entry_auth e
         then user_shm_write_by_ref a offset len data s
         else Some (USER_STATUS_SECURITY_VIOLATION, s)) \<and>
   user_shm_read_by_id shm_id offset len data cookie s =
     (case shm_lookup s shm_id of
        None \<Rightarrow> Some ((USER_STATUS_SECURITY_VIOLATION, data), s)
      | Some a \<Rightarrow>
         if sh_rw_key (the (sget (shms s) a)) \<in> entry_auth e \<or> sh_ro_key (the (sget (shms s) a)) \<in> entry_auth e
         then user_shm_read_by_ref a offset len data s
         else Some ((USER_STATUS_SECURITY_VIOLATION, data), s))"
proof (cases "shm_lookup s shm_id")
  case None
  then show ?thesis
    by (simp add: user_shm_write_by_id_def user_shm_read_by_id_def find_by_id_eq [OF inv])
next
  case (Some a)
  obtain shm where shm: "sget (shms s) a = Some shm" "0 < sh_ref_rc shm"
    and found: "user_shm_find_by_id shm_id s = Some (Some a, rc_set (RcShmRef a) (Suc (sh_ref_rc shm)) s)"
    using find_by_id_found [OF inv Some] by blast
  let ?s = "rc_set (RcShmRef a) (Suc (sh_ref_rc shm)) s"
  let ?shm = "shm\<lparr>sh_ref_rc := Suc (sh_ref_rc shm)\<rparr>"
  have get: "sget (shms ?s) a = Some ?shm" by (rule shm_rc_set [OF shm(1)])
  have auth: "user_entry_cookie_auth cookie key ?s = Some (key \<in> entry_auth e, ?s)" for key
    using e by (intro auth_eq) simp_all
  have chk: "user_shm_check_bounds ?shm offset len = user_shm_check_bounds shm offset len"
    by (simp add: user_shm_check_bounds_def)
  have put: "?s\<lparr>shms := sput (shms ?s) a (?shm\<lparr>sh_data := mem\<rparr>)\<rparr> =
      s\<lparr>shms := sput (shms s) a (shm\<lparr>sh_ref_rc := Suc (sh_ref_rc shm), sh_data := mem\<rparr>)\<rparr>" for mem
    using shm by (simp add: smod_def store_simps)
  note release = shm_drop_borrowed [OF shm]
  note simps = found get auth chk release put shm_drop_written [OF shm] shm(1) Some
  have "user_shm_write_by_id shm_id offset len data cookie s =
      (if sh_rw_key shm \<in> entry_auth e then user_shm_write_by_ref a offset len data s
       else Some (USER_STATUS_SECURITY_VIOLATION, s))"
    by (simp add: user_shm_write_by_id_def user_shm_auth_write_def user_shm_write_by_ref_def
        mem_copy_from_user_def simps del: rc_set.simps)
  moreover have "user_shm_read_by_id shm_id offset len data cookie s =
      (if sh_rw_key shm \<in> entry_auth e \<or> sh_ro_key shm \<in> entry_auth e
       then user_shm_read_by_ref a offset len data s
       else Some ((USER_STATUS_SECURITY_VIOLATION, data), s))"
    by (simp add: user_shm_read_by_id_def user_shm_auth_read_def user_shm_read_by_ref_def
        mem_copy_to_user_def simps del: rc_set.simps)
  ultimately show ?thesis using Some shm by simp
qed

text \<open>Accessing an object under a borrowed reference and giving the reference back.\<close>

lemma by_ref_borrowed:
  assumes shm: "sget (shms s) a = Some shm" "0 < sh_ref_rc shm"
  shows "do { (st, s') \<leftarrow> user_shm_write_by_ref a offset len data (rc_set (RcShmRef a) (Suc (sh_ref_rc shm)) s);
       s' \<leftarrow> mem_rc_drop (RcShmRef a) s';
       Some (st, s') } = user_shm_write_by_ref a offset len data s"
    and "do { (st, s') \<leftarrow> user_shm_read_by_ref a offset len buf (rc_set (RcShmRef a) (Suc (sh_ref_rc shm)) s);
       s' \<leftarrow> mem_rc_drop (RcShmRef a) s';
       Some (st, s') } = user_shm_read_by_ref a offset len buf s"
proof -
  let ?s = "rc_set (RcShmRef a) (Suc (sh_ref_rc shm)) s"
  let ?shm = "shm\<lparr>sh_ref_rc := Suc (sh_ref_rc shm)\<rparr>"
  have get: "sget (shms ?s) a = Some ?shm" by (rule shm_rc_set [OF shm(1)])
  have chk: "user_shm_check_bounds ?shm offset len = user_shm_check_bounds shm offset len"
    by (simp add: user_shm_check_bounds_def)
  have put: "?s\<lparr>shms := sput (shms ?s) a (?shm\<lparr>sh_data := mem\<rparr>)\<rparr> =
      s\<lparr>shms := sput (shms s) a (shm\<lparr>sh_ref_rc := Suc (sh_ref_rc shm), sh_data := mem\<rparr>)\<rparr>" for mem
    using shm by (simp add: smod_def store_simps)
  note simps = get chk shm_drop_borrowed [OF shm] put shm_drop_written [OF shm] shm(1)
  show "do { (st, s') \<leftarrow> user_shm_write_by_ref a offset len data ?s;
       s' \<leftarrow> mem_rc_drop (RcShmRef a) s';
       Some (st, s') } = user_shm_write_by_ref a offset len data s"
    by (simp add: user_shm_write_by_ref_def mem_copy_from_user_def simps del: rc_set.simps)
  show "do { (st, s') \<leftarrow> user_shm_read_by_ref a offset len buf ?s;
       s' \<leftarrow> mem_rc_drop (RcShmRef a) s';
       Some (st, s') } = user_shm_read_by_ref a offset len buf s"
    by (simp add: user_shm_read_by_ref_def mem_copy_to_user_def simps del: rc_set.simps)
qed

text \<open>Registering a new object at the end of the store.\<close>

definition register :: "kstate \<Rightarrow> user_shm_owner \<Rightarrow> (nat \<times> addr) intmap \<Rightarrow> kstate" where
  "register s shm im = s\<lparr>user_shm_last_allocated_id := Suc (user_shm_last_allocated_id s),
     shms := shms s @ [Some shm], shm_intmap := im\<rparr>"

lemma shm_register:
  assumes inv: "shm_inv s" and shm: "sh_key shm = user_shm_last_allocated_id s" "shm_ok shm" "sh_ref_rc shm = 1"
  shows "\<exists>im. intmap_insert fst (shm_intmap s) (user_shm_last_allocated_id s, length (shms s)) = Some im \<and>
     shm_inv (register s shm im) \<and>
     shm_lookup (register s shm im) = (shm_lookup s)(user_shm_last_allocated_id s \<mapsto> length (shms s)) \<and>
     shm_lookup s (user_shm_last_allocated_id s) = None"
proof -
  let ?k = "user_shm_last_allocated_id s" and ?a = "length (shms s)"
  have wf: "intmap_wf fst (shm_intmap s)" using inv by (simp add: shm_inv_def)
  have "\<forall>m \<in> intmap_members (shm_intmap s). fst m \<noteq> ?k" using inv by (auto simp: shm_inv_def)
  then have none: "intmap_lookup fst (shm_intmap s) ?k = None" using intmap_lookup_None_iff [OF wf] by blast
  obtain im where im: "intmap_insert fst (shm_intmap s) (?k, ?a) = Some im" "intmap_wf fst im"
      "intmap_lookup fst im = (intmap_lookup fst (shm_intmap s))(?k \<mapsto> (?k, ?a))"
    using imap.look_ins [OF wf, of "(?k, ?a)"] none by auto
  have mem: "m \<in> intmap_members im \<longleftrightarrow> m = (?k, ?a) \<or> m \<in> intmap_members (shm_intmap s)" for m
    using intmap_lookup_iff [OF im(2), of "fst m" m] intmap_lookup_iff [OF wf, of "fst m" m] im(3) none
    by (auto split: if_splits)
  have get: "sget (shms s @ [Some shm]) b = (if b = ?a then Some shm else sget (shms s) b)" for b
    by (simp add: sget_def nth_append)
  have "shm_inv (register s shm im)"
    unfolding shm_inv_def
  proof (intro conjI ballI)
    fix m
    assume "m \<in> intmap_members (shm_intmap (register s shm im))"
    then consider "m = (?k, ?a)" | "m \<in> intmap_members (shm_intmap s)" using mem by (auto simp: register_def)
    then show "case m of (k, a) \<Rightarrow> k < user_shm_last_allocated_id (register s shm im) \<and>
        (\<exists>shm'. sget (shms (register s shm im)) a = Some shm' \<and> sh_key shm' = k \<and> shm_ok shm' \<and>
           0 < sh_ref_rc shm' \<and> sh_ref_rc shm' + 1 < 2 ^ 64)"
      by cases (use get shm inv in \<open>fastforce simp: shm_inv_def register_def dest: sget_Some_length\<close>)+
  qed (use im(2) in \<open>simp add: register_def\<close>)
  moreover have "shm_lookup (register s shm im) = (shm_lookup s)(?k \<mapsto> ?a)" "shm_lookup s ?k = None"
    using im(3) none by (auto simp: shm_lookup_def register_def fun_eq_iff)
  ultimately show ?thesis using im(1) by auto
qed

text \<open>Changing the keys of an object does not disturb the registry.\<close>

lemma shm_inv_keys:
  assumes inv: "shm_inv s" and shm: "sget (shms s) a = Some shm"
  shows "shm_inv (s\<lparr>shms := sput (shms s) a (shm\<lparr>sh_ro_key := k, sh_rw_key := l\<rparr>)\<rparr>)"
    and "shm_lookup (s\<lparr>shms := sput (shms s) a (shm\<lparr>sh_ro_key := k, sh_rw_key := l\<rparr>)\<rparr>) = shm_lookup s"
  using inv shm sget_Some_length [OF shm]
  by (fastforce simp: shm_inv_def store_simps shm_ok_def, simp add: shm_lookup_def fun_eq_iff)

text \<open>A registry of two buckets with one object: four bytes, readable and writable by the holder of key 2.
  Cookie 0 holds key 2, cookie 1 holds key 5.\<close>

definition shm_example_owner :: user_shm_owner where
  "shm_example_owner = \<lparr>sh_shutdown_rc = 1, sh_ref_rc = 1, sh_data = [10, 11, 12, 13], sh_size = 4,
     sh_key = 0, sh_ro_key = 2, sh_rw_key = 2\<rparr>"

definition shm_example_cookie :: "nat \<Rightarrow> user_entry_cookie" where
  "shm_example_cookie key = \<lparr>e_refcount = 1, e_key = key, e_taken = False,
     e_grp_keys = \<lparr>da_data = [], capacity = 0\<rparr>\<rparr>"

definition shm_example :: kstate where
  "shm_example = init_kstate\<lparr>shms := [Some shm_example_owner], user_shm_last_allocated_id := 1,
     shm_intmap := \<lparr>buckets_count = 2, im_nodes = [[(0, 0)], []]\<rparr>,
     entries := [Some (shm_example_cookie 2), Some (shm_example_cookie 5)]\<rparr>"

lemma shm_example_registry:
  "intmap_wf fst (shm_intmap shm_example)" "intmap_members (shm_intmap shm_example) = {(0, 0)}"
  by (auto simp: shm_example_def intmap_wf_def intmap_members_def less_2_cases_iff less_Suc_eq)

lemma shm_example_facts:
  "shm_inv shm_example" "sget (shms shm_example) 0 = Some shm_example_owner" "shm_ok shm_example_owner"
  "shm_lookup shm_example 0 = Some 0" "user_shm_last_allocated_id shm_example = 1"
  "sget (entries shm_example) 0 = Some (shm_example_cookie 2)"
  "sget (entries shm_example) 1 = Some (shm_example_cookie 5)"
  "\<not> e_taken (shm_example_cookie k)" "e_key (shm_example_cookie k) = k"
  "entry_auth (shm_example_cookie k) = {1, k}"
  using shm_example_registry
  by (simp_all add: shm_inv_def)
    (simp_all add: shm_example_def shm_example_owner_def shm_example_cookie_def shm_ok_def sget_def
      shm_lookup_def intmap_lookup_def entry_auth_def cookie_key_defs)

section \<open>Properties\<close>

text \<open>C15: shared memory through a reference. An access whose range \<open>[offset, offset + len)\<close> lies in
  the object (including the check that the sum does not wrap) succeeds: exactly the bytes of the range
  are replaced and read back, none outside of it. Any other access is refused with
  \<open>USER_STATUS_OUT_OF_BOUNDS\<close>, and no access reaches memory outside the buffer.\<close>

theorem shm_write_read:
  assumes shm: "sget (shms s) a = Some shm" "shm_ok shm"
    and user: "length data = len" "len \<le> length buf"
  shows "if offset + len \<le> sh_size shm
     then \<exists>s' mem. user_shm_write_by_ref a offset len data s = Some (USER_STATUS_SUCCESS, s') \<and>
       s' = s\<lparr>shms := sput (shms s) a (shm\<lparr>sh_data := mem\<rparr>)\<rparr> \<and>
       length mem = sh_size shm \<and>
       (\<forall>i < sh_size shm. mem ! i = (if offset \<le> i \<and> i < offset + len then data ! (i - offset) else sh_data shm ! i)) \<and>
       user_shm_read_by_ref a offset len buf s' = Some ((USER_STATUS_SUCCESS, data @ drop len buf), s')
     else user_shm_write_by_ref a offset len data s = Some (USER_STATUS_OUT_OF_BOUNDS, s) \<and>
       user_shm_read_by_ref a offset len buf s = Some ((USER_STATUS_OUT_OF_BOUNDS, buf), s)"
proof (cases "offset + len \<le> sh_size shm")
  case True
  have len: "length (sh_data shm) = sh_size shm" using shm(2) by (simp add: shm_ok_def)
  let ?mem = "take offset (sh_data shm) @ data @ drop (offset + len) (sh_data shm)"
  let ?shm = "shm\<lparr>sh_data := ?mem\<rparr>"
  let ?s = "s\<lparr>shms := sput (shms s) a ?shm\<rparr>"
  have ok: "shm_ok ?shm" using shm(2) True user len by (simp add: shm_ok_def)
  have get: "sget (shms ?s) a = Some ?shm"
    using shm(1) sget_Some_length [OF shm(1)] by (simp add: store_simps)
  have "user_shm_write_by_ref a offset len data s = Some (USER_STATUS_SUCCESS, ?s)"
    using shm True user len by (simp add: user_shm_write_by_ref_def check_bounds_iff mem_copy_from_user_def)
  moreover have "user_shm_read_by_ref a offset len buf ?s = Some ((USER_STATUS_SUCCESS, data @ drop len buf), ?s)"
    using get True user len check_bounds_iff [OF ok, of offset len]
    by (simp add: user_shm_read_by_ref_def mem_copy_to_user_def)
  moreover have "\<forall>i < sh_size shm. ?mem ! i = (if offset \<le> i \<and> i < offset + len then data ! (i - offset) else sh_data shm ! i)"
    using True user len by (auto simp: nth_append)
  moreover have "length ?mem = sh_size shm" using True user len by simp
  ultimately show ?thesis using True by auto
next
  case False
  then show ?thesis
    using shm by (simp add: user_shm_write_by_ref_def user_shm_read_by_ref_def check_bounds_iff)
qed

theorem shm_write_read_witness:
  "\<exists>s'. user_shm_write_by_ref 0 1 2 [7, 8] shm_example = Some (USER_STATUS_SUCCESS, s') \<and>
     user_shm_read_by_ref 0 1 2 [0, 0, 0] s' = Some ((USER_STATUS_SUCCESS, [7, 8, 0]), s') \<and>
   user_shm_write_by_ref 0 3 2 [7, 8] shm_example = Some (USER_STATUS_OUT_OF_BOUNDS, shm_example)"
  using shm_write_read [OF shm_example_facts(2,3), of "[7, 8]" 2 "[0, 0, 0]" 1]
    shm_write_read [OF shm_example_facts(2,3), of "[7, 8]" 2 "[0, 0, 0]" 3]
  by (auto simp: shm_example_owner_def)

text \<open>C14: access by id is the capability check followed by access by reference. For any id, an entry
  cookie that authorises the object's read-write key writes exactly as a holder of a reference
  would, one that authorises the read-write or the read-only key reads exactly so; everybody else,
  and every id that names no object, gets \<open>USER_STATUS_SECURITY_VIOLATION\<close> and changes nothing, so
  that the two cases cannot be told apart. The borrowed reference is given back on every path.\<close>

theorem shm_by_id_equiv:
  assumes inv: "shm_inv s" and e: "sget (entries s) cookie = Some e" "\<not> e_taken e" "e_key e \<noteq> 0"
  shows "user_shm_write_by_id shm_id offset len data cookie s =
     (case shm_lookup s shm_id of
        None \<Rightarrow> Some (USER_STATUS_SECURITY_VIOLATION, s)
      | Some a \<Rightarrow>
         if sh_rw_key (the (sget (shms s) a)) \<in> entry_auth e
         then user_shm_write_by_ref a offset len data s
         else Some (USER_STATUS_SECURITY_VIOLATION, s)) \<and>
   user_shm_read_by_id shm_id offset len data cookie s =
     (case shm_lookup s shm_id of
        None \<Rightarrow> Some ((USER_STATUS_SECURITY_VIOLATION, data), s)
      | Some a \<Rightarrow>
         if sh_rw_key (the (sget (shms s) a)) \<in> entry_auth e \<or> sh_ro_key (the (sget (shms s) a)) \<in> entry_auth e
         then user_shm_read_by_ref a offset len data s
         else Some ((USER_STATUS_SECURITY_VIOLATION, data), s))"
  using by_id_eq [OF assms] by blast

theorem shm_by_id_equiv_witness:
  "user_shm_write_by_id 0 1 2 [7, 8] 1 shm_example = Some (USER_STATUS_SECURITY_VIOLATION, shm_example) \<and>
   user_shm_write_by_id 0 1 2 [7, 8] 0 shm_example = user_shm_write_by_ref 0 1 2 [7, 8] shm_example"
  using shm_by_id_equiv [OF shm_example_facts(1,7,8), of 0 1 2 "[7, 8]"]
    shm_by_id_equiv [OF shm_example_facts(1,6,8), of 0 1 2 "[7, 8]"]
  by (simp add: shm_example_facts(2,4,9,10) shm_example_owner_def)

text \<open>Creating shared memory. The new object is registered under an id that was not in use, zeroed
  over its whole size, accessible to the creator's cookie only, and every other id keeps denoting
  what it did; when an allocation fails the registry is unchanged. The registry invariant is kept.\<close>

lemma shm_create_correct:
  assumes inv: "shm_inv s" and e: "sget (entries s) cookie = Some e"
    and bounds: "user_shm_last_allocated_id s + 1 < 2 ^ 64" "sz < 2 ^ 64"
  shows "\<exists>st r s'. user_shm_create sz cookie s = Some ((st, r), s') \<and> shm_inv s' \<and>
     (if st = USER_STATUS_SUCCESS
      then \<exists>a shm. r = Some (a, user_shm_last_allocated_id s) \<and>
        sget (shms s) a = None \<and> shm_lookup s (user_shm_last_allocated_id s) = None \<and>
        shm_lookup s' = (shm_lookup s)(user_shm_last_allocated_id s \<mapsto> a) \<and>
        sget (shms s') a = Some shm \<and> sh_data shm = replicate sz 0 \<and>
        sh_ro_key shm = e_key e \<and> sh_rw_key shm = e_key e
      else st = USER_STATUS_OUT_OF_MEMORY \<and> r = None \<and> shm_lookup s' = shm_lookup s)"
proof (cases "alloc_outcome s (alloc_calls s) \<and> alloc_outcome s (Suc (alloc_calls s))")
  case False
  then have "\<exists>n. user_shm_create sz cookie s = Some ((USER_STATUS_OUT_OF_MEMORY, None), s\<lparr>alloc_calls := n\<rparr>)"
    by (auto simp: user_shm_create_def kalloc_def)
  then obtain n where "user_shm_create sz cookie s = Some ((USER_STATUS_OUT_OF_MEMORY, None), s\<lparr>alloc_calls := n\<rparr>)"
    by blast
  moreover have "shm_inv (s\<lparr>alloc_calls := n\<rparr>)" using inv by (simp add: shm_inv_def)
  ultimately show ?thesis by (simp add: shm_lookup_def fun_eq_iff)
next
  case True
  let ?k = "user_shm_last_allocated_id s" and ?a = "length (shms s)"
  let ?shm = "\<lparr>sh_shutdown_rc = 1, sh_ref_rc = 1, sh_data = replicate sz 0, sh_size = sz,
            sh_key = ?k, sh_ro_key = e_key e, sh_rw_key = e_key e\<rparr>"
  have "shm_ok ?shm" using bounds(2) by (simp add: shm_ok_def)
  then obtain im where im: "intmap_insert fst (shm_intmap s) (?k, ?a) = Some im"
      "shm_inv (register s ?shm im)" "shm_lookup (register s ?shm im) = (shm_lookup s)(?k \<mapsto> ?a)"
      "shm_lookup s ?k = None"
    using shm_register [OF inv, of ?shm] by auto
  let ?s = "(register s ?shm im)\<lparr>alloc_calls := Suc (Suc (alloc_calls s))\<rparr>"
  have "user_shm_create sz cookie s = Some ((USER_STATUS_SUCCESS, Some (?a, ?k)), ?s)"
    using True e im(1) bounds(1)
    by (simp add: user_shm_create_def kalloc_def user_entry_cookie_get_key_def snew_def word_simps
        Let_def register_def)
  moreover have "shm_inv ?s" "shm_lookup ?s = (shm_lookup s)(?k \<mapsto> ?a)"
    using im(2,3) by (simp_all add: shm_inv_def shm_lookup_def fun_eq_iff)
  moreover have "sget (shms s) ?a = None" by (simp add: sget_def)
  moreover have "sget (shms ?s) ?a = Some ?shm" by (simp add: register_def sget_def)
  ultimately show ?thesis using im(4) by auto
qed

text \<open>C40: access rights are changed the wrong way round. Publishing only the read rights of an object
  (\<open>rw\<close> false) in fact publishes its read-write key, so that any cookie can then write it by id;
  publishing the read-write rights leaves writing as restricted as it was.\<close>

theorem shm_perms_swapped:
  assumes inv: "shm_inv s" and a: "shm_lookup s shm_id = Some a"
    and e: "sget (entries s) cookie = Some e" "\<not> e_taken e" "e_key e \<noteq> 0"
    and no: "sget (shms s) a = Some shm" "sh_rw_key shm \<notin> entry_auth e"
  shows "(\<exists>s'. user_shm_drop_ownership a False s = Some (USER_STATUS_SUCCESS, s') \<and>
       user_shm_write_by_id shm_id offset len data cookie s' = user_shm_write_by_ref a offset len data s') \<and>
     (\<exists>s'. user_shm_drop_ownership a True s = Some (USER_STATUS_SUCCESS, s') \<and>
       user_shm_write_by_id shm_id offset len data cookie s' = Some (USER_STATUS_SECURITY_VIOLATION, s'))"
proof -
  let ?s = "\<lambda>k l. s\<lparr>shms := sput (shms s) a (shm\<lparr>sh_ro_key := k, sh_rw_key := l\<rparr>)\<rparr>"
  have drop: "user_shm_drop_ownership a rw s = Some (USER_STATUS_SUCCESS,
      if rw then ?s USER_COOKIE_KEY_UNIVERSAL (sh_rw_key shm) else ?s (sh_ro_key shm) USER_COOKIE_KEY_UNIVERSAL)" for rw
    using no(1) by (cases shm) (simp add: user_shm_drop_ownership_def user_shm_modify_perms_def)
  have write_by_id: "user_shm_write_by_id shm_id offset len data cookie (?s k l) =
      (if l \<in> entry_auth e then user_shm_write_by_ref a offset len data (?s k l)
       else Some (USER_STATUS_SECURITY_VIOLATION, ?s k l))" for k l
    using by_id_eq [OF shm_inv_keys(1) [OF inv no(1), of l k], of cookie e shm_id offset len data] e a
      shm_inv_keys(2) [OF inv no(1)] no(1) sget_Some_length [OF no(1)]
    by (simp add: store_simps)
  have "USER_COOKIE_KEY_UNIVERSAL \<in> entry_auth e" by (simp add: entry_auth_def)
  then show ?thesis
    using drop [of True] drop [of False] no(2) write_by_id [of "sh_rw_key shm" USER_COOKIE_KEY_UNIVERSAL]
      write_by_id [of USER_COOKIE_KEY_UNIVERSAL "sh_ro_key shm"] by simp
qed

theorem shm_perms_swapped_witness:
  "\<exists>s'. user_shm_drop_ownership 0 False shm_example = Some (USER_STATUS_SUCCESS, s') \<and>
     user_shm_write_by_id 0 1 2 [7, 8] 1 s' = user_shm_write_by_ref 0 1 2 [7, 8] s'"
  using shm_perms_swapped [OF shm_example_facts(1,4,7,8) _ shm_example_facts(2), of 1 2 "[7, 8]"]
  by (simp add: shm_example_facts(9,10) shm_example_owner_def)

end
