(* ===== verification/Tls.thy ===== *)
theory Tls
  imports Drop
begin

text \<open>
  \<^verbatim>\<open>user/tls.c\<close>: thread-local storage tables, an intmap from keys to heap-allocated nodes that
  hold a value. \<open>user_tls_table_destroy\<close> is in theory \<open>Drop\<close>.
\<close>

definition user_tls_table_create :: "kstate \<Rightarrow> (user_status \<times> addr option) \<times> kstate" where
  "user_tls_table_create s =
     (let (ok, s) = kalloc s in
      if \<not> ok then ((USER_STATUS_OUT_OF_MEMORY, None), s)
      else let (ok, s) = kalloc s in
      case intmap_init ok USER_TLS_BUCKETS of
        None \<Rightarrow> ((USER_STATUS_OUT_OF_MEMORY, None), s)
      | Some im \<Rightarrow> let (a, ts) = snew (tls_tables s) \<lparr>tl_refcount = 1, tl_keys = im\<rparr>
                 in ((USER_STATUS_SUCCESS, Some a), s\<lparr>tls_tables := ts\<rparr>))"

definition user_tls_table_set_key :: "addr \<Rightarrow> nat \<Rightarrow> nat \<Rightarrow> kstate \<Rightarrow> (user_status \<times> kstate) option" where
  "user_tls_table_set_key table key value s = do {
     t \<leftarrow> sget (tls_tables s) table;
     found \<leftarrow> intmap_search fst (tl_keys t) key;
     case found of
       Some raw_node \<Rightarrow> do {
         n \<leftarrow> sget (tls_nodes s) (snd raw_node);
         Some (USER_STATUS_SUCCESS,
           s\<lparr>tls_nodes := sput (tls_nodes s) (snd raw_node) (n\<lparr>tn_value := value\<rparr>)\<rparr>) }
     | None \<Rightarrow> do {
         let (ok, s) = kalloc s;
         if \<not> ok then Some (USER_STATUS_OUT_OF_MEMORY, s)
         else do {
           let (a, ns) = snew (tls_nodes s) \<lparr>tn_value = value\<rparr>;
           im \<leftarrow> intmap_insert fst (tl_keys t) (key, a);
           Some (USER_STATUS_SUCCESS,
             s\<lparr>tls_nodes := ns, tls_tables := sput (tls_tables s) table (t\<lparr>tl_keys := im\<rparr>)\<rparr>) }}}"

definition user_tls_table_get_key :: "addr \<Rightarrow> nat \<Rightarrow> kstate \<Rightarrow> nat option" where
  "user_tls_table_get_key table key s = do {
     t \<leftarrow> sget (tls_tables s) table;
     found \<leftarrow> intmap_search fst (tl_keys t) key;
     case found of
       Some raw_node \<Rightarrow> do { n \<leftarrow> sget (tls_nodes s) (snd raw_node); Some (tn_value n) }
     | None \<Rightarrow> Some 0 }"

section \<open>Correctness\<close>

text \<open>Keys are distinct, every key has a live node, and no node serves two keys.\<close>

definition tls_wf :: "kstate \<Rightarrow> addr \<Rightarrow> bool" where
  "tls_wf s table \<longleftrightarrow> (\<exists>t. sget (tls_tables s) table = Some t \<and> intmap_wf fst (tl_keys t) \<and>
     (\<forall>n \<in> intmap_members (tl_keys t). sget (tls_nodes s) (snd n) \<noteq> None) \<and>
     inj_on snd (intmap_members (tl_keys t)))"

text \<open>The table as a total map, 0 where nothing was stored.\<close>

definition tls_map :: "kstate \<Rightarrow> addr \<Rightarrow> nat \<Rightarrow> nat" where
  "tls_map s table key = the (user_tls_table_get_key table key s)"

lemma bind_Some_map: "x \<bind> (\<lambda>n. Some (f n)) = map_option f x"
  by (cases x) auto

lemma tls_get_eq:
  assumes t: "sget (tls_tables s) table = Some t" "intmap_wf fst (tl_keys t)"
  shows "user_tls_table_get_key table key s =
     (case intmap_lookup fst (tl_keys t) key of None \<Rightarrow> Some 0
      | Some n \<Rightarrow> map_option tn_value (sget (tls_nodes s) (snd n)))"
  using t imap.search_look [OF t(2)]
  by (auto simp: user_tls_table_get_key_def bind_Some_map split: option.split)

lemma tls_get_total:
  assumes "tls_wf s table"
  shows "user_tls_table_get_key table key s = Some (tls_map s table key)"
proof -
  obtain t where t: "sget (tls_tables s) table = Some t" "intmap_wf fst (tl_keys t)"
    and live: "\<forall>n \<in> intmap_members (tl_keys t). sget (tls_nodes s) (snd n) \<noteq> None"
    using assms by (auto simp: tls_wf_def)
  have "user_tls_table_get_key table key s \<noteq> None"
    using live intmap_lookup_iff [OF t(2), of key]
    by (auto simp: tls_get_eq [OF t] split: option.split)
  then show ?thesis by (simp add: tls_map_def)
qed

text \<open>What a call of \<open>user_tls_table_set_key\<close> does to the abstract map, one lemma per branch.\<close>

definition tls_set_post :: "addr \<Rightarrow> nat \<Rightarrow> nat \<Rightarrow> kstate \<Rightarrow> user_status \<Rightarrow> kstate \<Rightarrow> bool" where
  "tls_set_post table key value s st s' \<longleftrightarrow> tls_wf s' table \<and>
     (if st = USER_STATUS_SUCCESS
      then \<forall>k. user_tls_table_get_key table k s' = Some (if k = key then value else tls_map s table k)
      else st = USER_STATUS_OUT_OF_MEMORY \<and> (\<forall>k. user_tls_table_get_key table k s' = Some (tls_map s table k)))"

lemma tls_wfE:
  assumes "tls_wf s table"
  obtains t where "sget (tls_tables s) table = Some t" "intmap_wf fst (tl_keys t)"
    "\<forall>n \<in> intmap_members (tl_keys t). sget (tls_nodes s) (snd n) \<noteq> None"
    "inj_on snd (intmap_members (tl_keys t))"
  using assms by (auto simp: tls_wf_def)

lemma tls_set_present:
  assumes wf: "tls_wf s table" and t: "sget (tls_tables s) table = Some t"
    and Some: "intmap_lookup fst (tl_keys t) key = Some n"
  shows "\<exists>s'. user_tls_table_set_key table key value s = Some (USER_STATUS_SUCCESS, s') \<and>
     tls_set_post table key value s USER_STATUS_SUCCESS s'"
proof -
  have im: "intmap_wf fst (tl_keys t)" and inj: "inj_on snd (intmap_members (tl_keys t))"
    and live: "\<forall>n \<in> intmap_members (tl_keys t). sget (tls_nodes s) (snd n) \<noteq> None"
    using wf t by (auto simp: tls_wf_def)
  note look = intmap_lookup_iff [OF im]
  have n: "n \<in> intmap_members (tl_keys t)" "fst n = key" using Some look by auto
  then obtain v where v: "sget (tls_nodes s) (snd n) = Some v" using live by blast
  let ?s = "s\<lparr>tls_nodes := sput (tls_nodes s) (snd n) (v\<lparr>tn_value := value\<rparr>)\<rparr>"
  have t': "sget (tls_tables ?s) table = Some t" using t by simp
  have "user_tls_table_get_key table k ?s = Some (if k = key then value else tls_map s table k)" for k
  proof (cases "k = key")
    case True
    then show ?thesis using Some v by (simp add: tls_get_eq [OF t' im] store_simps sget_Some_length)
  next
    case False
    have "snd n' \<noteq> snd n" if "intmap_lookup fst (tl_keys t) k = Some n'" for n'
      using that look [of k n'] n inj False by (auto dest: inj_onD)
    then have "user_tls_table_get_key table k ?s = user_tls_table_get_key table k s"
      by (auto simp: tls_get_eq [OF t' im] tls_get_eq [OF t im] store_simps split: option.split)
    then show ?thesis using False tls_get_total [OF wf] by simp
  qed
  moreover have "tls_wf ?s table"
    using t im live inj v by (auto simp: tls_wf_def store_simps dest: sget_Some_length)
  moreover have "user_tls_table_set_key table key value s = Some (USER_STATUS_SUCCESS, ?s)"
    using t Some v imap.search_look [OF im] by (simp add: user_tls_table_set_key_def)
  ultimately show ?thesis by (auto simp: tls_set_post_def)
qed

lemma tls_set_oom:
  assumes wf: "tls_wf s table" and t: "sget (tls_tables s) table = Some t"
    and None: "intmap_lookup fst (tl_keys t) key = None"
    and oom: "\<not> alloc_outcome s (alloc_calls s)"
  shows "\<exists>s'. user_tls_table_set_key table key value s = Some (USER_STATUS_OUT_OF_MEMORY, s') \<and>
     tls_set_post table key value s USER_STATUS_OUT_OF_MEMORY s'"
proof -
  have im: "intmap_wf fst (tl_keys t)" using wf t by (auto elim: tls_wfE)
  let ?s = "s\<lparr>alloc_calls := Suc (alloc_calls s)\<rparr>"
  have t': "sget (tls_tables ?s) table = Some t" using t by simp
  have "user_tls_table_get_key table k ?s = user_tls_table_get_key table k s" for k
    by (simp add: tls_get_eq [OF t im] tls_get_eq [OF t' im] split: option.split)
  then have "\<forall>k. user_tls_table_get_key table k ?s = Some (tls_map s table k)"
    using tls_get_total [OF wf] by simp
  moreover have "user_tls_table_set_key table key value s = Some (USER_STATUS_OUT_OF_MEMORY, ?s)"
    using t None oom imap.search_look [OF im] by (simp add: user_tls_table_set_key_def kalloc_def)
  moreover have "tls_wf ?s table" using wf by (simp add: tls_wf_def)
  ultimately show ?thesis by (auto simp: tls_set_post_def)
qed

lemma tls_set_new:
  assumes wf: "tls_wf s table" and t: "sget (tls_tables s) table = Some t"
    and None: "intmap_lookup fst (tl_keys t) key = None"
    and mem: "alloc_outcome s (alloc_calls s)"
  shows "\<exists>s'. user_tls_table_set_key table key value s = Some (USER_STATUS_SUCCESS, s') \<and>
     tls_set_post table key value s USER_STATUS_SUCCESS s'"
proof -
  have wf0: "intmap_wf fst (tl_keys t)" and inj: "inj_on snd (intmap_members (tl_keys t))"
    and live: "\<forall>n \<in> intmap_members (tl_keys t). sget (tls_nodes s) (snd n) \<noteq> None"
    using wf t by (auto simp: tls_wf_def)
  note look = intmap_lookup_iff [OF wf0]
  let ?a = "length (tls_nodes s)"
  obtain im where im: "intmap_insert fst (tl_keys t) (key, ?a) = Some im" "intmap_wf fst im"
      "intmap_lookup fst im = (intmap_lookup fst (tl_keys t))(key \<mapsto> (key, ?a))"
    using imap.look_ins [OF wf0, of "(key, ?a)"] None by auto
  let ?t = "t\<lparr>tl_keys := im\<rparr>"
  let ?s = "s\<lparr>alloc_calls := Suc (alloc_calls s), tls_nodes := tls_nodes s @ [Some \<lparr>tn_value = value\<rparr>],
      tls_tables := sput (tls_tables s) table ?t\<rparr>"
  have t': "sget (tls_tables ?s) table = Some ?t" using t by (simp add: store_simps sget_Some_length)
  have node: "sget (tls_nodes ?s) x = (if x = ?a then Some \<lparr>tn_value = value\<rparr> else sget (tls_nodes s) x)" for x
    by (simp add: sget_def nth_append)
  have mem': "m \<in> intmap_members im \<longleftrightarrow> m = (key, ?a) \<or> m \<in> intmap_members (tl_keys t)" for m
    using intmap_lookup_iff [OF im(2), of "fst m" m] look [of "fst m" m] im(3) None
    by (auto split: if_splits)
  have old: "snd m < ?a" if "m \<in> intmap_members (tl_keys t)" for m
    using live that sget_Some_length by fastforce
  have "intmap_members im = insert (key, ?a) (intmap_members (tl_keys t))" using mem' by blast
  then have "inj_on snd (intmap_members im)" using inj old by (fastforce simp: inj_on_insert)
  then have "tls_wf ?s table"
    unfolding tls_wf_def using t' im(2) node mem' live old by auto
  moreover have "user_tls_table_get_key table k ?s = Some (if k = key then value else tls_map s table k)" for k
  proof (cases "k = key")
    case False
    have "snd n' \<noteq> ?a" if "intmap_lookup fst (tl_keys t) k = Some n'" for n'
      using that look [of k n'] old by fastforce
    then have "user_tls_table_get_key table k ?s = user_tls_table_get_key table k s"
      using False t' im(2,3) node by (auto simp: tls_get_eq [OF t wf0] tls_get_eq split: option.split)
    then show ?thesis using False tls_get_total [OF wf] by simp
  qed (use im t' node in \<open>simp add: tls_get_eq\<close>)
  moreover have "user_tls_table_set_key table key value s = Some (USER_STATUS_SUCCESS, ?s)"
    using t None mem im(1) imap.search_look [OF wf0]
    by (simp add: user_tls_table_set_key_def kalloc_def snew_def)
  ultimately show ?thesis by (auto simp: tls_set_post_def)
qed

lemma tls_create_wf:
  assumes "user_tls_table_create s = ((USER_STATUS_SUCCESS, Some a), s')"
  shows "tls_wf s' a \<and> tls_map s' a k = 0"
proof -
  obtain im ok where im: "intmap_init ok USER_TLS_BUCKETS = Some im"
    and t: "sget (tls_tables s') a = Some \<lparr>tl_refcount = 1, tl_keys = im\<rparr>"
    using assms by (auto simp: user_tls_table_create_def kalloc_def snew_def sget_def Let_def
        split: if_splits option.splits)
  have wf: "intmap_wf fst im" and none: "intmap_members im = {}"
    using intmap_init_wf [OF _ im] by (auto simp: USER_TLS_BUCKETS_def)
  have "intmap_lookup fst im k = None" using intmap_lookup_None_iff [OF wf] none by simp
  then show ?thesis using t wf none tls_get_eq [OF t, of k] by (simp add: tls_wf_def tls_map_def)
qed

section \<open>Properties\<close>

text \<open>Thread-local storage behaves as a map. Reading always returns; setting a key either
  succeeds, and then exactly that key reads as the new value and every other key as before, or runs
  out of memory, and then nothing is lost; well-formedness is kept either way. Keys that share a
  hash bucket do not interfere.\<close>

lemma tls_set_get:
  assumes wf: "tls_wf s table"
  shows "\<exists>st s'. user_tls_table_set_key table key value s = Some (st, s') \<and> tls_wf s' table \<and>
     (if st = USER_STATUS_SUCCESS
      then \<forall>k. user_tls_table_get_key table k s' = Some (if k = key then value else tls_map s table k)
      else st = USER_STATUS_OUT_OF_MEMORY \<and> (\<forall>k. user_tls_table_get_key table k s' = Some (tls_map s table k)))"
proof -
  obtain t where t: "sget (tls_tables s) table = Some t" using wf by (rule tls_wfE)
  have "\<exists>st s'. user_tls_table_set_key table key value s = Some (st, s') \<and>
      tls_set_post table key value s st s'"
    using tls_set_present [OF wf t] tls_set_oom [OF wf t] tls_set_new [OF wf t]
    by (cases "intmap_lookup fst (tl_keys t) key") blast+
  then show ?thesis by (simp add: tls_set_post_def)
qed

end
