(* ===== verification/Entry.thy ===== *)
theory Entry
  imports Universe Rpc Shm Tls
begin

text \<open>
  \<^verbatim>\<open>user/entry.c\<close>: the system calls. A \<open>user_api_entry\<close> holds the calling thread's universe, its
  entry cookie and its thread-local storage. A system call resolves its handles in the universe
  (borrowing a reference), checks the object types, calls the operation of the component and drops
  what it borrowed. Output parameters are returned as options, \<^const>\<open>None\<close> where the buffer is
  not written.
\<close>

record user_api_entry =
  ent_universe :: addr
  ent_cookie :: addr
  ent_tls :: addr

section \<open>Resolving handles\<close>

text \<open>
  The frame shared by the system calls: resolve a handle, refuse it unless its type is accepted,
  run the operation on the object and drop the borrowed reference. \<open>err\<close> is the result for a
  failure status.
\<close>

definition with_handle ::
  "user_api_entry \<Rightarrow> nat \<Rightarrow> obj_type set \<Rightarrow> (user_status \<Rightarrow> 'r) \<Rightarrow>
   (addr \<Rightarrow> kstate \<Rightarrow> ('r \<times> kstate) option) \<Rightarrow> kstate \<Rightarrow> ('r \<times> kstate) option" where
  "with_handle entry handle types err oper s = do {
     ((status, buf), s) \<leftarrow> user_universe_borrow_out (ent_universe entry) handle s;
     if status \<noteq> USER_STATUS_SUCCESS then Some (err status, s)
     else do {
       ref \<leftarrow> buf;
       if ref_type ref \<notin> types then do {
         s \<leftarrow> user_drop_ref ref s; Some (err USER_STATUS_INVALID_HANDLE_TYPE, s) }
       else do {
         (res, s) \<leftarrow> oper (ref_ptr ref) s;
         s \<leftarrow> user_drop_ref ref s;
         Some (res, s) }}}"

text \<open>
  Two handles, resolved in turn; references are dropped in the order in which they were borrowed.
  This is \<open>user_entry_extract_universe_pair\<close> with the two drops its callers end with, and the
  frame of the calls on an object and a group.
\<close>

definition with_handle_pair ::
  "user_api_entry \<Rightarrow> nat \<Rightarrow> obj_type \<Rightarrow> nat \<Rightarrow> obj_type \<Rightarrow> (user_status \<Rightarrow> 'r) \<Rightarrow>
   (addr \<Rightarrow> addr \<Rightarrow> kstate \<Rightarrow> ('r \<times> kstate) option) \<Rightarrow> kstate \<Rightarrow> ('r \<times> kstate) option" where
  "with_handle_pair entry handle1 type1 handle2 type2 err oper s = do {
     ((status, buf1), s) \<leftarrow> user_universe_borrow_out (ent_universe entry) handle1 s;
     if status \<noteq> USER_STATUS_SUCCESS then Some (err status, s)
     else do {
       ref1 \<leftarrow> buf1;
       if ref_type ref1 \<noteq> type1 then do {
         s \<leftarrow> user_drop_ref ref1 s; Some (err USER_STATUS_INVALID_HANDLE_TYPE, s) }
       else do {
         ((status, buf2), s) \<leftarrow> user_universe_borrow_out (ent_universe entry) handle2 s;
         if status \<noteq> USER_STATUS_SUCCESS then do {
           s \<leftarrow> user_drop_ref ref1 s; Some (err status, s) }
         else do {
           ref2 \<leftarrow> buf2;
           if ref_type ref2 \<noteq> type2 then do {
             s \<leftarrow> user_drop_ref ref1 s;
             s \<leftarrow> user_drop_ref ref2 s;
             Some (err USER_STATUS_INVALID_HANDLE_TYPE, s) }
           else do {
             (res, s) \<leftarrow> oper (ref_ptr ref1) (ref_ptr ref2) s;
             s \<leftarrow> user_drop_ref ref1 s;
             s \<leftarrow> user_drop_ref ref2 s;
             Some (res, s) }}}}}"

abbreviation no_handle :: "user_status \<Rightarrow> user_status \<times> 'h option" where
  "no_handle status \<equiv> (status, None)"

text \<open>The tail of the creating calls: store the new reference in the universe, or drop it.\<close>

definition store_new ::
  "user_api_entry \<Rightarrow> user_ref \<Rightarrow> kstate \<Rightarrow> ((user_status \<times> nat option) \<times> kstate) option" where
  "store_new entry ref s = do {
     ((status, handle), s) \<leftarrow> user_universe_move_in (ent_universe entry) ref s;
     if status \<noteq> USER_STATUS_SUCCESS then do {
       s \<leftarrow> user_drop_ref ref s; Some ((status, None), s) }
     else Some ((USER_STATUS_SUCCESS, handle), s) }"

section \<open>Life cycle of an entry\<close>

definition user_api_entry_init :: "kstate \<Rightarrow> ((user_status \<times> user_api_entry option) \<times> kstate) option" where
  "user_api_entry_init s =
     (let ((status, universe), s) = user_universe_create s in
      if status \<noteq> USER_STATUS_SUCCESS then Some ((status, None), s)
      else do {
        u \<leftarrow> universe;
        let ((status, cookie), s) = user_entry_cookie_create s;
        if status \<noteq> USER_STATUS_SUCCESS then do {
          s \<leftarrow> mem_rc_drop (RcUniverse u) s; Some ((status, None), s) }
        else do {
          c \<leftarrow> cookie;
          let ((status, tls), s) = user_tls_table_create s;
          if status \<noteq> USER_STATUS_SUCCESS then do {
            s \<leftarrow> mem_rc_drop (RcEntry c) s;
            s \<leftarrow> mem_rc_drop (RcUniverse u) s;
            Some ((status, None), s) }
          else do {
            t \<leftarrow> tls;
            Some ((USER_STATUS_SUCCESS, Some \<lparr>ent_universe = u, ent_cookie = c, ent_tls = t\<rparr>), s) }}})"

definition user_api_entry_deinit :: "user_api_entry \<Rightarrow> kstate \<Rightarrow> kstate option" where
  "user_api_entry_deinit entry s = do {
     s \<leftarrow> mem_rc_drop (RcUniverse (ent_universe entry)) s;
     s \<leftarrow> mem_rc_drop (RcEntry (ent_cookie entry)) s;
     mem_rc_drop (RcTls (ent_tls entry)) s }"

definition user_api_entry_move_handle_out ::
  "user_api_entry \<Rightarrow> nat \<Rightarrow> kstate \<Rightarrow> ((user_status \<times> user_ref option) \<times> kstate) option" where
  "user_api_entry_move_handle_out entry handle s = user_universe_move_out (ent_universe entry) handle s"

definition user_api_entry_move_handle_in ::
  "user_api_entry \<Rightarrow> user_ref \<Rightarrow> kstate \<Rightarrow> ((user_status \<times> nat option) \<times> kstate) option" where
  "user_api_entry_move_handle_in entry ref s = user_universe_move_in (ent_universe entry) ref s"

section \<open>Mailboxes\<close>

definition user_sys_create_mailbox ::
  "user_api_entry \<Rightarrow> bool \<Rightarrow> kstate \<Rightarrow> ((user_status \<times> nat option) \<times> kstate) option" where
  "user_sys_create_mailbox entry percpu s = do {
     key \<leftarrow> user_entry_cookie_get_key (ent_cookie entry) s;
     let ((status, mailbox), s) = user_create_mailbox percpu s;
     if status \<noteq> USER_STATUS_SUCCESS then Some ((status, None), s)
     else do {
       m \<leftarrow> mailbox;
       store_new entry \<lparr>ref_ptr = m, ref_type = USER_OBJ_TYPE_MAILBOX, pin_cookie = key\<rparr> s }}"

text \<open>
  A receiver that blocks keeps the mailbox borrowed until it is woken: the call returns the core
  it waits on and the borrowed mailbox, and \<open>user_sys_get_notification_resume\<close> is what is left
  of it. The outcome is an error status or the result of the receive.
\<close>

datatype get_result =
    Failed user_status
  | Done user_notification
  | Waiting addr nat

definition user_sys_get_notification :: "user_api_entry \<Rightarrow> nat \<Rightarrow> kstate \<Rightarrow> (get_result \<times> kstate) option" where
  "user_sys_get_notification entry hmailbox s = do {
     ((status, buf), s) \<leftarrow> user_universe_borrow_out (ent_universe entry) hmailbox s;
     if status \<noteq> USER_STATUS_SUCCESS then Some (Failed status, s)
     else do {
       ref \<leftarrow> buf;
       if ref_type ref \<noteq> USER_OBJ_TYPE_MAILBOX then do {
         s \<leftarrow> user_drop_ref ref s; Some (Failed USER_STATUS_INVALID_HANDLE_TYPE, s) }
       else do {
         (res, s) \<leftarrow> user_recieve_notification (ref_ptr ref) s;
         case res of
           Received note \<Rightarrow> do { s \<leftarrow> user_drop_ref ref s; Some (Done note, s) }
         | Blocked core \<Rightarrow> Some (Waiting (ref_ptr ref) core, s) }}}"

definition user_sys_get_notification_resume ::
  "addr \<Rightarrow> nat \<Rightarrow> nat \<Rightarrow> kstate \<Rightarrow> (user_notification \<times> kstate) option" where
  "user_sys_get_notification_resume mailbox task core s = do {
     (note, s) \<leftarrow> user_recieve_resume task core s;
     s \<leftarrow> mem_rc_drop (RcMailboxShutdown mailbox) s;
     Some (note, s) }"

section \<open>Cookies\<close>

definition user_sys_create_group_cookie ::
  "user_api_entry \<Rightarrow> kstate \<Rightarrow> ((user_status \<times> nat option) \<times> kstate) option" where
  "user_sys_create_group_cookie entry s = do {
     key \<leftarrow> user_entry_cookie_get_key (ent_cookie entry) s;
     let ((status, cookie), s) = user_group_cookie_create s;
     if status \<noteq> USER_STATUS_SUCCESS then Some ((status, None), s)
     else do {
       g \<leftarrow> cookie;
       store_new entry \<lparr>ref_ptr = g, ref_type = USER_OBJ_TYPE_GROUP_COOKIE, pin_cookie = key\<rparr> s }}"

definition user_sys_create_entry_cookie ::
  "user_api_entry \<Rightarrow> kstate \<Rightarrow> ((user_status \<times> nat option) \<times> kstate) option" where
  "user_sys_create_entry_cookie entry s = do {
     key \<leftarrow> user_entry_cookie_get_key (ent_cookie entry) s;
     let ((status, cookie), s) = user_entry_cookie_create s;
     if status \<noteq> USER_STATUS_SUCCESS then Some ((status, None), s)
     else do {
       c \<leftarrow> cookie;
       store_new entry \<lparr>ref_ptr = c, ref_type = USER_OBJ_TYPE_ENTRY_COOKIE, pin_cookie = key\<rparr> s }}"

definition user_sys_join_group :: "user_api_entry \<Rightarrow> nat \<Rightarrow> kstate \<Rightarrow> (user_status \<times> kstate) option" where
  "user_sys_join_group entry hgrp =
     with_handle entry hgrp {USER_OBJ_TYPE_GROUP_COOKIE} (\<lambda>status. status)
       (\<lambda>grp. user_entry_cookie_add_to_grp (ent_cookie entry) grp)"

definition user_sys_leave_group :: "user_api_entry \<Rightarrow> nat \<Rightarrow> kstate \<Rightarrow> (user_status \<times> kstate) option" where
  "user_sys_leave_group entry hgrp =
     with_handle entry hgrp {USER_OBJ_TYPE_GROUP_COOKIE} (\<lambda>status. status)
       (\<lambda>grp. user_entry_cookie_remove_from_grp (ent_cookie entry) grp)"

definition user_sys_add_entry_to_group ::
  "user_api_entry \<Rightarrow> nat \<Rightarrow> nat \<Rightarrow> kstate \<Rightarrow> (user_status \<times> kstate) option" where
  "user_sys_add_entry_to_group entry hentry hgrp =
     with_handle_pair entry hentry USER_OBJ_TYPE_ENTRY_COOKIE hgrp USER_OBJ_TYPE_GROUP_COOKIE
       (\<lambda>status. status) user_entry_cookie_add_to_grp"

definition user_sys_remove_entry_from_group ::
  "user_api_entry \<Rightarrow> nat \<Rightarrow> nat \<Rightarrow> kstate \<Rightarrow> (user_status \<times> kstate) option" where
  "user_sys_remove_entry_from_group entry hentry hgrp =
     with_handle_pair entry hentry USER_OBJ_TYPE_ENTRY_COOKIE hgrp USER_OBJ_TYPE_GROUP_COOKIE
       (\<lambda>status. status) user_entry_cookie_remove_from_grp"

section \<open>RPC\<close>

text \<open>The mailbox is released before the new object is stored.\<close>

definition user_sys_create_caller ::
  "user_api_entry \<Rightarrow> nat \<Rightarrow> nat \<Rightarrow> kstate \<Rightarrow> ((user_status \<times> nat option) \<times> kstate) option" where
  "user_sys_create_caller entry hmailbox opaque s = do {
     ((status, caller), s) \<leftarrow>
       with_handle entry hmailbox {USER_OBJ_TYPE_MAILBOX} no_handle
         (\<lambda>mailbox. user_rpc_create_caller mailbox opaque) s;
     if status \<noteq> USER_STATUS_SUCCESS then Some ((status, None), s)
     else do {
       c \<leftarrow> caller;
       key \<leftarrow> user_entry_cookie_get_key (ent_cookie entry) s;
       store_new entry \<lparr>ref_ptr = c, ref_type = USER_OBJ_TYPE_CALLER, pin_cookie = key\<rparr> s }}"

definition user_sys_create_callee ::
  "user_api_entry \<Rightarrow> nat \<Rightarrow> nat \<Rightarrow> nat \<Rightarrow> kstate \<Rightarrow>
   ((user_status \<times> (nat \<times> nat) option) \<times> kstate) option" where
  "user_sys_create_callee entry hmailbox opaque buckets s = do {
     ((status, callee), s) \<leftarrow>
       with_handle entry hmailbox {USER_OBJ_TYPE_MAILBOX} no_handle
         (\<lambda>mailbox. user_rpc_create_callee mailbox opaque buckets) s;
     if status \<noteq> USER_STATUS_SUCCESS then Some ((status, None), s)
     else do {
       c \<leftarrow> callee;
       key \<leftarrow> user_entry_cookie_get_key (ent_cookie entry) s;
       ((status, handles), s) \<leftarrow> user_universe_move_in_pair (ent_universe entry)
          \<lparr>ref_ptr = c, ref_type = USER_OBJ_TYPE_CALLEE, pin_cookie = key\<rparr>
          \<lparr>ref_ptr = c, ref_type = USER_OBJ_TYPE_TOKEN, pin_cookie = key\<rparr> s;
       if status \<noteq> USER_STATUS_SUCCESS then do {
         s \<leftarrow> mem_rc_drop (RcCalleeShutdown c) s;
         s \<leftarrow> mem_rc_drop (RcToken c) s;
         Some ((status, None), s) }
       else Some ((USER_STATUS_SUCCESS, handles), s) }}"

text \<open>The token is resolved while the caller is borrowed, and dropped before it.\<close>

definition user_sys_rpc_call ::
  "user_api_entry \<Rightarrow> nat \<Rightarrow> nat \<Rightarrow> user_rpc_msg \<Rightarrow> kstate \<Rightarrow> (user_status \<times> kstate) option" where
  "user_sys_rpc_call entry hcaller htoken args =
     with_handle entry hcaller {USER_OBJ_TYPE_CALLER} (\<lambda>status. status)
       (\<lambda>caller. with_handle entry htoken {USER_OBJ_TYPE_TOKEN} (\<lambda>status. status)
          (\<lambda>token. user_rpc_initiate caller token args))"

definition user_sys_rpc_accept ::
  "user_api_entry \<Rightarrow> nat \<Rightarrow> user_rpc_msg \<Rightarrow> kstate \<Rightarrow> ((user_status \<times> user_rpc_msg) \<times> kstate) option" where
  "user_sys_rpc_accept entry hcallee args =
     with_handle entry hcallee {USER_OBJ_TYPE_CALLEE} (\<lambda>status. (status, args))
       (\<lambda>callee. user_rpc_accept callee args)"

definition user_sys_rpc_return ::
  "user_api_entry \<Rightarrow> nat \<Rightarrow> user_rpc_msg \<Rightarrow> kstate \<Rightarrow> (user_status \<times> kstate) option" where
  "user_sys_rpc_return entry hcallee ret =
     with_handle entry hcallee {USER_OBJ_TYPE_CALLEE} (\<lambda>status. status)
       (\<lambda>callee. user_rpc_return callee ret)"

definition user_sys_rpc_recv_reply ::
  "user_api_entry \<Rightarrow> nat \<Rightarrow> user_rpc_msg \<Rightarrow> kstate \<Rightarrow> ((user_status \<times> user_rpc_msg) \<times> kstate) option" where
  "user_sys_rpc_recv_reply entry hcaller ret =
     with_handle entry hcaller {USER_OBJ_TYPE_CALLER} (\<lambda>status. (status, ret))
       (\<lambda>caller. user_rpc_get_result caller ret)"

section \<open>Universes\<close>

definition user_sys_create_universe ::
  "user_api_entry \<Rightarrow> kstate \<Rightarrow> ((user_status \<times> nat option) \<times> kstate) option" where
  "user_sys_create_universe entry s =
     (let ((status, universe), s) = user_universe_create s in
      if status \<noteq> USER_STATUS_SUCCESS then Some ((status, None), s)
      else do {
        u \<leftarrow> universe;
        key \<leftarrow> user_entry_cookie_get_key (ent_cookie entry) s;
        store_new entry \<lparr>ref_ptr = u, ref_type = USER_OBJ_TYPE_UNIVERSE, pin_cookie = key\<rparr> s })"

definition user_sys_move_across_universes ::
  "user_api_entry \<Rightarrow> nat \<Rightarrow> nat \<Rightarrow> nat \<Rightarrow> kstate \<Rightarrow> ((user_status \<times> nat option) \<times> kstate) option" where
  "user_sys_move_across_universes entry hsrc hdst hsrci =
     with_handle_pair entry hsrc USER_OBJ_TYPE_UNIVERSE hdst USER_OBJ_TYPE_UNIVERSE no_handle
       (\<lambda>source dest. user_universe_move_across source dest hsrci (ent_cookie entry))"

definition user_sys_borrow_across_universes ::
  "user_api_entry \<Rightarrow> nat \<Rightarrow> nat \<Rightarrow> nat \<Rightarrow> kstate \<Rightarrow> ((user_status \<times> nat option) \<times> kstate) option" where
  "user_sys_borrow_across_universes entry hsrc hdst hsrci =
     with_handle_pair entry hsrc USER_OBJ_TYPE_UNIVERSE hdst USER_OBJ_TYPE_UNIVERSE no_handle
       (\<lambda>source dest. user_universe_borrow_across source dest hsrci (ent_cookie entry))"

definition user_sys_move_in ::
  "user_api_entry \<Rightarrow> nat \<Rightarrow> nat \<Rightarrow> kstate \<Rightarrow> ((user_status \<times> nat option) \<times> kstate) option" where
  "user_sys_move_in entry huniverse outer =
     with_handle entry huniverse {USER_OBJ_TYPE_UNIVERSE} no_handle
       (\<lambda>universe. user_universe_move_across (ent_universe entry) universe outer (ent_cookie entry))"

definition user_sys_move_out ::
  "user_api_entry \<Rightarrow> nat \<Rightarrow> nat \<Rightarrow> kstate \<Rightarrow> ((user_status \<times> nat option) \<times> kstate) option" where
  "user_sys_move_out entry huniverse inner =
     with_handle entry huniverse {USER_OBJ_TYPE_UNIVERSE} no_handle
       (\<lambda>universe. user_universe_move_across universe (ent_universe entry) inner (ent_cookie entry))"

definition user_sys_borrow_in ::
  "user_api_entry \<Rightarrow> nat \<Rightarrow> nat \<Rightarrow> kstate \<Rightarrow> ((user_status \<times> nat option) \<times> kstate) option" where
  "user_sys_borrow_in entry huniverse outer =
     with_handle entry huniverse {USER_OBJ_TYPE_UNIVERSE} no_handle
       (\<lambda>universe. user_universe_borrow_across (ent_universe entry) universe outer (ent_cookie entry))"

definition user_sys_borrow_out ::
  "user_api_entry \<Rightarrow> nat \<Rightarrow> nat \<Rightarrow> kstate \<Rightarrow> ((user_status \<times> nat option) \<times> kstate) option" where
  "user_sys_borrow_out entry huniverse inner =
     with_handle entry huniverse {USER_OBJ_TYPE_UNIVERSE} no_handle
       (\<lambda>universe. user_universe_borrow_across universe (ent_universe entry) inner (ent_cookie entry))"

definition user_sys_unpin :: "user_api_entry \<Rightarrow> nat \<Rightarrow> kstate \<Rightarrow> (user_status \<times> kstate) option" where
  "user_sys_unpin entry handle s = user_universe_unpin (ent_universe entry) handle (ent_cookie entry) s"

definition user_sys_pin :: "user_api_entry \<Rightarrow> nat \<Rightarrow> kstate \<Rightarrow> (user_status \<times> kstate) option" where
  "user_sys_pin entry handle s = user_universe_pin (ent_universe entry) handle (ent_cookie entry) s"

definition user_sys_unpin_from_group ::
  "user_api_entry \<Rightarrow> nat \<Rightarrow> nat \<Rightarrow> kstate \<Rightarrow> (user_status \<times> kstate) option" where
  "user_sys_unpin_from_group entry handle hgrp =
     with_handle entry hgrp {USER_OBJ_TYPE_GROUP_COOKIE} (\<lambda>status. status)
       (\<lambda>grp. user_universe_unpin_from_group (ent_universe entry) handle (ent_cookie entry) grp)"

definition user_sys_pin_to_group ::
  "user_api_entry \<Rightarrow> nat \<Rightarrow> nat \<Rightarrow> kstate \<Rightarrow> (user_status \<times> kstate) option" where
  "user_sys_pin_to_group entry handle hgrp =
     with_handle entry hgrp {USER_OBJ_TYPE_GROUP_COOKIE} (\<lambda>status. status)
       (\<lambda>grp. user_universe_pin_to_group (ent_universe entry) handle (ent_cookie entry) grp)"

text \<open>The universe forked is the caller's own, whatever universe the handle denotes.\<close>

definition user_sys_fork_universe ::
  "user_api_entry \<Rightarrow> nat \<Rightarrow> kstate \<Rightarrow> ((user_status \<times> nat option) \<times> kstate) option" where
  "user_sys_fork_universe entry hsrc s = do {
     ((status, res), s) \<leftarrow> with_handle entry hsrc {USER_OBJ_TYPE_UNIVERSE} no_handle
       (\<lambda>universe s. do {
          key \<leftarrow> user_entry_cookie_get_key (ent_cookie entry) s;
          ((status, forked), s) \<leftarrow> user_universe_fork (ent_universe entry) (ent_cookie entry) s;
          Some ((status, Some (key, forked)), s) }) s;
     if status \<noteq> USER_STATUS_SUCCESS then Some ((status, None), s)
     else do {
       (key, forked) \<leftarrow> res;
       f \<leftarrow> forked;
       store_new entry \<lparr>ref_ptr = f, ref_type = USER_OBJ_TYPE_UNIVERSE, pin_cookie = key\<rparr> s }}"

definition user_sys_drop_in ::
  "user_api_entry \<Rightarrow> nat \<Rightarrow> nat \<Rightarrow> kstate \<Rightarrow> (user_status \<times> kstate) option" where
  "user_sys_drop_in entry huniverse inner =
     with_handle entry huniverse {USER_OBJ_TYPE_UNIVERSE} (\<lambda>status. status)
       (\<lambda>universe. user_universe_drop_cell universe inner (ent_cookie entry))"

definition user_sys_drop :: "user_api_entry \<Rightarrow> nat \<Rightarrow> kstate \<Rightarrow> (user_status \<times> kstate) option" where
  "user_sys_drop entry handle s = user_universe_drop_cell (ent_universe entry) handle (ent_cookie entry) s"

section \<open>Shared memory\<close>

definition user_sys_create_shm_owned ::
  "user_api_entry \<Rightarrow> nat \<Rightarrow> kstate \<Rightarrow> ((user_status \<times> (nat \<times> nat) option) \<times> kstate) option" where
  "user_sys_create_shm_owned entry sz s = do {
     key \<leftarrow> user_entry_cookie_get_key (ent_cookie entry) s;
     ((status, shm), s) \<leftarrow> user_shm_create sz (ent_cookie entry) s;
     if status \<noteq> USER_STATUS_SUCCESS then Some ((status, None), s)
     else do {
       (a, shm_id) \<leftarrow> shm;
       ((status, handle), s) \<leftarrow>
         store_new entry \<lparr>ref_ptr = a, ref_type = USER_OBJ_TYPE_SHM_OWNER, pin_cookie = key\<rparr> s;
       Some ((status, map_option (\<lambda>h. (h, shm_id)) handle), s) }}"

text \<open>\<open>user_sys_borrow_shm_rw\<close> and \<open>user_sys_borrow_shm_ro\<close> differ in the type of the new reference.\<close>

definition borrow_shm ::
  "obj_type \<Rightarrow> user_api_entry \<Rightarrow> nat \<Rightarrow> kstate \<Rightarrow> ((user_status \<times> nat option) \<times> kstate) option" where
  "borrow_shm type entry hshm s = do {
     ((status, shm_ref), s) \<leftarrow> with_handle entry hshm {USER_OBJ_TYPE_SHM_OWNER} no_handle
       (\<lambda>owner s. do {
          (ref, s) \<leftarrow> user_shm_create_ref owner s;
          Some ((USER_STATUS_SUCCESS, Some ref), s) }) s;
     if status \<noteq> USER_STATUS_SUCCESS then Some ((status, None), s)
     else do {
       ref \<leftarrow> shm_ref;
       key \<leftarrow> user_entry_cookie_get_key (ent_cookie entry) s;
       store_new entry \<lparr>ref_ptr = ref, ref_type = type, pin_cookie = key\<rparr> s }}"

definition user_sys_borrow_shm_rw ::
  "user_api_entry \<Rightarrow> nat \<Rightarrow> kstate \<Rightarrow> ((user_status \<times> nat option) \<times> kstate) option" where
  "user_sys_borrow_shm_rw = borrow_shm USER_OBJ_TYPE_SHM_RW_REF"

definition user_sys_borrow_shm_ro ::
  "user_api_entry \<Rightarrow> nat \<Rightarrow> kstate \<Rightarrow> ((user_status \<times> nat option) \<times> kstate) option" where
  "user_sys_borrow_shm_ro = borrow_shm USER_OBJ_TYPE_SHM_RO_REF"

text \<open>The status of the access itself is computed and then not returned.\<close>

definition user_sys_read_from_shm_ref ::
  "user_api_entry \<Rightarrow> nat \<Rightarrow> nat \<Rightarrow> nat \<Rightarrow> nat list \<Rightarrow> kstate \<Rightarrow>
   ((user_status \<times> nat list) \<times> kstate) option" where
  "user_sys_read_from_shm_ref entry hshmref offset len data =
     with_handle entry hshmref {USER_OBJ_TYPE_SHM_RO_REF, USER_OBJ_TYPE_SHM_RW_REF}
       (\<lambda>status. (status, data))
       (\<lambda>ref s. do {
          ((status, buf), s) \<leftarrow> user_shm_read_by_ref ref offset len data s;
          Some ((USER_STATUS_SUCCESS, buf), s) })"

definition user_sys_write_to_shm_ref ::
  "user_api_entry \<Rightarrow> nat \<Rightarrow> nat \<Rightarrow> nat \<Rightarrow> nat list \<Rightarrow> kstate \<Rightarrow> (user_status \<times> kstate) option" where
  "user_sys_write_to_shm_ref entry hshmref offset len data =
     with_handle entry hshmref {USER_OBJ_TYPE_SHM_RW_REF} (\<lambda>status. status)
       (\<lambda>ref s. do {
          (status, s) \<leftarrow> user_shm_write_by_ref ref offset len data s;
          Some (USER_STATUS_SUCCESS, s) })"

definition user_sys_read_from_shm_id ::
  "user_api_entry \<Rightarrow> nat \<Rightarrow> nat \<Rightarrow> nat \<Rightarrow> nat list \<Rightarrow> kstate \<Rightarrow>
   ((user_status \<times> nat list) \<times> kstate) option" where
  "user_sys_read_from_shm_id entry shm_id offset len data s =
     user_shm_read_by_id shm_id offset len data (ent_cookie entry) s"

definition user_sys_write_to_shm_id ::
  "user_api_entry \<Rightarrow> nat \<Rightarrow> nat \<Rightarrow> nat \<Rightarrow> nat list \<Rightarrow> kstate \<Rightarrow> (user_status \<times> kstate) option" where
  "user_sys_write_to_shm_id entry shm_id offset len data s =
     user_shm_write_by_id shm_id offset len data (ent_cookie entry) s"

definition user_sys_unrestrict_shm ::
  "user_api_entry \<Rightarrow> nat \<Rightarrow> bool \<Rightarrow> kstate \<Rightarrow> (user_status \<times> kstate) option" where
  "user_sys_unrestrict_shm entry hshm rw =
     with_handle entry hshm {USER_OBJ_TYPE_SHM_OWNER} (\<lambda>status. status)
       (\<lambda>owner. user_shm_drop_ownership owner rw)"

definition user_sys_restrict_shm ::
  "user_api_entry \<Rightarrow> nat \<Rightarrow> bool \<Rightarrow> kstate \<Rightarrow> (user_status \<times> kstate) option" where
  "user_sys_restrict_shm entry hshm rw =
     with_handle entry hshm {USER_OBJ_TYPE_SHM_OWNER} (\<lambda>status. status)
       (\<lambda>owner. user_shm_acquire_ownership owner (ent_cookie entry) rw)"

definition user_sys_restrict_shm_to_group ::
  "user_api_entry \<Rightarrow> nat \<Rightarrow> nat \<Rightarrow> bool \<Rightarrow> kstate \<Rightarrow> (user_status \<times> kstate) option" where
  "user_sys_restrict_shm_to_group entry hshm hgrp rw =
     with_handle_pair entry hshm USER_OBJ_TYPE_SHM_OWNER hgrp USER_OBJ_TYPE_GROUP_COOKIE
       (\<lambda>status. status) (\<lambda>owner grp. user_shm_give_ownership_to_grp owner grp rw)"

section \<open>Thread-local storage\<close>

definition user_sys_set_tls_key ::
  "user_api_entry \<Rightarrow> nat \<Rightarrow> nat \<Rightarrow> kstate \<Rightarrow> (user_status \<times> kstate) option" where
  "user_sys_set_tls_key entry key value s = user_tls_table_set_key (ent_tls entry) key value s"

definition user_sys_get_tls_key :: "user_api_entry \<Rightarrow> nat \<Rightarrow> kstate \<Rightarrow> nat option" where
  "user_sys_get_tls_key entry key s = user_tls_table_get_key (ent_tls entry) key s"

section \<open>Borrowing and dropping\<close>

text \<open>A handle of the calling thread that denotes a live object whose counter is not saturated.\<close>

definition resolves :: "kstate \<Rightarrow> user_api_entry \<Rightarrow> nat \<Rightarrow> user_ref \<Rightarrow> rc_id \<Rightarrow> nat \<Rightarrow> bool" where
  "resolves s entry handle ref r n \<longleftrightarrow>
     (\<exists>u. table_at s (ent_universe entry) u \<and> handles u handle = Some ref) \<and>
     rc_of_ref ref = Some r \<and> rc_get r s = Some n \<and> 0 < n \<and> n + 2 < 2 ^ 64"

text \<open>A handle that denotes nothing. The index one past the last cell is excluded: the source
  reads behind the array there.\<close>

definition stale :: "kstate \<Rightarrow> user_api_entry \<Rightarrow> nat \<Rightarrow> bool" where
  "stale s entry handle \<longleftrightarrow>
     (\<exists>u. table_at s (ent_universe entry) u \<and> handles u handle = None \<and> handle \<noteq> length (cells u))"

lemma rc_set_put_universe:
  assumes "sget (universes s) a = Some u" "\<not> u_taken u"
  shows "universe_unlock a (rc_set r k (put_universe a (u\<lparr>u_taken := True\<rparr>) s)) = Some (rc_set r k s)"
proof -
  have [simp]: "u\<lparr>u_refcount := k, u_taken := False\<rparr> = u\<lparr>u_refcount := k\<rparr>"
    using assms(2) by (cases u) simp
  show ?thesis
    using assms sget_Some_length [OF assms(1)]
    by (cases r) (auto simp: universe_unlock_def put_universe_def store_simps smod_def sput_same sput_swap
        split: option.split)
qed

lemma rc_get_put_universe:
  assumes "sget (universes s) a = Some u"
  shows "rc_get r (put_universe a (u\<lparr>u_taken := b\<rparr>) s) = rc_get r s"
  using assms by (cases r) (auto simp: put_universe_def store_simps sget_Some_length)

lemma borrow_out_live:
  assumes t: "table_at s (ent_universe entry) u" and h: "handles u handle = Some ref"
    and r: "rc_of_ref ref = Some r" "rc_get r s = Some n" "n + 1 < 2 ^ 64"
  shows "\<exists>ref'. user_universe_borrow_out (ent_universe entry) handle s =
      Some ((USER_STATUS_SUCCESS, Some ref'), rc_set r (Suc n) s) \<and>
    ref_ptr ref' = ref_ptr ref \<and> ref_type ref' = ref_type ref \<and> rc_of_ref ref' = Some r"
proof -
  let ?a = "ent_universe entry"
  let ?ul = "u\<lparr>u_taken := True\<rparr>"
  have u: "sget (universes s) ?a = Some u" "\<not> u_taken u" using t by (simp_all add: table_at_def)
  note hd' = handles_SomeD [OF h]
  have "user_universe_check_ref_nolock ?ul handle = Some True"
    using check_ref_eq [of handle ?ul] hd' h by simp
  moreover have "mem_rc_borrow r (put_universe ?a ?ul s) = Some (rc_set r (Suc n) (put_universe ?a ?ul s))"
    using r rc_get_put_universe [OF u(1)] by (simp add: mem_rc_borrow_def word_simps)
  ultimately show ?thesis
    using hd' u r rc_set_put_universe [OF u]
    by (simp add: user_universe_borrow_out_def universe_lock_eq [OF t] Let_def rc_of_ref_def)
qed

lemma borrow_out_ok:
  assumes "resolves s entry handle ref r n"
  shows "\<exists>ref'. user_universe_borrow_out (ent_universe entry) handle s =
      Some ((USER_STATUS_SUCCESS, Some ref'), rc_set r (Suc n) s) \<and>
    ref_ptr ref' = ref_ptr ref \<and> ref_type ref' = ref_type ref \<and> rc_of_ref ref' = Some r"
  using assms by (auto simp: resolves_def intro!: borrow_out_live)

lemma borrow_out_stale:
  assumes "stale s entry handle"
  shows "user_universe_borrow_out (ent_universe entry) handle s = Some ((USER_STATUS_INVALID_HANDLE, None), s)"
proof -
  let ?a = "ent_universe entry"
  obtain u where t: "table_at s ?a u" and h: "handles u handle = None" "handle \<noteq> length (cells u)"
    using assms by (auto simp: stale_def)
  let ?ul = "u\<lparr>u_taken := True\<rparr>"
  have u: "sget (universes s) ?a = Some u" "u\<lparr>u_taken := False\<rparr> = u" using t by (simp_all add: table_at_def)
  have "user_universe_check_ref_nolock ?ul handle = Some False"
    using h by (auto simp: user_universe_check_ref_nolock_def dynarray_len_def handles_def split: if_splits)
  then show ?thesis
    using u by (simp add: user_universe_borrow_out_def universe_lock_eq [OF t] unlock_put [OF u(1)]
        put_universe_same)
qed

section \<open>The system call frame\<close>

lemma with_handle_stale:
  "stale s entry handle \<Longrightarrow> with_handle entry handle types err oper s = Some (err USER_STATUS_INVALID_HANDLE, s)"
  by (simp add: with_handle_def borrow_out_stale)

lemma with_handle_type:
  assumes "resolves s entry handle ref r n" "ref_type ref \<notin> types"
  shows "with_handle entry handle types err oper s = Some (err USER_STATUS_INVALID_HANDLE_TYPE, s)"
  using borrow_out_ok [OF assms(1)] assms mem_rc_drop_back [of r s n]
  by (auto simp: with_handle_def user_drop_ref_def resolves_def)

lemma with_handle_ok:
  assumes "resolves s entry handle ref r n" "ref_type ref \<in> types"
  shows "with_handle entry handle types err oper s = do {
     (res, s) \<leftarrow> oper (ref_ptr ref) (rc_set r (Suc n) s);
     s \<leftarrow> mem_rc_drop r s;
     Some (res, s) }"
  using borrow_out_ok [OF assms(1)] assms(2)
  by (auto simp: with_handle_def user_drop_ref_def)

text \<open>Resolving the second handle while the first is borrowed.\<close>

lemma universe_refcount [simp]:
  "handles (u\<lparr>u_refcount := k\<rparr>) = handles u" "universe_wf (u\<lparr>u_refcount := k\<rparr>) = universe_wf u"
  by (simp_all add: handles_def universe_wf_def fun_eq_iff)

lemma table_rc_set:
  assumes "table_at s a u"
  shows "\<exists>k. table_at (rc_set r m s) a (u\<lparr>u_refcount := k\<rparr>)"
proof (cases "r = RcUniverse a")
  case True
  then show ?thesis using assms by (intro exI [of _ m]) (simp add: table_at_def store_simps)
next
  case False
  then show ?thesis
    using assms by (intro exI [of _ "u_refcount u"]) (cases r; auto simp: table_at_def store_simps)
qed

lemma stale_rc_set:
  assumes "stale s entry handle"
  shows "stale (rc_set r m s) entry handle"
proof -
  obtain u where u: "table_at s (ent_universe entry) u" "handles u handle = None" "handle \<noteq> length (cells u)"
    using assms by (auto simp: stale_def)
  then obtain k where "table_at (rc_set r m s) (ent_universe entry) (u\<lparr>u_refcount := k\<rparr>)"
    using table_rc_set by blast
  then show ?thesis using u(2,3) unfolding stale_def
    by (intro exI [of _ "u\<lparr>u_refcount := k\<rparr>"]) simp
qed

lemma drop_two_back:
  assumes q: "rc_get q s = Some m" "0 < m" and r: "rc_get r s = Some n" "0 < n"
  shows "\<exists>t. mem_rc_drop q (rc_set r (Suc (if r = q then Suc m else n)) (rc_set q (Suc m) s)) = Some t \<and>
     mem_rc_drop r t = Some s"
proof (cases "r = q")
  case True
  have "rc_get q (rc_set q (Suc (Suc m)) s) = Some (Suc (Suc m))" using rc_get_set [OF q(1)] by simp
  then show ?thesis
    using True mem_rc_drop_back [OF q] by (simp add: rc_set_set mem_rc_drop_alive)
next
  case False
  let ?s = "rc_set r (Suc n) s"
  have "rc_get q ?s = Some m" using rc_get_set [OF r(1)] q False by auto
  then have "mem_rc_drop q (rc_set q (Suc m) ?s) = Some ?s" using q by (intro mem_rc_drop_back)
  then show ?thesis
    using False rc_set_commute [OF False] mem_rc_drop_back [OF r] by simp
qed

lemma with_handle_pair_first:
  assumes "resolves s entry h1 ref r n" "ref_type ref \<noteq> type1"
  shows "with_handle_pair entry h1 type1 h2 type2 err oper s = Some (err USER_STATUS_INVALID_HANDLE_TYPE, s)"
  using borrow_out_ok [OF assms(1)] assms mem_rc_drop_back [of r s n]
  by (auto simp: with_handle_pair_def user_drop_ref_def resolves_def)

lemma with_handle_pair_stale:
  "stale s entry h1 \<Longrightarrow>
   with_handle_pair entry h1 type1 h2 type2 err oper s = Some (err USER_STATUS_INVALID_HANDLE, s)"
  by (simp add: with_handle_pair_def borrow_out_stale)

lemma with_handle_pair_second_stale:
  assumes "resolves s entry h1 ref r n" "ref_type ref = type1" "stale s entry h2"
  shows "with_handle_pair entry h1 type1 h2 type2 err oper s = Some (err USER_STATUS_INVALID_HANDLE, s)"
  using borrow_out_ok [OF assms(1)] assms mem_rc_drop_back [of r s n]
    borrow_out_stale [OF stale_rc_set [OF assms(3)]]
  by (auto simp: with_handle_pair_def user_drop_ref_def resolves_def)

lemma with_handle_pair_second:
  assumes r1: "resolves s entry h1 ref1 q m" "ref_type ref1 = type1"
    and r2: "resolves s entry h2 ref2 r n" "ref_type ref2 \<noteq> type2"
  shows "with_handle_pair entry h1 type1 h2 type2 err oper s = Some (err USER_STATUS_INVALID_HANDLE_TYPE, s)"
proof -
  let ?s = "rc_set q (Suc m) s" and ?n = "if r = q then Suc m else n"
  obtain u where t: "table_at s (ent_universe entry) u" "handles u h2 = Some ref2"
    and rc: "rc_of_ref ref2 = Some r" "rc_get r s = Some n" "n + 2 < 2 ^ 64" "0 < n"
      "rc_get q s = Some m" "m + 2 < 2 ^ 64" "0 < m"
    using r1 r2 by (auto simp: resolves_def)
  obtain k where t': "table_at ?s (ent_universe entry) (u\<lparr>u_refcount := k\<rparr>)"
    using table_rc_set [OF t(1)] by blast
  have n: "rc_get r ?s = Some ?n" "?n + 1 < 2 ^ 64" using rc rc_get_set [OF rc(5)] by auto
  obtain t0 where t0: "mem_rc_drop q (rc_set r (Suc ?n) ?s) = Some t0" "mem_rc_drop r t0 = Some s"
    using drop_two_back [OF rc(5,7,2,4)] by blast
  have "handles (u\<lparr>u_refcount := k\<rparr>) h2 = Some ref2" using t(2) by simp
  from borrow_out_ok [OF r1(1)] borrow_out_live [OF t' this rc(1) n] show ?thesis
    using r1(2) r2(2) t0 by (auto simp: with_handle_pair_def user_drop_ref_def)
qed


section \<open>Constructors and destructors of an entry\<close>

lemma drop_universe_empty:
  assumes "sget (universes s) a = Some u" "u_refcount u = 1" "filter in_use (cells u) = []"
  shows "mem_rc_drop (RcUniverse a) s = Some (s\<lparr>universes := sdel (universes s) a\<rparr>)"
  using assms sget_Some_length [OF assms(1)]
  by (simp add: mem_rc_drop_last user_universe_destroy_def store_simps smod_def sdel_sput)

lemma drop_entry_cookie:
  assumes "sget (entries s) a = Some e" "e_refcount e = 1"
  shows "mem_rc_drop (RcEntry a) s = Some (s\<lparr>entries := sdel (entries s) a\<rparr>)"
  using assms sget_Some_length [OF assms(1)]
  by (simp add: mem_rc_drop_last user_entry_cookie_destroy_def store_simps smod_def sdel_sput)

lemma drop_tls_empty:
  assumes "sget (tls_tables s) a = Some t" "tl_refcount t = 1"
    and "im_nodes (tl_keys t) = replicate USER_TLS_BUCKETS []"
  shows "mem_rc_drop (RcTls a) s = Some (s\<lparr>tls_tables := sdel (tls_tables s) a\<rparr>)"
  using assms sget_Some_length [OF assms(1)]
  by (simp add: mem_rc_drop_last user_tls_table_destroy_def store_simps smod_def sdel_sput)

lemma snew_drop: "sget (sdel (xs @ [Some v]) (length xs)) a = sget xs a"
  by (auto simp: sget_def sdel_def nth_append)

text \<open>Two states with the same live objects.\<close>

definition same_objects :: "kstate \<Rightarrow> kstate \<Rightarrow> bool" where
  "same_objects s s' \<longleftrightarrow>
     (\<forall>a. sget (universes s') a = sget (universes s) a \<and> sget (entries s') a = sget (entries s) a \<and>
        sget (tls_tables s') a = sget (tls_tables s) a) \<and>
     groups s' = groups s \<and> mailboxes s' = mailboxes s \<and> raisers s' = raisers s \<and>
     callers s' = callers s \<and> callees s' = callees s \<and> containers s' = containers s \<and>
     shms s' = shms s \<and> shm_intmap s' = shm_intmap s \<and> tls_nodes s' = tls_nodes s"

text \<open>What the three constructors do.\<close>

definition fresh_universe :: "kstate \<Rightarrow> user_universe" where
  "fresh_universe s = \<lparr>u_refcount = 1, u_taken = False, u_free_list = [], u_id = user_universe_last_id s,
     u_cells = \<lparr>da_data = [], capacity = 0\<rparr>\<rparr>"

definition fresh_cookie :: "kstate \<Rightarrow> user_entry_cookie" where
  "fresh_cookie s = \<lparr>e_refcount = 1, e_key = user_cookie_last s, e_taken = False,
     e_grp_keys = \<lparr>da_data = [], capacity = 0\<rparr>\<rparr>"

definition fresh_tls :: user_tls_table where
  "fresh_tls = \<lparr>tl_refcount = 1,
     tl_keys = \<lparr>buckets_count = USER_TLS_BUCKETS, im_nodes = replicate USER_TLS_BUCKETS []\<rparr>\<rparr>"

lemma universe_create_cases:
  obtains n where "user_universe_create s = ((USER_STATUS_OUT_OF_MEMORY, None), s\<lparr>alloc_calls := n\<rparr>)"
  | n where "user_universe_create s = ((USER_STATUS_SUCCESS, Some (length (universes s))),
      s\<lparr>alloc_calls := n, user_universe_last_id := inc64 (user_universe_last_id s),
        universes := universes s @ [Some (fresh_universe s)]\<rparr>)"
  by (cases "alloc_outcome s (alloc_calls s)"; cases "alloc_outcome s (Suc (alloc_calls s))")
    (auto simp: user_universe_create_def kalloc_def dynarray_new_def snew_def fresh_universe_def Let_def)

lemma cookie_create_cases:
  obtains n where "user_entry_cookie_create s = ((USER_STATUS_OUT_OF_MEMORY, None), s\<lparr>alloc_calls := n\<rparr>)"
  | n where "user_entry_cookie_create s = ((USER_STATUS_SUCCESS, Some (length (entries s))),
      s\<lparr>alloc_calls := n, user_cookie_last := inc64 (user_cookie_last s),
        entries := entries s @ [Some (fresh_cookie s)]\<rparr>)"
  by (cases "alloc_outcome s (alloc_calls s)"; cases "alloc_outcome s (Suc (alloc_calls s))")
    (auto simp: user_entry_cookie_create_def kalloc_def dynarray_new_def snew_def fresh_cookie_def Let_def)

lemma tls_create_cases:
  obtains n where "user_tls_table_create s = ((USER_STATUS_OUT_OF_MEMORY, None), s\<lparr>alloc_calls := n\<rparr>)"
  | n where "user_tls_table_create s = ((USER_STATUS_SUCCESS, Some (length (tls_tables s))),
      s\<lparr>alloc_calls := n, tls_tables := tls_tables s @ [Some fresh_tls]\<rparr>)"
  by (cases "alloc_outcome s (alloc_calls s)"; cases "alloc_outcome s (Suc (alloc_calls s))")
    (auto simp: user_tls_table_create_def kalloc_def intmap_init_def snew_def fresh_tls_def Let_def)

lemma sget_new: "sget (xs @ [Some v]) (length xs) = Some v"
  by (simp add: sget_def)

lemma fresh_universe_facts:
  "u_refcount (fresh_universe s) = 1" "filter in_use (cells (fresh_universe s)) = []"
  "universe_wf (fresh_universe s)" "handles (fresh_universe s) = Map.empty" "\<not> u_taken (fresh_universe s)"
  by (auto simp: fresh_universe_def universe_wf_def handles_def dynarray_wf_def dynarray_len_def)

lemma fresh_cookie_facts:
  "e_refcount (fresh_cookie s) = 1" "\<not> e_taken (fresh_cookie s)"
  "entry_auth (fresh_cookie s) = {USER_COOKIE_KEY_UNIVERSAL, user_cookie_last s}"
  by (simp_all add: fresh_cookie_def entry_auth_def)

lemma fresh_tls_facts:
  "tl_refcount fresh_tls = 1" "im_nodes (tl_keys fresh_tls) = replicate USER_TLS_BUCKETS []"
  by (simp_all add: fresh_tls_def)

lemmas constructor_facts = sget_new snew_drop drop_universe_empty drop_entry_cookie drop_tls_empty
  fresh_universe_facts fresh_cookie_facts fresh_tls_facts

section \<open>Properties\<close>

lemmas single_handle_calls =
  user_sys_join_group_def user_sys_leave_group_def user_sys_unpin_from_group_def
  user_sys_pin_to_group_def user_sys_create_caller_def user_sys_create_callee_def
  user_sys_rpc_call_def user_sys_rpc_recv_reply_def user_sys_rpc_accept_def
  user_sys_rpc_return_def user_sys_move_in_def user_sys_move_out_def user_sys_borrow_in_def
  user_sys_borrow_out_def user_sys_fork_universe_def user_sys_drop_in_def
  user_sys_borrow_shm_rw_def user_sys_borrow_shm_ro_def borrow_shm_def
  user_sys_unrestrict_shm_def user_sys_restrict_shm_def
  user_sys_read_from_shm_ref_def user_sys_write_to_shm_ref_def

lemmas pair_handle_calls =
  user_sys_add_entry_to_group_def user_sys_remove_entry_from_group_def
  user_sys_restrict_shm_to_group_def user_sys_move_across_universes_def
  user_sys_borrow_across_universes_def


text \<open>An entry over the two universes of the example in theory \<open>Universe\<close>.\<close>

definition example_api_entry :: user_api_entry where
  "example_api_entry = \<lparr>ent_universe = 0, ent_cookie = 0, ent_tls = 0\<rparr>"

lemma example_resolves:
  "resolves universe_example example_api_entry 0 (example_refs ! 0) (RcMailboxShutdown 0) 2"
  "stale universe_example example_api_entry 2"
proof -
  have "handles example_u0 2 = None" by (simp add: handles_def example_u0_def)
  then show "stale universe_example example_api_entry 2"
    using example_tables(1) example_handles(3) by (auto simp: stale_def example_api_entry_def)
  show "resolves universe_example example_api_entry 0 (example_refs ! 0) (RcMailboxShutdown 0) 2"
    using example_tables(1) example_handles(1)
    by (auto simp: resolves_def example_api_entry_def rc_of_ref_def example_refs_def
        universe_example_def sget_def)
qed




text \<open>The life cycle of a thread's API entry. \<open>user_api_entry_init\<close> always returns. On success the
  thread has an empty, unlocked universe, a cookie that authorises its own fresh key and the
  universal one only, and thread-local storage in which every key reads 0; \<open>user_api_entry_deinit\<close>
  then releases all three objects. When any of the allocations fails, the status is out-of-memory
  and every object created on the way has been released: no live object is left that was not there
  before.\<close>

lemma entry_life_cycle:
  "\<exists>st e s'. user_api_entry_init s = Some ((st, e), s') \<and>
     (if st = USER_STATUS_SUCCESS
      then \<exists>entry u c s''. e = Some entry \<and>
        table_at s' (ent_universe entry) u \<and> handles u = Map.empty \<and>
        sget (entries s') (ent_cookie entry) = Some c \<and>
        entry_auth c = {USER_COOKIE_KEY_UNIVERSAL, user_cookie_last s} \<and> \<not> e_taken c \<and>
        tls_wf s' (ent_tls entry) \<and> (\<forall>k. user_sys_get_tls_key entry k s' = Some 0) \<and>
        user_api_entry_deinit entry s' = Some s'' \<and> same_objects s s''
      else st = USER_STATUS_OUT_OF_MEMORY \<and> e = None \<and> same_objects s s')"
proof (cases rule: universe_create_cases [of s])
  case (1 n)
  then show ?thesis by (simp add: user_api_entry_init_def same_objects_def)
next
  case u: (2 n)
  let ?s1 = "s\<lparr>alloc_calls := n, user_universe_last_id := inc64 (user_universe_last_id s),
        universes := universes s @ [Some (fresh_universe s)]\<rparr>"
  show ?thesis
  proof (cases rule: cookie_create_cases [of ?s1])
    case (1 m)
    then show ?thesis
      using u by (simp add: user_api_entry_init_def same_objects_def constructor_facts)
  next
    case c: (2 m)
    let ?s2 = "?s1\<lparr>alloc_calls := m, user_cookie_last := inc64 (user_cookie_last s),
        entries := entries s @ [Some (fresh_cookie ?s1)]\<rparr>"
    show ?thesis
    proof (cases rule: tls_create_cases [of ?s2])
      case (1 k)
      then show ?thesis
        using u c by (simp add: user_api_entry_init_def same_objects_def constructor_facts)
    next
      case t: (2 k)
      let ?s3 = "?s2\<lparr>alloc_calls := k, tls_tables := tls_tables s @ [Some fresh_tls]\<rparr>"
      let ?e = "\<lparr>ent_universe = length (universes s), ent_cookie = length (entries s),
         ent_tls = length (tls_tables s)\<rparr>"
      have init: "user_api_entry_init s = Some ((USER_STATUS_SUCCESS, Some ?e), ?s3)"
        using u c t by (simp add: user_api_entry_init_def)
      have tls: "tls_wf ?s3 (ent_tls ?e)" "tls_map ?s3 (ent_tls ?e) j = 0" for j
        using tls_create_wf [of ?s2] t by simp_all
      then have zero: "user_sys_get_tls_key ?e j ?s3 = Some 0" for j
        using tls_get_total [OF tls(1)] by (simp add: user_sys_get_tls_key_def)
      have deinit: "\<exists>s''. user_api_entry_deinit ?e ?s3 = Some s'' \<and> same_objects s s''"
        by (simp add: user_api_entry_deinit_def same_objects_def constructor_facts)
      have "table_at ?s3 (ent_universe ?e) (fresh_universe s)"
        by (simp add: table_at_def constructor_facts)
      then show ?thesis
        using init tls(1) zero deinit by (auto simp: constructor_facts)
    qed
  qed
qed

lemma shm_ref_calls:
  assumes h: "resolves s entry h ref (RcShmRef a) n"
    and shm: "sget (shms s) a = Some shm" "ref_ptr ref = a"
  shows "ref_type ref = USER_OBJ_TYPE_SHM_RW_REF \<Longrightarrow>
      user_sys_write_to_shm_ref entry h offset len data s =
       map_option (\<lambda>(_, s'). (USER_STATUS_SUCCESS, s')) (user_shm_write_by_ref a offset len data s)"
    and "ref_type ref \<in> {USER_OBJ_TYPE_SHM_RW_REF, USER_OBJ_TYPE_SHM_RO_REF} \<Longrightarrow>
      user_sys_read_from_shm_ref entry h offset len buf s =
       map_option (\<lambda>((_, d), s'). ((USER_STATUS_SUCCESS, d), s')) (user_shm_read_by_ref a offset len buf s)"
proof -
  have n: "n = sh_ref_rc shm" "0 < sh_ref_rc shm" using h shm by (auto simp: resolves_def)
  note eqs = by_ref_borrowed [OF shm(1) n(2), symmetric]
  show "ref_type ref = USER_OBJ_TYPE_SHM_RW_REF \<Longrightarrow>
      user_sys_write_to_shm_ref entry h offset len data s =
       map_option (\<lambda>(_, s'). (USER_STATUS_SUCCESS, s')) (user_shm_write_by_ref a offset len data s)"
    by (subst eqs(1)) (auto simp: user_sys_write_to_shm_ref_def with_handle_ok [OF h] n(1) shm(2)
        simp del: rc_set.simps split: Option.bind_split)
  show "ref_type ref \<in> {USER_OBJ_TYPE_SHM_RW_REF, USER_OBJ_TYPE_SHM_RO_REF} \<Longrightarrow>
      user_sys_read_from_shm_ref entry h offset len buf s =
       map_option (\<lambda>((_, d), s'). ((USER_STATUS_SUCCESS, d), s')) (user_shm_read_by_ref a offset len buf s)"
    by (subst eqs(2)) (auto simp: user_sys_read_from_shm_ref_def with_handle_ok [OF h] n(1) shm(2)
        simp del: rc_set.simps split: Option.bind_split)
qed

text \<open>Storing a fresh reference that is not a universe.\<close>

lemma store_new_ref:
  assumes t: "table_at s (ent_universe entry) u" and ty: "ref_type ref \<noteq> USER_OBJ_TYPE_UNIVERSE"
  obtains (ok) h u' n where "store_new entry ref s = Some ((USER_STATUS_SUCCESS, Some h),
      put_universe (ent_universe entry) u' (s\<lparr>alloc_calls := n\<rparr>))"
    "table_at (put_universe (ent_universe entry) u' (s\<lparr>alloc_calls := n\<rparr>)) (ent_universe entry) u'"
    "handles u h = None" "handles u' = (handles u)(h \<mapsto> ref)"
  | (oom) u' n where "store_new entry ref s = do {
      s \<leftarrow> user_drop_ref ref (put_universe (ent_universe entry) u' (s\<lparr>alloc_calls := n\<rparr>));
      Some ((USER_STATUS_OUT_OF_MEMORY, None), s) }"
    "handles u' = handles u"
proof -
  obtain st h u' s' where mv: "user_universe_move_in (ent_universe entry) ref s = Some ((st, h), s')"
    and eff: "only_universe (ent_universe entry) u' s s'" "\<not> u_taken u'" "universe_wf u'"
    and cases: "st = USER_STATUS_SUCCESS \<and>
        (\<exists>i. h = Some i \<and> handles u i = None \<and> handles u' = (handles u)(i \<mapsto> ref)) \<or>
      st = USER_STATUS_OUT_OF_MEMORY \<and> h = None \<and> handles u' = handles u"
    using move_in_spec [OF t, of ref] ty by (auto simp: order_ok_def)
  obtain n where s': "s' = put_universe (ent_universe entry) u' (s\<lparr>alloc_calls := n\<rparr>)"
    using eff(1) by (auto simp: only_universe_def)
  have "table_at s' (ent_universe entry) u'"
    using t eff s' by (simp add: table_at_def)
  with cases mv s' ok oom show thesis by (auto simp: store_new_def)
qed

lemma borrow_shm_frame:
  assumes h: "resolves s entry h ref (RcShmShutdown a) n" and own: "ref = \<lparr>ref_ptr = a, ref_type = USER_OBJ_TYPE_SHM_OWNER, pin_cookie = p\<rparr>"
    and shm: "sget (shms s) a = Some shm" "sh_ref_rc shm + 2 < 2 ^ 64"
    and e: "sget (entries s) (ent_cookie entry) = Some e"
  shows "borrow_shm ty entry h s = store_new entry
     \<lparr>ref_ptr = a, ref_type = ty, pin_cookie = e_key e\<rparr> (rc_set (RcShmRef a) (Suc (sh_ref_rc shm)) s)"
proof -
  let ?s1 = "rc_set (RcShmShutdown a) (Suc n) s" and ?s2 = "rc_set (RcShmRef a) (Suc (sh_ref_rc shm)) s"
  have n: "rc_get (RcShmShutdown a) s = Some n" "0 < n" using h by (simp_all add: resolves_def)
  have "rc_get (RcShmRef a) ?s1 = Some (sh_ref_rc shm)" using rc_get_set [OF n(1)] shm(1) by simp
  then have "user_shm_create_ref a ?s1 = Some (a, rc_set (RcShmRef a) (Suc (sh_ref_rc shm)) ?s1)"
    using shm(2) by (simp add: user_shm_create_ref_def mem_rc_borrow_def word_simps del: rc_get.simps rc_set.simps)
  moreover have "rc_set (RcShmRef a) (Suc (sh_ref_rc shm)) ?s1 = rc_set (RcShmShutdown a) (Suc n) ?s2"
    by (rule rc_set_commute) simp
  moreover have "mem_rc_drop (RcShmShutdown a) (rc_set (RcShmShutdown a) (Suc n) ?s2) = Some ?s2"
    using n shm(1) by (intro mem_rc_drop_back) (simp_all add: store_simps)
  ultimately have "with_handle entry h {USER_OBJ_TYPE_SHM_OWNER} no_handle
       (\<lambda>owner s. do { (ref, s) \<leftarrow> user_shm_create_ref owner s; Some ((USER_STATUS_SUCCESS, Some ref), s) }) s =
     Some ((USER_STATUS_SUCCESS, Some a), ?s2)"
    using own by (simp add: with_handle_ok [OF h] del: rc_set.simps)
  then show ?thesis
    using e by (simp add: borrow_shm_def user_entry_cookie_get_key_def)
qed

text \<open>C19: read-only capabilities. The owner of a shared memory object can derive a read-only handle (or
  runs out of memory). Through the new handle the contents can be read, and the result is what the
  object holds; no write through it is accepted, and none changes anything. The handle keeps the
  object alive: its reference counter is one higher.\<close>

theorem shm_ro_capability:
  assumes h: "resolves s entry h \<lparr>ref_ptr = a, ref_type = USER_OBJ_TYPE_SHM_OWNER, pin_cookie = p\<rparr> (RcShmShutdown a) n"
    and shm: "sget (shms s) a = Some shm" "sh_ref_rc shm + 3 < 2 ^ 64"
    and e: "sget (entries s) (ent_cookie entry) = Some e"
    and ok: "user_sys_borrow_shm_ro entry h s = Some ((USER_STATUS_SUCCESS, Some h'), s')"
  shows "sget (shms s') a = Some (shm\<lparr>sh_ref_rc := Suc (sh_ref_rc shm)\<rparr>) \<and>
    user_sys_write_to_shm_ref entry h' offset len data s' = Some (USER_STATUS_INVALID_HANDLE_TYPE, s') \<and>
    user_sys_read_from_shm_ref entry h' offset len buf s' =
       map_option (\<lambda>((_, d), s'). ((USER_STATUS_SUCCESS, d), s')) (user_shm_read_by_ref a offset len buf s')"
proof -
  let ?s = "rc_set (RcShmRef a) (Suc (sh_ref_rc shm)) s"
  let ?ref = "\<lparr>ref_ptr = a, ref_type = USER_OBJ_TYPE_SHM_RO_REF, pin_cookie = e_key e\<rparr>"
  obtain u where u: "table_at s (ent_universe entry) u" using h by (auto simp: resolves_def)
  then obtain k where t: "table_at ?s (ent_universe entry) (u\<lparr>u_refcount := k\<rparr>)" using table_rc_set by blast
  have st: "store_new entry ?ref ?s = Some ((USER_STATUS_SUCCESS, Some h'), s')"
    using ok shm(2) by (simp add: user_sys_borrow_shm_ro_def borrow_shm_frame [OF h refl shm(1) _ e])
  have ty: "ref_type ?ref \<noteq> USER_OBJ_TYPE_UNIVERSE" by simp
  obtain u' m where s': "s' = put_universe (ent_universe entry) u' (?s\<lparr>alloc_calls := m\<rparr>)"
      and tab: "table_at s' (ent_universe entry) u'" "handles u' h' = Some ?ref"
    by (cases rule: store_new_ref [OF t ty])
      (use st in \<open>auto split: Option.bind_splits simp del: rc_set.simps\<close>)
  have get: "sget (shms s') a = Some (shm\<lparr>sh_ref_rc := Suc (sh_ref_rc shm)\<rparr>)"
    using shm(1) by (simp add: s' put_universe_def store_simps)
  have res: "resolves s' entry h' ?ref (RcShmRef a) (Suc (sh_ref_rc shm))"
    using tab get shm(2) by (auto simp: resolves_def rc_of_ref_def)
  show ?thesis
    using get with_handle_type [OF res, of "{USER_OBJ_TYPE_SHM_RW_REF}"] shm_ref_calls(2) [OF res get]
    by (simp add: user_sys_write_to_shm_ref_def)
qed

text \<open>The shared memory example of theory \<open>Shm\<close> with a universe that holds its owner and a
  read-write reference.\<close>

definition shm_api_universe :: user_universe where
  "shm_api_universe = \<lparr>u_refcount = 1, u_taken = False, u_free_list = [], u_id = 2,
     u_cells = \<lparr>da_data = [
       \<lparr>in_use = True, cell_ref = \<lparr>ref_ptr = 0, ref_type = USER_OBJ_TYPE_SHM_OWNER, pin_cookie = 2\<rparr>\<rparr>,
       \<lparr>in_use = True, cell_ref = \<lparr>ref_ptr = 0, ref_type = USER_OBJ_TYPE_SHM_RW_REF, pin_cookie = 2\<rparr>\<rparr>],
       capacity = 16\<rparr>\<rparr>"

definition shm_api_example :: kstate where
  "shm_api_example = shm_example\<lparr>
     shms := [Some (shm_example_owner\<lparr>sh_ref_rc := 2\<rparr>)],
     universes := [Some shm_api_universe]\<rparr>"

lemma shm_api_table: "table_at shm_api_example 0 shm_api_universe"
proof -
  have "in_use (cells shm_api_universe ! i)" if "i < length (cells shm_api_universe)" for i
    using that by (auto simp: shm_api_universe_def less_2_cases_iff less_Suc_eq)
  then have "universe_wf shm_api_universe"
    by (auto simp: universe_wf_def) (simp_all add: shm_api_universe_def dynarray_wf_def dynarray_len_def DYNARRAY_GROWTH_DELTA_def)
  then show ?thesis
    by (simp add: table_at_def shm_api_example_def sget_def) (simp add: shm_api_universe_def)
qed

lemma shm_api_example_facts:
  "resolves shm_api_example example_api_entry 0
     \<lparr>ref_ptr = 0, ref_type = USER_OBJ_TYPE_SHM_OWNER, pin_cookie = 2\<rparr> (RcShmShutdown 0) 1"
  "resolves shm_api_example example_api_entry 1
     \<lparr>ref_ptr = 0, ref_type = USER_OBJ_TYPE_SHM_RW_REF, pin_cookie = 2\<rparr> (RcShmRef 0) 2"
  "sget (shms shm_api_example) 0 = Some (shm_example_owner\<lparr>sh_ref_rc := 2\<rparr>)"
  "sget (entries shm_api_example) (ent_cookie example_api_entry) = Some (shm_example_cookie 2)"
proof -
  have "handles shm_api_universe 0 = Some \<lparr>ref_ptr = 0, ref_type = USER_OBJ_TYPE_SHM_OWNER, pin_cookie = 2\<rparr>"
      "handles shm_api_universe 1 = Some \<lparr>ref_ptr = 0, ref_type = USER_OBJ_TYPE_SHM_RW_REF, pin_cookie = 2\<rparr>"
    by (simp_all add: handles_def shm_api_universe_def)
  moreover show shm: "sget (shms shm_api_example) 0 = Some (shm_example_owner\<lparr>sh_ref_rc := 2\<rparr>)"
    by (simp add: shm_api_example_def sget_def)
  moreover have "sh_shutdown_rc shm_example_owner = 1" by (simp add: shm_example_owner_def)
  ultimately show "resolves shm_api_example example_api_entry 0
       \<lparr>ref_ptr = 0, ref_type = USER_OBJ_TYPE_SHM_OWNER, pin_cookie = 2\<rparr> (RcShmShutdown 0) 1"
    "resolves shm_api_example example_api_entry 1
       \<lparr>ref_ptr = 0, ref_type = USER_OBJ_TYPE_SHM_RW_REF, pin_cookie = 2\<rparr> (RcShmRef 0) 2"
    using shm_api_table by (auto simp: resolves_def example_api_entry_def rc_of_ref_def)
  show "sget (entries shm_api_example) (ent_cookie example_api_entry) = Some (shm_example_cookie 2)"
    using shm_example_facts(6) by (simp add: shm_api_example_def example_api_entry_def)
qed

theorem shm_ro_capability_witness:
  "\<exists>s'. user_sys_borrow_shm_ro example_api_entry 0 shm_api_example = Some ((USER_STATUS_SUCCESS, Some 2), s') \<and>
     user_sys_write_to_shm_ref example_api_entry 2 0 1 [99] s' = Some (USER_STATUS_INVALID_HANDLE_TYPE, s')"
proof -
  have eq: "user_sys_borrow_shm_ro example_api_entry 0 shm_api_example = store_new example_api_entry
      \<lparr>ref_ptr = 0, ref_type = USER_OBJ_TYPE_SHM_RO_REF, pin_cookie = 2\<rparr> (rc_set (RcShmRef 0) 3 shm_api_example)"
    using borrow_shm_frame [OF shm_api_example_facts(1) refl shm_api_example_facts(3) _ shm_api_example_facts(4)]
    by (simp add: user_sys_borrow_shm_ro_def shm_example_facts(9) del: rc_set.simps)
  have "map_option fst (store_new example_api_entry
      \<lparr>ref_ptr = 0, ref_type = USER_OBJ_TYPE_SHM_RO_REF, pin_cookie = 2\<rparr> (rc_set (RcShmRef 0) 3 shm_api_example)) =
      Some (USER_STATUS_SUCCESS, Some 2)"
    by (simp add: store_new_def user_universe_move_in_def universe_lock_def user_universe_move_in_nolock_def
        cyclical_dep_def universe_unlock_def shm_api_example_def shm_api_universe_def example_api_entry_def
        push_allocates_def dynarray_push_def dynarray_len_def put_universe_def sget_def sput_def smod_def)
  then obtain s' where s': "user_sys_borrow_shm_ro example_api_entry 0 shm_api_example =
      Some ((USER_STATUS_SUCCESS, Some 2), s')" using eq by auto
  then show ?thesis
    using shm_ro_capability [OF shm_api_example_facts(1,3) _ shm_api_example_facts(4) s']
    by (simp add: shm_example_owner_def)
qed

text \<open>The status of an access through a reference is lost. \<open>user_sys_write_to_shm_ref\<close> and
  \<open>user_sys_read_from_shm_ref\<close> report success for an access that the shared memory object refused as out
  of bounds; the memory is not touched, but the caller is not told.\<close>

lemma shm_ref_status_lost:
  assumes h: "resolves s entry h ref (RcShmRef a) n" "ref_type ref = USER_OBJ_TYPE_SHM_RW_REF" "ref_ptr ref = a"
    and shm: "sget (shms s) a = Some shm" "shm_ok shm" and bad: "sh_size shm < offset + len"
  shows "user_shm_write_by_ref a offset len data s = Some (USER_STATUS_OUT_OF_BOUNDS, s) \<and>
    user_sys_write_to_shm_ref entry h offset len data s = Some (USER_STATUS_SUCCESS, s) \<and>
    user_sys_read_from_shm_ref entry h offset len buf s = Some ((USER_STATUS_SUCCESS, buf), s)"
proof -
  have "\<not> user_shm_check_bounds shm offset len" using bad check_bounds_iff [OF shm(2)] by simp
  then have "user_shm_write_by_ref a offset len data s = Some (USER_STATUS_OUT_OF_BOUNDS, s)"
      "user_shm_read_by_ref a offset len buf s = Some ((USER_STATUS_OUT_OF_BOUNDS, buf), s)"
    using shm(1) by (simp_all add: user_shm_write_by_ref_def user_shm_read_by_ref_def)
  then show ?thesis
    using shm_ref_calls [OF h(1) shm(1) h(3)] h(2) by simp
qed

end
