(* ===== verification/Phys_Slab.thy ===== *)
theory Phys_Slab
  imports Prelude
begin

text \<open>
  \<^verbatim>\<open>mem/phys/slab.c\<close>: the allocator of power-of-two blocks behind every physical memory range.
  Fresh blocks come from the border (\<open>brk_bytes\<close>); freed blocks are kept in one singly linked list per
  order, threaded through their own first word. Physical memory is a function from addresses to
  words; \<open>win\<close> is \<open>mem_wb_phys_win_base\<close>, the address at which it is mapped, a bound on every block
  address. A failed assertion and an access to \<open>free_lists[64]\<close> have no result.
\<close>

type_synonym phys_mem = "addr \<Rightarrow> nat"

definition PHYS_NULL :: addr where
  "PHYS_NULL = 0"

definition PHYS_SLAB_GRAN :: nat where
  "PHYS_SLAB_GRAN = 12"

definition PAGE_SIZE :: nat where
  "PAGE_SIZE = 2 ^ PHYS_SLAB_GRAN"

definition MEM_PHYS_SLAB_ORDERS_COUNT :: nat where
  "MEM_PHYS_SLAB_ORDERS_COUNT = 64"

lemmas slab_consts = PHYS_NULL_def PHYS_SLAB_GRAN_def PAGE_SIZE_def MEM_PHYS_SLAB_ORDERS_COUNT_def

record mem_phys_slab =
  sl_base :: addr
  sl_brk_bytes :: nat
  sl_length :: nat
  sl_free_lists :: "addr list"
  sl_max_freed_order :: nat

definition mem_phys_slab_init :: "addr \<Rightarrow> nat \<Rightarrow> mem_phys_slab" where
  "mem_phys_slab_init base len = \<lparr>sl_base = base, sl_brk_bytes = 0, sl_length = len,
     sl_free_lists = replicate MEM_PHYS_SLAB_ORDERS_COUNT PHYS_NULL, sl_max_freed_order = 0\<rparr>"

definition mem_phys_slab_enqueue ::
  "addr \<Rightarrow> nat \<Rightarrow> addr \<Rightarrow> mem_phys_slab \<times> phys_mem \<Rightarrow> (mem_phys_slab \<times> phys_mem) option" where
  "mem_phys_slab_enqueue win order block = (\<lambda>(slab, mem).
     if win \<le> block \<or> MEM_PHYS_SLAB_ORDERS_COUNT \<le> order then None
     else let slab = (if sl_max_freed_order slab < order then slab\<lparr>sl_max_freed_order := order\<rparr> else slab)
       in Some (slab\<lparr>sl_free_lists := (sl_free_lists slab)[order := block]\<rparr>,
                mem(block := sl_free_lists slab ! order)))"

text \<open>\<open>while (i-- > 0)\<close> over the orders below \<open>i\<close>.\<close>

fun max_freed_scan :: "addr list \<Rightarrow> nat \<Rightarrow> nat \<Rightarrow> nat" where
  "max_freed_scan fl 0 acc = acc"
| "max_freed_scan fl (Suc i) acc = max_freed_scan fl i (if fl ! i \<noteq> PHYS_NULL then i else acc)"

definition mem_phys_slab_dequeue ::
  "addr \<Rightarrow> nat \<Rightarrow> mem_phys_slab \<times> phys_mem \<Rightarrow> (addr \<times> mem_phys_slab \<times> phys_mem) option" where
  "mem_phys_slab_dequeue win order = (\<lambda>(slab, mem).
     let block = sl_free_lists slab ! order;
         nxt = mem block;
         slab = slab\<lparr>sl_free_lists := (sl_free_lists slab)[order := nxt]\<rparr>;
         slab = (if nxt = PHYS_NULL \<and> sl_max_freed_order slab = order
                 then slab\<lparr>sl_max_freed_order :=
                        max_freed_scan (sl_free_lists slab) (sl_max_freed_order slab - 1) 0\<rparr>
                 else slab)
     in if win \<le> block then None else Some (block, slab, mem))"

fun mem_phys_slab_split_until_target ::
  "addr \<Rightarrow> addr \<Rightarrow> nat \<Rightarrow> nat \<Rightarrow> mem_phys_slab \<times> phys_mem \<Rightarrow> (mem_phys_slab \<times> phys_mem) option" where
  "mem_phys_slab_split_until_target win base 0 target s = Some s"
| "mem_phys_slab_split_until_target win base (Suc order) target s =
     (if Suc order > target then do {
        s \<leftarrow> mem_phys_slab_enqueue win order (u64 (base + 2 ^ order)) s;
        mem_phys_slab_split_until_target win base order target s }
      else Some s)"

text \<open>The loop over \<open>order\<close> and \<open>current\<close>, with \<open>n\<close> orders left to try.\<close>

fun get_order_loop :: "nat \<Rightarrow> nat \<Rightarrow> nat \<Rightarrow> nat \<Rightarrow> nat" where
  "get_order_loop sz 0 order current = MEM_PHYS_SLAB_ORDERS_COUNT"
| "get_order_loop sz (Suc n) order current =
     (if sz \<le> current then order else get_order_loop sz n (Suc order) (u64 (current * 2)))"

definition mem_phys_slab_get_order :: "nat \<Rightarrow> nat" where
  "mem_phys_slab_get_order sz =
     get_order_loop sz (MEM_PHYS_SLAB_ORDERS_COUNT - PHYS_SLAB_GRAN) PHYS_SLAB_GRAN PAGE_SIZE"

definition mem_phys_slab_alloc ::
  "addr \<Rightarrow> nat \<Rightarrow> mem_phys_slab \<times> phys_mem \<Rightarrow> (addr \<times> mem_phys_slab \<times> phys_mem) option" where
  "mem_phys_slab_alloc win sz = (\<lambda>(slab, mem).
     let order = mem_phys_slab_get_order sz in
     if order = MEM_PHYS_SLAB_ORDERS_COUNT then Some (PHYS_NULL, slab, mem)
     else if MEM_PHYS_SLAB_ORDERS_COUNT \<le> sl_max_freed_order slab then None
     else case find (\<lambda>i. sl_free_lists slab ! i \<noteq> PHYS_NULL) [order ..< Suc (sl_max_freed_order slab)] of
       Some i \<Rightarrow> do {
         (block, s) \<leftarrow> mem_phys_slab_dequeue win i (slab, mem);
         s \<leftarrow> mem_phys_slab_split_until_target win block i order s;
         Some (block, s) }
     | None \<Rightarrow>
         let new_brk_bytes = u64 (sl_brk_bytes slab + 2 ^ order) in
         if new_brk_bytes \<le> sl_length slab
         then Some (u64 (sl_brk_bytes slab + sl_base slab), slab\<lparr>sl_brk_bytes := new_brk_bytes\<rparr>, mem)
         else Some (PHYS_NULL, slab, mem))"

definition mem_phys_slab_free ::
  "addr \<Rightarrow> addr \<Rightarrow> nat \<Rightarrow> mem_phys_slab \<times> phys_mem \<Rightarrow> (mem_phys_slab \<times> phys_mem) option" where
  "mem_phys_slab_free win a sz s = mem_phys_slab_enqueue win (mem_phys_slab_get_order sz) a s"

section \<open>Size orders\<close>

lemma get_order_loop_spec:
  assumes "k + n = 64" "current = 2 ^ k \<or> n = 0"
  shows "k \<le> get_order_loop sz n k current \<and> get_order_loop sz n k current \<le> 64 \<and>
    (get_order_loop sz n k current < 64 \<longrightarrow> sz \<le> 2 ^ get_order_loop sz n k current) \<and>
    (k < get_order_loop sz n k current \<longrightarrow> 2 ^ (get_order_loop sz n k current - 1) < sz)"
  using assms
proof (induction n arbitrary: k current)
  case 0
  then show ?case by (simp add: slab_consts)
next
  case (Suc n)
  show ?case
  proof (cases "sz \<le> 2 ^ k")
    case True
    then show ?thesis using Suc.prems by auto
  next
    case False
    let ?o = "get_order_loop sz n (Suc k) (u64 (current * 2))"
    have o: "get_order_loop sz (Suc n) k current = ?o" using False Suc.prems by simp
    have "n = 0 \<or> u64 (current * 2) = 2 ^ Suc k"
    proof (cases n)
      case (Suc m)
      then have "2 ^ Suc k < (2::nat) ^ 64" using Suc.prems(1) by (intro power_strict_increasing) auto
      then show ?thesis using Suc.prems(2) by (simp add: word_simps mult.commute)
    qed simp
    then have IH: "Suc k \<le> ?o \<and> ?o \<le> 64 \<and> (?o < 64 \<longrightarrow> sz \<le> 2 ^ ?o) \<and> (Suc k < ?o \<longrightarrow> 2 ^ (?o - 1) < sz)"
      using Suc.IH [of "Suc k" "u64 (current * 2)"] Suc.prems(1) by auto
    then show ?thesis using False unfolding o by (cases "?o = Suc k") auto
  qed
qed

text \<open>The order of a request: the least one from the page size on that fits it.\<close>

lemma get_order_spec:
  defines "order sz \<equiv> mem_phys_slab_get_order sz"
  shows "12 \<le> order sz" "order sz \<le> 64" "order sz < 64 \<Longrightarrow> sz \<le> 2 ^ order sz"
    "12 < order sz \<Longrightarrow> 2 ^ (order sz - 1) < sz"
  using get_order_loop_spec [of 12 52 "2 ^ 12" sz]
  by (simp_all add: order_def mem_phys_slab_get_order_def slab_consts)

lemma get_order_eqI:
  assumes "12 \<le> k" "k < 64" "sz \<le> 2 ^ k" "12 < k \<Longrightarrow> 2 ^ (k - 1) < sz"
  shows "mem_phys_slab_get_order sz = k"
proof (rule ccontr)
  let ?o = "mem_phys_slab_get_order sz"
  assume "?o \<noteq> k"
  then consider "?o < k" | "k < ?o" by linarith
  then show False
  proof cases
    case 1
    then have "sz \<le> 2 ^ ?o" "12 < k" using get_order_spec(1,3) [of sz] assms(2) by linarith+
    moreover have "(2::nat) ^ ?o \<le> 2 ^ (k - 1)" using 1 by (intro power_increasing) auto
    ultimately show False using assms(4) by linarith
  next
    case 2
    then have "2 ^ (?o - 1) < sz" using get_order_spec(4) [of sz] assms(1) by linarith
    moreover have "(2::nat) ^ k \<le> 2 ^ (?o - 1)" using 2 by (intro power_increasing) auto
    ultimately show False using assms(3) by linarith
  qed
qed

section \<open>Blocks\<close>

text \<open>A block is its address and its order.\<close>

type_synonym block = "addr \<times> nat"

definition blk_disj :: "block \<Rightarrow> block \<Rightarrow> bool" where
  "blk_disj x y \<longleftrightarrow> fst x + 2 ^ snd x \<le> fst y \<or> fst y + 2 ^ snd y \<le> fst x"

definition all_disj :: "block multiset \<Rightarrow> bool" where
  "all_disj M \<longleftrightarrow> (\<forall>x y. {#x, y#} \<subseteq># M \<longrightarrow> blk_disj x y)"

lemma disj_sym: "blk_disj x y \<longleftrightarrow> blk_disj y x"
  by (auto simp: blk_disj_def)

lemma disj_neq: "blk_disj x y \<Longrightarrow> fst x \<noteq> fst y"
  by (auto simp: blk_disj_def)

lemma all_disj_mono: "all_disj N \<Longrightarrow> M \<subseteq># N \<Longrightarrow> all_disj M"
  unfolding all_disj_def using subset_mset.trans by blast

lemma pair_add_mset:
  assumes "{#u, v#} \<subseteq># add_mset x M"
  shows "{#u, v#} \<subseteq># M \<or> u = x \<and> v \<in># M \<or> v = x \<and> u \<in># M"
proof (cases "u = x \<or> v = x")
  case True
  then show ?thesis using assms by (auto simp: add_mset_commute [of u x])
next
  case False
  then have "{#u, v#} \<subseteq># M"
    using assms by (auto simp: subseteq_mset_def split: if_splits)
  then show ?thesis by simp
qed

lemma all_disj_add: "all_disj (add_mset x M) \<longleftrightarrow> all_disj M \<and> (\<forall>y \<in># M. blk_disj x y)"
proof
  assume a: "all_disj (add_mset x M)"
  have "blk_disj x y" if "y \<in># M" for y
  proof -
    have "{#x, y#} \<subseteq># add_mset x M" using that by simp
    then show ?thesis using a unfolding all_disj_def by blast
  qed
  then show "all_disj M \<and> (\<forall>y \<in># M. blk_disj x y)"
    using all_disj_mono [OF a, of M] by simp
next
  assume "all_disj M \<and> (\<forall>y \<in># M. blk_disj x y)"
  then show "all_disj (add_mset x M)"
    unfolding all_disj_def using pair_add_mset disj_sym by metis
qed

text \<open>A block is two blocks of the order below it.\<close>

lemma disj_split:
  "blk_disj (a, Suc k) y \<Longrightarrow> blk_disj (a, k) y \<and> blk_disj (a + 2 ^ k, k) y"
  by (auto simp: blk_disj_def)

lemma all_disj_split:
  "all_disj (add_mset (a, Suc k) M) \<Longrightarrow> all_disj (add_mset (a, k) (add_mset (a + 2 ^ k, k) M))"
  using disj_split by (auto simp: all_disj_add blk_disj_def [of "(a, k)" "(a + 2 ^ k, k)"])

text \<open>Disjoint blocks of whole pages between two addresses.\<close>

definition blocks_in :: "nat \<Rightarrow> nat \<Rightarrow> block multiset \<Rightarrow> bool" where
  "blocks_in lo hi M \<longleftrightarrow> all_disj M \<and> (\<forall>b \<in># M. lo \<le> fst b \<and> fst b + 2 ^ snd b \<le> hi \<and>
     PAGE_SIZE dvd fst b \<and> PHYS_SLAB_GRAN \<le> snd b)"

lemma blocks_in_mem:
  assumes "blocks_in lo hi M" "(a, k) \<in># M"
  shows "lo \<le> a" "a + 2 ^ k \<le> hi" "a < hi"
proof -
  show "lo \<le> a" "a + 2 ^ k \<le> hi" using assms by (auto simp: blocks_in_def)
  moreover have "a < a + 2 ^ k" by simp
  ultimately show "a < hi" by linarith
qed

lemma page_dvd_power: "PHYS_SLAB_GRAN \<le> k \<Longrightarrow> PAGE_SIZE dvd 2 ^ k"
  by (simp add: PAGE_SIZE_def le_imp_power_dvd)

lemma blocks_in_split:
  assumes "blocks_in lo hi (add_mset (a, Suc k) M)" "PHYS_SLAB_GRAN \<le> k"
  shows "blocks_in lo hi (add_mset (a + 2 ^ k, k) (add_mset (a, k) M))"
  using assms all_disj_split [of a k M] blocks_in_mem [OF assms(1), of a "Suc k"] page_dvd_power [of k]
  by (auto simp: blocks_in_def add_mset_commute)

lemma blocks_in_border:
  assumes "blocks_in lo hi M" "lo \<le> hi" "PAGE_SIZE dvd hi" "PHYS_SLAB_GRAN \<le> k"
  shows "blocks_in lo (hi + 2 ^ k) (add_mset (hi, k) M)"
  using assms by (auto simp: blocks_in_def all_disj_add blk_disj_def intro: trans_le_add1)

section \<open>Free lists\<close>

fun flist :: "phys_mem \<Rightarrow> addr \<Rightarrow> addr list \<Rightarrow> bool" where
  "flist mem h [] \<longleftrightarrow> h = PHYS_NULL"
| "flist mem h (x # xs) \<longleftrightarrow> h = x \<and> x \<noteq> PHYS_NULL \<and> flist mem (mem x) xs"

lemma flist_frame: "b \<notin> set xs \<Longrightarrow> flist (mem(b := v)) h xs = flist mem h xs"
  by (induction xs arbitrary: h) auto

lemma flist_Cons: "flist mem h xs \<Longrightarrow> h \<noteq> PHYS_NULL \<Longrightarrow> \<exists>ys. xs = h # ys"
  by (cases xs) auto

definition free_mset :: "addr list list \<Rightarrow> block multiset" where
  "free_mset fls = (\<Sum>k<length fls. image_mset (\<lambda>a. (a, k)) (mset (fls ! k)))"

lemma free_mset_update:
  assumes "k < length fls"
  shows "free_mset (fls[k := xs]) + image_mset (\<lambda>a. (a, k)) (mset (fls ! k)) =
    free_mset fls + image_mset (\<lambda>a. (a, k)) (mset xs)"
proof -
  let ?g = "\<lambda>fls k. image_mset (\<lambda>a. (a, k)) (mset (fls ! k))"
  have "sum (?g (fls[k := xs])) ({..<length fls} - {k}) = sum (?g fls) ({..<length fls} - {k})"
    by (intro sum.cong) auto
  then show ?thesis
    using assms sum.remove [of "{..<length fls}" k "?g fls"]
      sum.remove [of "{..<length fls}" k "?g (fls[k := xs])"]
    by (simp add: free_mset_def ac_simps)
qed

lemma free_mset_push:
  assumes "k < length fls"
  shows "free_mset (fls[k := b # fls ! k]) = add_mset (b, k) (free_mset fls)"
  using free_mset_update [OF assms, of "b # fls ! k"] by simp

lemma free_mset_pop:
  assumes "k < length fls" "fls ! k = b # xs"
  shows "free_mset fls = add_mset (b, k) (free_mset (fls[k := xs]))"
  using free_mset_update [OF assms(1), of xs] assms(2) by simp

lemma free_mset_mem:
  assumes "k < length fls" "a \<in> set (fls ! k)"
  shows "(a, k) \<in># free_mset fls"
proof -
  have "free_mset fls = image_mset (\<lambda>a. (a, k)) (mset (fls ! k)) +
      (\<Sum>j \<in> {..<length fls} - {k}. image_mset (\<lambda>a. (a, j)) (mset (fls ! j)))"
    unfolding free_mset_def using assms(1) by (intro sum.remove) auto
  then show ?thesis using assms(2) by simp
qed

lemma max_freed_scan_bound: "i \<le> n \<Longrightarrow> acc < n \<Longrightarrow> max_freed_scan fl i acc < n"
  by (induction fl i acc rule: max_freed_scan.induct) auto

section \<open>The allocator invariant\<close>

text \<open>
  \<open>live\<close> are the blocks handed out and not yet returned, \<open>fls\<close> the free lists as sequences. All
  blocks, live and free, are pairwise disjoint and lie between the base and the border. The bound
  of 52 bits is the width of physical addresses.
\<close>

definition slab_rep :: "addr \<Rightarrow> mem_phys_slab \<times> phys_mem \<Rightarrow> addr list list \<Rightarrow> block multiset \<Rightarrow> bool" where
  "slab_rep win s fls live \<longleftrightarrow> (case s of (slab, mem) \<Rightarrow>
     0 < sl_base slab \<and> sl_base slab + sl_length slab \<le> win \<and> sl_base slab + sl_length slab \<le> 2 ^ 52 \<and>
     sl_brk_bytes slab \<le> sl_length slab \<and> PAGE_SIZE dvd sl_base slab \<and> PAGE_SIZE dvd sl_brk_bytes slab \<and>
     length (sl_free_lists slab) = 64 \<and> sl_max_freed_order slab < 64 \<and>
     length fls = 64 \<and> (\<forall>k<64. flist mem (sl_free_lists slab ! k) (fls ! k)) \<and>
     blocks_in (sl_base slab) (sl_base slab + sl_brk_bytes slab) (live + free_mset fls))"

definition slab_inv :: "addr \<Rightarrow> mem_phys_slab \<times> phys_mem \<Rightarrow> block multiset \<Rightarrow> bool" where
  "slab_inv win s live \<longleftrightarrow> (\<exists>fls. slab_rep win s fls live)"

lemma slab_init_inv:
  assumes "0 < base" "base + len \<le> win" "base + len \<le> 2 ^ 52" "PAGE_SIZE dvd base"
  shows "slab_inv win (mem_phys_slab_init base len, mem) {#}"
proof -
  have "free_mset (replicate 64 []) = {#}" by (simp add: free_mset_def)
  then have "slab_rep win (mem_phys_slab_init base len, mem) (replicate 64 []) {#}"
    using assms by (simp add: slab_rep_def mem_phys_slab_init_def slab_consts blocks_in_def all_disj_def)
  then show ?thesis by (auto simp: slab_inv_def)
qed

text \<open>A live block is not on a free list.\<close>

lemma live_not_free:
  assumes "slab_rep win (slab, mem) fls live" "(a, k) \<in># live" "a \<le> w" "w < a + 2 ^ k" "j < 64"
  shows "w \<notin> set (fls ! j)"
proof
  assume "w \<in> set (fls ! j)"
  then have "(w, j) \<in># free_mset fls" using assms by (intro free_mset_mem) (auto simp: slab_rep_def)
  then have "{#(a, k), (w, j)#} \<subseteq># live + free_mset fls"
    using assms(2) subset_mset.add_mono [of "{#(a, k)#}" live "{#(w, j)#}" "free_mset fls"]
    by (simp add: add_mset_commute)
  then have "blk_disj (a, k) (w, j)" using assms(1) by (auto simp: slab_rep_def blocks_in_def all_disj_def)
  then have "a + 2 ^ k \<le> w \<or> w + 2 ^ j \<le> a" by (simp add: blk_disj_def)
  moreover have "0 < (2::nat) ^ j" by simp
  ultimately show False using assms(3,4) by linarith
qed

lemma enqueue_rep:
  assumes rep: "slab_rep win (slab, mem) fls (add_mset (b, k) live)" and k: "k < 64"
  shows "\<exists>s'. mem_phys_slab_enqueue win k b (slab, mem) = Some s' \<and>
     slab_rep win s' (fls[k := b # fls ! k]) live"
proof -
  have blocks: "blocks_in (sl_base slab) (sl_base slab + sl_brk_bytes slab) (add_mset (b, k) live + free_mset fls)"
    and range: "0 < sl_base slab" "sl_base slab + sl_brk_bytes slab \<le> win"
    using rep by (auto simp: slab_rep_def)
  have b: "b < win" "b \<noteq> 0" using blocks_in_mem [OF blocks, of b k] range by auto
  have nf: "b \<notin> set (fls ! j)" if "j < 64" for j
    using live_not_free [OF rep, of b k b j] that by simp
  have fl: "flist (mem(b := v)) (sl_free_lists slab ! j) (fls ! j)" if "j < 64" for j v
    using rep that nf by (simp add: slab_rep_def flist_frame)
  have "add_mset (b, k) live + free_mset fls = live + free_mset (fls[k := b # fls ! k])"
    using free_mset_push [of k fls b] k rep by (simp add: slab_rep_def)
  with blocks have "blocks_in (sl_base slab) (sl_base slab + sl_brk_bytes slab)
      (live + free_mset (fls[k := b # fls ! k]))" by metis
  with rep b k nf fl show ?thesis
    by (auto simp: slab_rep_def mem_phys_slab_enqueue_def slab_consts Let_def nth_list_update)
qed

lemma dequeue_rep:
  assumes rep: "slab_rep win (slab, mem) fls live" and k: "k < 64" "sl_free_lists slab ! k \<noteq> PHYS_NULL"
  shows "\<exists>b xs s'. fls ! k = b # xs \<and> mem_phys_slab_dequeue win k (slab, mem) = Some (b, s') \<and>
     slab_rep win s' (fls[k := xs]) (add_mset (b, k) live)"
proof -
  let ?b = "sl_free_lists slab ! k"
  have "flist mem ?b (fls ! k)" using rep k by (simp add: slab_rep_def)
  then obtain xs where xs: "fls ! k = ?b # xs" "flist mem (mem ?b) xs"
    using flist_Cons k(2) by fastforce
  have free: "free_mset fls = add_mset (?b, k) (free_mset (fls[k := xs]))"
    using rep k xs by (intro free_mset_pop) (simp_all add: slab_rep_def)
  have blocks: "blocks_in (sl_base slab) (sl_base slab + sl_brk_bytes slab)
      (add_mset (?b, k) live + free_mset (fls[k := xs]))"
    and "sl_base slab + sl_brk_bytes slab \<le> win"
    using rep free by (auto simp: slab_rep_def)
  then have b: "?b < win" using blocks_in_mem [OF blocks, of ?b k] by simp
  let ?fl = "(sl_free_lists slab)[k := mem ?b]"
  let ?m = "if mem ?b = PHYS_NULL \<and> sl_max_freed_order slab = k
            then max_freed_scan ?fl (sl_max_freed_order slab - 1) 0 else sl_max_freed_order slab"
  let ?s = "slab\<lparr>sl_free_lists := ?fl, sl_max_freed_order := ?m\<rparr>"
  have "mem_phys_slab_dequeue win k (slab, mem) = Some (?b, ?s, mem)"
    using b by (simp add: mem_phys_slab_dequeue_def Let_def)
  moreover have "?m < 64" using rep k by (auto simp: slab_rep_def intro!: max_freed_scan_bound)
  then have "slab_rep win (?s, mem) (fls[k := xs]) (add_mset (?b, k) live)"
    using rep k xs blocks by (auto simp: slab_rep_def nth_list_update)
  ultimately show ?thesis using xs(1) by blast
qed

lemma split_rep:
  assumes "slab_rep win s fls (add_mset (b, k) live)" "target \<le> k" "k < 64" "PHYS_SLAB_GRAN \<le> target"
  shows "\<exists>s' fls'. mem_phys_slab_split_until_target win b k target s = Some s' \<and>
     slab_rep win s' fls' (add_mset (b, target) live)"
  using assms
proof (induction k arbitrary: s fls)
  case 0
  then show ?case by auto
next
  case (Suc k)
  show ?case
  proof (cases "target = Suc k")
    case True
    then show ?thesis using Suc.prems by auto
  next
    case False
    obtain slab mem where s: "s = (slab, mem)" by (cases s)
    have rep: "slab_rep win s fls (add_mset (b + 2 ^ k, k) (add_mset (b, k) live))"
      using Suc.prems False blocks_in_split [of _ _ b k "live + free_mset fls"] by (auto simp: slab_rep_def)
    have "b + 2 ^ Suc k \<le> sl_base slab + sl_brk_bytes slab" "sl_base slab + sl_brk_bytes slab \<le> 2 ^ 52"
      using Suc.prems(1) by (auto simp: slab_rep_def s blocks_in_def)
    then have "b + 2 ^ k < 2 ^ 64" by simp
    then obtain s' where s': "mem_phys_slab_enqueue win k (u64 (b + 2 ^ k)) s = Some s'"
        "slab_rep win s' (fls[k := (b + 2 ^ k) # fls ! k]) (add_mset (b, k) live)"
      using enqueue_rep [OF rep [unfolded s]] Suc.prems(3) by (auto simp: s word_simps)
    then show ?thesis using Suc.IH [OF s'(2)] False Suc.prems by simp
  qed
qed

lemma find_first: "find P [a ..< b] = Some i \<Longrightarrow> a \<le> i \<and> i < b \<and> P i"
  using find_Some_set [of P "[a ..< b]" i] by simp

text \<open>Taking a block from the border.\<close>

lemma border_rep:
  assumes rep: "slab_rep win (slab, mem) fls live" and fits: "sl_brk_bytes slab + 2 ^ k \<le> sl_length slab"
    and k: "PHYS_SLAB_GRAN \<le> k"
  shows "slab_rep win (slab\<lparr>sl_brk_bytes := sl_brk_bytes slab + 2 ^ k\<rparr>, mem) fls
     (add_mset (sl_brk_bytes slab + sl_base slab, k) live)"
  using rep fits k page_dvd_power [OF k] blocks_in_border [of "sl_base slab" "sl_base slab + sl_brk_bytes slab" "live + free_mset fls" k]
  by (auto simp: slab_rep_def ac_simps)

lemma alloc_inv:
  assumes "slab_inv win s live"
  shows "\<exists>b s'. mem_phys_slab_alloc win sz s = Some (b, s') \<and>
     (if b = PHYS_NULL then s' = s else
        mem_phys_slab_get_order sz < 64 \<and> slab_inv win s' (add_mset (b, mem_phys_slab_get_order sz) live))"
proof -
  let ?k = "mem_phys_slab_get_order sz"
  obtain slab mem fls where s: "s = (slab, mem)" and rep: "slab_rep win (slab, mem) fls live"
    using assms by (cases s) (auto simp: slab_inv_def)
  have max: "sl_max_freed_order slab < 64" "0 < sl_base slab" using rep by (simp_all add: slab_rep_def)
  have gran: "PHYS_SLAB_GRAN \<le> ?k" using get_order_spec(1) by (simp add: slab_consts)
  show ?thesis
  proof (cases "?k = 64")
    case True
    then show ?thesis by (simp add: mem_phys_slab_alloc_def s slab_consts)
  next
    case False
    then have k: "?k < 64" using get_order_spec(2) [of sz] by simp
    show ?thesis
    proof (cases "find (\<lambda>i. sl_free_lists slab ! i \<noteq> PHYS_NULL) [?k ..< Suc (sl_max_freed_order slab)]")
      case (Some i)
      then have i: "?k \<le> i" "i < 64" "sl_free_lists slab ! i \<noteq> PHYS_NULL"
        using find_first [OF Some] max by auto
      obtain b xs s1 where d: "mem_phys_slab_dequeue win i (slab, mem) = Some (b, s1)"
          "slab_rep win s1 (fls[i := xs]) (add_mset (b, i) live)"
        using dequeue_rep [OF rep i(2,3)] by blast
      obtain s2 fls' where "mem_phys_slab_split_until_target win b i ?k s1 = Some s2"
          "slab_rep win s2 fls' (add_mset (b, ?k) live)"
        using split_rep [OF d(2) i(1,2) gran] by blast
      moreover have "b \<noteq> PHYS_NULL" using d(2) by (cases s1) (auto simp: slab_rep_def slab_consts blocks_in_def)
      ultimately show ?thesis
        using Some d(1) k max by (auto simp: mem_phys_slab_alloc_def s slab_consts slab_inv_def Let_def)
    next
      case None
      have "(2::nat) ^ ?k \<le> 2 ^ 63" using k by (intro power_increasing) auto
      moreover have "sl_brk_bytes slab \<le> 2 ^ 52" "sl_brk_bytes slab + sl_base slab \<le> 2 ^ 52"
        using rep by (auto simp: slab_rep_def)
      ultimately have small: "sl_brk_bytes slab + 2 ^ ?k < 2 ^ 64" "sl_brk_bytes slab + sl_base slab < 2 ^ 64"
        by simp_all
      show ?thesis
        using None k max border_rep [OF rep _ gran]
        by (auto simp: mem_phys_slab_alloc_def s slab_consts slab_inv_def Let_def u64_small [OF small(1)]
            u64_small [OF small(2)])
    qed
  qed
qed

lemma free_inv:
  assumes "slab_inv win s (add_mset (a, mem_phys_slab_get_order sz) live)" "mem_phys_slab_get_order sz < 64"
  shows "\<exists>s'. mem_phys_slab_free win a sz s = Some s' \<and> slab_inv win s' live"
  using assms enqueue_rep [of win "fst s" "snd s"] by (fastforce simp: slab_inv_def mem_phys_slab_free_def)

text \<open>What clients do with the memory they were given cannot damage the allocator.\<close>

lemma client_write_inv:
  assumes "slab_inv win (slab, mem) live" "(a, k) \<in># live" "a \<le> w" "w < a + 2 ^ k"
  shows "slab_inv win (slab, mem(w := v)) live"
proof -
  obtain fls where rep: "slab_rep win (slab, mem) fls live" using assms by (auto simp: slab_inv_def)
  then have "slab_rep win (slab, mem(w := v)) fls live"
    using live_not_free [OF rep assms(2-4)] by (simp add: slab_rep_def flist_frame)
  then show ?thesis by (auto simp: slab_inv_def)
qed

section \<open>The allocator and its clients as a transition system\<close>

record slab_sys =
  ss_slab :: mem_phys_slab
  ss_mem :: phys_mem
  ss_live :: "block multiset"

text \<open>
  A request, a return of a block with the size it was requested with, or a write of a client into
  a block it owns.
\<close>

inductive slab_step :: "addr \<Rightarrow> slab_sys \<Rightarrow> slab_sys \<Rightarrow> bool" for win where
  alloc: "mem_phys_slab_alloc win sz (ss_slab \<sigma>, ss_mem \<sigma>) = Some (b, slab, mem) \<Longrightarrow> b \<noteq> PHYS_NULL \<Longrightarrow>
    slab_step win \<sigma> \<lparr>ss_slab = slab, ss_mem = mem,
      ss_live = add_mset (b, mem_phys_slab_get_order sz) (ss_live \<sigma>)\<rparr>"
| refuse: "mem_phys_slab_alloc win sz (ss_slab \<sigma>, ss_mem \<sigma>) = Some (PHYS_NULL, slab, mem) \<Longrightarrow>
    slab_step win \<sigma> \<lparr>ss_slab = slab, ss_mem = mem, ss_live = ss_live \<sigma>\<rparr>"
| free: "ss_live \<sigma> = add_mset (a, mem_phys_slab_get_order sz) live \<Longrightarrow> mem_phys_slab_get_order sz < 64 \<Longrightarrow>
    mem_phys_slab_free win a sz (ss_slab \<sigma>, ss_mem \<sigma>) = Some (slab, mem) \<Longrightarrow>
    slab_step win \<sigma> \<lparr>ss_slab = slab, ss_mem = mem, ss_live = live\<rparr>"
| client_write: "(a, k) \<in># ss_live \<sigma> \<Longrightarrow> a \<le> w \<Longrightarrow> w < a + 2 ^ k \<Longrightarrow>
    slab_step win \<sigma> (\<sigma>\<lparr>ss_mem := (ss_mem \<sigma>)(w := v)\<rparr>)"

inductive_cases slab_stepE: "slab_step win \<sigma> \<sigma>'"

definition sys_inv :: "addr \<Rightarrow> slab_sys \<Rightarrow> bool" where
  "sys_inv win \<sigma> \<longleftrightarrow> slab_inv win (ss_slab \<sigma>, ss_mem \<sigma>) (ss_live \<sigma>)"

lemma slab_step_inv:
  assumes "slab_step win \<sigma> \<sigma>'" "sys_inv win \<sigma>"
  shows "sys_inv win \<sigma>'"
  using assms(1)
proof cases
  case (alloc sz b slab mem)
  then show ?thesis using alloc_inv [of win _ _ sz] assms(2) by (fastforce simp: sys_inv_def)
next
  case (refuse sz slab mem)
  then show ?thesis using alloc_inv [of win _ _ sz] assms(2) by (fastforce simp: sys_inv_def)
next
  case (free a sz live slab mem)
  then show ?thesis using free_inv [of win _ a sz live] assms(2) by (fastforce simp: sys_inv_def)
next
  case (client_write a k w v)
  then show ?thesis using client_write_inv assms(2) by (simp add: sys_inv_def)
qed

lemma slab_steps_inv: "(slab_step win)\<^sup>*\<^sup>* \<sigma> \<sigma>' \<Longrightarrow> sys_inv win \<sigma> \<Longrightarrow> sys_inv win \<sigma>'"
  by (induction rule: rtranclp_induct) (auto intro: slab_step_inv)

definition init_sys :: "addr \<Rightarrow> nat \<Rightarrow> phys_mem \<Rightarrow> slab_sys" where
  "init_sys base len mem = \<lparr>ss_slab = mem_phys_slab_init base len, ss_mem = mem, ss_live = {#}\<rparr>"

lemma reachable_inv:
  assumes "0 < base" "base + len \<le> win" "base + len \<le> 2 ^ 52" "PAGE_SIZE dvd base"
    and "(slab_step win)\<^sup>*\<^sup>* (init_sys base len mem) \<sigma>"
  shows "sys_inv win \<sigma>"
  using slab_steps_inv [OF assms(5)] slab_init_inv [OF assms(1-4)] by (simp add: sys_inv_def init_sys_def)

text \<open>No operation moves or resizes the region.\<close>

definition same_region :: "mem_phys_slab \<Rightarrow> mem_phys_slab \<Rightarrow> bool" where
  "same_region slab slab' \<longleftrightarrow> sl_base slab' = sl_base slab \<and> sl_length slab' = sl_length slab"

lemma enqueue_region: "mem_phys_slab_enqueue win k b s = Some s' \<Longrightarrow> same_region (fst s) (fst s')"
  by (auto simp: mem_phys_slab_enqueue_def same_region_def Let_def split: prod.splits if_splits)

lemma split_region:
  "mem_phys_slab_split_until_target win b k target s = Some s' \<Longrightarrow> same_region (fst s) (fst s')"
proof (induction k arbitrary: s)
  case (Suc k)
  then show ?case
    by (auto simp: bind_eq_Some_conv same_region_def split: if_splits dest!: enqueue_region)
qed (simp add: same_region_def)

lemma dequeue_region: "mem_phys_slab_dequeue win k s = Some (b, s') \<Longrightarrow> same_region (fst s) (fst s')"
  by (auto simp: mem_phys_slab_dequeue_def same_region_def Let_def split: prod.splits if_splits)

lemma alloc_region: "mem_phys_slab_alloc win sz s = Some (b, s') \<Longrightarrow> same_region (fst s) (fst s')"
  unfolding mem_phys_slab_alloc_def Let_def
  by (auto simp: same_region_def bind_eq_Some_conv split: prod.splits if_splits option.splits
      dest!: dequeue_region split_region)

lemma step_region: "slab_step win \<sigma> \<sigma>' \<Longrightarrow> same_region (ss_slab \<sigma>) (ss_slab \<sigma>')"
  by (auto elim!: slab_stepE dest!: alloc_region enqueue_region
      simp: mem_phys_slab_free_def) (simp add: same_region_def)

lemma reachable_region: "(slab_step win)\<^sup>*\<^sup>* \<sigma> \<sigma>' \<Longrightarrow> same_region (ss_slab \<sigma>) (ss_slab \<sigma>')"
  by (induction rule: rtranclp_induct) (auto simp: same_region_def dest!: step_region)

lemma slab_inv_live:
  assumes "slab_inv win (slab, mem) live"
  shows "blocks_in (sl_base slab) (sl_base slab + sl_length slab) live"
proof -
  obtain fls where b: "blocks_in (sl_base slab) (sl_base slab + sl_brk_bytes slab) (live + free_mset fls)"
    and le: "sl_brk_bytes slab \<le> sl_length slab"
    using assms by (auto simp: slab_inv_def slab_rep_def)
  have "all_disj live" using b all_disj_mono mset_subset_eq_add_left by (auto simp: blocks_in_def)
  moreover have "sl_base slab \<le> a \<and> a + 2 ^ k \<le> sl_base slab + sl_length slab \<and> PAGE_SIZE dvd a \<and> PHYS_SLAB_GRAN \<le> k"
    if "(a, k) \<in># live" for a k
  proof -
    have "(a, k) \<in># live + free_mset fls" using that by simp
    then have "PAGE_SIZE dvd a \<and> PHYS_SLAB_GRAN \<le> k" using b unfolding blocks_in_def by fastforce
    then show ?thesis using blocks_in_mem [OF b, of a k] that le by auto
  qed
  ultimately show ?thesis by (auto simp: blocks_in_def)
qed

section \<open>Properties\<close>

text \<open>C3: the physical allocator is memory safe. After any sequence of requests, returns and client
  writes into owned memory, starting from \<open>mem_phys_slab_init\<close> on a page aligned region that does not contain
  address 0: the blocks handed out are page aligned, pairwise disjoint and inside the region, and the next request
  of any size returns (no assertion fails and no access leaves the free list array), either with
  \<open>PHYS_NULL\<close>, or with a page aligned block of at least the requested size, disjoint from every block in use.\<close>

theorem slab_alloc_safe:
  assumes "0 < base" "base + len \<le> win" "base + len \<le> 2 ^ 52" "PAGE_SIZE dvd base"
    and run: "(slab_step win)\<^sup>*\<^sup>* (init_sys base len mem) \<sigma>"
  shows "all_disj (ss_live \<sigma>) \<and>
    (\<forall>b \<in># ss_live \<sigma>. base \<le> fst b \<and> fst b + 2 ^ snd b \<le> base + len \<and> PAGE_SIZE dvd fst b) \<and>
    (\<exists>b slab' mem'. mem_phys_slab_alloc win sz (ss_slab \<sigma>, ss_mem \<sigma>) = Some (b, slab', mem') \<and>
      (b \<noteq> PHYS_NULL \<longrightarrow> sz \<le> 2 ^ mem_phys_slab_get_order sz \<and>
         base \<le> b \<and> b + 2 ^ mem_phys_slab_get_order sz \<le> base + len \<and> PAGE_SIZE dvd b \<and>
         (\<forall>y \<in># ss_live \<sigma>. blk_disj (b, mem_phys_slab_get_order sz) y)))"
proof -
  let ?k = "mem_phys_slab_get_order sz"
  have inv: "slab_inv win (ss_slab \<sigma>, ss_mem \<sigma>) (ss_live \<sigma>)"
    using reachable_inv [OF assms] by (simp add: sys_inv_def)
  have region: "sl_base (ss_slab \<sigma>) = base" "sl_length (ss_slab \<sigma>) = len"
    using reachable_region [OF run] by (simp_all add: same_region_def init_sys_def mem_phys_slab_init_def)
  obtain b slab' mem' where a: "mem_phys_slab_alloc win sz (ss_slab \<sigma>, ss_mem \<sigma>) = Some (b, slab', mem')"
    and b: "b \<noteq> PHYS_NULL \<Longrightarrow> ?k < 64 \<and> slab_inv win (slab', mem') (add_mset (b, ?k) (ss_live \<sigma>))"
    using alloc_inv [OF inv, of sz] by (metis prod.exhaust)
  have "blocks_in base (base + len) (add_mset (b, ?k) (ss_live \<sigma>)) \<and> sz \<le> 2 ^ ?k" if "b \<noteq> PHYS_NULL"
    using b [OF that] slab_inv_live [of win slab' mem'] alloc_region [OF a] region get_order_spec(3) [of sz]
    by (simp add: same_region_def)
  moreover have "blocks_in base (base + len) (ss_live \<sigma>)" using slab_inv_live [OF inv] region by simp
  ultimately show ?thesis using a by (auto simp: blocks_in_def all_disj_add)
qed

theorem slab_alloc_safe_witness:
  "\<exists>b slab' mem'. mem_phys_slab_alloc (2 ^ 40) 5000 (mem_phys_slab_init 4096 65536, \<lambda>_. 0) = Some (b, slab', mem')"
  using slab_alloc_safe [of 4096 65536 "2 ^ 40" "\<lambda>_. 0" "init_sys 4096 65536 (\<lambda>_. 0)" 5000]
  by (auto simp: init_sys_def slab_consts)

text \<open>Freed memory is reused. Returning a block and requesting the same order again gives that very
  block back, and the allocator is then as if nothing had been returned: the same blocks are live and
  the invariant holds.\<close>

lemma slab_free_alloc:
  assumes inv: "slab_inv win (slab, mem) (add_mset (a, mem_phys_slab_get_order sz) live)"
    and k: "mem_phys_slab_get_order sz < 64"
  shows "\<exists>s1 s2. mem_phys_slab_free win a sz (slab, mem) = Some s1 \<and> slab_inv win s1 live \<and>
     mem_phys_slab_alloc win sz s1 = Some (a, s2) \<and>
     slab_inv win s2 (add_mset (a, mem_phys_slab_get_order sz) live)"
proof -
  let ?k = "mem_phys_slab_get_order sz"
  obtain fls where rep: "slab_rep win (slab, mem) fls (add_mset (a, ?k) live)"
    using inv by (auto simp: slab_inv_def)
  obtain slab1 mem1 where e: "mem_phys_slab_enqueue win ?k a (slab, mem) = Some (slab1, mem1)"
      "slab_rep win (slab1, mem1) (fls[?k := a # fls ! ?k]) live"
    using enqueue_rep [OF rep k] by auto
  have "length fls = 64" "length (sl_free_lists slab) = 64" using rep by (auto simp: slab_rep_def)
  then have h: "sl_free_lists slab1 ! ?k = a" "a \<noteq> PHYS_NULL" "?k \<le> sl_max_freed_order slab1"
    using e k by (auto simp: mem_phys_slab_enqueue_def slab_rep_def Let_def split: if_splits)
  then have "[?k ..< Suc (sl_max_freed_order slab1)] = ?k # [Suc ?k ..< Suc (sl_max_freed_order slab1)]"
    by (intro upt_conv_Cons) simp
  then have f: "find (\<lambda>i. sl_free_lists slab1 ! i \<noteq> PHYS_NULL) [?k ..< Suc (sl_max_freed_order slab1)] = Some ?k"
    using h by simp
  obtain xs s2 where d: "mem_phys_slab_dequeue win ?k (slab1, mem1) = Some (a, s2)"
      "slab_rep win s2 xs (add_mset (a, ?k) live)"
    using dequeue_rep [OF e(2) k] h \<open>length fls = 64\<close> k by auto
  have "mem_phys_slab_split_until_target win a ?k ?k s2 = Some s2" by (cases ?k) auto
  moreover have "sl_max_freed_order slab1 < 64" using e(2) by (simp add: slab_rep_def)
  ultimately have "mem_phys_slab_alloc win sz (slab1, mem1) = Some (a, s2)"
    using f d(1) k by (simp add: mem_phys_slab_alloc_def slab_consts Let_def)
  then show ?thesis using e d(2) by (cases s2) (auto simp: mem_phys_slab_free_def slab_inv_def)
qed

text \<open>After the last block of the highest order is taken, \<open>max_freed_order\<close> is not recomputed
  correctly: the scan skips the order right below and keeps the lowest non-empty order it meets instead
  of the highest. With a free block of order \<open>k - 1\<close> and nothing below, the field drops to 0, and
  a request that this block would satisfy is refused once the border is exhausted.\<close>

lemma slab_forgets_blocks:
  assumes k: "mem_phys_slab_get_order sz = Suc k" "mem_phys_slab_get_order sz' = k" "Suc k < 64"
    and slab: "sl_max_freed_order slab = Suc k" "length (sl_free_lists slab) = 64"
    and top: "sl_free_lists slab ! Suc k = z" "z \<noteq> PHYS_NULL" "z < win" "mem z = PHYS_NULL"
    and free: "sl_free_lists slab ! k \<noteq> PHYS_NULL" "\<forall>j < k. sl_free_lists slab ! j = PHYS_NULL"
    and full: "sl_length slab < sl_brk_bytes slab + 2 ^ k" "sl_brk_bytes slab + 2 ^ k < 2 ^ 64"
  shows "\<exists>slab'. mem_phys_slab_alloc win sz (slab, mem) = Some (z, slab', mem) \<and>
     sl_free_lists slab' ! k \<noteq> PHYS_NULL \<and> sl_max_freed_order slab' = 0 \<and>
     mem_phys_slab_alloc win sz' (slab', mem) = Some (PHYS_NULL, slab', mem)"
proof -
  let ?fl = "(sl_free_lists slab)[Suc k := PHYS_NULL]"
  have scan: "max_freed_scan ?fl i 0 = 0" if "i \<le> k" for i
    using that free(2) by (induction i) auto
  let ?slab = "slab\<lparr>sl_free_lists := ?fl, sl_max_freed_order := 0\<rparr>"
  have "mem_phys_slab_dequeue win (Suc k) (slab, mem) = Some (z, ?slab, mem)"
    using slab top scan [of k] by (simp add: mem_phys_slab_dequeue_def Let_def)
  then have "mem_phys_slab_alloc win sz (slab, mem) = Some (z, ?slab, mem)"
    using k slab top by (simp add: mem_phys_slab_alloc_def slab_consts Let_def)
  moreover have "0 < k" using get_order_spec(1) [of sz'] k by simp
  then have "mem_phys_slab_alloc win sz' (?slab, mem) = Some (PHYS_NULL, ?slab, mem)"
    using k full by (simp add: mem_phys_slab_alloc_def slab_consts Let_def word_simps)
  ultimately show ?thesis using free(1) by simp
qed

end
