(* ===== verification/Localsched.thy ===== *)
theory Localsched
  imports Pairing_Heap
begin

text \<open>
  \<^verbatim>\<open>thread/tasking/localsched.c\<close>: the scheduler of one core. Runnable tasks are in a pairing heap
  ordered by unfairness (consumed clock cycles); the hook is part of the task structure, so a queued
  task is the heap element itself. A task is in exactly one place: in the heap of its core, on the
  core, or suspended (held by whoever will wake it). Sections under the queue lock are atomic.

  The time stamp counter, the interrupted register frame and the counter frequency are inputs of the
  handlers; the frame to resume, the one-shot timer to arm and whether an inter-processor interrupt
  is sent are results. Frames are opaque values. Waiting for an interrupt in the idle loop splits
  \<open>thread_localsched_dequeue\<close>: the part before it is the result \<open>Idle\<close>, the part after it
  \<open>thread_localsched_idle_resume\<close>.
\<close>

definition THREAD_LOCAL_TIMESLICE_MIN :: nat where
  "THREAD_LOCAL_TIMESLICE_MIN = 10000"

definition THREAD_LOCAL_TIMESLICE_DEFAULT :: nat where
  "THREAD_LOCAL_TIMESLICE_DEFAULT = 20000"

record thread_task =
  tk_id :: nat
  tk_frame :: nat
  tk_unfairness :: nat
  tk_acc_unfairness_idle :: nat
  tk_timestamp :: nat
  tk_cr3 :: nat
  tk_core_id :: nat

record thread_localsched_data =
  ls_heap :: "thread_task pairing_heap"
  ls_apic_id :: nat
  ls_idle :: bool
  ls_tasks_count :: nat
  ls_idle_unfairness :: nat
  ls_current_task :: "thread_task option"

section \<open>The queue\<close>

definition thread_localsched_cmp_unfairness :: "thread_task \<Rightarrow> thread_task \<Rightarrow> bool" where
  "thread_localsched_cmp_unfairness ltask rtask \<longleftrightarrow> tk_unfairness ltask < tk_unfairness rtask"

definition thread_localsched_init :: "nat \<Rightarrow> bool \<Rightarrow> thread_localsched_data" where
  "thread_localsched_init apic_id idle = \<lparr>ls_heap = pairing_heap_init thread_localsched_cmp_unfairness,
     ls_apic_id = apic_id, ls_idle = idle, ls_tasks_count = 0, ls_idle_unfairness = 0,
     ls_current_task = None\<rparr>"

definition thread_localsched_enqueue_nolock ::
  "thread_localsched_data \<Rightarrow> thread_task \<Rightarrow> thread_localsched_data" where
  "thread_localsched_enqueue_nolock data task = data\<lparr>ls_heap := pairing_heap_insert (ls_heap data) task\<rparr>"

text \<open>The second result says whether an interrupt is sent to the core.\<close>

definition thread_localsched_enqueue_signal_nolock ::
  "thread_localsched_data \<Rightarrow> thread_task \<Rightarrow> thread_localsched_data \<times> bool" where
  "thread_localsched_enqueue_signal_nolock data task =
     (let data = thread_localsched_enqueue_nolock data task in (data, ls_idle data))"

definition thread_localsched_try_get_nolock :: "thread_localsched_data \<Rightarrow> thread_task option" where
  "thread_localsched_try_get_nolock data = pairing_heap_get_min (ls_heap data)"

definition thread_localsched_try_dequeue_nolock ::
  "thread_localsched_data \<Rightarrow> thread_task option \<times> thread_localsched_data" where
  "thread_localsched_try_dequeue_nolock data =
     (let (res, heap) = pairing_heap_remove_min (ls_heap data) in (res, data\<lparr>ls_heap := heap\<rparr>))"

text \<open>The lock stays taken when a task was found, so the caller continues in the same section.\<close>

definition thread_localsched_try_dequeue_lock ::
  "thread_localsched_data \<Rightarrow> thread_task option \<times> thread_localsched_data" where
  "thread_localsched_try_dequeue_lock data = thread_localsched_try_dequeue_nolock data"

datatype dequeue_result = Got thread_task | Idle

definition thread_localsched_dequeue ::
  "thread_localsched_data \<Rightarrow> dequeue_result \<times> thread_localsched_data" where
  "thread_localsched_dequeue data =
     (case thread_localsched_try_dequeue_nolock data of
        (Some result, data) \<Rightarrow> (Got result, data)
      | (None, data) \<Rightarrow> (Idle, data\<lparr>ls_idle := True\<rparr>))"

text \<open>The interrupt that ends the wait.\<close>

definition thread_localsched_ipi_dummy :: "thread_localsched_data \<Rightarrow> thread_localsched_data" where
  "thread_localsched_ipi_dummy data = data\<lparr>ls_idle := False\<rparr>"

section \<open>Accounting\<close>

definition thread_localsched_pick_timeslice_len :: "nat \<Rightarrow> nat \<Rightarrow> thread_localsched_data \<Rightarrow> nat option" where
  "thread_localsched_pick_timeslice_len tsc_freq current_unfairness data =
     (case thread_localsched_try_get_nolock data of
        None \<Rightarrow> Some THREAD_LOCAL_TIMESLICE_DEFAULT
      | Some alternative \<Rightarrow>
          let unfairness_diff = sub64 (tk_unfairness alternative) current_unfairness in
          if tsc_freq = 0 then None
          else let us = unfairness_diff div tsc_freq in
            Some (if us > THREAD_LOCAL_TIMESLICE_MIN then us else THREAD_LOCAL_TIMESLICE_MIN))"

definition thread_localsched_update_unfairness ::
  "nat \<Rightarrow> thread_task \<Rightarrow> thread_localsched_data \<Rightarrow> (thread_task \<times> thread_localsched_data) option" where
  "thread_localsched_update_unfairness now task data =
     (let diff = sub64 now (tk_timestamp task) in
      if ls_tasks_count data = 0 then None
      else Some (task\<lparr>tk_unfairness := u64 (tk_unfairness task + diff)\<rparr>,
        data\<lparr>ls_idle_unfairness := u64 (ls_idle_unfairness data + diff div ls_tasks_count data)\<rparr>))"

section \<open>Handlers\<close>

text \<open>What a handler leaves behind: the frame to resume, the timer to arm (if any) and the page table
  switch.\<close>

record switch =
  sw_frame :: nat
  sw_timer :: "nat option"
  sw_cr3 :: "nat \<times> nat"

text \<open>The common end of the handlers: resume a task.\<close>

definition run_task :: "nat \<Rightarrow> nat \<Rightarrow> nat option \<Rightarrow> thread_task \<Rightarrow> thread_localsched_data \<Rightarrow>
    switch \<times> thread_localsched_data" where
  "run_task now old_cr3 us task data =
     (\<lparr>sw_frame = tk_frame task, sw_timer = us, sw_cr3 = (old_cr3, tk_cr3 task)\<rparr>,
      data\<lparr>ls_current_task := Some (task\<lparr>tk_timestamp := now\<rparr>)\<rparr>)"

text \<open>A timer interrupt with no current task is ignored (the first result is then \<^const>\<open>None\<close>).\<close>

definition thread_localsched_timer_int_handler ::
  "nat \<Rightarrow> nat \<Rightarrow> nat \<Rightarrow> nat \<Rightarrow> thread_localsched_data \<Rightarrow> (switch option \<times> thread_localsched_data) option" where
  "thread_localsched_timer_int_handler tsc_freq now now' frame data =
     (case ls_current_task data of
        None \<Rightarrow> Some (None, data)
      | Some old_task \<Rightarrow> do {
          let old_cr3 = tk_cr3 old_task;
          let old_task = old_task\<lparr>tk_frame := frame\<rparr>;
          (old_task, data) \<leftarrow> thread_localsched_update_unfairness now old_task data;
          let data = thread_localsched_enqueue_nolock data old_task;
          let (found, data) = thread_localsched_try_dequeue_nolock data;
          let new_task = (case found of None \<Rightarrow> old_task | Some t \<Rightarrow> t);
          us \<leftarrow> thread_localsched_pick_timeslice_len tsc_freq (tk_unfairness new_task) data;
          let (sw, data) = run_task now' old_cr3 (Some us) new_task data;
          Some (Some sw, data) })"

text \<open>Once a task is found: a core that was idle arms a new time slice.\<close>

definition dequeue_finish ::
  "nat \<Rightarrow> nat \<Rightarrow> nat \<Rightarrow> bool \<Rightarrow> thread_task \<Rightarrow> thread_localsched_data \<Rightarrow>
   (switch \<times> thread_localsched_data) option" where
  "dequeue_finish tsc_freq now old_cr3 exited_idle new_task data = do {
     us \<leftarrow> (if exited_idle
           then map_option Some (thread_localsched_pick_timeslice_len tsc_freq (tk_unfairness new_task) data)
           else Some None);
     Some (run_task now old_cr3 us new_task data) }"

text \<open>The second result is the suspended task, if the call was a suspension; the first is
  \<^const>\<open>None\<close> when the core goes idle.\<close>

definition thread_localsched_preemption_handler ::
  "nat \<Rightarrow> nat \<Rightarrow> nat \<Rightarrow> bool \<Rightarrow> nat \<Rightarrow> thread_localsched_data \<Rightarrow>
   (switch option \<times> thread_task option \<times> thread_localsched_data) option" where
  "thread_localsched_preemption_handler tsc_freq now now' suspend frame data = do {
     old_task \<leftarrow> ls_current_task data;
     let old_cr3 = tk_cr3 old_task;
     let old_task = old_task\<lparr>tk_frame := frame\<rparr>;
     (old_task, data) \<leftarrow> thread_localsched_update_unfairness now old_task data;
     let (suspended, data) =
       (if suspend then (Some (old_task\<lparr>tk_acc_unfairness_idle := ls_idle_unfairness data\<rparr>), data)
        else (None, thread_localsched_enqueue_nolock data old_task));
     let data = data\<lparr>ls_current_task := None\<rparr>;
     (case thread_localsched_dequeue data of
        (Got new_task, data) \<Rightarrow> do {
          (sw, data) \<leftarrow> dequeue_finish tsc_freq now' old_cr3 False new_task data;
          Some (Some sw, suspended, data) }
      | (Idle, data) \<Rightarrow> Some (None, suspended, data)) }"

definition thread_localsched_termination_handler ::
  "nat \<Rightarrow> nat \<Rightarrow> nat \<Rightarrow> thread_localsched_data \<Rightarrow>
   (switch option \<times> thread_task \<times> thread_localsched_data) option" where
  "thread_localsched_termination_handler tsc_freq now now' data = do {
     old_task \<leftarrow> ls_current_task data;
     (old_task, data) \<leftarrow> thread_localsched_update_unfairness now old_task data;
     let data = data\<lparr>ls_current_task := None\<rparr>;
     (case thread_localsched_dequeue data of
        (Got new_task, data) \<Rightarrow> do {
          (sw, data) \<leftarrow> dequeue_finish tsc_freq now' (tk_cr3 old_task) False new_task data;
          Some (Some sw, old_task, data) }
      | (Idle, data) \<Rightarrow> Some (None, old_task, data)) }"

text \<open>One round of the idle loop after the wake-up interrupt.\<close>

definition thread_localsched_idle_resume ::
  "nat \<Rightarrow> nat \<Rightarrow> nat \<Rightarrow> thread_localsched_data \<Rightarrow> (switch option \<times> thread_localsched_data) option" where
  "thread_localsched_idle_resume tsc_freq now old_cr3 data =
     (let data = thread_localsched_ipi_dummy data in
      case thread_localsched_try_dequeue_lock data of
        (None, data) \<Rightarrow> Some (None, data)
      | (Some new_task, data) \<Rightarrow> do {
          (sw, data) \<leftarrow> dequeue_finish tsc_freq now old_cr3 True new_task data;
          Some (Some sw, data) })"

definition thread_localsched_wake_up ::
  "thread_task \<Rightarrow> thread_localsched_data \<Rightarrow> thread_localsched_data \<times> bool" where
  "thread_localsched_wake_up task data =
     (let task = task\<lparr>tk_unfairness := u64 (tk_unfairness task +
                    sub64 (ls_idle_unfairness data) (tk_acc_unfairness_idle task))\<rparr>;
          data = data\<lparr>ls_tasks_count := inc64 (ls_tasks_count data)\<rparr>
      in thread_localsched_enqueue_signal_nolock data task)"

definition thread_localsched_associate ::
  "nat \<Rightarrow> thread_task \<Rightarrow> thread_localsched_data \<Rightarrow> thread_localsched_data \<times> bool" where
  "thread_localsched_associate logical_id task data =
     thread_localsched_wake_up
       (task\<lparr>tk_unfairness := 0, tk_acc_unfairness_idle := 0, tk_core_id := logical_id\<rparr>) data"

definition thread_localsched_get_current_task :: "thread_localsched_data \<Rightarrow> thread_task option" where
  "thread_localsched_get_current_task data = ls_current_task data"

text \<open>\<open>thread_sched_call\<close> runs a handler on the scheduler stack with the frame of the caller.\<close>

definition thread_localsched_suspend_current ::
  "nat \<Rightarrow> nat \<Rightarrow> nat \<Rightarrow> nat \<Rightarrow> thread_localsched_data \<Rightarrow>
   (switch option \<times> thread_task option \<times> thread_localsched_data) option" where
  "thread_localsched_suspend_current tsc_freq now now' frame data =
     thread_localsched_preemption_handler tsc_freq now now' True frame data"

definition thread_localsched_yield ::
  "nat \<Rightarrow> nat \<Rightarrow> nat \<Rightarrow> nat \<Rightarrow> thread_localsched_data \<Rightarrow>
   (switch option \<times> thread_task option \<times> thread_localsched_data) option" where
  "thread_localsched_yield tsc_freq now now' frame data =
     thread_localsched_preemption_handler tsc_freq now now' False frame data"

definition thread_localsched_wait_on_boostrap ::
  "nat \<Rightarrow> nat \<Rightarrow> nat \<Rightarrow> thread_localsched_data \<Rightarrow> (switch option \<times> thread_localsched_data) option" where
  "thread_localsched_wait_on_boostrap tsc_freq now old_cr3 data =
     (case thread_localsched_dequeue data of
        (Got task, data) \<Rightarrow> do {
          us \<leftarrow> thread_localsched_pick_timeslice_len tsc_freq (tk_unfairness task) data;
          let (sw, data) = run_task now old_cr3 (Some us) task data;
          Some (Some sw, data) }
      | (Idle, data) \<Rightarrow> Some (None, data))"

section \<open>The comparator is a strict weak order\<close>

interpretation sched: strict_weak_order thread_localsched_cmp_unfairness
  by unfold_locales (auto simp: thread_localsched_cmp_unfairness_def)

abbreviation queued :: "thread_localsched_data \<Rightarrow> thread_task multiset" where
  "queued data \<equiv> ph_mset (ls_heap data)"

abbreviation heap_ok :: "thread_localsched_data \<Rightarrow> bool" where
  "heap_ok data \<equiv> ph_invar thread_localsched_cmp_unfairness (ls_heap data)"

lemma cmp_iff [simp]: "\<not> thread_localsched_cmp_unfairness l r \<longleftrightarrow> tk_unfairness r \<le> tk_unfairness l"
  by (auto simp: thread_localsched_cmp_unfairness_def)

lemma enqueue_ok:
  assumes "heap_ok data"
  shows "heap_ok (thread_localsched_enqueue_nolock data t) \<and>
     queued (thread_localsched_enqueue_nolock data t) = add_mset t (queued data) \<and>
     ls_heap_update (\<lambda>_. ls_heap data) (thread_localsched_enqueue_nolock data t) = data"
  using sched.ph_insert_invar [OF assms] sched.ph_insert_mset [OF assms, of t]
  by (simp add: thread_localsched_enqueue_nolock_def)

lemma try_dequeue_cases:
  assumes "heap_ok data"
  obtains (none) "queued data = {#}" "thread_localsched_try_dequeue_nolock data = (None, data)"
  | (some) t heap where "thread_localsched_try_dequeue_nolock data = (Some t, data\<lparr>ls_heap := heap\<rparr>)"
    "heap_ok (data\<lparr>ls_heap := heap\<rparr>)" "queued data = add_mset t (ph_mset heap)"
    "\<forall>u \<in># queued data. tk_unfairness t \<le> tk_unfairness u"
proof (cases "queued data = {#}")
  case True
  then show thesis
    using none sched.ph_remove_min_none [OF True] by (simp add: thread_localsched_try_dequeue_nolock_def)
next
  case False
  obtain t heap where "pairing_heap_remove_min (ls_heap data) = (Some t, heap)"
      "ph_invar thread_localsched_cmp_unfairness heap" "queued data = ph_mset heap + {#t#}"
      "\<forall>y \<in># queued data. \<not> thread_localsched_cmp_unfairness y t"
    using sched.ph_remove_min_some [OF assms False] by blast
  then show thesis using some by (simp add: thread_localsched_try_dequeue_nolock_def)
qed

text \<open>The time slice: until the best competitor would be as unfairly treated, and not less than the
  minimum. The difference never wraps because the running task is the least unfair one.\<close>

lemma pick_timeslice:
  assumes h: "heap_ok data" and freq: "tsc_freq \<noteq> 0"
    and small: "\<forall>t \<in># queued data. tk_unfairness t < 2 ^ 64 \<and> cur \<le> tk_unfairness t"
  shows "if queued data = {#}
    then thread_localsched_pick_timeslice_len tsc_freq cur data = Some THREAD_LOCAL_TIMESLICE_DEFAULT
    else \<exists>alt \<in># queued data. (\<forall>t \<in># queued data. tk_unfairness alt \<le> tk_unfairness t) \<and>
      thread_localsched_pick_timeslice_len tsc_freq cur data =
        Some (max THREAD_LOCAL_TIMESLICE_MIN ((tk_unfairness alt - cur) div tsc_freq))"
proof (cases "queued data = {#}")
  case True
  then show ?thesis
    using sched.ph_get_min [OF h]
    by (simp add: thread_localsched_pick_timeslice_len_def thread_localsched_try_get_nolock_def)
next
  case False
  then obtain alt where alt: "pairing_heap_get_min (ls_heap data) = Some alt" "alt \<in># queued data"
      "\<forall>y \<in># queued data. tk_unfairness alt \<le> tk_unfairness y"
    using sched.ph_get_min [OF h] by auto
  then have "sub64 (tk_unfairness alt) cur = tk_unfairness alt - cur" using small by (simp add: word_simps)
  then show ?thesis
    using alt freq False
    by (auto simp: thread_localsched_pick_timeslice_len_def thread_localsched_try_get_nolock_def Let_def)
qed

text \<open>A task charged with the cycles it has run for.\<close>

definition charged :: "nat \<Rightarrow> thread_task \<Rightarrow> thread_task" where
  "charged now t = t\<lparr>tk_unfairness := u64 (tk_unfairness t + sub64 now (tk_timestamp t))\<rparr>"

lemma timer_tick_spec:
  assumes h: "heap_ok data" and cur: "ls_current_task data = Some old"
    and pos: "ls_tasks_count data \<noteq> 0" "tsc_freq \<noteq> 0"
    and small: "\<forall>t \<in># queued data. tk_unfairness t < 2 ^ 64"
  shows "\<exists>new us data'.
     thread_localsched_timer_int_handler tsc_freq now now' frame data =
       Some (Some \<lparr>sw_frame = tk_frame new, sw_timer = Some us, sw_cr3 = (tk_cr3 old, tk_cr3 new)\<rparr>, data') \<and>
     heap_ok data' \<and> ls_tasks_count data' = ls_tasks_count data \<and> ls_current_task data' = Some (new\<lparr>tk_timestamp := now'\<rparr>) \<and>
     add_mset new (queued data') = add_mset (charged now (old\<lparr>tk_frame := frame\<rparr>)) (queued data) \<and>
     (\<forall>t \<in># queued data'. tk_unfairness new \<le> tk_unfairness t) \<and>
     (if queued data' = {#} then us = THREAD_LOCAL_TIMESLICE_DEFAULT
      else \<exists>alt \<in># queued data'. (\<forall>t \<in># queued data'. tk_unfairness alt \<le> tk_unfairness t) \<and>
        us = max THREAD_LOCAL_TIMESLICE_MIN ((tk_unfairness alt - tk_unfairness new) div tsc_freq))"
proof -
  let ?old = "charged now (old\<lparr>tk_frame := frame\<rparr>)"
  let ?diff = "sub64 now (tk_timestamp old)"
  let ?d = "data\<lparr>ls_idle_unfairness := u64 (ls_idle_unfairness data + ?diff div ls_tasks_count data)\<rparr>"
  let ?d1 = "thread_localsched_enqueue_nolock ?d ?old"
  have upd: "thread_localsched_update_unfairness now (old\<lparr>tk_frame := frame\<rparr>) data = Some (?old, ?d)"
    using pos by (simp add: thread_localsched_update_unfairness_def charged_def Let_def)
  have d: "heap_ok ?d" "queued ?d = queued data" using h by simp_all
  have d1: "heap_ok ?d1" "queued ?d1 = add_mset ?old (queued data)" using enqueue_ok [OF d(1), of ?old] by simp_all
  obtain new heap where deq: "thread_localsched_try_dequeue_nolock ?d1 = (Some new, ?d1\<lparr>ls_heap := heap\<rparr>)"
      "heap_ok (?d1\<lparr>ls_heap := heap\<rparr>)" "queued ?d1 = add_mset new (ph_mset heap)"
      "\<forall>u \<in># queued ?d1. tk_unfairness new \<le> tk_unfairness u"
    by (cases rule: try_dequeue_cases [OF d1(1)]) (use d1(2) in auto)
  let ?d2 = "?d1\<lparr>ls_heap := heap\<rparr>"
  have mset: "add_mset new (ph_mset heap) = add_mset ?old (queued data)" using deq(3) d1(2) by simp
  then have "set_mset (ph_mset heap) \<subseteq> insert ?old (set_mset (queued data))"
    by (metis set_mset_add_mset_insert subset_insertI)
  moreover have "tk_unfairness ?old = u64 (tk_unfairness old + ?diff)" by (simp add: charged_def)
  then have "tk_unfairness ?old < 2 ^ 64" by (simp only: u64_bound)
  ultimately have "\<forall>t \<in># queued ?d2. tk_unfairness t < 2 ^ 64 \<and> tk_unfairness new \<le> tk_unfairness t"
    using small deq(3,4) by auto
  note slice = pick_timeslice [OF deq(2) pos(2) this]
  then obtain us where us: "thread_localsched_pick_timeslice_len tsc_freq (tk_unfairness new) ?d2 = Some us"
    by (auto split: if_splits)
  have least: "\<forall>t \<in># ph_mset heap. tk_unfairness new \<le> tk_unfairness t" using deq(3,4) by simp
  let ?d3 = "?d2\<lparr>ls_current_task := Some (new\<lparr>tk_timestamp := now'\<rparr>)\<rparr>"
  have "thread_localsched_timer_int_handler tsc_freq now now' frame data =
      Some (Some \<lparr>sw_frame = tk_frame new, sw_timer = Some us, sw_cr3 = (tk_cr3 old, tk_cr3 new)\<rparr>, ?d3)"
    using upd deq(1) us by (simp add: thread_localsched_timer_int_handler_def cur Let_def run_task_def)
  moreover have "heap_ok ?d3" "queued ?d3 = ph_mset heap" "ls_tasks_count ?d3 = ls_tasks_count data"
    using deq(2) by (simp_all add: thread_localsched_enqueue_nolock_def)
  moreover have "if ph_mset heap = {#} then us = THREAD_LOCAL_TIMESLICE_DEFAULT
      else \<exists>alt \<in># ph_mset heap. (\<forall>t \<in># ph_mset heap. tk_unfairness alt \<le> tk_unfairness t) \<and>
        us = max THREAD_LOCAL_TIMESLICE_MIN ((tk_unfairness alt - tk_unfairness new) div tsc_freq)"
    using us slice by (cases "ph_mset heap = {#}") auto
  ultimately show ?thesis
    using mset least by (intro exI [of _ new] exI [of _ us] exI [of _ ?d3]) simp
qed

section \<open>A core and its tasks as a transition system\<close>

record core_sys =
  cs_data :: thread_localsched_data
  cs_suspended :: "thread_task multiset"
  cs_spawned :: "nat multiset"
  cs_exited :: "nat multiset"

inductive core_step :: "nat \<Rightarrow> core_sys \<Rightarrow> core_sys \<Rightarrow> bool" for tsc_freq where
  tick: "thread_localsched_timer_int_handler tsc_freq now now' frame (cs_data \<sigma>) = Some (sw, data) \<Longrightarrow>
    core_step tsc_freq \<sigma> (\<sigma>\<lparr>cs_data := data\<rparr>)"
| yield: "thread_localsched_yield tsc_freq now now' frame (cs_data \<sigma>) = Some (sw, None, data) \<Longrightarrow>
    core_step tsc_freq \<sigma> (\<sigma>\<lparr>cs_data := data\<rparr>)"
| suspend: "thread_localsched_suspend_current tsc_freq now now' frame (cs_data \<sigma>) = Some (sw, Some t, data) \<Longrightarrow>
    core_step tsc_freq \<sigma> (\<sigma>\<lparr>cs_data := data, cs_suspended := add_mset t (cs_suspended \<sigma>)\<rparr>)"
| wake: "cs_suspended \<sigma> = add_mset t rest \<Longrightarrow> ls_tasks_count (cs_data \<sigma>) + 1 < 2 ^ 64 \<Longrightarrow>
    thread_localsched_wake_up t (cs_data \<sigma>) = (data, ipi) \<Longrightarrow>
    core_step tsc_freq \<sigma> (\<sigma>\<lparr>cs_data := data, cs_suspended := rest\<rparr>)"
| spawn: "ls_tasks_count (cs_data \<sigma>) + 1 < 2 ^ 64 \<Longrightarrow>
    thread_localsched_associate core t (cs_data \<sigma>) = (data, ipi) \<Longrightarrow>
    core_step tsc_freq \<sigma> (\<sigma>\<lparr>cs_data := data, cs_spawned := add_mset (tk_id t) (cs_spawned \<sigma>)\<rparr>)"
| exit: "thread_localsched_termination_handler tsc_freq now now' (cs_data \<sigma>) = Some (sw, t, data) \<Longrightarrow>
    core_step tsc_freq \<sigma> (\<sigma>\<lparr>cs_data := data, cs_exited := add_mset (tk_id t) (cs_exited \<sigma>)\<rparr>)"
| ipi: "ls_current_task (cs_data \<sigma>) = None \<Longrightarrow>
    thread_localsched_idle_resume tsc_freq now cr3 (cs_data \<sigma>) = Some (sw, data) \<Longrightarrow>
    core_step tsc_freq \<sigma> (\<sigma>\<lparr>cs_data := data\<rparr>)"

definition current_mset :: "thread_localsched_data \<Rightarrow> thread_task multiset" where
  "current_mset data = (case ls_current_task data of None \<Rightarrow> {#} | Some t \<Rightarrow> {#t#})"

text \<open>The tasks a core knows, by their identity.\<close>

definition runnable_ids :: "thread_localsched_data \<Rightarrow> nat multiset" where
  "runnable_ids data = image_mset tk_id (queued data + current_mset data)"

definition data_ok :: "thread_localsched_data \<Rightarrow> bool" where
  "data_ok data \<longleftrightarrow> heap_ok data \<and> (\<forall>t \<in># queued data. tk_unfairness t < 2 ^ 64) \<and>
     (runnable_ids data \<noteq> {#} \<longrightarrow> ls_tasks_count data \<noteq> 0)"

definition core_inv :: "core_sys \<Rightarrow> bool" where
  "core_inv \<sigma> \<longleftrightarrow> data_ok (cs_data \<sigma>) \<and>
     cs_spawned \<sigma> = cs_exited \<sigma> + runnable_ids (cs_data \<sigma>) + image_mset tk_id (cs_suspended \<sigma>)"

lemma data_okD:
  assumes "data_ok data"
  shows "heap_ok data" "\<forall>t \<in># queued data. tk_unfairness t < 2 ^ 64"
    "runnable_ids data \<noteq> {#} \<Longrightarrow> ls_tasks_count data \<noteq> 0"
  using assms by (simp_all add: data_ok_def)

text \<open>Putting a task on an otherwise unoccupied core.\<close>

lemma dequeue_finish_ok:
  assumes d: "data_ok (data\<lparr>ls_heap := h0\<rparr>)" "ls_current_task data = None" "tsc_freq \<noteq> 0"
    and t: "heap_ok data" "ph_mset h0 = add_mset t (queued data)" "\<forall>u \<in># ph_mset h0. tk_unfairness t \<le> tk_unfairness u"
  shows "\<exists>sw data'. dequeue_finish tsc_freq now cr3 exited t data = Some (sw, data') \<and> data_ok data' \<and>
     runnable_ids data' = runnable_ids (data\<lparr>ls_heap := h0\<rparr>)"
proof -
  have "\<forall>u \<in># queued data. tk_unfairness u < 2 ^ 64 \<and> tk_unfairness t \<le> tk_unfairness u"
    using d(1) t by (simp add: data_ok_def)
  then obtain us where "thread_localsched_pick_timeslice_len tsc_freq (tk_unfairness t) data = Some us"
    using pick_timeslice [OF t(1) d(3)] by (fastforce split: if_splits)
  then have "\<exists>sw us. dequeue_finish tsc_freq now cr3 exited t data =
      Some (sw, data\<lparr>ls_current_task := Some (t\<lparr>tk_timestamp := now\<rparr>)\<rparr>)"
    by (auto simp: dequeue_finish_def run_task_def)
  moreover have "ls_tasks_count data \<noteq> 0"
    using d(1) t(2) by (auto simp: data_ok_def runnable_ids_def)
  ultimately show ?thesis
    using d t by (fastforce simp: data_ok_def runnable_ids_def current_mset_def)
qed

text \<open>The dispatch at the end of a suspension, a yield or an exit, from a queue without current task.\<close>

lemma dispatch_ok:
  assumes d: "data_ok data" "ls_current_task data = None" "tsc_freq \<noteq> 0"
  shows "\<exists>r data'. (case thread_localsched_dequeue data of
        (Got new_task, data) \<Rightarrow> do {
          (sw, data) \<leftarrow> dequeue_finish tsc_freq now cr3 False new_task data;
          Some (Some sw, x, data) }
      | (Idle, data) \<Rightarrow> Some (None, x, data)) = Some (r, x, data') \<and>
    data_ok data' \<and> runnable_ids data' = runnable_ids data"
  using data_okD(1) [OF d(1)]
proof (cases rule: try_dequeue_cases)
  case none
  then show ?thesis
    using d by (auto simp: thread_localsched_dequeue_def data_ok_def runnable_ids_def current_mset_def)
next
  case (some t heap)
  let ?d = "data\<lparr>ls_heap := heap\<rparr>"
  have "data_ok (?d\<lparr>ls_heap := ls_heap data\<rparr>)" using d(1) by simp
  from dequeue_finish_ok [OF this, of tsc_freq t now cr3 False] some d(2,3) show ?thesis
    by (auto simp: thread_localsched_dequeue_def)
qed

lemma update_unfairness_ok:
  assumes d: "data_ok data" and cur: "ls_current_task data = Some old"
  shows "\<exists>n. thread_localsched_update_unfairness now (old\<lparr>tk_frame := f\<rparr>) data =
      Some (charged now (old\<lparr>tk_frame := f\<rparr>), data\<lparr>ls_idle_unfairness := n\<rparr>)"
  using d cur by (auto simp: thread_localsched_update_unfairness_def charged_def data_ok_def
      runnable_ids_def current_mset_def Let_def)

lemma charged_simps [simp]:
  "tk_id (charged now t) = tk_id t" "tk_cr3 (charged now t) = tk_cr3 t"
  by (simp_all add: charged_def)

lemma charged_bound: "tk_unfairness (charged now t) < 2 ^ 64"
proof -
  have "tk_unfairness (charged now t) = u64 (tk_unfairness t + sub64 now (tk_timestamp t))"
    by (simp add: charged_def)
  then show ?thesis by (simp only: u64_bound)
qed

lemma data_ok_enqueue:
  assumes "data_ok data" "tk_unfairness t < 2 ^ 64" "ls_tasks_count data \<noteq> 0"
  shows "data_ok (thread_localsched_enqueue_nolock data t)"
    "runnable_ids (thread_localsched_enqueue_nolock data t) = add_mset (tk_id t) (runnable_ids data)"
  using assms enqueue_ok [of data t]
  by (auto simp: data_ok_def runnable_ids_def current_mset_def thread_localsched_enqueue_nolock_def)

lemma drop_current:
  assumes "data_ok data" "ls_current_task data = Some old"
  shows "data_ok (data\<lparr>ls_idle_unfairness := n, ls_current_task := None\<rparr>)"
    "runnable_ids data = add_mset (tk_id old) (runnable_ids (data\<lparr>ls_idle_unfairness := n, ls_current_task := None\<rparr>))"
    "ls_tasks_count data \<noteq> 0"
  using assms by (auto simp: data_ok_def runnable_ids_def current_mset_def)

lemma preemption_ok:
  assumes d: "data_ok data" "ls_current_task data = Some old" "tsc_freq \<noteq> 0"
  shows "\<exists>r x data'. thread_localsched_preemption_handler tsc_freq now now' suspend frame data = Some (r, x, data') \<and>
     data_ok data' \<and>
     (if suspend then \<exists>t. x = Some t \<and> runnable_ids data = add_mset (tk_id t) (runnable_ids data')
      else x = None \<and> runnable_ids data' = runnable_ids data)"
proof -
  obtain n where upd: "thread_localsched_update_unfairness now (old\<lparr>tk_frame := frame\<rparr>) data =
      Some (charged now (old\<lparr>tk_frame := frame\<rparr>), data\<lparr>ls_idle_unfairness := n\<rparr>)"
    using update_unfairness_ok [OF d(1,2)] by blast
  let ?old = "charged now (old\<lparr>tk_frame := frame\<rparr>)" and ?d = "data\<lparr>ls_idle_unfairness := n, ls_current_task := None\<rparr>"
  let ?e = "thread_localsched_enqueue_nolock ?d ?old"
  note drop = drop_current(1,2) [OF d(1,2), of n] drop_current(3) [OF d(1,2)]
  have e: "data_ok ?e" "runnable_ids ?e = runnable_ids data"
    using data_ok_enqueue [OF drop(1) charged_bound] drop(2,3) by simp_all
  have eq: "(thread_localsched_enqueue_nolock (data\<lparr>ls_idle_unfairness := n\<rparr>) ?old)\<lparr>ls_current_task := None\<rparr> = ?e"
    by (simp add: thread_localsched_enqueue_nolock_def)
  have cur: "ls_current_task ?e = None" by (simp add: thread_localsched_enqueue_nolock_def)
  show ?thesis
  proof (cases suspend)
    case True
    let ?x = "Some (?old\<lparr>tk_acc_unfairness_idle := ls_idle_unfairness (data\<lparr>ls_idle_unfairness := n\<rparr>)\<rparr>)"
    have "ls_current_task ?d = None" by simp
    from dispatch_ok [OF drop(1) this d(3), of now' "tk_cr3 old" ?x] show ?thesis
      using True d(2) upd drop(2) by (fastforce simp: thread_localsched_preemption_handler_def)
  next
    case False
    from dispatch_ok [OF e(1) cur d(3), of now' "tk_cr3 old" "None :: thread_task option"] show ?thesis
      using False d(2) upd e(2) eq by (fastforce simp: thread_localsched_preemption_handler_def)
  qed
qed

lemma termination_ok:
  assumes d: "data_ok data" "ls_current_task data = Some old" "tsc_freq \<noteq> 0"
  shows "\<exists>r t data'. thread_localsched_termination_handler tsc_freq now now' data = Some (r, t, data') \<and>
     data_ok data' \<and> runnable_ids data = add_mset (tk_id t) (runnable_ids data')"
proof -
  obtain n where upd: "thread_localsched_update_unfairness now old data =
      Some (charged now old, data\<lparr>ls_idle_unfairness := n\<rparr>)"
    using update_unfairness_ok [OF d(1,2), of now "tk_frame old"] by auto
  note drop = drop_current(1,2) [OF d(1,2), of n] drop_current(3) [OF d(1,2)]
  show ?thesis
    using d(2) upd drop dispatch_ok [OF drop(1) _ d(3), of now' "tk_cr3 (charged now old)" "charged now old"]
    by (auto simp: thread_localsched_termination_handler_def Let_def)
qed

lemma wake_up_ok:
  assumes d: "data_ok data" "ls_tasks_count data + 1 < 2 ^ 64" "thread_localsched_wake_up t data = (data', ipi)"
  shows "data_ok data' \<and> runnable_ids data' = add_mset (tk_id t) (runnable_ids data) \<and> ipi = ls_idle data"
proof -
  let ?t = "t\<lparr>tk_unfairness := u64 (tk_unfairness t + sub64 (ls_idle_unfairness data) (tk_acc_unfairness_idle t))\<rparr>"
  let ?d = "data\<lparr>ls_tasks_count := inc64 (ls_tasks_count data)\<rparr>"
  have "data_ok ?d" "ls_tasks_count ?d \<noteq> 0" "runnable_ids ?d = runnable_ids data"
    using d(1,2) by (simp_all add: data_ok_def runnable_ids_def current_mset_def word_simps)
  moreover have "tk_unfairness ?t = u64 (tk_unfairness t + sub64 (ls_idle_unfairness data) (tk_acc_unfairness_idle t))"
    by simp
  then have "tk_unfairness ?t < 2 ^ 64" by (simp only: u64_bound)
  moreover have "data' = thread_localsched_enqueue_nolock ?d ?t" "ipi = ls_idle data"
    using d(3) by (auto simp: thread_localsched_wake_up_def thread_localsched_enqueue_signal_nolock_def
        thread_localsched_enqueue_nolock_def Let_def)
  ultimately show ?thesis using data_ok_enqueue [of ?d ?t] by simp
qed

lemma idle_resume_ok:
  assumes d: "data_ok data" "ls_current_task data = None" "tsc_freq \<noteq> 0"
  shows "\<exists>r data'. thread_localsched_idle_resume tsc_freq now cr3 data = Some (r, data') \<and>
     data_ok data' \<and> runnable_ids data' = runnable_ids data \<and> (r = None \<longleftrightarrow> runnable_ids data = {#})"
proof -
  let ?d = "data\<lparr>ls_idle := False\<rparr>"
  have ok: "data_ok ?d" "runnable_ids ?d = runnable_ids data"
    using d(1) by (simp_all add: data_ok_def runnable_ids_def current_mset_def)
  show ?thesis
    using data_okD(1) [OF ok(1)]
  proof (cases rule: try_dequeue_cases)
    case none
    then show ?thesis
      using ok d(2) by (auto simp: thread_localsched_idle_resume_def thread_localsched_ipi_dummy_def
          thread_localsched_try_dequeue_lock_def runnable_ids_def current_mset_def)
  next
    case (some t heap)
    have "data_ok (?d\<lparr>ls_heap := heap, ls_heap := ls_heap data\<rparr>)" using ok(1) by simp
    from dequeue_finish_ok [OF this, of tsc_freq t now cr3 True] some d(2,3) ok show ?thesis
      by (auto simp: thread_localsched_idle_resume_def thread_localsched_ipi_dummy_def
          thread_localsched_try_dequeue_lock_def runnable_ids_def current_mset_def)
  qed
qed

lemma tick_ok:
  assumes d: "data_ok data" "tsc_freq \<noteq> 0"
  shows "\<exists>sw data'. thread_localsched_timer_int_handler tsc_freq now now' frame data = Some (sw, data') \<and>
     data_ok data' \<and> runnable_ids data' = runnable_ids data"
proof (cases "ls_current_task data")
  case None
  then show ?thesis using d by (simp add: thread_localsched_timer_int_handler_def)
next
  case (Some old)
  let ?old = "charged now (old\<lparr>tk_frame := frame\<rparr>)"
  have cnt: "ls_tasks_count data \<noteq> 0" using drop_current(3) [OF d(1) Some] .
  obtain new us data' where
      h: "thread_localsched_timer_int_handler tsc_freq now now' frame data = Some
        (Some \<lparr>sw_frame = tk_frame new, sw_timer = Some us, sw_cr3 = (tk_cr3 old, tk_cr3 new)\<rparr>, data')"
    and d': "heap_ok data'" "ls_tasks_count data' = ls_tasks_count data"
      "ls_current_task data' = Some (new\<lparr>tk_timestamp := now'\<rparr>)"
      "add_mset new (queued data') = add_mset ?old (queued data)"
    using timer_tick_spec [OF data_okD(1) [OF d(1)] Some cnt d(2) data_okD(2) [OF d(1)]] by blast
  have "\<forall>t \<in># add_mset ?old (queued data). tk_unfairness t < 2 ^ 64"
    using data_okD(2) [OF d(1)] charged_bound by simp
  then have "\<forall>t \<in># queued data'. tk_unfairness t < 2 ^ 64" unfolding d'(4) [symmetric] by simp
  moreover have "add_mset (tk_id new) (image_mset tk_id (queued data')) =
      add_mset (tk_id old) (image_mset tk_id (queued data))"
    using arg_cong [OF d'(4), of "image_mset tk_id"] by (simp add: charged_def)
  ultimately show ?thesis
    using h d'(1-3) cnt Some by (simp add: data_ok_def runnable_ids_def current_mset_def)
qed

lemma core_step_inv:
  assumes "core_step tsc_freq \<sigma> \<sigma>'" "core_inv \<sigma>" "tsc_freq \<noteq> 0"
  shows "core_inv \<sigma>'"
proof -
  have d: "data_ok (cs_data \<sigma>)" using assms(2) by (simp add: core_inv_def)
  from assms(1) show ?thesis
  proof cases
    case (tick now now' frame sw data)
    then show ?thesis using tick_ok [OF d assms(3), of now now' frame] assms(2) by (auto simp: core_inv_def)
  next
    case (yield now now' frame sw data)
    then obtain old where "ls_current_task (cs_data \<sigma>) = Some old"
      by (auto simp: thread_localsched_yield_def thread_localsched_preemption_handler_def bind_eq_Some_conv)
    then show ?thesis
      using yield preemption_ok [OF d _ assms(3), of old now now' False frame] assms(2)
      by (auto simp: core_inv_def thread_localsched_yield_def)
  next
    case (suspend now now' frame sw t data)
    then obtain old where "ls_current_task (cs_data \<sigma>) = Some old"
      by (auto simp: thread_localsched_suspend_current_def thread_localsched_preemption_handler_def bind_eq_Some_conv)
    then show ?thesis
      using suspend preemption_ok [OF d _ assms(3), of old now now' True frame] assms(2)
      by (auto simp: core_inv_def thread_localsched_suspend_current_def)
  next
    case (wake t rest data ipi)
    then show ?thesis using wake_up_ok [OF d wake(3,4)] assms(2) by (simp add: core_inv_def)
  next
    case (spawn core t data ipi)
    then show ?thesis
      using wake_up_ok [OF d spawn(2) spawn(3) [unfolded thread_localsched_associate_def]] assms(2)
      by (simp add: core_inv_def)
  next
    case (exit now now' sw t data)
    then obtain old where "ls_current_task (cs_data \<sigma>) = Some old"
      by (auto simp: thread_localsched_termination_handler_def bind_eq_Some_conv)
    then show ?thesis
      using exit termination_ok [OF d _ assms(3), of old now now'] assms(2) by (auto simp: core_inv_def)
  next
    case (ipi now cr3 sw data)
    then show ?thesis using idle_resume_ok [OF d ipi(2) assms(3), of now cr3] assms(2) by (auto simp: core_inv_def)
  qed
qed

definition core_init :: "nat \<Rightarrow> bool \<Rightarrow> core_sys" where
  "core_init apic_id idle = \<lparr>cs_data = thread_localsched_init apic_id idle, cs_suspended = {#},
     cs_spawned = {#}, cs_exited = {#}\<rparr>"

lemma core_init_inv: "core_inv (core_init apic_id idle)"
  by (simp add: core_inv_def core_init_def data_ok_def thread_localsched_init_def pairing_heap_init_def
      runnable_ids_def current_mset_def ph_invar_def ph_mset_def)

lemma core_steps_inv:
  "(core_step tsc_freq)\<^sup>*\<^sup>* \<sigma> \<sigma>' \<Longrightarrow> core_inv \<sigma> \<Longrightarrow> tsc_freq \<noteq> 0 \<Longrightarrow> core_inv \<sigma>'"
  by (induction rule: rtranclp_induct) (auto intro: core_step_inv)

section \<open>Properties\<close>

text \<open>C13: a timer tick is fair and loses nothing. The interrupted task is charged for the cycles it used
  and its registers are saved; the task that runs next is one with the least unfairness among all runnable
  ones, the interrupted one included, and its registers are restored; every other task stays queued. The
  next tick comes after the time the new task needs to catch up with its best competitor, at least
  \<open>THREAD_LOCAL_TIMESLICE_MIN\<close> (the default when there is no competitor), computed without wrap-around.\<close>

theorem timer_tick_correct:
  assumes h: "heap_ok data" and cur: "ls_current_task data = Some old"
    and pos: "ls_tasks_count data \<noteq> 0" "tsc_freq \<noteq> 0"
    and small: "\<forall>t \<in># queued data. tk_unfairness t < 2 ^ 64"
  shows "\<exists>new us data'.
     thread_localsched_timer_int_handler tsc_freq now now' frame data =
       Some (Some \<lparr>sw_frame = tk_frame new, sw_timer = Some us, sw_cr3 = (tk_cr3 old, tk_cr3 new)\<rparr>, data') \<and>
     heap_ok data' \<and> ls_current_task data' = Some (new\<lparr>tk_timestamp := now'\<rparr>) \<and>
     add_mset new (queued data') = add_mset (charged now (old\<lparr>tk_frame := frame\<rparr>)) (queued data) \<and>
     (\<forall>t \<in># queued data'. tk_unfairness new \<le> tk_unfairness t) \<and>
     (if queued data' = {#} then us = THREAD_LOCAL_TIMESLICE_DEFAULT
      else \<exists>alt \<in># queued data'. (\<forall>t \<in># queued data'. tk_unfairness alt \<le> tk_unfairness t) \<and>
        us = max THREAD_LOCAL_TIMESLICE_MIN ((tk_unfairness alt - tk_unfairness new) div tsc_freq))"
  using timer_tick_spec [OF assms] by blast

theorem timer_tick_correct_witness:
  "\<exists>(new :: thread_task) us data'. thread_localsched_timer_int_handler 2 100 101 7
     ((thread_localsched_init 0 False)\<lparr>ls_tasks_count := 1, ls_current_task := Some
        \<lparr>tk_id = 1, tk_frame = 0, tk_unfairness = 5, tk_acc_unfairness_idle = 0, tk_timestamp = 60, tk_cr3 = 0, tk_core_id = 0\<rparr>\<rparr>) =
       Some (Some \<lparr>sw_frame = tk_frame new, sw_timer = Some us, sw_cr3 = (0, tk_cr3 new)\<rparr>, data')"
proof -
  let ?t = "\<lparr>tk_id = 1, tk_frame = 0, tk_unfairness = 5, tk_acc_unfairness_idle = 0, tk_timestamp = 60,
      tk_cr3 = 0, tk_core_id = 0\<rparr>"
  let ?d = "(thread_localsched_init 0 False)\<lparr>ls_tasks_count := 1, ls_current_task := Some ?t\<rparr>"
  have h: "heap_ok ?d" "\<forall>t \<in># queued ?d. tk_unfairness t < 2 ^ 64"
      "ls_current_task ?d = Some ?t" "ls_tasks_count ?d \<noteq> 0" "(2 :: nat) \<noteq> 0"
    by (simp_all add: thread_localsched_init_def pairing_heap_init_def ph_invar_def ph_mset_def)
  obtain new :: thread_task and us data' where "thread_localsched_timer_int_handler 2 100 101 7 ?d =
      Some (Some \<lparr>sw_frame = tk_frame new, sw_timer = Some us, sw_cr3 = (tk_cr3 ?t, tk_cr3 new)\<rparr>, data')"
    using timer_tick_correct [OF h(1,3,4,5,2), of 100 101 7] by blast
  then show ?thesis by (intro exI) simp
qed



text \<open>C36: a wake-up interrupt that finds the run queue empty leaves the core asleep with its idle flag
  cleared, so that the next task woken on it is queued without any interrupt being sent.\<close>

theorem spurious_wakeup_silences_core:
  assumes "data_ok data" "ls_current_task data = None" "queued data = {#}" "tsc_freq \<noteq> 0"
  shows "\<exists>data'. thread_localsched_idle_resume tsc_freq now cr3 data = Some (None, data') \<and>
     (\<forall>t. \<not> snd (thread_localsched_wake_up t data'))"
  using data_okD(1) [OF assms(1)]
proof -
  have "thread_localsched_try_dequeue_nolock (data\<lparr>ls_idle := False\<rparr>) = (None, data\<lparr>ls_idle := False\<rparr>)"
    using sched.ph_remove_min_none [OF assms(3)] by (simp add: thread_localsched_try_dequeue_nolock_def)
  then show ?thesis
    by (simp add: thread_localsched_idle_resume_def thread_localsched_ipi_dummy_def
        thread_localsched_try_dequeue_lock_def thread_localsched_wake_up_def
        thread_localsched_enqueue_signal_nolock_def thread_localsched_enqueue_nolock_def Let_def)
qed

theorem spurious_wakeup_silences_core_witness:
  "\<exists>data'. thread_localsched_idle_resume 2 100 0 (thread_localsched_init 0 True) = Some (None, data') \<and>
     (\<forall>t. \<not> snd (thread_localsched_wake_up t data'))"
proof -
  have "data_ok (thread_localsched_init 0 True)"
    using core_init_inv [of 0 True] by (simp add: core_inv_def core_init_def)
  then show ?thesis
    using spurious_wakeup_silences_core [of "thread_localsched_init 0 True" 2 100 0]
    by (simp add: thread_localsched_init_def pairing_heap_init_def ph_mset_def)
qed

end
