(* ===== verification/Locks.thy ===== *)
theory Locks
  imports Prelude "HOL-Library.Word"
begin

text \<open>
  \<^verbatim>\<open>thread/locking/spinlock.c\<close>, \<^verbatim>\<open>thread/locking/mutex.c\<close>, \<^verbatim>\<open>thread/locking/rwlock.c\<close> and
  \<^verbatim>\<open>sys/intlevel.c\<close>. The spinlock is the base on which the other theories treat a locked section as
  atomic, so it is modelled at the grain of its memory accesses: a step of the system is one access of
  one core. Tickets are 64-bit words that wrap around. Mutex and read-write lock run each of their
  operations under a spinlock, so an operation is one step; a task that has to wait is queued and
  suspended in that step, and woken by the operation that hands the lock to it.
\<close>

section \<open>Interrupt level\<close>

text \<open>The interrupt flag of a core; the results are the previous and the new flag.\<close>

definition intlevel_elevate :: "bool \<Rightarrow> bool \<times> bool" where
  "intlevel_elevate flag = (flag, False)"

definition intlevel_recover :: "bool \<Rightarrow> bool \<Rightarrow> bool" where
  "intlevel_recover status flag = (if status then True else flag)"

section \<open>Spinlock\<close>

record thread_spinlock =
  sp_current :: "64 word"
  sp_allocated :: "64 word"

definition THREAD_SPINLOCK_INIT :: thread_spinlock where
  "THREAD_SPINLOCK_INIT = \<lparr>sp_current = 0, sp_allocated = 0\<rparr>"

text \<open>The accesses to the lock, in the order the code makes them.\<close>

definition grab_ticket :: "thread_spinlock \<Rightarrow> 64 word \<times> thread_spinlock" where
  "grab_ticket spinlock = (sp_allocated spinlock, spinlock\<lparr>sp_allocated := sp_allocated spinlock + 1\<rparr>)"

definition grab_done :: "thread_spinlock \<Rightarrow> 64 word \<Rightarrow> bool" where
  "grab_done spinlock ticket \<longleftrightarrow> sp_current spinlock = ticket"

definition ungrab_load :: "thread_spinlock \<Rightarrow> 64 word" where
  "ungrab_load spinlock = sp_current spinlock"

definition ungrab_store :: "thread_spinlock \<Rightarrow> 64 word \<Rightarrow> thread_spinlock" where
  "ungrab_store spinlock current = spinlock\<lparr>sp_current := current + 1\<rparr>"

text \<open>Where a core is in \<open>thread_spinlock_lock\<close> and \<open>thread_spinlock_unlock\<close>, with its local variables:
  \<open>state\<close> is the interrupt state to go back to.\<close>

datatype spin_pc =
    Outside
  | Elevated bool
  | Spinning bool "64 word"
  | Inside bool
  | Loaded bool "64 word"
  | Stored bool

record spin_sys =
  ss_lock :: thread_spinlock
  ss_pc :: "nat \<Rightarrow> spin_pc"
  ss_int :: "nat \<Rightarrow> bool"

definition spin_goto :: "nat \<Rightarrow> spin_pc \<Rightarrow> spin_sys \<Rightarrow> spin_sys" where
  "spin_goto t pc s = s\<lparr>ss_pc := (ss_pc s)(t := pc)\<rparr>"

inductive spin_step :: "nat \<Rightarrow> spin_sys \<Rightarrow> spin_sys \<Rightarrow> bool" for cores where
  elevate: "t < cores \<Longrightarrow> ss_pc s t = Outside \<Longrightarrow> intlevel_elevate (ss_int s t) = (state, flag) \<Longrightarrow>
    spin_step cores s (spin_goto t (Elevated state) (s\<lparr>ss_int := (ss_int s)(t := flag)\<rparr>))"
| ticket: "t < cores \<Longrightarrow> ss_pc s t = Elevated state \<Longrightarrow> grab_ticket (ss_lock s) = (ticket, spinlock) \<Longrightarrow>
    spin_step cores s (spin_goto t (Spinning state ticket) (s\<lparr>ss_lock := spinlock\<rparr>))"
| spin: "t < cores \<Longrightarrow> ss_pc s t = Spinning state ticket \<Longrightarrow> \<not> grab_done (ss_lock s) ticket \<Longrightarrow>
    spin_step cores s s"
| enter: "t < cores \<Longrightarrow> ss_pc s t = Spinning state ticket \<Longrightarrow> grab_done (ss_lock s) ticket \<Longrightarrow>
    spin_step cores s (spin_goto t (Inside state) s)"
| load: "t < cores \<Longrightarrow> ss_pc s t = Inside state \<Longrightarrow>
    spin_step cores s (spin_goto t (Loaded state (ungrab_load (ss_lock s))) s)"
| store: "t < cores \<Longrightarrow> ss_pc s t = Loaded state current \<Longrightarrow>
    spin_step cores s (spin_goto t (Stored state) (s\<lparr>ss_lock := ungrab_store (ss_lock s) current\<rparr>))"
| recover: "t < cores \<Longrightarrow> ss_pc s t = Stored state \<Longrightarrow>
    spin_step cores s (spin_goto t Outside
      (s\<lparr>ss_int := (ss_int s)(t := intlevel_recover state (ss_int s t))\<rparr>))"
| irq: "t < cores \<Longrightarrow> ss_pc s t = Outside \<Longrightarrow> spin_step cores s (s\<lparr>ss_int := (ss_int s)(t := flag)\<rparr>)"

definition spin_init :: "(nat \<Rightarrow> bool) \<Rightarrow> spin_sys" where
  "spin_init flags = \<lparr>ss_lock = THREAD_SPINLOCK_INIT, ss_pc = (\<lambda>_. Outside), ss_int = flags\<rparr>"

subsection \<open>The abstract lock: a queue of cores, the first of which may hold it\<close>

inductive fifo_lock :: "nat list \<times> nat option \<Rightarrow> nat list \<times> nat option \<Rightarrow> bool" where
  arrive: "t \<notin> set q \<Longrightarrow> fifo_lock (q, h) (q @ [t], h)"
| acquire: "fifo_lock (t # q, None) (t # q, Some t)"
| release: "fifo_lock (t # q, Some t) (q, None)"

lemma fifo_lock_inv:
  "fifo_lock\<^sup>*\<^sup>* ([], None) (q, h) \<Longrightarrow> distinct q \<and> (h \<noteq> None \<longrightarrow> q \<noteq> [] \<and> h = Some (hd q))"
proof (induction rule: rtranclp_induct2)
  case (step q h q' h')
  from step.hyps(2) step.IH show ?case by cases (auto simp: hd_append)
qed simp

text \<open>How the queue shows in the state: the ticket of the core at position \<open>i\<close> is \<open>current + i\<close>.\<close>

definition waits_at :: "thread_spinlock \<Rightarrow> nat \<Rightarrow> nat option \<Rightarrow> nat \<Rightarrow> spin_pc \<Rightarrow> bool" where
  "waits_at lock t h i pc =
     (case pc of
        Spinning state ticket \<Rightarrow> ticket = sp_current lock + of_nat i \<and> h \<noteq> Some t
      | Inside state \<Rightarrow> i = 0 \<and> h = Some t
      | Loaded state current \<Rightarrow> i = 0 \<and> h = Some t \<and> current = sp_current lock
      | _ \<Rightarrow> False)"

fun wants :: "spin_pc \<Rightarrow> bool" where
  "wants (Spinning state ticket) = True"
| "wants (Inside state) = True"
| "wants (Loaded state current) = True"
| "wants _ = False"

fun holds :: "spin_pc \<Rightarrow> bool" where
  "holds (Inside state) = True"
| "holds (Loaded state current) = True"
| "holds _ = False"

definition spin_rel :: "nat \<Rightarrow> spin_sys \<Rightarrow> nat list \<Rightarrow> nat option \<Rightarrow> bool" where
  "spin_rel cores s q h \<longleftrightarrow>
     distinct q \<and> set q \<subseteq> {..<cores} \<and> (\<forall>t. t \<in> set q \<longleftrightarrow> wants (ss_pc s t)) \<and>
     (\<forall>i < length q. waits_at (ss_lock s) (q ! i) h i (ss_pc s (q ! i))) \<and>
     (\<forall>t. h = Some t \<longrightarrow> q \<noteq> [] \<and> t = hd q) \<and>
     sp_allocated (ss_lock s) = sp_current (ss_lock s) + of_nat (length q) \<and>
     (\<forall>t. ss_pc s t \<noteq> Outside \<longrightarrow> \<not> ss_int s t)"

lemma spin_rel_init: "spin_rel cores (spin_init flags) [] None"
  by (simp add: spin_rel_def spin_init_def THREAD_SPINLOCK_INIT_def)

lemma spin_rel_length: "spin_rel cores s q h \<Longrightarrow> length q \<le> cores"
  using card_mono [of "{..<cores}" "set q"] by (simp add: spin_rel_def distinct_card)

text \<open>Tickets of different positions differ as long as there are at most \<open>2 ^ 64\<close> cores.\<close>

lemma ticket_zero: "i < 2 ^ 64 \<Longrightarrow> (c :: 64 word) = c + of_nat i \<longleftrightarrow> i = 0"
  by (auto simp: word_of_nat_eq_0_iff dest: dvd_imp_le)

lemma spin_goto_simps [simp]:
  "ss_pc (spin_goto t pc s) u = (if u = t then pc else ss_pc s u)"
  "ss_lock (spin_goto t pc s) = ss_lock s" "ss_int (spin_goto t pc s) = ss_int s"
  by (simp_all add: spin_goto_def)

text \<open>A core that is not in the queue before and after changes nothing for the others.\<close>

lemma spin_rel_outer:
  assumes r: "spin_rel cores s q h" and w: "\<not> wants (ss_pc s t)" "\<not> wants pc" and f: "pc \<noteq> Outside \<Longrightarrow> \<not> flag"
  shows "spin_rel cores (spin_goto t pc (s\<lparr>ss_int := (ss_int s)(t := flag)\<rparr>)) q h"
proof -
  have "t \<notin> set q" using r w(1) by (simp add: spin_rel_def)
  then have "q ! i \<noteq> t" if "i < length q" for i using that by auto
  then show ?thesis using r w f by (auto simp: spin_rel_def)
qed

lemma spin_rel_ticket:
  assumes r: "spin_rel cores s q h" and pc: "ss_pc s t = Elevated state" and t: "t < cores"
    and g: "grab_ticket (ss_lock s) = (ticket, spinlock)"
  shows "t \<notin> set q \<and> spin_rel cores (spin_goto t (Spinning state ticket) (s\<lparr>ss_lock := spinlock\<rparr>)) (q @ [t]) h"
proof -
  have n: "t \<notin> set q" using r pc by (simp add: spin_rel_def)
  then have ne: "q ! i \<noteq> t" if "i < length q" for i using that by auto
  have "h \<noteq> Some t" using r n by (auto simp: spin_rel_def)
  then show ?thesis
    using r pc t g n ne by (auto simp: spin_rel_def grab_ticket_def waits_at_def nth_append less_Suc_eq hd_append
        split: spin_pc.splits)
qed

lemma spin_rel_first:
  assumes r: "spin_rel cores s q h" and c: "cores \<le> 2 ^ 64"
    and pc: "holds (ss_pc s t) \<or> (\<exists>state. ss_pc s t = Spinning state (sp_current (ss_lock s)))"
  obtains q' where "q = t # q'" "h = (if holds (ss_pc s t) then Some t else None)"
proof -
  have "t \<in> set q" using r pc by (auto simp: spin_rel_def elim!: holds.elims)
  then obtain i where i: "i < length q" "q ! i = t" by (auto simp: in_set_conv_nth)
  have w: "waits_at (ss_lock s) t h i (ss_pc s t)" using r i by (auto simp: spin_rel_def)
  have "i < 2 ^ 64" using i(1) spin_rel_length [OF r] c by linarith
  then have "i = 0"
    using w pc ticket_zero [of i "sp_current (ss_lock s)"] by (auto simp: waits_at_def elim!: holds.elims)
  then obtain q' where q: "q = t # q'" using i by (cases q) auto
  moreover have "h = (if holds (ss_pc s t) then Some t else None)"
    using w pc r q by (cases h) (auto simp: waits_at_def spin_rel_def elim!: holds.elims)
  ultimately show thesis using that by blast
qed

lemma spin_rel_hold:
  assumes r: "spin_rel cores s (t # q) h" and pc: "wants (ss_pc s t)" "holds pc"
    and l: "\<And>state current. pc = Loaded state current \<Longrightarrow> current = sp_current (ss_lock s)"
  shows "spin_rel cores (spin_goto t pc s) (t # q) (Some t)"
proof -
  have n: "q ! i \<noteq> t" if "i < length q" for i using r that by (auto simp: spin_rel_def)
  have "waits_at (ss_lock s) ((t # q) ! i) (Some t) i (if (t # q) ! i = t then pc else ss_pc s ((t # q) ! i))"
    if "i < length (t # q)" for i
  proof (cases i)
    case 0
    then show ?thesis using pc(2) l by (cases pc) (auto simp: waits_at_def)
  next
    case (Suc j)
    then have "waits_at (ss_lock s) (q ! j) h i (ss_pc s (q ! j))" "q ! j \<noteq> t"
      using r n that by (auto simp: spin_rel_def)
    then show ?thesis using Suc by (auto simp: waits_at_def split: spin_pc.splits)
  qed
  moreover have "wants pc" "ss_pc s t \<noteq> Outside" using pc by (cases pc; auto)+
  ultimately show ?thesis using r pc by (auto simp: spin_rel_def)
qed

lemma spin_rel_store:
  assumes r: "spin_rel cores s (t # q) (Some t)" and pc: "ss_pc s t = Loaded state current"
  shows "spin_rel cores (spin_goto t (Stored state) (s\<lparr>ss_lock := ungrab_store (ss_lock s) current\<rparr>)) q None"
proof -
  have "waits_at (ss_lock s) t (Some t) 0 (ss_pc s t)" using r by (auto simp: spin_rel_def)
  then have c: "current = sp_current (ss_lock s)" using pc by (simp add: waits_at_def)
  have n: "q ! i \<noteq> t" if "i < length q" for i using r that by (auto simp: spin_rel_def)
  have "waits_at (ungrab_store (ss_lock s) current) (q ! i) None i (ss_pc s (q ! i))" if "i < length q" for i
  proof -
    have "waits_at (ss_lock s) (q ! i) (Some t) (Suc i) (ss_pc s (q ! i))"
      using r that by (auto simp: spin_rel_def dest: spec [of _ "Suc i"])
    then show ?thesis using c by (auto simp: waits_at_def ungrab_store_def split: spin_pc.splits)
  qed
  then show ?thesis using r pc c n by (auto simp: spin_rel_def ungrab_store_def)
qed

text \<open>The lock implements the queue: every step of a core is at most one step of the abstract lock.\<close>

lemma spin_sim:
  assumes "spin_step cores s s'" "spin_rel cores s q h" "cores \<le> 2 ^ 64"
  shows "\<exists>q' h'. fifo_lock\<^sup>*\<^sup>* (q, h) (q', h') \<and> spin_rel cores s' q' h'"
  using assms
proof (cases rule: spin_step.cases)
  case (elevate t state flag)
  then show ?thesis
    using spin_rel_outer [OF assms(2), of t "Elevated state" flag] by (auto simp: intlevel_elevate_def)
next
  case (ticket t state ticket spinlock)
  then show ?thesis
    using spin_rel_ticket [OF assms(2)] fifo_lock.arrive by (blast intro: r_into_rtranclp)
next
  case (spin t state ticket)
  then show ?thesis using assms(2) by blast
next
  case (enter t state ticket)
  then obtain r where q: "q = t # r" "h = None"
    using spin_rel_first [OF assms(2,3), of t] by (auto simp: grab_done_def)
  have "spin_rel cores s' q (Some t)"
    using spin_rel_hold [of cores s t r h "Inside state"] enter assms(2) q by simp
  then show ?thesis using fifo_lock.acquire [of t r] q by blast
next
  case (load t state)
  then obtain r where q: "q = t # r" "h = Some t"
    using spin_rel_first [OF assms(2,3), of t] by auto
  have "spin_rel cores s' q h"
    unfolding load(1) q
    by (rule spin_rel_hold [of cores s t r h]) (use load assms(2) q in \<open>auto simp: ungrab_load_def\<close>)
  then show ?thesis by blast
next
  case (store t state current)
  then have "holds (ss_pc s t)" by simp
  then obtain r where q: "q = t # r" "h = Some t"
    using spin_rel_first [OF assms(2,3), of t] by auto
  have "spin_rel cores s' r None"
    using spin_rel_store [of cores s t r] store assms(2) q by simp
  then show ?thesis using fifo_lock.release [of t r] q by blast
next
  case (recover t state)
  then show ?thesis
    using spin_rel_outer [OF assms(2), of t Outside "intlevel_recover state (ss_int s t)"] by auto
next
  case (irq t flag)
  have "spin_goto t Outside (s\<lparr>ss_int := (ss_int s)(t := flag)\<rparr>) = s\<lparr>ss_int := (ss_int s)(t := flag)\<rparr>"
    using irq by (simp add: spin_goto_def fun_upd_idem)
  then show ?thesis using irq spin_rel_outer [OF assms(2), of t Outside flag] by auto
qed

lemma spin_reach:
  assumes "(spin_step cores)\<^sup>*\<^sup>* (spin_init flags) s" "cores \<le> 2 ^ 64"
  shows "\<exists>q h. fifo_lock\<^sup>*\<^sup>* ([], None) (q, h) \<and> spin_rel cores s q h"
  using assms(1)
proof (induction rule: rtranclp_induct)
  case base
  then show ?case using spin_rel_init by blast
next
  case (step s s')
  then show ?case using spin_sim [OF step.hyps(2) _ assms(2)] by (meson rtranclp_trans)
qed

section \<open>Mutex\<close>

record thread_mutex =
  mx_sleep_queue :: "nat list"
  mx_taken :: bool

definition THREAD_MUTEX_INIT :: thread_mutex where
  "THREAD_MUTEX_INIT = \<lparr>mx_sleep_queue = [], mx_taken = False\<rparr>"

text \<open>The first result says whether the caller goes on; otherwise it is suspended.\<close>

definition thread_mutex_lock :: "nat \<Rightarrow> thread_mutex \<Rightarrow> bool \<times> thread_mutex" where
  "thread_mutex_lock task mutex =
     (if \<not> mx_taken mutex then (True, mutex\<lparr>mx_taken := True\<rparr>)
      else (False, mutex\<lparr>mx_sleep_queue := mx_sleep_queue mutex @ [task]\<rparr>))"

text \<open>The first result is the task that is woken up.\<close>

definition thread_mutex_unlock :: "thread_mutex \<Rightarrow> nat option \<times> thread_mutex" where
  "thread_mutex_unlock mutex =
     (case mx_sleep_queue mutex of
        [] \<Rightarrow> (None, mutex\<lparr>mx_taken := False\<rparr>)
      | task # rest \<Rightarrow> (Some task, mutex\<lparr>mx_sleep_queue := rest\<rparr>))"

text \<open>Tasks that use one mutex: a task locks it when it is away, and unlocks it as its owner.\<close>

datatype mutex_pc = Away | Asleep | Owner

datatype mutex_event = Lock nat | Unlock nat

record mutex_sys =
  ms_mutex :: thread_mutex
  ms_pc :: "nat \<Rightarrow> mutex_pc"

inductive mutex_step :: "mutex_sys \<Rightarrow> mutex_event \<Rightarrow> mutex_sys \<Rightarrow> bool" where
  lock: "ms_pc s t = Away \<Longrightarrow> thread_mutex_lock t (ms_mutex s) = (now, mutex) \<Longrightarrow>
    mutex_step s (Lock t) \<lparr>ms_mutex = mutex, ms_pc = (ms_pc s)(t := if now then Owner else Asleep)\<rparr>"
| unlock: "ms_pc s t = Owner \<Longrightarrow> thread_mutex_unlock (ms_mutex s) = (None, mutex) \<Longrightarrow>
    mutex_step s (Unlock t) \<lparr>ms_mutex = mutex, ms_pc = (ms_pc s)(t := Away)\<rparr>"
| unlock_wake: "ms_pc s t = Owner \<Longrightarrow> thread_mutex_unlock (ms_mutex s) = (Some u, mutex) \<Longrightarrow>
    mutex_step s (Unlock t) \<lparr>ms_mutex = mutex, ms_pc = (ms_pc s)(t := Away, u := Owner)\<rparr>"

inductive_cases mutex_lockE: "mutex_step s (Lock t) s'"
inductive_cases mutex_unlockE: "mutex_step s (Unlock t) s'"

inductive mutex_run :: "mutex_sys \<Rightarrow> mutex_event list \<Rightarrow> mutex_sys \<Rightarrow> bool" where
  nil: "mutex_run s [] s"
| cons: "mutex_step s e s' \<Longrightarrow> mutex_run s' es s'' \<Longrightarrow> mutex_run s (e # es) s''"

inductive_cases mutex_run_consE: "mutex_run s (e # es) s''"
inductive_cases mutex_run_nilE: "mutex_run s [] s''"

definition mutex_init :: mutex_sys where
  "mutex_init = \<lparr>ms_mutex = THREAD_MUTEX_INIT, ms_pc = (\<lambda>_. Away)\<rparr>"

text \<open>The queue holds the sleepers, and the mutex is taken exactly while it has one owner.\<close>

definition mutex_inv :: "mutex_sys \<Rightarrow> bool" where
  "mutex_inv s \<longleftrightarrow>
     distinct (mx_sleep_queue (ms_mutex s)) \<and>
     (\<forall>t. t \<in> set (mx_sleep_queue (ms_mutex s)) \<longleftrightarrow> ms_pc s t = Asleep) \<and>
     (mx_taken (ms_mutex s) \<longleftrightarrow> (\<exists>t. ms_pc s t = Owner)) \<and>
     (\<forall>t u. ms_pc s t = Owner \<longrightarrow> ms_pc s u = Owner \<longrightarrow> t = u) \<and>
     (mx_sleep_queue (ms_mutex s) \<noteq> [] \<longrightarrow> mx_taken (ms_mutex s))"

lemma mutex_step_inv:
  assumes "mutex_step s e s'" "mutex_inv s"
  shows "mutex_inv s'"
  using assms(1)
proof cases
  case (lock t now mutex)
  show ?thesis
  proof (cases "mx_taken (ms_mutex s)")
    case True
    then have "\<not> now" "mutex = (ms_mutex s)\<lparr>mx_sleep_queue := mx_sleep_queue (ms_mutex s) @ [t]\<rparr>"
      using lock by (simp_all add: thread_mutex_lock_def)
    then show ?thesis using lock assms(2) True by (auto simp: mutex_inv_def) (metis mutex_pc.distinct)
  next
    case False
    then have "now" "mutex = (ms_mutex s)\<lparr>mx_taken := True\<rparr>"
      using lock by (simp_all add: thread_mutex_lock_def)
    then show ?thesis using lock assms(2) False by (auto simp: mutex_inv_def)
  qed
next
  case (unlock t mutex)
  with assms(2) show ?thesis
    by (force simp: mutex_inv_def thread_mutex_unlock_def split: list.splits)
next
  case (unlock_wake t u mutex)
  then have "mx_sleep_queue (ms_mutex s) = u # mx_sleep_queue mutex"
      "mx_taken mutex = mx_taken (ms_mutex s)"
    by (auto simp: thread_mutex_unlock_def split: list.splits)
  with assms(2) unlock_wake show ?thesis by (auto simp: mutex_inv_def)
qed

lemma mutex_run_inv: "mutex_run s es s' \<Longrightarrow> mutex_inv s \<Longrightarrow> mutex_inv s'"
  by (induction rule: mutex_run.induct) (auto intro: mutex_step_inv)

lemma mutex_init_inv: "mutex_inv mutex_init"
  by (simp add: mutex_inv_def mutex_init_def THREAD_MUTEX_INIT_def)

text \<open>A sleeper with \<open>i\<close> tasks before it is the owner after the \<open>i + 1\<close>st unlock.\<close>

fun unlocks :: "mutex_event list \<Rightarrow> nat" where
  "unlocks [] = 0"
| "unlocks (Unlock t # es) = Suc (unlocks es)"
| "unlocks (Lock t # es) = unlocks es"

lemma mutex_queue_step:
  assumes "mutex_step s e s'" "i < length (mx_sleep_queue (ms_mutex s))"
  shows "case e of
      Lock u \<Rightarrow> i < length (mx_sleep_queue (ms_mutex s')) \<and>
        mx_sleep_queue (ms_mutex s') ! i = mx_sleep_queue (ms_mutex s) ! i
    | Unlock u \<Rightarrow> (case i of 0 \<Rightarrow> ms_pc s' (mx_sleep_queue (ms_mutex s) ! i) = Owner
        | Suc j \<Rightarrow> j < length (mx_sleep_queue (ms_mutex s')) \<and>
            mx_sleep_queue (ms_mutex s') ! j = mx_sleep_queue (ms_mutex s) ! i)"
  using assms
  by (cases rule: mutex_step.cases)
    (auto simp: thread_mutex_lock_def thread_mutex_unlock_def nth_append split: list.splits if_splits nat.splits)

lemma mutex_wait_bound:
  assumes "mutex_run s es s'" "i < length (mx_sleep_queue (ms_mutex s))" "i < unlocks es"
  shows "\<exists>es1 es2 s1. es = es1 @ es2 \<and> unlocks es1 = Suc i \<and> mutex_run s es1 s1 \<and>
     ms_pc s1 (mx_sleep_queue (ms_mutex s) ! i) = Owner"
  using assms
proof (induction arbitrary: i rule: mutex_run.induct)
  case (cons s e s' es s'')
  note step = mutex_queue_step [OF cons.hyps(1) cons.prems(1)]
  show ?case
  proof (cases e)
    case (Lock u)
    then have "i < length (mx_sleep_queue (ms_mutex s'))" "i < unlocks es"
      using step cons.prems(2) by auto
    from cons.IH [OF this] obtain es1 es2 s1 where "es = es1 @ es2" "unlocks es1 = Suc i" "mutex_run s' es1 s1"
        "ms_pc s1 (mx_sleep_queue (ms_mutex s') ! i) = Owner" by blast
    then show ?thesis
      using Lock step mutex_run.cons [OF cons.hyps(1)] by (intro exI [of _ "e # es1"] exI [of _ es2] exI [of _ s1]) simp
  next
    case (Unlock u)
    show ?thesis
    proof (cases i)
      case 0
      then show ?thesis
        using Unlock step mutex_run.cons [OF cons.hyps(1) mutex_run.nil]
        by (intro exI [of _ "[e]"] exI [of _ es] exI [of _ s']) simp
    next
      case (Suc j)
      then have "j < length (mx_sleep_queue (ms_mutex s'))" "j < unlocks es"
        using Unlock step cons.prems(2) by auto
      from cons.IH [OF this] obtain es1 es2 s1 where "es = es1 @ es2" "unlocks es1 = Suc j" "mutex_run s' es1 s1"
          "ms_pc s1 (mx_sleep_queue (ms_mutex s') ! j) = Owner" by blast
      then show ?thesis
        using Unlock Suc step mutex_run.cons [OF cons.hyps(1)] by (intro exI [of _ "e # es1"] exI [of _ es2] exI [of _ s1]) simp
    qed
  qed
qed simp

section \<open>Read-write lock\<close>

datatype rwlock_state = THREAD_RWLOCK_FREE | THREAD_RWLOCK_TAKEN_READ | THREAD_RWLOCK_TAKEN_WRITE

text \<open>A queue node is the waiting task and whether it wants to write.\<close>

record thread_rwlock =
  rw_sleep_queue :: "(nat \<times> bool) list"
  rw_state :: rwlock_state
  rw_readers :: nat

definition THREAD_RWLOCK_INIT :: thread_rwlock where
  "THREAD_RWLOCK_INIT = \<lparr>rw_sleep_queue = [], rw_state = THREAD_RWLOCK_FREE, rw_readers = 0\<rparr>"

definition thread_rwlock_read :: "nat \<Rightarrow> thread_rwlock \<Rightarrow> bool \<times> thread_rwlock" where
  "thread_rwlock_read task rwlock =
     (if rw_state rwlock = THREAD_RWLOCK_FREE then (True, rwlock\<lparr>rw_state := THREAD_RWLOCK_TAKEN_READ\<rparr>)
      else if rw_state rwlock = THREAD_RWLOCK_TAKEN_READ \<and> rw_sleep_queue rwlock = []
      then (True, rwlock\<lparr>rw_readers := inc64 (rw_readers rwlock)\<rparr>)
      else (False, rwlock\<lparr>rw_sleep_queue := rw_sleep_queue rwlock @ [(task, False)]\<rparr>))"

definition thread_rwlock_write :: "nat \<Rightarrow> thread_rwlock \<Rightarrow> bool \<times> thread_rwlock" where
  "thread_rwlock_write task rwlock =
     (if rw_state rwlock = THREAD_RWLOCK_FREE then (True, rwlock\<lparr>rw_state := THREAD_RWLOCK_TAKEN_WRITE\<rparr>)
      else (False, rwlock\<lparr>rw_sleep_queue := rw_sleep_queue rwlock @ [(task, True)]\<rparr>))"

text \<open>The loop that collects readers stops after it has taken a writer off the queue.\<close>

fun gather_readers :: "(nat \<times> bool) list \<Rightarrow> nat list \<times> (nat \<times> bool) list" where
  "gather_readers [] = ([], [])"
| "gather_readers ((task, writing) # queue) =
     (if writing then ([], queue)
      else let (readers, rest) = gather_readers queue in (task # readers, rest))"

text \<open>The first result is the list of tasks woken up.\<close>

definition rwlock_hand_over :: "thread_rwlock \<Rightarrow> nat list \<times> thread_rwlock" where
  "rwlock_hand_over rwlock =
     (case rw_sleep_queue rwlock of
        [] \<Rightarrow> ([], rwlock\<lparr>rw_state := THREAD_RWLOCK_FREE\<rparr>)
      | (task, writing) # queue \<Rightarrow>
          if writing then ([task], rwlock\<lparr>rw_sleep_queue := queue, rw_state := THREAD_RWLOCK_TAKEN_WRITE\<rparr>)
          else let (readers, rest) = gather_readers queue in
            (task # readers, rwlock\<lparr>rw_sleep_queue := rest, rw_state := THREAD_RWLOCK_TAKEN_READ,
               rw_readers := Suc (length readers)\<rparr>))"

definition thread_rwlock_unlock :: "thread_rwlock \<Rightarrow> nat list \<times> thread_rwlock" where
  "thread_rwlock_unlock rwlock =
     (if rw_state rwlock = THREAD_RWLOCK_TAKEN_READ then
        let rwlock = rwlock\<lparr>rw_readers := dec64 (rw_readers rwlock)\<rparr> in
        (if rw_readers rwlock \<noteq> 0 then ([], rwlock) else rwlock_hand_over rwlock)
      else rwlock_hand_over rwlock)"

text \<open>Used for writing only, the lock is a mutex.\<close>

definition rw_writers_only :: "thread_rwlock \<Rightarrow> bool" where
  "rw_writers_only rwlock \<longleftrightarrow> rw_state rwlock \<noteq> THREAD_RWLOCK_TAKEN_READ \<and>
     (\<forall>(task, writing) \<in> set (rw_sleep_queue rwlock). writing) \<and>
     (rw_sleep_queue rwlock \<noteq> [] \<longrightarrow> rw_state rwlock = THREAD_RWLOCK_TAKEN_WRITE)"

definition rw_mutex :: "thread_rwlock \<Rightarrow> thread_mutex" where
  "rw_mutex rwlock = \<lparr>mx_sleep_queue = map fst (rw_sleep_queue rwlock),
     mx_taken = (rw_state rwlock = THREAD_RWLOCK_TAKEN_WRITE)\<rparr>"

lemma rw_state_cases:
  "rw_state rwlock \<noteq> THREAD_RWLOCK_TAKEN_READ \<Longrightarrow>
     rw_state rwlock = THREAD_RWLOCK_FREE \<or> rw_state rwlock = THREAD_RWLOCK_TAKEN_WRITE"
  by (cases "rw_state rwlock") auto

section \<open>Properties\<close>



text \<open>C9: the mutex is exclusive and fair. After any sequence of calls the mutex has at most one owner, it
  is marked taken exactly while it has one, its queue holds exactly the suspended tasks, and there is
  an owner whenever a task is suspended, so no task sleeps on a free mutex. The task with \<open>i\<close> tasks
  before it in the queue owns the mutex right after the \<open>i + 1\<close>st unlock from then on, whatever other tasks do.\<close>

theorem mutex_fair:
  assumes "mutex_run mutex_init es s"
  shows "(\<forall>t u. ms_pc s t = Owner \<longrightarrow> ms_pc s u = Owner \<longrightarrow> t = u) \<and>
    (mx_taken (ms_mutex s) \<longleftrightarrow> (\<exists>t. ms_pc s t = Owner)) \<and>
    (\<forall>t. ms_pc s t = Asleep \<longleftrightarrow> t \<in> set (mx_sleep_queue (ms_mutex s))) \<and>
    (\<forall>t. ms_pc s t = Asleep \<longrightarrow> mx_taken (ms_mutex s)) \<and>
    (\<forall>i es' s'. i < length (mx_sleep_queue (ms_mutex s)) \<longrightarrow> mutex_run s es' s' \<longrightarrow> i < unlocks es' \<longrightarrow>
       (\<exists>es1 es2 s1. es' = es1 @ es2 \<and> unlocks es1 = Suc i \<and> mutex_run s es1 s1 \<and>
          ms_pc s1 (mx_sleep_queue (ms_mutex s) ! i) = Owner))"
proof -
  have "mutex_inv s" using mutex_run_inv [OF assms mutex_init_inv] .
  then show ?thesis using mutex_wait_bound by (auto simp: mutex_inv_def)
qed

theorem mutex_fair_witness:
  "\<exists>s. mutex_run mutex_init [Lock 1, Lock 2] s \<and> mx_sleep_queue (ms_mutex s) = [2] \<and> mx_taken (ms_mutex s)"
proof -
  let ?s1 = "\<lparr>ms_mutex = \<lparr>mx_sleep_queue = [], mx_taken = True\<rparr>, ms_pc = (\<lambda>_. Away)(1 := Owner)\<rparr>"
  let ?s2 = "\<lparr>ms_mutex = \<lparr>mx_sleep_queue = [2], mx_taken = True\<rparr>, ms_pc = (\<lambda>_. Away)(1 := Owner, 2 := Asleep)\<rparr>"
  have "mutex_step mutex_init (Lock 1) ?s1"
    using mutex_step.lock [of mutex_init 1 True "\<lparr>mx_sleep_queue = [], mx_taken = True\<rparr>"]
    by (simp add: mutex_init_def thread_mutex_lock_def THREAD_MUTEX_INIT_def)
  moreover have "mutex_step ?s1 (Lock 2) ?s2"
    using mutex_step.lock [of ?s1 2 False "\<lparr>mx_sleep_queue = [2], mx_taken = True\<rparr>"]
    by (simp add: thread_mutex_lock_def)
  ultimately have "mutex_run mutex_init [Lock 1, Lock 2] ?s2" by (blast intro: mutex_run.intros)
  then show ?thesis using mutex_fair [of "[Lock 1, Lock 2]" ?s2] by (intro exI [of _ ?s2]) simp
qed

text \<open>C33: the read-write lock works as a mutex when it is used for writing only, and fails for readers.
  A reader that takes a free lock is not counted, so its release makes the count wrap around and the
  lock stays taken for reading, and every later writer is suspended. A writer that waits behind readers is taken off the queue together with them, but only
  the readers are woken.\<close>

theorem rwlock_writers_and_readers:
  assumes "rw_writers_only rw"
  shows "(let (now, rw') = thread_rwlock_write t rw in
      thread_mutex_lock t (rw_mutex rw) = (now, rw_mutex rw') \<and> rw_writers_only rw') \<and>
    (let (woken, rw') = thread_rwlock_unlock rw in
      thread_mutex_unlock (rw_mutex rw) = (case woken of [] \<Rightarrow> None | u # us \<Rightarrow> Some u, rw_mutex rw') \<and>
      length woken \<le> 1 \<and> rw_writers_only rw') \<and>
    (let (now, rw1) = thread_rwlock_read t THREAD_RWLOCK_INIT; (woken, rw2) = thread_rwlock_unlock rw1 in
      now \<and> woken = [] \<and> rw_state rw2 = THREAD_RWLOCK_TAKEN_READ \<and> rw_readers rw2 = 2 ^ 64 - 1 \<and>
      \<not> fst (thread_rwlock_write u rw2)) \<and>
    thread_rwlock_unlock \<lparr>rw_sleep_queue = [(t, False), (u, True)], rw_state = THREAD_RWLOCK_TAKEN_WRITE,
        rw_readers = n\<rparr> = ([t], \<lparr>rw_sleep_queue = [], rw_state = THREAD_RWLOCK_TAKEN_READ, rw_readers = 1\<rparr>)"
proof -
  have st: "rw_state rw = THREAD_RWLOCK_FREE \<or> rw_state rw = THREAD_RWLOCK_TAKEN_WRITE"
    using assms rw_state_cases by (auto simp: rw_writers_only_def)
  then have "let (now, rw') = thread_rwlock_write t rw in
      thread_mutex_lock t (rw_mutex rw) = (now, rw_mutex rw') \<and> rw_writers_only rw'"
    using assms by (auto simp: thread_rwlock_write_def thread_mutex_lock_def rw_mutex_def rw_writers_only_def)
  moreover have "let (woken, rw') = thread_rwlock_unlock rw in
      thread_mutex_unlock (rw_mutex rw) = (case woken of [] \<Rightarrow> None | u # us \<Rightarrow> Some u, rw_mutex rw') \<and>
      length woken \<le> 1 \<and> rw_writers_only rw'"
    using assms st
    by (cases "rw_sleep_queue rw") (auto simp: thread_rwlock_unlock_def rwlock_hand_over_def
        thread_mutex_unlock_def rw_mutex_def rw_writers_only_def)
  ultimately show ?thesis
    by (simp add: thread_rwlock_read_def thread_rwlock_unlock_def thread_rwlock_write_def
        rwlock_hand_over_def THREAD_RWLOCK_INIT_def dec64_zero)
qed

theorem rwlock_writers_and_readers_witness:
  "fst (thread_rwlock_write 1 THREAD_RWLOCK_INIT) \<and> rw_writers_only (snd (thread_rwlock_write 1 THREAD_RWLOCK_INIT))"
  using rwlock_writers_and_readers [of THREAD_RWLOCK_INIT 1 2 0]
  by (simp add: rw_writers_only_def THREAD_RWLOCK_INIT_def thread_rwlock_write_def)

end
