(* ===== verification/Target.thy ===== *)
theory Target
  imports Prelude
begin

text \<open>
  \<^verbatim>\<open>lib/target.c\<close>: start-up targets and their dependencies. A target is a number, \<open>deps\<close> gives its
  dependency array; the fields that change are \<open>dep_index\<close> and \<open>resolved\<close>. The stack threaded through
  \<open>next_to_be_visited\<close> and the plan threaded through \<open>next\<close> are lists. A circular dependency panics,
  which is the left result.
\<close>

record target_state =
  ts_dep_index :: "nat \<Rightarrow> nat"
  ts_resolved :: "nat \<Rightarrow> bool"

text \<open>The state the \<open>TARGET\<close> macro defines.\<close>

definition TARGET :: target_state where
  "TARGET = \<lparr>ts_dep_index = (\<lambda>_. 0), ts_resolved = (\<lambda>_. False)\<rparr>"

partial_function (option) plan_loop ::
  "(nat \<Rightarrow> nat list) \<Rightarrow> target_state \<Rightarrow> nat list \<Rightarrow> nat list \<Rightarrow> (nat \<times> nat + nat list \<times> target_state) option" where
  "plan_loop deps s stack plan =
     (case stack of
        [] \<Rightarrow> Some (Inr (plan, s))
      | tos # rest \<Rightarrow>
          if ts_dep_index s tos = length (deps tos)
          then plan_loop deps (s\<lparr>ts_resolved := (ts_resolved s)(tos := True)\<rparr>) rest (plan @ [tos])
          else
            let dependency = deps tos ! ts_dep_index s tos;
                s = s\<lparr>ts_dep_index := (ts_dep_index s)(tos := Suc (ts_dep_index s tos))\<rparr>
            in if ts_resolved s dependency then plan_loop deps s stack plan
               else if ts_dep_index s dependency \<noteq> 0 then Some (Inl (dependency, tos))
               else plan_loop deps s (dependency # stack) plan)"

definition target_compute_plan ::
  "(nat \<Rightarrow> nat list) \<Rightarrow> target_state \<Rightarrow> nat \<Rightarrow> (nat \<times> nat + nat list \<times> target_state) option" where
  "target_compute_plan deps s target = plan_loop deps s [target] []"

text \<open>The callbacks act on the rest of the kernel, here an arbitrary state.\<close>

fun target_execute_plan :: "(nat \<Rightarrow> 'w \<Rightarrow> 'w) \<Rightarrow> nat list \<Rightarrow> 'w \<Rightarrow> 'w" where
  "target_execute_plan callback [] w = w"
| "target_execute_plan callback (current # rest) w = target_execute_plan callback rest (callback current w)"

definition TARGET_IS_REACHED :: "target_state \<Rightarrow> nat \<Rightarrow> bool" where
  "TARGET_IS_REACHED s t = ts_resolved s t"

section \<open>The search invariant\<close>

definition depends :: "(nat \<Rightarrow> nat list) \<Rightarrow> (nat \<times> nat) set" where
  "depends deps = {(t, d). d \<in> set (deps t)}"

text \<open>Every target of the stack waits for the one above it; what it has looked at before is resolved.\<close>

fun waiting :: "(nat \<Rightarrow> nat list) \<Rightarrow> target_state \<Rightarrow> nat set \<Rightarrow> nat set \<Rightarrow> nat list \<Rightarrow> bool" where
  "waiting deps s P c [] = True"
| "waiting deps s P c (t # rest) \<longleftrightarrow>
     set (take (ts_dep_index s t) (deps t)) \<subseteq> P \<union> c \<and> c \<subseteq> set (take (ts_dep_index s t) (deps t)) \<and>
     waiting deps s P {t} rest"

lemma waiting_frame:
  "t \<notin> set st \<Longrightarrow> waiting deps (s\<lparr>ts_dep_index := (ts_dep_index s)(t := n)\<rparr>) P c st = waiting deps s P c st"
  by (induction st arbitrary: c) auto

lemma waiting_resolved: "waiting deps (s\<lparr>ts_resolved := r\<rparr>) P c st = waiting deps s P c st"
  by (induction st arbitrary: c) auto

lemma waiting_mono: "waiting deps s P c st \<Longrightarrow> P \<subseteq> P' \<Longrightarrow> waiting deps s P' c st"
  by (induction st arbitrary: c) auto

lemma waiting_pop: "waiting deps s P {t} st \<Longrightarrow> waiting deps s (insert t P) {} st"
  by (cases st) (auto intro: waiting_mono)

lemma waiting_nonzero: "waiting deps s P {t} st \<Longrightarrow> u \<in> set st \<Longrightarrow> ts_dep_index s u \<noteq> 0"
proof (induction st arbitrary: t)
  case (Cons v st)
  then have "ts_dep_index s v \<noteq> 0" by (intro notI) simp
  then show ?case using Cons by auto
qed simp

text \<open>The stack is a path of dependencies.\<close>

lemma waiting_path: "waiting deps s P {t} st \<Longrightarrow> u \<in> set st \<Longrightarrow> (u, t) \<in> (depends deps)\<^sup>+"
proof (induction st arbitrary: t)
  case (Cons v st)
  then have "(v, t) \<in> depends deps" by (auto simp: depends_def dest: in_set_takeD)
  then show ?case using Cons by (auto intro: trancl_into_trancl)
qed simp

definition ordered :: "(nat \<Rightarrow> nat list) \<Rightarrow> nat list \<Rightarrow> bool" where
  "ordered deps plan \<longleftrightarrow> (\<forall>xs t ys. plan = xs @ t # ys \<longrightarrow> set (deps t) \<subseteq> set xs)"

lemma ordered_snoc: "ordered deps plan \<Longrightarrow> set (deps t) \<subseteq> set plan \<Longrightarrow> ordered deps (plan @ [t])"
  by (auto simp: ordered_def append_eq_append_conv2 Cons_eq_append_conv append_eq_Cons_conv)

lemma ordered_nth: "ordered deps plan \<Longrightarrow> i < length plan \<Longrightarrow> set (deps (plan ! i)) \<subseteq> set (take i plan)"
  using id_take_nth_drop [of i plan] by (auto simp: ordered_def)

definition plan_inv :: "(nat \<Rightarrow> nat list) \<Rightarrow> nat \<Rightarrow> target_state \<Rightarrow> nat list \<Rightarrow> nat list \<Rightarrow> bool" where
  "plan_inv deps root s stack plan \<longleftrightarrow>
     distinct (stack @ plan) \<and> (\<forall>t. ts_resolved s t \<longleftrightarrow> t \<in> set plan) \<and>
     (\<forall>t. t \<notin> set stack \<longrightarrow> t \<notin> set plan \<longrightarrow> ts_dep_index s t = 0) \<and>
     (\<forall>t. ts_dep_index s t \<le> length (deps t)) \<and>
     waiting deps s (set plan) {} stack \<and> ordered deps plan \<and>
     (\<forall>t \<in> set stack \<union> set plan. (root, t) \<in> (depends deps)\<^sup>*) \<and>
     (if stack = [] then plan \<noteq> [] \<and> last plan = root else last stack = root)"

lemma plan_inv_init: "plan_inv deps root TARGET [root] []"
  by (simp add: plan_inv_def TARGET_def ordered_def)

lemma plan_inv_resolve:
  assumes i: "plan_inv deps root s (tos # rest) plan" and d: "ts_dep_index s tos = length (deps tos)"
  shows "plan_inv deps root (s\<lparr>ts_resolved := (ts_resolved s)(tos := True)\<rparr>) rest (plan @ [tos])"
proof -
  have "waiting deps s (insert tos (set plan)) {} rest" using i by (intro waiting_pop) (simp add: plan_inv_def)
  moreover have "ordered deps (plan @ [tos])" using i d by (intro ordered_snoc) (auto simp: plan_inv_def)
  ultimately show ?thesis using i by (auto simp: plan_inv_def waiting_resolved)
qed

text \<open>Looking at the next dependency of the top of the stack.\<close>

lemma plan_inv_look:
  assumes i: "plan_inv deps root s (tos # rest) plan" and d: "ts_dep_index s tos \<noteq> length (deps tos)"
  defines "dependency \<equiv> deps tos ! ts_dep_index s tos"
  defines "s' \<equiv> s\<lparr>ts_dep_index := (ts_dep_index s)(tos := Suc (ts_dep_index s tos))\<rparr>"
  shows "dependency \<in> set plan \<Longrightarrow> plan_inv deps root s' (tos # rest) plan"
    and "dependency \<notin> set plan \<Longrightarrow> ts_dep_index s' dependency = 0 \<Longrightarrow>
      plan_inv deps root s' (dependency # tos # rest) plan"
    and "dependency \<notin> set plan \<Longrightarrow> ts_dep_index s' dependency \<noteq> 0 \<Longrightarrow> (dependency, tos) \<in> (depends deps)\<^sup>*"
    and "(tos, dependency) \<in> depends deps" and "(root, tos) \<in> (depends deps)\<^sup>*"
proof -
  have lt: "ts_dep_index s tos < length (deps tos)" using i d by (simp add: plan_inv_def le_neq_implies_less)
  then have tk: "set (take (Suc (ts_dep_index s tos)) (deps tos)) =
      insert dependency (set (take (ts_dep_index s tos) (deps tos)))"
    by (auto simp: take_Suc_conv_app_nth dependency_def)
  have t: "tos \<notin> set rest" "waiting deps s' (set plan) {tos} rest"
    using i by (auto simp: plan_inv_def s'_def waiting_frame)
  show dep: "(tos, dependency) \<in> depends deps" using lt by (simp add: depends_def dependency_def)
  show root: "(root, tos) \<in> (depends deps)\<^sup>*" using i by (simp add: plan_inv_def)
  show "plan_inv deps root s' (tos # rest) plan" if "dependency \<in> set plan"
    using i that tk t lt by (auto simp: plan_inv_def s'_def)
  show "plan_inv deps root s' (dependency # tos # rest) plan"
    if n: "dependency \<notin> set plan" "ts_dep_index s' dependency = 0"
  proof -
    have "dependency \<noteq> tos" using n(2) by (auto simp: s'_def)
    moreover have "dependency \<notin> set rest"
    proof
      assume "dependency \<in> set rest"
      then have "ts_dep_index s' dependency \<noteq> 0" using waiting_nonzero [OF t(2)] by blast
      then show False using n(2) by simp
    qed
    ultimately show ?thesis
      using i n tk t lt rtrancl_into_rtrancl [OF root dep] by (auto simp: plan_inv_def s'_def)
  qed
  show "(dependency, tos) \<in> (depends deps)\<^sup>*" if n: "dependency \<notin> set plan" "ts_dep_index s' dependency \<noteq> 0"
  proof (cases "dependency = tos")
    case False
    then have "dependency \<in> set rest" using i n by (auto simp: plan_inv_def s'_def split: if_splits)
    then show ?thesis using waiting_path [OF t(2)] by (simp add: trancl_into_rtrancl)
  qed simp
qed

section \<open>Termination\<close>

text \<open>Every round looks at one more dependency or resolves one more target.\<close>

definition work_left :: "(nat \<Rightarrow> nat list) \<Rightarrow> nat set \<Rightarrow> target_state \<Rightarrow> nat" where
  "work_left deps T s = (\<Sum>t \<in> T. length (deps t) - ts_dep_index s t) + card {t \<in> T. \<not> ts_resolved s t}"

lemma work_left_resolve:
  assumes "finite T" "t \<in> T" "\<not> ts_resolved s t"
  shows "work_left deps T (s\<lparr>ts_resolved := (ts_resolved s)(t := True)\<rparr>) < work_left deps T s"
proof -
  have "{u \<in> T. \<not> ((ts_resolved s)(t := True)) u} = {u \<in> T. \<not> ts_resolved s u} - {t}" by auto
  moreover have "card ({u \<in> T. \<not> ts_resolved s u} - {t}) < card {u \<in> T. \<not> ts_resolved s u}"
    using assms by (intro card_Diff1_less) auto
  ultimately show ?thesis by (simp add: work_left_def)
qed

lemma work_left_look:
  assumes "finite T" "t \<in> T" "ts_dep_index s t < length (deps t)"
  shows "work_left deps T (s\<lparr>ts_dep_index := (ts_dep_index s)(t := Suc (ts_dep_index s t))\<rparr>) < work_left deps T s"
  using assms by (auto simp: work_left_def intro!: sum_strict_mono_ex1)

definition plan_good :: "(nat \<Rightarrow> nat list) \<Rightarrow> nat \<Rightarrow> nat \<times> nat + nat list \<times> target_state \<Rightarrow> bool" where
  "plan_good deps root r =
     (case r of
        Inl (d, t) \<Rightarrow> (root, t) \<in> (depends deps)\<^sup>* \<and> (t, d) \<in> depends deps \<and> (d, t) \<in> (depends deps)\<^sup>*
      | Inr (plan, s) \<Rightarrow> plan_inv deps root s [] plan)"

lemma plan_loop_total:
  assumes fin: "finite {t. (root, t) \<in> (depends deps)\<^sup>*}"
  shows "plan_inv deps root s stack plan \<Longrightarrow> \<exists>r. plan_loop deps s stack plan = Some r \<and> plan_good deps root r"
proof (induction "work_left deps {t. (root, t) \<in> (depends deps)\<^sup>*} s" arbitrary: s stack plan rule: less_induct)
  case less
  note i = less.prems
  let ?T = "{t. (root, t) \<in> (depends deps)\<^sup>*}"
  show ?case
  proof (cases stack)
    case Nil
    then show ?thesis using i by (simp add: plan_loop.simps plan_good_def)
  next
    case (Cons tos rest)
    note i' = i [unfolded Cons]
    have T: "tos \<in> ?T" using i' by (simp add: plan_inv_def)
    show ?thesis
    proof (cases "ts_dep_index s tos = length (deps tos)")
      case True
      have "\<not> ts_resolved s tos" using i' by (auto simp: plan_inv_def)
      from less.hyps [OF work_left_resolve [OF fin T this] plan_inv_resolve [OF i' True]]
      show ?thesis using True Cons by (simp add: plan_loop.simps [of deps s])
    next
      case False
      let ?d = "deps tos ! ts_dep_index s tos"
      let ?s = "s\<lparr>ts_dep_index := (ts_dep_index s)(tos := Suc (ts_dep_index s tos))\<rparr>"
      have lt: "ts_dep_index s tos < length (deps tos)" using i' False by (simp add: plan_inv_def le_neq_implies_less)
      have "work_left deps ?T ?s < work_left deps ?T s" using work_left_look [of ?T tos s deps] fin T lt by simp
      note IH = less.hyps [OF this]
      note look = plan_inv_look [OF i' False]
      have res: "ts_resolved ?s ?d \<longleftrightarrow> ?d \<in> set plan" using i' by (simp add: plan_inv_def)
      have loop: "plan_loop deps s stack plan =
          (if ?d \<in> set plan then plan_loop deps ?s (tos # rest) plan
           else if ts_dep_index ?s ?d \<noteq> 0 then Some (Inl (?d, tos))
           else plan_loop deps ?s (?d # tos # rest) plan)"
        using False Cons res by (simp add: plan_loop.simps [of deps s] Let_def)
      show ?thesis
        unfolding loop using IH [OF look(1)] IH [OF look(2)] look(3-5) by (auto simp: plan_good_def)
    qed
  qed
qed

text \<open>A plan in dependency order leaves no room for a cycle.\<close>

lemma ordered_acyclic:
  assumes "ordered deps plan" "distinct plan" "(t, u) \<in> (depends deps)\<^sup>+" "i < length plan" "plan ! i = t"
  shows "u \<in> set (take i plan)"
  using assms(3)
proof (induction rule: trancl_induct)
  case (base u)
  then show ?case using ordered_nth [OF assms(1,4)] assms(5) by (auto simp: depends_def)
next
  case (step u v)
  then obtain j where j: "j < i" "j < length plan" "plan ! j = u" by (auto simp: in_set_conv_nth)
  then have "v \<in> set (take j plan)" using ordered_nth [OF assms(1) j(2)] step.hyps(2) by (auto simp: depends_def)
  then show ?case using j(1) by (meson less_imp_le set_take_subset_set_take subsetD)
qed

lemma ordered_no_cycle:
  assumes "ordered deps plan" "distinct plan" "t \<in> set plan"
  shows "(t, t) \<notin> (depends deps)\<^sup>+"
proof
  assume c: "(t, t) \<in> (depends deps)\<^sup>+"
  obtain i where i: "i < length plan" "plan ! i = t" using assms(3) by (auto simp: in_set_conv_nth)
  have "t \<in> set (take i plan)" using ordered_acyclic [OF assms(1,2) c i] .
  then obtain j where "j < i" "plan ! j = t" using i(1) by (auto simp: in_set_conv_nth)
  then show False using i assms(2) nth_eq_iff_index_eq [OF assms(2), of j i] by simp
qed

lemma plan_complete:
  assumes "plan_inv deps root s [] plan"
  shows "set plan = {t. (root, t) \<in> (depends deps)\<^sup>*}"
proof -
  have "t \<in> set plan" if "(root, t) \<in> (depends deps)\<^sup>*" for t
    using that
  proof (induction rule: rtrancl_induct)
    case base
    then show ?case using assms by (auto simp: plan_inv_def)
  next
    case (step t u)
    then obtain i where "i < length plan" "plan ! i = t" by (auto simp: in_set_conv_nth)
    then show ?case using ordered_nth [of deps plan i] step.hyps(2) assms
      by (auto simp: plan_inv_def depends_def dest: in_set_takeD)
  qed
  then show ?thesis using assms by (auto simp: plan_inv_def)
qed

section \<open>Properties\<close>

text \<open>C8: start-up planning is a topological sort that detects every cycle. For any target with finitely
  many targets below it, the search ends. If a dependency cycle can be reached from the target it
  panics, naming a target and a dependency of it that are on a common cycle. Otherwise the plan
  holds every target that can be reached, each exactly once, every one after all its dependencies
  and the requested target last, and exactly these targets are marked as reached.\<close>

theorem target_plan_correct:
  assumes fin: "finite {t. (root, t) \<in> (depends deps)\<^sup>*}"
  shows "if \<exists>t. (root, t) \<in> (depends deps)\<^sup>* \<and> (t, t) \<in> (depends deps)\<^sup>+
    then \<exists>d t. target_compute_plan deps TARGET root = Some (Inl (d, t)) \<and>
      d \<in> set (deps t) \<and> (d, t) \<in> (depends deps)\<^sup>*
    else \<exists>plan s. target_compute_plan deps TARGET root = Some (Inr (plan, s)) \<and> distinct plan \<and>
      set plan = {t. (root, t) \<in> (depends deps)\<^sup>*} \<and> last plan = root \<and>
      (\<forall>i < length plan. set (deps (plan ! i)) \<subseteq> set (take i plan)) \<and>
      (\<forall>t. TARGET_IS_REACHED s t \<longleftrightarrow> t \<in> set plan)"
proof -
  obtain r where r: "plan_loop deps TARGET [root] [] = Some r" "plan_good deps root r"
    using plan_loop_total [OF fin plan_inv_init] by blast
  show ?thesis
  proof (cases r)
    case (Inl dt)
    obtain d t where dt: "dt = (d, t)" by fastforce
    have g: "(root, t) \<in> (depends deps)\<^sup>*" "(t, d) \<in> depends deps" "(d, t) \<in> (depends deps)\<^sup>*"
      using r(2) Inl dt by (auto simp: plan_good_def)
    then have "(t, t) \<in> (depends deps)\<^sup>+" by (meson rtrancl_into_trancl2)
    then have "\<exists>t. (root, t) \<in> (depends deps)\<^sup>* \<and> (t, t) \<in> (depends deps)\<^sup>+" using g(1) by blast
    then show ?thesis using r(1) Inl dt g by (auto simp: target_compute_plan_def depends_def)
  next
    case (Inr ps)
    obtain plan s where ps: "ps = (plan, s)" by fastforce
    have i: "plan_inv deps root s [] plan" using r(2) Inr ps by (simp add: plan_good_def)
    note set_plan = plan_complete [OF i]
    have o: "ordered deps plan" "distinct plan" using i by (simp_all add: plan_inv_def)
    have "\<not> (\<exists>t. (root, t) \<in> (depends deps)\<^sup>* \<and> (t, t) \<in> (depends deps)\<^sup>+)"
      using ordered_no_cycle [OF o] set_plan by blast
    moreover have "last plan = root" "\<forall>t. TARGET_IS_REACHED s t \<longleftrightarrow> t \<in> set plan"
      using i by (auto simp: plan_inv_def TARGET_IS_REACHED_def)
    ultimately show ?thesis
      using r(1) Inr ps o set_plan ordered_nth [OF o(1)] unfolding target_compute_plan_def by auto
  qed
qed

theorem target_plan_correct_witness:
  "finite {t. (2 :: nat, t) \<in> (depends (\<lambda>t. [0..<t]))\<^sup>*} \<and>
   (\<exists>plan s. target_compute_plan (\<lambda>t. [0..<t]) TARGET 2 = Some (Inr (plan, s)) \<and> last plan = 2)"
proof -
  have less: "(t, u) \<in> (depends (\<lambda>t. [0..<t]))\<^sup>* \<Longrightarrow> u \<le> t" for t u
    by (induction rule: rtrancl_induct) (auto simp: depends_def)
  have lt: "(t, u) \<in> (depends (\<lambda>t. [0..<t]))\<^sup>+ \<Longrightarrow> u < t" for t u
    by (induction rule: trancl_induct) (auto simp: depends_def)
  have fin: "finite {t. (2 :: nat, t) \<in> (depends (\<lambda>t. [0..<t]))\<^sup>*}"
    by (rule finite_subset [of _ "{..2}"]) (auto dest: less)
  have no: "(\<exists>t. (2, t) \<in> (depends (\<lambda>t. [0..<t]))\<^sup>* \<and> (t, t) \<in> (depends (\<lambda>t. [0..<t]))\<^sup>+) = False"
    using lt by blast
  show ?thesis using target_plan_correct [OF fin] fin unfolding no if_False by blast
qed

end
