(* ===== verification/Strings.thy ===== *)
theory Strings
  imports Prelude
begin

text \<open>
  \<^verbatim>\<open>lib/string.c\<close>: the memory functions the rest of the kernel calls. A pointer into a buffer is the list
  of the buffer's bytes and an offset; an access outside of the list has no result. Source and
  destination are different buffers.
\<close>

fun strlen_loop :: "char list \<Rightarrow> nat \<Rightarrow> nat option" where
  "strlen_loop [] result = None"
| "strlen_loop (c # str) result = (if c \<noteq> CHR 0x00 then strlen_loop str (Suc result) else Some result)"

definition strlen :: "char list \<Rightarrow> nat option" where
  "strlen str = strlen_loop str 0"

fun memcpy :: "'a list \<Rightarrow> nat \<Rightarrow> 'a list \<Rightarrow> nat \<Rightarrow> nat \<Rightarrow> 'a list option" where
  "memcpy cdest d csrc s 0 = Some cdest"
| "memcpy cdest d csrc s (Suc n) =
     (if d < length cdest \<and> s < length csrc
      then memcpy (cdest[d := csrc ! s]) (Suc d) csrc (Suc s) n else None)"

fun memset :: "'a list \<Rightarrow> nat \<Rightarrow> 'a \<Rightarrow> nat \<Rightarrow> 'a list option" where
  "memset cdest d fill 0 = Some cdest"
| "memset cdest d fill (Suc n) =
     (if d < length cdest then memset (cdest[d := fill]) (Suc d) fill n else None)"

fun memcmp :: "char list \<Rightarrow> char list \<Rightarrow> nat \<Rightarrow> int option" where
  "memcmp ptr1 ptr2 0 = Some 0"
| "memcmp (c1 # ptr1) (c2 # ptr2) (Suc len) =
     (if of_char c1 > (of_char c2 :: nat) then Some (- 1)
      else if of_char c1 < (of_char c2 :: nat) then Some 1
      else memcmp ptr1 ptr2 len)"
| "memcmp _ _ (Suc len) = None"

lemma strlen_loop_spec:
  "CHR 0x00 \<notin> set xs \<Longrightarrow> strlen_loop (xs @ CHR 0x00 # rest) n = Some (n + length xs)"
  by (induction xs arbitrary: n) auto

lemma strlen_spec [simp]: "CHR 0x00 \<notin> set xs \<Longrightarrow> strlen (xs @ CHR 0x00 # rest) = Some (length xs)"
  by (simp add: strlen_def strlen_loop_spec)

lemma memcpy_spec:
  "d + n \<le> length cdest \<Longrightarrow> s + n \<le> length csrc \<Longrightarrow>
     memcpy cdest d csrc s n = Some (take d cdest @ take n (drop s csrc) @ drop (d + n) cdest)"
proof (induction cdest d csrc s n rule: memcpy.induct)
  case (2 cdest d csrc s n)
  have "take n (drop (Suc s) csrc) = drop 1 (take (Suc n) (drop s csrc))" by (simp add: drop_take)
  then have "csrc ! s # take n (drop (Suc s) csrc) = take (Suc n) (drop s csrc)"
    using 2 by (metis Cons_nth_drop_Suc add_Suc_right le_add1 less_le_trans less_Suc_eq_le take_Suc_Cons)
  moreover have "take (Suc d) (cdest[d := csrc ! s]) = take d cdest @ [csrc ! s]"
    using 2 by (simp add: take_Suc_conv_app_nth)
  ultimately show ?case using 2 by (simp add: drop_update_cancel)
qed simp

lemma memcpy_fault:
  "memcpy cdest d csrc s n = None \<longleftrightarrow> n \<noteq> 0 \<and> (length cdest < d + n \<or> length csrc < s + n)"
  by (induction cdest d csrc s n rule: memcpy.induct) auto

lemma memset_spec:
  "d + n \<le> length cdest \<Longrightarrow> memset cdest d fill n = Some (take d cdest @ replicate n fill @ drop (d + n) cdest)"
proof (induction cdest d fill n rule: memset.induct)
  case (2 cdest d fill n)
  have "take (Suc d) (cdest[d := fill]) = take d cdest @ [fill]"
    using 2 by (simp add: take_Suc_conv_app_nth)
  then show ?case using 2 by (simp add: drop_update_cancel)
qed simp

text \<open>Two areas compare equal exactly when their first \<open>len\<close> bytes are.\<close>

lemma memcmp_eq:
  "len \<le> length p \<Longrightarrow> len \<le> length q \<Longrightarrow> \<exists>r. memcmp p q len = Some r \<and> (r = 0 \<longleftrightarrow> take len p = take len q)"
proof (induction p q len rule: memcmp.induct)
  case (2 c1 p c2 q len)
  then show ?case by (cases "c1 = c2") (auto simp: not_less order.order_iff_strict)
qed auto

end
