(* ===== verification/Symmap.thy ===== *)
theory Symmap
  imports Strings
begin

text \<open>
  \<^verbatim>\<open>init/module.c\<close> and \<^verbatim>\<open>lib/symmap.c\<close>: finding a boot module and resolving an address to the function it
  belongs to. The modules are those the boot loader lists; \<open>rd64\<close> and \<open>rd32\<close> read the memory the loader
  has filled, \<open>text\<close> are the bounds of the text section (from the linker script).
\<close>

record stivale2_module =
  md_begin :: addr
  md_end :: addr
  md_string :: "char list"

record init_module =
  im_data :: addr
  im_size :: nat

text \<open>The loop over the modules; \<open>cmdline\<close> is null-terminated, a module string has 128 bytes.\<close>

fun module_loop :: "char list \<Rightarrow> nat \<Rightarrow> stivale2_module list \<Rightarrow> init_module option option" where
  "module_loop cmdline len [] = Some None"
| "module_loop cmdline len (m # modules) = do {
     r \<leftarrow> memcmp cmdline (md_string m) (if 128 < len then 128 else len);
     if r = 0 then Some (Some \<lparr>im_data = md_begin m, im_size = sub64 (md_end m) (md_begin m)\<rparr>)
     else module_loop cmdline len modules }"

definition init_module_lookup ::
  "stivale2_module list option \<Rightarrow> char list \<Rightarrow> init_module option option" where
  "init_module_lookup modules_tag cmdline =
     (case modules_tag of
        None \<Rightarrow> Some None
      | Some modules \<Rightarrow> do { cmdline_len \<leftarrow> strlen cmdline; module_loop cmdline cmdline_len modules })"

lemma module_loop_spec:
  assumes "CHR 0x00 \<notin> set name" "length name \<le> 128" "\<forall>m \<in> set modules. length (md_string m) = 128"
  shows "module_loop (name @ [CHR 0x00]) (length name) modules =
    Some (map_option (\<lambda>m. \<lparr>im_data = md_begin m, im_size = sub64 (md_end m) (md_begin m)\<rparr>)
      (find (\<lambda>m. take (length name) (md_string m) = name) modules))"
  using assms(3)
proof (induction modules)
  case (Cons m modules)
  obtain r where "memcmp (name @ [CHR 0x00]) (md_string m) (length name) = Some r"
      "r = 0 \<longleftrightarrow> name = take (length name) (md_string m)"
    using memcmp_eq [of "length name" "name @ [CHR 0x00]" "md_string m"] Cons.prems assms(2) by auto
  then show ?case using Cons assms(2) by auto
qed simp

section \<open>Symbol map\<close>

definition SYMMAP_CMDLINE :: "char list" where
  "SYMMAP_CMDLINE = ''kernel-symbol-map'' @ [CHR 0x00]"

definition SYMMAP_SIGN :: nat where
  "SYMMAP_SIGN = 0x1020304050607080"

record symmap_addr_info =
  ai_name :: addr
  ai_offset :: nat

definition symmap_in_section_text :: "addr \<times> addr \<Rightarrow> addr \<Rightarrow> bool" where
  "symmap_in_section_text text a \<longleftrightarrow> a \<ge> fst text \<and> a < snd text"

partial_function (option) find_loop :: "addr \<Rightarrow> (nat \<Rightarrow> addr) \<Rightarrow> nat \<Rightarrow> nat \<Rightarrow> nat option" where
  "find_loop a addrs l r =
     (if sub64 r l > 1 then
        let m = u64 (l + r) div 2; maddr = addrs m in
        if maddr > a then find_loop a addrs l m else find_loop a addrs m r
      else Some l)"

definition symmap_find_by_addr :: "addr \<Rightarrow> (nat \<Rightarrow> addr) \<Rightarrow> nat \<Rightarrow> nat option" where
  "symmap_find_by_addr a addrs cnt =
     (if cnt = 0 then Some 0
      else do { l \<leftarrow> find_loop a addrs 0 cnt; Some (if addrs l > a then 0 else 1 + l) })"

text \<open>\<open>symmap_module_addr\<close> caches the address of the module: all ones before the first query, 0 when there
  is no valid module. A failed query leaves the info buffer alone.\<close>

definition symmap_load ::
  "stivale2_module list option \<Rightarrow> (addr \<Rightarrow> nat) \<Rightarrow> addr \<Rightarrow> addr option" where
  "symmap_load modules rd64 symmap_module_addr =
     (if symmap_module_addr = 2 ^ 64 - 1 then do {
        found \<leftarrow> init_module_lookup modules SYMMAP_CMDLINE;
        Some (case found of
            None \<Rightarrow> 0
          | Some map' \<Rightarrow> if rd64 (im_data map') = SYMMAP_SIGN then im_data map' else 0) }
      else Some symmap_module_addr)"

definition symmap_query_addr_info ::
  "stivale2_module list option \<Rightarrow> (addr \<Rightarrow> nat) \<Rightarrow> (addr \<Rightarrow> nat) \<Rightarrow> addr \<times> addr \<Rightarrow> addr \<Rightarrow>
   addr \<Rightarrow> (symmap_addr_info option \<times> addr) option" where
  "symmap_query_addr_info modules rd64 rd32 text a symmap_module_addr = do {
     module_addr \<leftarrow> symmap_load modules rd64 symmap_module_addr;
     if module_addr = 0 \<or> \<not> symmap_in_section_text text a then Some (None, module_addr)
     else do {
       let functions_count = rd64 (u64 (module_addr + 8));
       let addrs = (\<lambda>i. rd64 (u64 (module_addr + 16 + 8 * i)));
       fn_index \<leftarrow> symmap_find_by_addr a addrs functions_count;
       if fn_index = 0 then Some (None, module_addr)
       else do {
         let fn_index = fn_index - 1;
         let fn_addr = addrs fn_index;
         let cstring_offset = rd32 (u64 (module_addr + 16 + 8 * functions_count + 4 * fn_index));
         Some (Some \<lparr>ai_name = u64 (module_addr + cstring_offset), ai_offset = sub64 a fn_addr\<rparr>, module_addr) }}}"

text \<open>The loop keeps \<open>addrs l\<close> at most the address (or \<open>l = 0\<close>) and \<open>addrs r\<close> above it (or \<open>r = cnt\<close>).\<close>

lemma find_loop_spec:
  assumes "l < r" "r \<le> cnt" "cnt \<le> 2 ^ 63" "l = 0 \<or> addrs l \<le> a" "r = cnt \<or> a < addrs r"
  shows "\<exists>i < cnt. find_loop a addrs l r = Some i \<and> (i = 0 \<or> addrs i \<le> a) \<and> (Suc i = cnt \<or> a < addrs (Suc i))"
  using assms
proof (induction "r - l" arbitrary: l r rule: less_induct)
  case less
  have s: "sub64 r l = r - l" and m: "u64 (l + r) = l + r"
    using less.prems by (auto simp: sub64_le u64_small)
  show ?case
  proof (cases "r - l > 1")
    case True
    let ?m = "(l + r) div 2"
    have b: "l < ?m" "?m < r" using True by auto
    have step: "find_loop a addrs l r =
        (if addrs ?m > a then find_loop a addrs l ?m else find_loop a addrs ?m r)"
      using True by (simp add: find_loop.simps [of a addrs l r] s m)
    show ?thesis
      unfolding step using less.hyps [of ?m l] less.hyps [of r ?m] less.prems b by auto
  next
    case False
    then have r: "r = Suc l" "find_loop a addrs l r = Some l"
      using less.prems(1) by (simp_all add: find_loop.simps [of a addrs l r] s)
    then show ?thesis using less.prems by (intro exI [of _ l]) auto
  qed
qed

text \<open>In a sorted table the functions that start at or below the address are an initial segment.\<close>

lemma find_segment:
  assumes sorted: "\<forall>i j. i < j \<longrightarrow> j < cnt \<longrightarrow> addrs i < addrs j" and cnt: "cnt \<le> 2 ^ 63" "cnt \<noteq> 0"
  obtains i where "i < cnt" "find_loop a addrs 0 cnt = Some i"
    "{j. j < cnt \<and> addrs j \<le> a} = (if addrs i \<le> a then {..i} else {})"
    "addrs i \<le> a \<longleftrightarrow> addrs 0 \<le> a"
proof -
  have mono: "addrs i \<le> addrs j" if "i \<le> j" "j < cnt" for i j
    using sorted that by (cases "i = j") (auto simp: order.order_iff_strict)
  obtain i where i: "i < cnt" "find_loop a addrs 0 cnt = Some i" "i = 0 \<or> addrs i \<le> a"
      "Suc i = cnt \<or> a < addrs (Suc i)"
    using find_loop_spec [of 0 cnt cnt addrs a] cnt by auto
  have above: "a < addrs j" if "i < j" "j < cnt" for j
    using i(4) mono [of "Suc i" j] that by auto
  have "{j. j < cnt \<and> addrs j \<le> a} = (if addrs i \<le> a then {..i} else {})"
  proof (cases "addrs i \<le> a")
    case True
    have "{j. j < cnt \<and> addrs j \<le> a} \<subseteq> {..i}" using above by (force simp: not_less [symmetric])
    moreover have "{..i} \<subseteq> {j. j < cnt \<and> addrs j \<le> a}"
      using mono [OF _ i(1)] i(1) True by (auto intro: order_trans)
    ultimately show ?thesis using True by auto
  next
    case False
    then have "i = 0" using i(3) by simp
    then have "a < addrs j" if "j < cnt" for j using above [of j] that False by (cases "j = 0") auto
    then show ?thesis using False by (force simp: not_le)
  qed
  moreover have "addrs i \<le> a \<longleftrightarrow> addrs 0 \<le> a" using mono [of 0 i] i(1,3) by auto
  ultimately show thesis using that i by blast
qed

text \<open>The reference: the number of functions that start at or below the address.\<close>

lemma symmap_find_spec:
  assumes sorted: "\<forall>i j. i < j \<longrightarrow> j < cnt \<longrightarrow> addrs i < addrs j" and cnt: "cnt \<le> 2 ^ 63"
  shows "symmap_find_by_addr a addrs cnt = Some (card {i. i < cnt \<and> addrs i \<le> a})"
proof (cases "cnt = 0")
  case False
  from find_segment [OF assms this, of a] obtain i where "find_loop a addrs 0 cnt = Some i"
      "{j. j < cnt \<and> addrs j \<le> a} = (if addrs i \<le> a then {..i} else {})" by metis
  then show ?thesis using False by (simp add: symmap_find_by_addr_def)
qed (simp add: symmap_find_by_addr_def)

section \<open>Properties\<close>

text \<open>An address resolves to the function that contains it. With a valid symbol map whose table of
  function addresses is sorted, the query ends for every address: it fails outside the text section
  and below the first function, and otherwise gives the last function that starts at or before the
  address and the distance from its start. The module is looked up once: after the first query the
  cached address is used and the same query gives the same answer.\<close>

lemma symmap_query_correct:
  assumes load: "symmap_load modules rd64 cache = Some base" "base \<noteq> 0" "base \<noteq> 2 ^ 64 - 1"
    and cnt: "cnt = rd64 (u64 (base + 8))" "cnt \<le> 2 ^ 63"
    and addrs: "addrs = (\<lambda>i. rd64 (u64 (base + 16 + 8 * i)))" "\<forall>i. addrs i < 2 ^ 64"
    and sorted: "\<forall>i j. i < j \<longrightarrow> j < cnt \<longrightarrow> addrs i < addrs j" and a: "a < 2 ^ 64"
  shows "\<exists>info. symmap_query_addr_info modules rd64 rd32 text a cache = Some (info, base) \<and>
     symmap_query_addr_info modules rd64 rd32 text a base = Some (info, base) \<and>
     (if symmap_in_section_text text a \<and> 0 < cnt \<and> addrs 0 \<le> a
      then \<exists>i < cnt. addrs i \<le> a \<and> (Suc i < cnt \<longrightarrow> a < addrs (Suc i)) \<and>
        info = Some \<lparr>ai_name = u64 (base + rd32 (u64 (base + 16 + 8 * cnt + 4 * i))), ai_offset = a - addrs i\<rparr>
      else info = None)"
proof -
  let ?n = "card {i. i < cnt \<and> addrs i \<le> a}"
  have find: "symmap_find_by_addr a addrs cnt = Some ?n" using symmap_find_spec [OF sorted cnt(2)] .
  have same: "symmap_query_addr_info modules rd64 rd32 text a base =
      symmap_query_addr_info modules rd64 rd32 text a cache"
    using load by (simp add: symmap_query_addr_info_def symmap_load_def)
  have q: "symmap_query_addr_info modules rd64 rd32 text a cache =
      (if \<not> symmap_in_section_text text a \<or> ?n = 0 then Some (None, base)
       else Some (Some \<lparr>ai_name = u64 (base + rd32 (u64 (base + 16 + 8 * cnt + 4 * (?n - 1)))),
         ai_offset = sub64 a (addrs (?n - 1))\<rparr>, base))"
    using load find by (simp add: symmap_query_addr_info_def Let_def cnt(1) [symmetric] addrs(1) [symmetric])
  show ?thesis
  proof (cases "0 < cnt \<and> addrs 0 \<le> a")
    case True
    then have "cnt \<noteq> 0" by simp
    from find_segment [OF sorted cnt(2) this, of a] True obtain i
      where i: "i < cnt" "{j. j < cnt \<and> addrs j \<le> a} = {..i}" by auto
    then have n: "?n = Suc i" by simp
    have b: "addrs i \<le> a" "Suc i < cnt \<longrightarrow> a < addrs (Suc i)"
    proof -
      have "i \<in> {j. j < cnt \<and> addrs j \<le> a}" "Suc i \<notin> {j. j < cnt \<and> addrs j \<le> a}" unfolding i(2) by simp_all
      then show "addrs i \<le> a" "Suc i < cnt \<longrightarrow> a < addrs (Suc i)" by auto
    qed
    show ?thesis
    proof (cases "symmap_in_section_text text a")
      case True
      have "sub64 a (addrs i) = a - addrs i" using b(1) a by (simp add: sub64_le)
      then have "symmap_query_addr_info modules rd64 rd32 text a cache =
          Some (Some \<lparr>ai_name = u64 (base + rd32 (u64 (base + 16 + 8 * cnt + 4 * i))), ai_offset = a - addrs i\<rparr>, base)"
        unfolding q n using True by simp
      then show ?thesis unfolding same using b i(1) True \<open>0 < cnt \<and> addrs 0 \<le> a\<close> by auto
    next
      case False
      then show ?thesis unfolding same q by simp
    qed
  next
    case False
    then have "?n = 0" using find_segment [OF sorted cnt(2), of a] by (cases "cnt = 0") auto
    then show ?thesis using q same False by auto
  qed
qed

text \<open>Looking up a boot module finds the first module whose string starts with the requested command
  line, so that a module with a longer string also matches.\<close>

lemma module_lookup_prefix:
  assumes "CHR 0x00 \<notin> set name" "length name \<le> 128" "\<forall>m \<in> set modules. length (md_string m) = 128"
  shows "init_module_lookup (Some modules) (name @ [CHR 0x00]) =
    Some (map_option (\<lambda>m. \<lparr>im_data = md_begin m, im_size = sub64 (md_end m) (md_begin m)\<rparr>)
      (find (\<lambda>m. take (length name) (md_string m) = name) modules))"
  using module_loop_spec [OF assms] strlen_spec [of name "[]"] assms(1) by (simp add: init_module_lookup_def)

end
