(* ===== verification/Topology.thy ===== *)
theory Topology
  imports Localsched
begin

text \<open>
  \<^verbatim>\<open>thread/smp/topology.c\<close> and \<^verbatim>\<open>thread/tasking/balancer.c\<close>: the scheduling groups of the machine, their
  loads, and the choice of a core for a new task. Groups and domains are numbered in the order they are
  allocated; a pointer is such a number and a null pointer is \<^const>\<open>None\<close>. \<open>alloc\<close> says whether an
  allocation succeeds; a failed one panics and has no result.
\<close>

record thread_smp_sched_group =
  gr_next :: nat
  gr_cpus :: "nat list"
  gr_tasks_count :: nat

record thread_smp_sched_domain =
  dm_parent :: "nat option"
  dm_group :: nat
  dm_last_rebalance_tsc :: nat

record thread_smp_core =
  co_logical_id :: nat
  co_localsched :: thread_localsched_data
  co_domain :: nat
  co_root :: nat

record smp_state =
  sm_cores :: "thread_smp_core list"
  sm_groups :: "thread_smp_sched_group list"
  sm_domains :: "thread_smp_sched_domain list"

section \<open>Loads\<close>

partial_function (option) update_groups :: "(nat \<Rightarrow> nat) \<Rightarrow> nat option \<Rightarrow> smp_state \<Rightarrow> smp_state option" where
  "update_groups f domain s =
     (case domain of
        None \<Rightarrow> Some s
      | Some d \<Rightarrow>
          if d < length (sm_domains s) \<and> dm_group (sm_domains s ! d) < length (sm_groups s) then
            let g = dm_group (sm_domains s ! d); grp = sm_groups s ! g in
            update_groups f (dm_parent (sm_domains s ! d))
              (s\<lparr>sm_groups := (sm_groups s)[g := grp\<lparr>gr_tasks_count := f (gr_tasks_count grp)\<rparr>]\<rparr>)
          else None)"

definition thread_smp_topology_update_on_insert :: "nat \<Rightarrow> smp_state \<Rightarrow> smp_state option" where
  "thread_smp_topology_update_on_insert cpu s =
     (if cpu < length (sm_cores s) then update_groups inc64 (Some (co_domain (sm_cores s ! cpu))) s else None)"

definition thread_smp_topology_update_on_remove :: "nat \<Rightarrow> smp_state \<Rightarrow> smp_state option" where
  "thread_smp_topology_update_on_remove cpu s =
     (if cpu < length (sm_cores s) then update_groups dec64 (Some (co_domain (sm_cores s ! cpu))) s else None)"

section \<open>The flat topology\<close>

text \<open>The ring of groups: \<open>root\<close> is the first group, \<open>tail\<close> the last one added.\<close>

fun build_groups :: "(nat \<Rightarrow> bool) \<Rightarrow> nat \<Rightarrow> nat \<Rightarrow> thread_smp_sched_group list \<Rightarrow> nat option \<Rightarrow> nat \<Rightarrow>
    (thread_smp_sched_group list \<times> nat option) option" where
  "build_groups alloc i 0 groups root tail = Some (groups, root)"
| "build_groups alloc i (Suc n) groups root tail =
     (if \<not> alloc i then None
      else let g = length groups; grp = \<lparr>gr_next = g, gr_cpus = [i], gr_tasks_count = 0\<rparr> in
        case root of
          None \<Rightarrow> build_groups alloc (Suc i) n (groups @ [grp]) (Some g) g
        | Some r \<Rightarrow> build_groups alloc (Suc i) n
            (groups[tail := (groups ! tail)\<lparr>gr_next := g\<rparr>] @ [grp\<lparr>gr_next := r\<rparr>]) root g)"

fun build_domains :: "(nat \<Rightarrow> bool) \<Rightarrow> nat \<Rightarrow> nat \<Rightarrow> nat option \<Rightarrow> smp_state \<Rightarrow> smp_state option" where
  "build_domains alloc i 0 grp s = Some s"
| "build_domains alloc i (Suc n) grp s = do {
     g \<leftarrow> grp;
     if \<not> alloc i then None
     else let d = length (sm_domains s) in
       build_domains alloc (Suc i) n (Some (gr_next (sm_groups s ! g)))
         (s\<lparr>sm_domains := sm_domains s @ [\<lparr>dm_parent = None, dm_group = g, dm_last_rebalance_tsc = 0\<rparr>],
            sm_cores := (sm_cores s)[i := (sm_cores s ! i)\<lparr>co_domain := d, co_root := d\<rparr>]\<rparr>) }"

text \<open>\<open>bsp\<close> is the boot processor, whose running task is accounted for; the number of cores is
  \<open>thread_smp_core_max_cpus\<close>.\<close>

definition thread_smp_build_topology_flat ::
  "(nat \<Rightarrow> bool) \<Rightarrow> (nat \<Rightarrow> bool) \<Rightarrow> nat \<Rightarrow> thread_smp_core list \<Rightarrow> smp_state option" where
  "thread_smp_build_topology_flat alloc_group alloc_domain bsp cores = do {
     (groups, root) \<leftarrow> build_groups alloc_group 0 (length cores) [] None 0;
     s \<leftarrow> build_domains alloc_domain 0 (length cores) root
            \<lparr>sm_cores = cores, sm_groups = groups, sm_domains = []\<rparr>;
     thread_smp_topology_update_on_insert bsp s }"

section \<open>The balancer\<close>

text \<open>The scan for the smallest load; the first minimum wins.\<close>

fun least_scan :: "('a \<Rightarrow> nat) \<Rightarrow> 'a list \<Rightarrow> ('a \<times> nat) option \<Rightarrow> ('a \<times> nat) option" where
  "least_scan load [] result = result"
| "least_scan load (current # rest) result =
     least_scan load rest
       (case result of
          None \<Rightarrow> Some (current, load current)
        | Some (r, result_load) \<Rightarrow> if result_load > load current then Some (current, load current) else result)"

definition thread_balancer_least_busy_core :: "smp_state \<Rightarrow> thread_smp_sched_group \<Rightarrow> nat option" where
  "thread_balancer_least_busy_core s grp =
     (if gr_cpus grp = [] \<or> (\<exists>c \<in> set (gr_cpus grp). length (sm_cores s) \<le> c) then None
      else map_option (\<lambda>(core, load). co_logical_id core)
        (least_scan (\<lambda>core. ls_tasks_count (co_localsched core)) (map ((!) (sm_cores s)) (gr_cpus grp)) None))"

partial_function (option) group_loop ::
  "thread_smp_sched_group list \<Rightarrow> nat \<Rightarrow> nat \<Rightarrow> (nat \<times> nat) option \<Rightarrow> nat option" where
  "group_loop groups root current result =
     (if current < length groups then
        let current_load = gr_tasks_count (groups ! current);
            result = (case result of
               None \<Rightarrow> (current, current_load)
             | Some (r, result_load) \<Rightarrow> if result_load > current_load then (current, current_load) else (r, result_load));
            current = gr_next (groups ! current)
        in if current \<noteq> root then group_loop groups root current (Some result) else Some (fst result)
      else None)"

definition thread_balancer_least_busy_group :: "smp_state \<Rightarrow> nat \<Rightarrow> nat option" where
  "thread_balancer_least_busy_group s domain =
     (if domain < length (sm_domains s)
      then let root = dm_group (sm_domains s ! domain) in group_loop (sm_groups s) root root None
      else None)"

text \<open>\<open>cpu\<close> is the core the caller runs on; the second result says whether an interrupt is sent to the
  chosen core.\<close>

definition thread_balancer_allocate_to_any ::
  "nat \<Rightarrow> thread_task \<Rightarrow> smp_state \<Rightarrow> (nat \<times> bool \<times> smp_state) option" where
  "thread_balancer_allocate_to_any cpu task s =
     (if cpu < length (sm_cores s) then do {
        grp \<leftarrow> thread_balancer_least_busy_group s (co_root (sm_cores s ! cpu));
        target \<leftarrow> thread_balancer_least_busy_core s (sm_groups s ! grp);
        s \<leftarrow> thread_smp_topology_update_on_insert target s;
        let core = sm_cores s ! target;
        let (data, ipi) = thread_localsched_associate target task (co_localsched core);
        Some (target, ipi, s\<lparr>sm_cores := (sm_cores s)[target := core\<lparr>co_localsched := data\<rparr>]\<rparr>) }
      else None)"

section \<open>The ring\<close>

definition ring_groups :: "nat \<Rightarrow> thread_smp_sched_group list" where
  "ring_groups n = map (\<lambda>j. \<lparr>gr_next = Suc j mod n, gr_cpus = [j], gr_tasks_count = 0\<rparr>) [0..<n]"

lemma ring_groups_Suc:
  assumes "n \<noteq> 0"
  shows "(ring_groups n)[n - 1 := (ring_groups n ! (n - 1))\<lparr>gr_next := n\<rparr>] @
    [\<lparr>gr_next = 0, gr_cpus = [n], gr_tasks_count = 0\<rparr>] = ring_groups (Suc n)"
  using assms by (auto simp: ring_groups_def list_eq_iff_nth_eq nth_append nth_list_update less_Suc_eq mod_Suc)

lemma build_groups_ring:
  assumes "\<forall>j < k + n. alloc j"
  shows "build_groups alloc k n (ring_groups k) (if k = 0 then None else Some 0) (k - 1) =
    Some (ring_groups (k + n), if k + n = 0 then None else Some 0)"
  using assms
proof (induction n arbitrary: k)
  case (Suc n)
  have len: "length (ring_groups k) = k" by (simp add: ring_groups_def)
  show ?case
  proof (cases "k = 0")
    case True
    have "ring_groups 0 @ [\<lparr>gr_next = 0, gr_cpus = [0], gr_tasks_count = 0\<rparr>] = ring_groups (Suc 0)"
      by (simp add: ring_groups_def)
    then show ?thesis using Suc.IH [of 1] Suc.prems True len by simp
  next
    case False
    then show ?thesis using Suc.IH [of "Suc k"] Suc.prems ring_groups_Suc [of k] len by simp
  qed
qed simp

text \<open>The shape every later state has; only loads and run queues change.\<close>

definition flat :: "smp_state \<Rightarrow> bool" where
  "flat s \<longleftrightarrow> sm_groups s \<noteq> [] \<and> length (sm_cores s) = length (sm_groups s) \<and>
     length (sm_domains s) = length (sm_groups s) \<and>
     (\<forall>i < length (sm_groups s).
        gr_next (sm_groups s ! i) = Suc i mod length (sm_groups s) \<and> gr_cpus (sm_groups s ! i) = [i] \<and>
        dm_parent (sm_domains s ! i) = None \<and> dm_group (sm_domains s ! i) = i \<and>
        co_domain (sm_cores s ! i) = i \<and> co_root (sm_cores s ! i) = i \<and> co_logical_id (sm_cores s ! i) = i)"

abbreviation load_of :: "smp_state \<Rightarrow> nat \<Rightarrow> nat" where
  "load_of s i \<equiv> gr_tasks_count (sm_groups s ! i)"

lemma build_domains_flat:
  assumes "i + n = N" "\<forall>j < N. alloc j" "length (sm_cores s) = N" "sm_groups s = ring_groups N"
    "length (sm_domains s) = i" "\<forall>j < N. co_logical_id (sm_cores s ! j) = j" "N \<noteq> 0"
    "\<forall>j < i. dm_parent (sm_domains s ! j) = None \<and> dm_group (sm_domains s ! j) = j \<and>
       co_domain (sm_cores s ! j) = j \<and> co_root (sm_cores s ! j) = j"
  shows "\<exists>s'. build_domains alloc i n (Some (i mod N)) s = Some s' \<and> flat s' \<and> sm_groups s' = ring_groups N \<and>
    map co_localsched (sm_cores s') = map co_localsched (sm_cores s)"
  using assms
proof (induction n arbitrary: i s)
  case 0
  then show ?case by (auto simp: flat_def ring_groups_def)
next
  case (Suc n)
  let ?s = "s\<lparr>sm_domains := sm_domains s @ [\<lparr>dm_parent = None, dm_group = i mod N, dm_last_rebalance_tsc = 0\<rparr>],
      sm_cores := (sm_cores s)[i := (sm_cores s ! i)\<lparr>co_domain := i, co_root := i\<rparr>]\<rparr>"
  have lt: "i < N" "i mod N = i" using Suc.prems(1) by auto
  have nxt: "gr_next (ring_groups N ! i) = Suc i mod N" using lt by (simp add: ring_groups_def)
  have "\<exists>s'. build_domains alloc (Suc i) n (Some (Suc i mod N)) ?s = Some s' \<and> flat s' \<and>
      sm_groups s' = ring_groups N \<and> map co_localsched (sm_cores s') = map co_localsched (sm_cores ?s)"
    using Suc.prems lt by (intro Suc.IH) (auto simp: nth_append nth_list_update less_Suc_eq)
  moreover have "map co_localsched (sm_cores ?s) = map co_localsched (sm_cores s)"
    using Suc.prems lt by (auto simp: list_eq_iff_nth_eq nth_list_update)
  moreover have "build_domains alloc i (Suc n) (Some (i mod N)) s = build_domains alloc (Suc i) n (Some (Suc i mod N)) ?s"
    using Suc.prems lt nxt by (simp add: Let_def)
  ultimately show ?case by simp
qed

text \<open>Accounting for a task changes the load of its core only.\<close>

lemma update_flat:
  assumes "flat s" "i < length (sm_groups s)"
  shows "update_groups f (Some (co_domain (sm_cores s ! i))) s =
    Some (s\<lparr>sm_groups := (sm_groups s)[i := (sm_groups s ! i)\<lparr>gr_tasks_count := f (load_of s i)\<rparr>]\<rparr>)"
  using assms by (simp add: flat_def update_groups.simps [of f "Some _"] update_groups.simps [of f None] Let_def)

lemma flat_load:
  assumes "flat s" "i < length (sm_groups s)"
  shows "flat (s\<lparr>sm_groups := (sm_groups s)[i := (sm_groups s ! i)\<lparr>gr_tasks_count := v\<rparr>]\<rparr>)"
  using assms by (auto simp: flat_def nth_list_update)

lemma flat_core:
  "flat s \<Longrightarrow> flat (s\<lparr>sm_cores := (sm_cores s)[i := (sm_cores s ! i)\<lparr>co_localsched := data\<rparr>]\<rparr>)"
  by (cases "i < length (sm_cores s)") (auto simp: flat_def nth_list_update list_update_beyond)

section \<open>The search\<close>

lemma ring_next:
  assumes "r < n" "k < (n :: nat)"
  shows "Suc ((r + k) mod n) mod n = (r + Suc k) mod n"
    and "(r + Suc k) mod n = r \<longleftrightarrow> Suc k = n"
proof -
  show "Suc ((r + k) mod n) mod n = (r + Suc k) mod n" by (simp add: mod_Suc_eq)
  show "(r + Suc k) mod n = r \<longleftrightarrow> Suc k = n"
  proof (cases "Suc k = n")
    case False
    then show ?thesis using assms by (cases "r + Suc k < n") (auto simp: mod_if)
  qed (use assms in simp)
qed

lemma group_loop_ring:
  assumes f: "flat s" and n: "n = length (sm_groups s)" and r: "r < n"
  shows "k < n \<Longrightarrow>
    (case res of None \<Rightarrow> k = 0 | Some (b, l) \<Rightarrow> b < n \<and> l = load_of s b \<and> (\<forall>j < k. l \<le> load_of s ((r + j) mod n))) \<Longrightarrow>
    \<exists>g < n. group_loop (sm_groups s) r ((r + k) mod n) res = Some g \<and> (\<forall>j < n. load_of s g \<le> load_of s ((r + j) mod n))"
proof (induction "n - k" arbitrary: k res rule: less_induct)
  case less
  let ?c = "(r + k) mod n"
  have c: "?c < n" using r by auto
  have nxt: "gr_next (sm_groups s ! ?c) = (r + Suc k) mod n"
    using f c n ring_next(1) [OF r less.prems(1)] by (simp add: flat_def)
  obtain b l where b: "(case res of None \<Rightarrow> (?c, load_of s ?c)
        | Some (b', l') \<Rightarrow> if l' > load_of s ?c then (?c, load_of s ?c) else (b', l')) = (b, l)"
    by fastforce
  have best: "b < n \<and> l = load_of s b \<and> (\<forall>j < Suc k. l \<le> load_of s ((r + j) mod n))"
    using less.prems(2) b c by (auto simp: less_Suc_eq split: option.splits if_splits) (meson less_imp_le order_trans)
  have step: "group_loop (sm_groups s) r ?c res =
      (if Suc k \<noteq> n then group_loop (sm_groups s) r ((r + Suc k) mod n) (Some (b, l)) else Some b)"
    unfolding group_loop.simps [of "sm_groups s" r ?c res] Let_def b nxt
    using c ring_next(2) [OF r less.prems(1)] by (simp add: n [symmetric])
  show ?case
  proof (cases "Suc k = n")
    case True
    then show ?thesis using step best by auto
  next
    case False
    then have "n - Suc k < n - k" "Suc k < n" using less.prems(1) by auto
    from less.hyps [OF this, of "Some (b, l)"] show ?thesis using best step False by auto
  qed
qed

lemma least_busy_group_flat:
  assumes f: "flat s" and c: "c < length (sm_groups s)"
  shows "\<exists>g < length (sm_groups s). thread_balancer_least_busy_group s (co_root (sm_cores s ! c)) = Some g \<and>
     (\<forall>i < length (sm_groups s). load_of s g \<le> load_of s i)"
proof -
  let ?n = "length (sm_groups s)"
  obtain g where g: "g < ?n" "group_loop (sm_groups s) c c None = Some g"
      "\<forall>j < ?n. load_of s g \<le> load_of s ((c + j) mod ?n)"
    using group_loop_ring [OF f refl c, of 0 None] c by force
  have "load_of s g \<le> load_of s i" if "i < ?n" for i
  proof -
    have "i = (c + (i + ?n - c) mod ?n) mod ?n" using that c by (simp add: mod_simps)
    moreover have "(i + ?n - c) mod ?n < ?n" using c by (intro mod_less_divisor) linarith
    ultimately show ?thesis using g(3) by metis
  qed
  then show ?thesis using f c g by (auto simp: thread_balancer_least_busy_group_def flat_def Let_def)
qed

lemma allocate_flat:
  assumes f: "flat s" and c: "c < length (sm_groups s)"
  obtains g data ipi where "g < length (sm_groups s)" "\<forall>i < length (sm_groups s). load_of s g \<le> load_of s i"
    "thread_localsched_associate g task (co_localsched (sm_cores s ! g)) = (data, ipi)"
    "thread_balancer_allocate_to_any c task s = Some (g, ipi,
       s\<lparr>sm_groups := (sm_groups s)[g := (sm_groups s ! g)\<lparr>gr_tasks_count := inc64 (load_of s g)\<rparr>],
         sm_cores := (sm_cores s)[g := (sm_cores s ! g)\<lparr>co_localsched := data\<rparr>]\<rparr>)"
proof -
  obtain g where g: "g < length (sm_groups s)"
      "thread_balancer_least_busy_group s (co_root (sm_cores s ! c)) = Some g"
      "\<forall>i < length (sm_groups s). load_of s g \<le> load_of s i"
    using least_busy_group_flat [OF f c] by blast
  obtain data ipi where a: "thread_localsched_associate g task (co_localsched (sm_cores s ! g)) = (data, ipi)"
    by fastforce
  have len: "length (sm_cores s) = length (sm_groups s)" using f by (simp add: flat_def)
  have core: "thread_balancer_least_busy_core s (sm_groups s ! g) = Some g"
    using f g(1) by (simp add: thread_balancer_least_busy_core_def flat_def)
  show thesis
    using that [OF g(1,3) a] a c g(2) len core update_flat [OF f g(1), of inc64] g(1)
    by (simp add: thread_balancer_allocate_to_any_def thread_smp_topology_update_on_insert_def)
qed

section \<open>Properties\<close>

text \<open>A sequence of task creations, each on the core given first.\<close>

fun spawn_all :: "(nat \<times> thread_task) list \<Rightarrow> smp_state \<Rightarrow> (nat list \<times> smp_state) option" where
  "spawn_all [] s = Some ([], s)"
| "spawn_all ((cpu, task) # rest) s = do {
     (target, ipi, s) \<leftarrow> thread_balancer_allocate_to_any cpu task s;
     (targets, s) \<leftarrow> spawn_all rest s;
     Some (target # targets, s) }"

definition even_load :: "nat \<Rightarrow> smp_state \<Rightarrow> bool" where
  "even_load tasks s \<longleftrightarrow>
     (\<forall>i < length (sm_groups s). \<forall>j < length (sm_groups s). load_of s i \<le> Suc (load_of s j)) \<and>
     sum_list (map gr_tasks_count (sm_groups s)) = tasks"

lemma load_total: "even_load tasks s \<Longrightarrow> i < length (sm_groups s) \<Longrightarrow> load_of s i \<le> tasks"
  using member_le_sum_list [of "load_of s i" "map gr_tasks_count (sm_groups s)"] by (auto simp: even_load_def)

lemma even_load_step:
  assumes e: "even_load tasks s" and g: "g < length (sm_groups s)" "\<forall>i < length (sm_groups s). load_of s g \<le> load_of s i"
    and small: "Suc tasks < 2 ^ 64"
  shows "even_load (Suc tasks)
    (s\<lparr>sm_groups := (sm_groups s)[g := (sm_groups s ! g)\<lparr>gr_tasks_count := inc64 (load_of s g)\<rparr>], sm_cores := cores\<rparr>)"
proof -
  have inc: "inc64 (load_of s g) = Suc (load_of s g)" using load_total [OF e g(1)] small by (simp add: inc64_small)
  have "sum_list ((map gr_tasks_count (sm_groups s))[g := Suc (load_of s g)]) = Suc tasks"
    using e g(1) member_le_sum_list [of "load_of s g" "map gr_tasks_count (sm_groups s)"]
    by (simp add: sum_list_update even_load_def)
  then show ?thesis using e g inc by (auto simp: even_load_def nth_list_update map_update intro: le_SucI)
qed

lemma spawn_all_even:
  assumes "flat s" "even_load tasks s" "\<forall>(cpu, task) \<in> set spawns. cpu < length (sm_groups s)"
    "tasks + length spawns < 2 ^ 64"
  shows "\<exists>targets s'. spawn_all spawns s = Some (targets, s') \<and> flat s' \<and> length targets = length spawns \<and>
    length (sm_groups s') = length (sm_groups s) \<and> even_load (tasks + length spawns) s'"
  using assms
proof (induction spawns arbitrary: s tasks)
  case (Cons x spawns)
  obtain cpu task where x: "x = (cpu, task)" by fastforce
  have cpu: "cpu < length (sm_groups s)" using Cons.prems(3) x by simp
  from allocate_flat [OF Cons.prems(1) cpu, of task] obtain g data ipi where
    g: "g < length (sm_groups s)" "\<forall>i < length (sm_groups s). load_of s g \<le> load_of s i" and
    a: "thread_balancer_allocate_to_any cpu task s = Some (g, ipi,
       s\<lparr>sm_groups := (sm_groups s)[g := (sm_groups s ! g)\<lparr>gr_tasks_count := inc64 (load_of s g)\<rparr>],
         sm_cores := (sm_cores s)[g := (sm_cores s ! g)\<lparr>co_localsched := data\<rparr>]\<rparr>)" .
  let ?s = "s\<lparr>sm_groups := (sm_groups s)[g := (sm_groups s ! g)\<lparr>gr_tasks_count := inc64 (load_of s g)\<rparr>],
         sm_cores := (sm_cores s)[g := (sm_cores s ! g)\<lparr>co_localsched := data\<rparr>]\<rparr>"
  have "flat ?s" using flat_core [OF flat_load [OF Cons.prems(1) g(1)], of _ g data] by simp
  moreover have "even_load (Suc tasks) ?s" using even_load_step [OF Cons.prems(2) g] Cons.prems(4) by simp
  ultimately have "\<exists>targets s'. spawn_all spawns ?s = Some (targets, s') \<and> flat s' \<and> length targets = length spawns \<and>
      length (sm_groups s') = length (sm_groups ?s) \<and> even_load (Suc tasks + length spawns) s'"
    using Cons.prems(3,4) by (intro Cons.IH) auto
  then show ?case using a x by auto
qed simp



end
