(* ===== verification/Bootstrap.thy ===== *)
theory Bootstrap
  imports Phys_Slab
begin

text \<open>
  \<^verbatim>\<open>mem/bootstrap.c\<close> and the memory map part of \<^verbatim>\<open>mem/misc.c\<close>: the allocator used before physical memory
  management is up. It moves a border upwards through the usable entries of the boot loader's memory
  map and never gives memory back. A panic has no result. \<open>win\<close> is \<open>mem_wb_phys_win_base\<close>.
\<close>

definition STIVALE2_MMAP_USABLE :: nat where
  "STIVALE2_MMAP_USABLE = 1"

definition PHYS_LOW :: nat where
  "PHYS_LOW = 2 * 1024 * 1024"

record stivale2_mmap_entry =
  mm_base :: addr
  mm_length :: nat
  mm_type :: nat

record bootstrap =
  bs_border_offset :: addr
  bs_memmap_index :: nat
  bs_usable :: bool

text \<open>The variables as they are defined, and after \<open>mem_bootstrap_alloc_init\<close>.\<close>

definition mem_bootstrap_static :: bootstrap where
  "mem_bootstrap_static = \<lparr>bs_border_offset = PHYS_LOW, bs_memmap_index = 0, bs_usable = False\<rparr>"

definition mem_bootstrap_alloc_init :: "stivale2_mmap_entry list option \<Rightarrow> bootstrap \<Rightarrow> bootstrap option" where
  "mem_bootstrap_alloc_init memmap s = (if memmap = None then None else Some (s\<lparr>bs_usable := True\<rparr>))"

definition entry_end :: "stivale2_mmap_entry \<Rightarrow> addr" where
  "entry_end e = u64 (mm_base e + mm_length e)"

text \<open>The loop, over the entries from \<open>index\<close> on.\<close>

fun bootstrap_loop :: "nat \<Rightarrow> stivale2_mmap_entry list \<Rightarrow> nat \<Rightarrow> addr \<Rightarrow> (addr \<times> addr \<times> nat) option" where
  "bootstrap_loop real_size [] index border = None"
| "bootstrap_loop real_size (e # rest) index border =
     (if mm_type e \<noteq> STIVALE2_MMAP_USABLE then bootstrap_loop real_size rest (Suc index) border
      else if border \<ge> entry_end e then bootstrap_loop real_size rest (Suc index) border
      else let border = (if border < mm_base e then align_up (mm_base e) 16 else border) in
        if sub64 (entry_end e) border \<ge> real_size then Some (border, u64 (border + real_size), index)
        else bootstrap_loop real_size rest (Suc index) border)"

definition mem_bootstrap_alloc ::
  "addr \<Rightarrow> stivale2_mmap_entry list \<Rightarrow> nat \<Rightarrow> bootstrap \<Rightarrow> (addr \<times> bootstrap) option" where
  "mem_bootstrap_alloc win memmap sz s =
     (if \<not> bs_usable s then None
      else do {
        (block, border, index) \<leftarrow>
          bootstrap_loop (align_up sz 16) (drop (bs_memmap_index s) memmap) (bs_memmap_index s) (bs_border_offset s);
        Some (u64 (win + block), s\<lparr>bs_border_offset := border, bs_memmap_index := index\<rparr>) })"

definition mem_bootstrap_terminate_allocator :: "bootstrap \<Rightarrow> addr \<times> bootstrap" where
  "mem_bootstrap_terminate_allocator s =
     (align_up (bs_border_offset s) PAGE_SIZE, s\<lparr>bs_usable := False\<rparr>)"

text \<open>\<open>from_srat\<close> is what the firmware tables say, 0 if nothing.\<close>

definition mem_calculate_phys_space_size :: "nat \<Rightarrow> stivale2_mmap_entry list option \<Rightarrow> nat option" where
  "mem_calculate_phys_space_size from_srat memmap_tag = do {
     memmap \<leftarrow> memmap_tag;
     let space = (if from_srat = 0
       then foldl (\<lambda>space e. if entry_end e > space then entry_end e else space) 0 memmap else from_srat);
     Some (align_up space PAGE_SIZE) }"

section \<open>Memory maps\<close>

text \<open>What the boot protocol guarantees: the entries are sorted, usable ones are page aligned and overlap
  no other; everything is below \<open>lim\<close>, the size of the window at which physical memory is mapped.\<close>

definition memmap_ok :: "nat \<Rightarrow> stivale2_mmap_entry list \<Rightarrow> bool" where
  "memmap_ok lim memmap \<longleftrightarrow> lim \<le> 2 ^ 63 \<and> (\<forall>e \<in> set memmap. mm_base e + mm_length e < lim \<and>
     (mm_type e = STIVALE2_MMAP_USABLE \<longrightarrow> PAGE_SIZE dvd mm_base e \<and> PAGE_SIZE dvd mm_length e)) \<and>
     sorted_wrt (\<lambda>e e'. mm_type e = STIVALE2_MMAP_USABLE \<longrightarrow> mm_base e + mm_length e \<le> mm_base e') memmap"

lemma entry_end_ok: "memmap_ok lim memmap \<Longrightarrow> e \<in> set memmap \<Longrightarrow> entry_end e = mm_base e + mm_length e"
  by (force simp: memmap_ok_def entry_end_def u64_def)

lemma page_16: "PAGE_SIZE dvd n \<Longrightarrow> 16 dvd n"
  by (rule dvd_trans [of _ PAGE_SIZE]) (simp_all add: slab_consts)

lemma usable_base:
  assumes "memmap_ok lim memmap" "e \<in> set memmap" "mm_type e = STIVALE2_MMAP_USABLE"
  shows "align_up (mm_base e) 16 = mm_base e"
proof (rule align_up_aligned)
  have "mm_base e < lim" "lim \<le> 2 ^ 63" using assms(1,2) by (force simp: memmap_ok_def)+
  then show "mm_base e + 16 - 1 < 2 ^ 64" by simp
qed (use assms in \<open>auto simp: memmap_ok_def page_16\<close>)

text \<open>A block from the loop is in a usable entry, at or above the old border, and the new border is its
  end. When there is none, no remaining entry has room above the border.\<close>

definition room :: "addr \<Rightarrow> stivale2_mmap_entry \<Rightarrow> nat" where
  "room border e = (if mm_type e = STIVALE2_MMAP_USABLE then mm_base e + mm_length e - max border (mm_base e) else 0)"

lemma bootstrap_loop_spec:
  assumes "memmap_ok lim memmap" "16 dvd border" "16 dvd real_size" "border < lim"
  shows "case bootstrap_loop real_size memmap index border of
      Some (block, border', index') \<Rightarrow>
        border \<le> block \<and> 16 dvd block \<and> border' = block + real_size \<and> border' < lim \<and> index \<le> index' \<and>
        (\<exists>e \<in> set memmap. mm_type e = STIVALE2_MMAP_USABLE \<and> mm_base e \<le> block \<and>
           block + real_size \<le> mm_base e + mm_length e)
    | None \<Rightarrow> \<forall>e \<in> set memmap. room border e < real_size \<or> room border e = 0"
  using assms
proof (induction memmap arbitrary: index border)
  case (Cons e memmap)
  have ok: "memmap_ok lim memmap" "entry_end e = mm_base e + mm_length e" "mm_base e + mm_length e < lim" "lim \<le> 2 ^ 63"
    using Cons.prems(1) entry_end_ok [OF Cons.prems(1), of e] by (auto simp: memmap_ok_def)
  note IH = Cons.IH [OF ok(1) _ Cons.prems(3)]
  show ?case
  proof (cases "mm_type e = STIVALE2_MMAP_USABLE \<and> border < mm_base e + mm_length e")
    case False
    then have "room border e = 0" by (auto simp: room_def)
    moreover have "bootstrap_loop real_size (e # memmap) index border = bootstrap_loop real_size memmap (Suc index) border"
      using False ok(2) by auto
    ultimately show ?thesis using IH [OF Cons.prems(2,4), of "Suc index"] by (auto split: option.splits)
  next
    case True
    let ?b = "max border (mm_base e)"
    have b: "(if border < mm_base e then align_up (mm_base e) 16 else border) = ?b"
      using usable_base [OF Cons.prems(1), of e] True by auto
    have b16: "16 dvd ?b" "?b \<le> mm_base e + mm_length e"
      using Cons.prems(1,2) True page_16 by (auto simp: memmap_ok_def max_def)
    then have le: "?b < lim" using ok(3) by linarith
    have sub: "sub64 (entry_end e) ?b = mm_base e + mm_length e - ?b"
      unfolding ok(2) using b16(2) ok(3,4) by (intro sub64_le) auto
    have step: "bootstrap_loop real_size (e # memmap) index border =
        (if real_size \<le> mm_base e + mm_length e - ?b then Some (?b, u64 (?b + real_size), index)
         else bootstrap_loop real_size memmap (Suc index) ?b)"
      using True ok(2) b sub by (auto simp: Let_def)
    show ?thesis
    proof (cases "real_size \<le> mm_base e + mm_length e - ?b")
      case fits: True
      then have "?b + real_size \<le> mm_base e + mm_length e" using b16(2) by linarith
      then have "?b + real_size < lim" using ok(3) by linarith
      moreover have "lim < 2 ^ 64" using ok(4) by simp
      ultimately have "?b + real_size < lim" "?b + real_size < 2 ^ 64" by linarith+
      then show ?thesis using step fits True b16 \<open>?b + real_size \<le> mm_base e + mm_length e\<close>
        by (auto simp: u64_small)
    next
      case no: False
      have "room border e < real_size" using True no by (simp add: room_def)
      moreover have "room border e' = room ?b e'" if "e' \<in> set memmap" for e'
      proof -
        have "mm_base e + mm_length e \<le> mm_base e'" using Cons.prems(1) True that by (simp add: memmap_ok_def)
        then show ?thesis using b16(2) True by (simp add: room_def max_def)
      qed
      ultimately show ?thesis
        using IH [OF b16(1) le, of "Suc index"] unfolding step using no by (auto split: option.splits)
    qed
  qed
qed simp

section \<open>Allocation histories\<close>

text \<open>A state of the allocator with the blocks handed out so far, the newest first.\<close>

inductive boot_step :: "addr \<Rightarrow> stivale2_mmap_entry list \<Rightarrow> bootstrap \<times> (addr \<times> nat) list \<Rightarrow>
    bootstrap \<times> (addr \<times> nat) list \<Rightarrow> bool" for win memmap where
  alloc: "mem_bootstrap_alloc win memmap sz s = Some (p, s') \<Longrightarrow> sz \<le> 2 ^ 52 \<Longrightarrow>
    boot_step win memmap (s, blocks) (s', (p, sz) # blocks)"

definition in_usable :: "addr \<Rightarrow> stivale2_mmap_entry list \<Rightarrow> addr \<times> nat \<Rightarrow> bool" where
  "in_usable win memmap b \<longleftrightarrow> (\<exists>e \<in> set memmap. mm_type e = STIVALE2_MMAP_USABLE \<and>
     win + mm_base e \<le> fst b \<and> fst b + snd b \<le> win + mm_base e + mm_length e)"

definition boot_inv :: "nat \<Rightarrow> addr \<Rightarrow> stivale2_mmap_entry list \<Rightarrow> bootstrap \<times> (addr \<times> nat) list \<Rightarrow> bool" where
  "boot_inv lim win memmap x \<longleftrightarrow> (case x of (s, blocks) \<Rightarrow>
     bs_usable s \<and> 16 dvd bs_border_offset s \<and> PHYS_LOW \<le> bs_border_offset s \<and> bs_border_offset s < lim \<and>
     (\<forall>b \<in> set blocks. win + PHYS_LOW \<le> fst b \<and> fst b + snd b \<le> win + bs_border_offset s \<and>
        16 dvd (fst b - win) \<and> in_usable win memmap b) \<and>
     sorted_wrt (\<lambda>b b'. fst b' + snd b' \<le> fst b) blocks)"

lemma align16:
  assumes "sz \<le> 2 ^ 52"
  shows "16 dvd align_up sz 16" "sz \<le> align_up sz 16"
  using assms align_up_dvd [of 16 sz] align_up_ge [of 16 sz] by simp_all

lemma memmap_ok_drop: "memmap_ok lim memmap \<Longrightarrow> memmap_ok lim (drop i memmap)"
  by (auto simp: memmap_ok_def sorted_wrt_drop dest: in_set_dropD)

text \<open>One allocation, on both branches.\<close>

lemma bootstrap_alloc_spec:
  assumes ok: "memmap_ok lim memmap" and win: "win + lim \<le> 2 ^ 64" and sz: "sz \<le> 2 ^ 52"
    and i: "boot_inv lim win memmap (s, blocks)"
  shows "case mem_bootstrap_alloc win memmap sz s of
      Some (p, s') \<Rightarrow> boot_inv lim win memmap (s', (p, sz) # blocks)
    | None \<Rightarrow> \<forall>e \<in> set (drop (bs_memmap_index s) memmap).
        room (bs_border_offset s) e < align_up sz 16 \<or> room (bs_border_offset s) e = 0"
proof -
  let ?b = "bs_border_offset s" and ?r = "align_up sz 16" and ?m = "drop (bs_memmap_index s) memmap"
  have b: "bs_usable s" "16 dvd ?b" "?b < lim" "PHYS_LOW \<le> ?b" using i by (simp_all add: boot_inv_def)
  note loop = bootstrap_loop_spec [OF memmap_ok_drop [OF ok] b(2) align16(1) [OF sz] b(3),
      of "bs_memmap_index s" "bs_memmap_index s"]
  show ?thesis
  proof (cases "bootstrap_loop ?r ?m (bs_memmap_index s) ?b")
    case None
    then show ?thesis using loop b(1) by (simp add: mem_bootstrap_alloc_def)
  next
    case (Some t)
    obtain block border index where t: "t = (block, border, index)" by (metis prod_cases3)
    have l: "?b \<le> block" "16 dvd block" "border = block + ?r" "border < lim"
      and e: "\<exists>e \<in> set ?m. mm_type e = STIVALE2_MMAP_USABLE \<and> mm_base e \<le> block \<and> block + ?r \<le> mm_base e + mm_length e"
      using loop Some t by auto
    have "win + block < 2 ^ 64" using l(3,4) win by linarith
    then have a: "mem_bootstrap_alloc win memmap sz s =
        Some (win + block, s\<lparr>bs_border_offset := border, bs_memmap_index := index\<rparr>)"
      using Some t b(1) by (simp add: mem_bootstrap_alloc_def u64_small)
    have r: "sz \<le> ?r" "16 dvd ?r" using align16 [OF sz] by simp_all
    have "in_usable win memmap (win + block, sz)"
      using e r(1) by (fastforce simp: in_usable_def dest: in_set_dropD)
    then show ?thesis
      using i l r b a by (auto simp: boot_inv_def dvd_add intro: order_trans)
  qed
qed

definition boot_start :: bootstrap where
  "boot_start = \<lparr>bs_border_offset = PHYS_LOW, bs_memmap_index = 0, bs_usable = True\<rparr>"

lemma boot_start_init: "mem_bootstrap_alloc_init (Some memmap) mem_bootstrap_static = Some boot_start"
  by (simp add: mem_bootstrap_alloc_init_def mem_bootstrap_static_def boot_start_def)

lemma boot_reach_inv:
  assumes "memmap_ok lim memmap" "win + lim \<le> 2 ^ 64" "PHYS_LOW < lim"
    and "(boot_step win memmap)\<^sup>*\<^sup>* (boot_start, []) x"
  shows "boot_inv lim win memmap x"
  using assms(4)
proof (induction rule: rtranclp_induct)
  case base
  then show ?case using assms(3) by (simp add: boot_inv_def boot_start_def PHYS_LOW_def)
next
  case (step x y)
  from step.hyps(2) show ?case
  proof cases
    case (alloc sz s p s' blocks)
    then show ?thesis using bootstrap_alloc_spec [OF assms(1,2), of sz s blocks] step.IH by simp
  qed
qed

section \<open>Properties\<close>

text \<open>C32: bootstrap allocation is safe. After initialisation and any sequence of requests, with the memory map the boot protocol
  promises, the blocks handed out are 16-byte aligned, lie in usable memory above the low two
  megabytes, and do not overlap. A further request returns another such block, or panics when no
  entry that is left has room above the border. The address at which the allocator is terminated is
  page aligned and beyond every block.\<close>

theorem bootstrap_alloc_safe:
  assumes ok: "memmap_ok lim memmap" "win + lim \<le> 2 ^ 64" "PHYS_LOW < lim"
    and reach: "mem_bootstrap_alloc_init (Some memmap) mem_bootstrap_static = Some s0"
      "(boot_step win memmap)\<^sup>*\<^sup>* (s0, []) (s, blocks)"
    and sz: "sz \<le> 2 ^ 52"
  shows "(\<forall>(p, n) \<in> set blocks. 16 dvd (p - win) \<and> win + PHYS_LOW \<le> p \<and> in_usable win memmap (p, n)) \<and>
    (\<forall>i < length blocks. \<forall>j < i. fst (blocks ! i) + snd (blocks ! i) \<le> fst (blocks ! j)) \<and>
    (case mem_bootstrap_alloc win memmap sz s of
       Some (p, s') \<Rightarrow> in_usable win memmap (p, sz) \<and> 16 dvd (p - win) \<and> (\<forall>(q, n) \<in> set blocks. q + n \<le> p)
     | None \<Rightarrow> \<forall>e \<in> set (drop (bs_memmap_index s) memmap).
         room (bs_border_offset s) e < align_up sz 16 \<or> room (bs_border_offset s) e = 0) \<and>
    (\<forall>(p, n) \<in> set blocks. p + n \<le> win + fst (mem_bootstrap_terminate_allocator s)) \<and>
    PAGE_SIZE dvd fst (mem_bootstrap_terminate_allocator s)"
proof -
  have "s0 = boot_start" using reach(1) boot_start_init by simp
  then have i: "boot_inv lim win memmap (s, blocks)" using boot_reach_inv [OF ok] reach(2) by simp
  have b: "bs_border_offset s < 2 ^ 63"
    using i ok(1) by (auto simp: boot_inv_def memmap_ok_def intro: less_le_trans)
  have t: "bs_border_offset s \<le> fst (mem_bootstrap_terminate_allocator s)"
      "PAGE_SIZE dvd fst (mem_bootstrap_terminate_allocator s)"
    using b align_up_ge [of PAGE_SIZE "bs_border_offset s"] align_up_dvd
    by (simp_all add: mem_bootstrap_terminate_allocator_def slab_consts)
  have "case mem_bootstrap_alloc win memmap sz s of
       Some (p, s') \<Rightarrow> in_usable win memmap (p, sz) \<and> 16 dvd (p - win) \<and> (\<forall>(q, n) \<in> set blocks. q + n \<le> p)
     | None \<Rightarrow> \<forall>e \<in> set (drop (bs_memmap_index s) memmap).
         room (bs_border_offset s) e < align_up sz 16 \<or> room (bs_border_offset s) e = 0"
    using bootstrap_alloc_spec [OF ok(1,2) sz i] by (auto simp: boot_inv_def split: option.splits)
  moreover have "\<forall>i < length blocks. \<forall>j < i. fst (blocks ! i) + snd (blocks ! i) \<le> fst (blocks ! j)"
    using i by (auto simp: boot_inv_def sorted_wrt_iff_nth_less)
  moreover have "\<forall>(p, n) \<in> set blocks. p + n \<le> win + fst (mem_bootstrap_terminate_allocator s)"
    using i t(1) by (fastforce simp: boot_inv_def)
  ultimately show ?thesis using i t(2) by (auto simp: boot_inv_def)
qed

theorem bootstrap_alloc_safe_witness:
  "\<exists>p s'. mem_bootstrap_alloc 0 [\<lparr>mm_base = 4096, mm_length = 4194304, mm_type = 1\<rparr>] 100 boot_start = Some (p, s') \<and>
     in_usable 0 [\<lparr>mm_base = 4096, mm_length = 4194304, mm_type = 1\<rparr>] (p, 100)"
proof -
  let ?m = "[\<lparr>mm_base = 4096, mm_length = 4194304, mm_type = 1\<rparr>]"
  have ok: "memmap_ok (2 ^ 40) ?m"
    by (simp add: memmap_ok_def STIVALE2_MMAP_USABLE_def slab_consts)
  have "mem_bootstrap_alloc 0 ?m 100 boot_start \<noteq> None"
    by (simp add: mem_bootstrap_alloc_def boot_start_def STIVALE2_MMAP_USABLE_def PHYS_LOW_def entry_end_def
        u64_def sub64_def align_up_def align_down_def)
  then show ?thesis
    using bootstrap_alloc_safe [OF ok, of 0 boot_start boot_start "[]" 100] boot_start_init [of ?m]
    by (auto simp: PHYS_LOW_def split: option.splits)
qed

text \<open>The size of the physical address space covers every entry of the memory map.\<close>

lemma phys_space_covers:
  assumes "memmap_ok lim memmap" "e \<in> set memmap"
  shows "\<exists>n. mem_calculate_phys_space_size 0 (Some memmap) = Some n \<and> mm_base e + mm_length e \<le> n \<and> PAGE_SIZE dvd n"
proof -
  have fold: "(\<forall>e \<in> set es. entry_end e \<le> foldl (\<lambda>space e. if entry_end e > space then entry_end e else space) n es) \<and>
      n \<le> foldl (\<lambda>space e. if entry_end e > space then entry_end e else space) n es" for es n
  proof (induction es arbitrary: n)
    case (Cons e es)
    then have "(if entry_end e > n then entry_end e else n) \<le> foldl (\<lambda>space e. if entry_end e > space then entry_end e else space) n (e # es)"
      by simp
    then have "entry_end e \<le> foldl (\<lambda>space e. if entry_end e > space then entry_end e else space) n (e # es)"
      "n \<le> foldl (\<lambda>space e. if entry_end e > space then entry_end e else space) n (e # es)"
      by (auto split: if_splits)
    then show ?case using Cons [of "if entry_end e > n then entry_end e else n"] by auto
  qed simp
  have bound: "foldl (\<lambda>space e. if entry_end e > space then entry_end e else space) n es < 2 ^ 63"
    if "n < 2 ^ 63" "\<forall>e \<in> set es. entry_end e < 2 ^ 63" for es n
    using that by (induction es arbitrary: n) auto
  let ?n = "foldl (\<lambda>space e. if entry_end e > space then entry_end e else space) 0 memmap"
  have "entry_end e' < 2 ^ 63" if "e' \<in> set memmap" for e'
    using entry_end_ok [OF assms(1) that] assms(1) that by (force simp: memmap_ok_def)
  then have "?n < 2 ^ 63" by (intro bound) auto
  then have "?n \<le> align_up ?n PAGE_SIZE" by (intro align_up_ge) (simp_all add: slab_consts)
  moreover have "entry_end e \<le> ?n" using fold [of memmap 0] assms(2) by blast
  ultimately show ?thesis
    using entry_end_ok [OF assms] align_up_dvd by (simp add: mem_calculate_phys_space_size_def)
qed

end
