(* ===== verification/Acpi.thy ===== *)
theory Acpi
  imports Strings
begin

text \<open>
  \<^verbatim>\<open>sys/acpi/acpi.c\<close> and \<^verbatim>\<open>sys/acpi/smp.c\<close>: finding the firmware tables and reading the processors from the
  MADT. Memory is a function from addresses to bytes, which the firmware has filled; a table is its
  address, 0 when there is none. The packed structures of \<^verbatim>\<open>sys/acpi/acpi.h\<close> are offsets. The tables are
  sequences of entries that carry their own length; all loops over them are instances of \<open>walk\<close>.
\<close>

type_synonym bytes = "addr \<Rightarrow> nat"

definition rd32 :: "bytes \<Rightarrow> addr \<Rightarrow> nat" where
  "rd32 rd8 a = rd8 a + 2 ^ 8 * rd8 (a + 1) + 2 ^ 16 * rd8 (a + 2) + 2 ^ 24 * rd8 (a + 3)"

definition rd64 :: "bytes \<Rightarrow> addr \<Rightarrow> nat" where
  "rd64 rd8 a = rd32 rd8 a + 2 ^ 32 * rd32 rd8 (a + 4)"

section \<open>Tables\<close>

fun checksum_loop :: "bytes \<Rightarrow> addr \<Rightarrow> nat \<Rightarrow> nat \<Rightarrow> nat" where
  "checksum_loop rd8 a 0 m = m"
| "checksum_loop rd8 a (Suc n) m = checksum_loop rd8 (a + 1) n ((m + rd8 a) mod 2 ^ 8)"

definition acpi_validate_checksum :: "bytes \<Rightarrow> addr \<Rightarrow> nat \<Rightarrow> bool" where
  "acpi_validate_checksum rd8 table len \<longleftrightarrow> checksum_loop rd8 table len 0 = 0"

record acpi_state =
  acpi_boot_srat :: addr
  acpi_boot_madt :: addr
  acpi_boot_slit :: addr
  acpi_boot_rsdt :: addr
  acpi_boot_xsdt :: addr
  acpi_boot_fadt :: addr
  acpi_revision :: nat

definition acpi_static :: acpi_state where
  "acpi_static = \<lparr>acpi_boot_srat = 0, acpi_boot_madt = 0, acpi_boot_slit = 0, acpi_boot_rsdt = 0,
     acpi_boot_xsdt = 0, acpi_boot_fadt = 0, acpi_revision = 0\<rparr>"

definition SIZEOF_acpi_sdt_header :: nat where
  "SIZEOF_acpi_sdt_header = 36"

definition hdr_length :: "bytes \<Rightarrow> addr \<Rightarrow> nat" where
  "hdr_length rd8 table = rd32 rd8 (table + 4)"

definition hdr_signature :: "bytes \<Rightarrow> addr \<Rightarrow> char list" where
  "hdr_signature rd8 table = map (\<lambda>i. char_of (rd8 (table + i))) [0..<4]"

text \<open>The loop over the table pointers, given as the list of their values.\<close>

fun find_table_loop :: "bytes \<Rightarrow> addr \<Rightarrow> char list \<Rightarrow> addr list \<Rightarrow> nat \<Rightarrow> addr option" where
  "find_table_loop rd8 win name [] to_skip = Some 0"
| "find_table_loop rd8 win name (table_phys # rest) to_skip = do {
     let header = u64 (table_phys + win);
     r \<leftarrow> memcmp (hdr_signature rd8 header) name 4;
     if r = 0 then (if to_skip = 0 then Some header else find_table_loop rd8 win name rest (to_skip - 1))
     else find_table_loop rd8 win name rest to_skip }"

definition acpi_find_in_rsdt :: "bytes \<Rightarrow> addr \<Rightarrow> addr \<Rightarrow> char list \<Rightarrow> nat \<Rightarrow> addr option" where
  "acpi_find_in_rsdt rd8 win rsdt name index =
     (let tables_count = sub64 (hdr_length rd8 rsdt) SIZEOF_acpi_sdt_header div 4 in
      find_table_loop rd8 win name (map (\<lambda>i. rd32 rd8 (rsdt + SIZEOF_acpi_sdt_header + 4 * i)) [0..<tables_count]) index)"

definition acpi_find_in_xsdt :: "bytes \<Rightarrow> addr \<Rightarrow> addr \<Rightarrow> char list \<Rightarrow> nat \<Rightarrow> addr option" where
  "acpi_find_in_xsdt rd8 win xsdt name index =
     (let tables_count = sub64 (hdr_length rd8 xsdt) SIZEOF_acpi_sdt_header div 8 in
      find_table_loop rd8 win name (map (\<lambda>i. rd64 rd8 (xsdt + SIZEOF_acpi_sdt_header + 8 * i)) [0..<tables_count]) index)"

definition acpi_find_table :: "bytes \<Rightarrow> addr \<Rightarrow> acpi_state \<Rightarrow> char list \<Rightarrow> nat \<Rightarrow> addr option" where
  "acpi_find_table rd8 win s name index = do {
     dsdt \<leftarrow> memcmp name ''DSDT'' 4;
     if dsdt = 0 then
       (if index \<noteq> 0 then None
        else if acpi_boot_fadt s = 0 then Some 0
        else let dsdt_ex = rd64 rd8 (acpi_boot_fadt s + 140); dsdt = rd32 rd8 (acpi_boot_fadt s + 40) in
          if dsdt_ex \<noteq> 0 \<and> acpi_revision s \<ge> 2 then Some (u64 (win + dsdt_ex))
          else if dsdt \<noteq> 0 then Some (u64 (win + dsdt))
          else Some 0)
     else if acpi_boot_xsdt s = 0 then
       (if acpi_boot_rsdt s = 0 then None else acpi_find_in_rsdt rd8 win (acpi_boot_rsdt s) name index)
     else acpi_find_in_xsdt rd8 win (acpi_boot_xsdt s) name index }"

text \<open>The distance matrix: 10 on the diagonal, more elsewhere; an unreachable node (255) panics.\<close>

definition slit_localities :: "bytes \<Rightarrow> addr \<Rightarrow> nat" where
  "slit_localities rd8 slit = rd64 rd8 (slit + SIZEOF_acpi_sdt_header)"

definition slit_lengths :: "bytes \<Rightarrow> addr \<Rightarrow> nat \<Rightarrow> nat" where
  "slit_lengths rd8 slit i = rd8 (slit + SIZEOF_acpi_sdt_header + 8 + i)"

fun slit_loop :: "(nat \<Rightarrow> nat \<Rightarrow> nat) \<Rightarrow> (nat \<times> nat) list \<Rightarrow> bool option" where
  "slit_loop dist [] = Some True"
| "slit_loop dist ((i, j) # rest) =
     (if i = j \<and> dist i j \<noteq> 10 then Some False
      else if i \<noteq> j \<and> dist i j \<le> 10 then Some False
      else if dist i j = 255 then None
      else slit_loop dist rest)"

definition acpi_validate_slit :: "bytes \<Rightarrow> addr \<Rightarrow> bool option" where
  "acpi_validate_slit rd8 slit =
     (let n = slit_localities rd8 slit in
      slit_loop (\<lambda>i j. slit_lengths rd8 slit (i * n + j)) (List.product [0..<n] [0..<n]))"

text \<open>A checksum that does not match is only logged.\<close>

definition acpi_init :: "bytes \<Rightarrow> addr \<Rightarrow> addr option \<Rightarrow> acpi_state \<Rightarrow> acpi_state option" where
  "acpi_init rd8 win rsdp_tag s =
     (case rsdp_tag of
        None \<Rightarrow> Some s
      | Some rsdp \<Rightarrow> do {
          let s = (if rd8 (rsdp + 15) = 0
            then s\<lparr>acpi_revision := 1, acpi_boot_rsdt := u64 (win + rd32 rd8 (rsdp + 16))\<rparr>
            else s\<lparr>acpi_revision := rd8 (rsdp + 15), acpi_boot_xsdt := u64 (win + rd64 rd8 (rsdp + 24))\<rparr>);
          madt \<leftarrow> acpi_find_table rd8 win s ''APIC'' 0;
          slit \<leftarrow> acpi_find_table rd8 win s ''SLIT'' 0;
          srat \<leftarrow> acpi_find_table rd8 win s ''SRAT'' 0;
          fadt \<leftarrow> acpi_find_table rd8 win s ''FACP'' 0;
          slit \<leftarrow> (if slit \<noteq> 0 then map_option (\<lambda>ok. if ok then slit else 0) (acpi_validate_slit rd8 slit)
                  else Some 0);
          Some (s\<lparr>acpi_boot_madt := madt, acpi_boot_slit := slit, acpi_boot_srat := srat, acpi_boot_fadt := fadt\<rparr>) })"

section \<open>Entries\<close>

text \<open>\<open>walk\<close> visits the entries between two addresses; the body either returns (left) or goes on with new
  local variables (right). The second result is the address of the next entry.\<close>

partial_function (option) walk ::
  "bytes \<Rightarrow> (addr \<Rightarrow> 's \<Rightarrow> 'r + 's) \<Rightarrow> addr \<Rightarrow> addr \<Rightarrow> 's \<Rightarrow> (('r + 's) \<times> addr) option" where
  "walk rd8 body address end_address s =
     (if address < end_address then
        case body address s of
          Inl r \<Rightarrow> Some (Inl r, u64 (address + rd8 (address + 1)))
        | Inr s \<Rightarrow> walk rd8 body (u64 (address + rd8 (address + 1))) end_address s
      else Some (Inr s, address))"

text \<open>What the walk does on a sequence of decoded entries.\<close>

fun scan :: "('e \<Rightarrow> 's \<Rightarrow> 'r + 's) \<Rightarrow> 'e list \<Rightarrow> 's \<Rightarrow> ('r \<times> 'e list) + 's" where
  "scan g [] s = Inr s"
| "scan g (e # es) s = (case g e s of Inl r \<Rightarrow> Inl (r, es) | Inr s \<Rightarrow> scan g es s)"

text \<open>A sequence of entries in memory, given how one entry lies there and how long it is.\<close>

fun entries_at :: "(bytes \<Rightarrow> addr \<Rightarrow> 'e \<Rightarrow> bool) \<Rightarrow> ('e \<Rightarrow> nat) \<Rightarrow> bytes \<Rightarrow> addr \<Rightarrow> 'e list \<Rightarrow> bool" where
  "entries_at entry_at elen rd8 a [] = True"
| "entries_at entry_at elen rd8 a (e # es) \<longleftrightarrow>
     entry_at rd8 a e \<and> entries_at entry_at elen rd8 (a + elen e) es"

definition total_len :: "('e \<Rightarrow> nat) \<Rightarrow> 'e list \<Rightarrow> nat" where
  "total_len elen es = sum_list (map elen es)"

lemma total_len_simps [simp]: "total_len elen [] = 0" "total_len elen (e # es) = elen e + total_len elen es"
  by (simp_all add: total_len_def)

lemma scan_len: "scan g es s = Inl (r, rest) \<Longrightarrow> total_len elen rest \<le> total_len elen es"
  by (induction es arbitrary: s) (auto split: sum.splits intro: trans_le_add2)

locale entry_table =
  fixes entry_at :: "bytes \<Rightarrow> addr \<Rightarrow> 'e \<Rightarrow> bool" and elen :: "'e \<Rightarrow> nat"
  assumes entry_length: "entry_at rd8 a e \<Longrightarrow> rd8 (a + 1) = elen e \<and> 0 < elen e"
begin

lemma walk_scan:
  assumes "entries_at entry_at elen rd8 a es" "a + total_len elen es < 2 ^ 64"
    "\<And>a e s. entry_at rd8 a e \<Longrightarrow> body a s = g e s"
  shows "walk rd8 body a (a + total_len elen es) s =
    Some (case scan g es s of
        Inl (r, rest) \<Rightarrow> (Inl r, a + (total_len elen es - total_len elen rest))
      | Inr s \<Rightarrow> (Inr s, a + total_len elen es))"
  using assms(1,2)
proof (induction es arbitrary: a s)
  case (Cons e es)
  have e: "rd8 (a + 1) = elen e" "0 < elen e" "body a s = g e s"
    using Cons.prems(1) entry_length assms(3) by auto
  have u: "u64 (a + rd8 (a + 1)) = a + elen e" unfolding e(1) using Cons.prems(2) by (intro u64_small) simp
  show ?case
  proof (cases "g e s")
    case (Inl r)
    then show ?thesis using e u by (simp add: walk.simps [of rd8 body a])
  next
    case (Inr s')
    then have "walk rd8 body a (a + total_len elen (e # es)) s =
        walk rd8 body (a + elen e) (a + elen e + total_len elen es) s'"
      using e u by (simp add: walk.simps [of rd8 body a] add.assoc)
    then show ?thesis using Cons Inr scan_len [of g es s' _ _ elen] by (auto split: sum.splits)
  qed
qed (simp add: walk.simps)

text \<open>After an early return the remaining entries are where the walk stopped.\<close>

lemma scan_rest:
  assumes "entries_at entry_at elen rd8 a es" "scan g es s = Inl (r, rest)"
  shows "entries_at entry_at elen rd8 (a + (total_len elen es - total_len elen rest)) rest"
  using assms
proof (induction es arbitrary: a s)
  case (Cons e es)
  show ?case
  proof (cases "g e s")
    case (Inr s')
    then have "entries_at entry_at elen rd8 (a + elen e + (total_len elen es - total_len elen rest)) rest"
        "total_len elen rest \<le> total_len elen es"
      using Cons.IH [of "a + elen e" s'] Cons.prems scan_len [of g es s'] by auto
    then show ?thesis by (simp add: add.assoc)
  qed (use Cons.prems in auto)
qed simp

end

section \<open>Processors\<close>

definition ACPI_MADT_XAPIC_ENTRY :: nat where
  "ACPI_MADT_XAPIC_ENTRY = 0"

definition ACPI_MADT_X2APIC_ENTRY :: nat where
  "ACPI_MADT_X2APIC_ENTRY = 9"

definition SIZEOF_acpi_madt :: nat where
  "SIZEOF_acpi_madt = 44"

datatype acpi_madt_lapic_entry_prop =
    ACPI_MADT_LAPIC_PROP_LOGICAL_ID
  | ACPI_MADT_LAPIC_PROP_ACPI_ID
  | ACPI_MADT_LAPIC_PROP_APIC_ID

definition acpi_madt_xapic_load_prop :: "bytes \<Rightarrow> addr \<Rightarrow> acpi_madt_lapic_entry_prop \<Rightarrow> nat \<Rightarrow> nat" where
  "acpi_madt_xapic_load_prop rd8 entry prop lid =
     (case prop of
        ACPI_MADT_LAPIC_PROP_LOGICAL_ID \<Rightarrow> lid
      | ACPI_MADT_LAPIC_PROP_ACPI_ID \<Rightarrow> rd8 (entry + 2)
      | ACPI_MADT_LAPIC_PROP_APIC_ID \<Rightarrow> rd8 (entry + 3))"

definition acpi_madt_x2apic_load_prop :: "bytes \<Rightarrow> addr \<Rightarrow> acpi_madt_lapic_entry_prop \<Rightarrow> nat \<Rightarrow> nat" where
  "acpi_madt_x2apic_load_prop rd8 entry prop lid =
     (case prop of
        ACPI_MADT_LAPIC_PROP_LOGICAL_ID \<Rightarrow> lid
      | ACPI_MADT_LAPIC_PROP_ACPI_ID \<Rightarrow> rd32 rd8 (entry + 12)
      | ACPI_MADT_LAPIC_PROP_APIC_ID \<Rightarrow> rd32 rd8 (entry + 4))"

definition convert_body ::
  "bytes \<Rightarrow> acpi_madt_lapic_entry_prop \<Rightarrow> acpi_madt_lapic_entry_prop \<Rightarrow> nat \<Rightarrow> addr \<Rightarrow> nat \<Rightarrow> nat + nat" where
  "convert_body rd8 matched returned expected entry logical_id =
     (if rd8 entry = ACPI_MADT_XAPIC_ENTRY then
        (if rd32 rd8 (entry + 4) mod 4 = 0 then Inr logical_id
         else if acpi_madt_xapic_load_prop rd8 entry matched logical_id = expected
         then Inl (acpi_madt_xapic_load_prop rd8 entry returned logical_id)
         else Inr (u32 (logical_id + 1)))
      else if rd8 entry = ACPI_MADT_X2APIC_ENTRY then
        (if rd32 rd8 (entry + 8) mod 4 = 0 then Inr logical_id
         else if acpi_madt_x2apic_load_prop rd8 entry matched logical_id = expected
         then Inl (acpi_madt_x2apic_load_prop rd8 entry returned logical_id)
         else Inr (u32 (logical_id + 1)))
      else Inr logical_id)"

text \<open>A search that finds nothing panics.\<close>

definition acpi_madt_convert_ids ::
  "bytes \<Rightarrow> acpi_state \<Rightarrow> acpi_madt_lapic_entry_prop \<Rightarrow> acpi_madt_lapic_entry_prop \<Rightarrow> nat \<Rightarrow> nat option" where
  "acpi_madt_convert_ids rd8 s matched returned expected =
     (if acpi_boot_madt s = 0 then Some 0
      else do {
        (r, _) \<leftarrow> walk rd8 (convert_body rd8 matched returned expected) (acpi_boot_madt s + SIZEOF_acpi_madt)
               (acpi_boot_madt s + hdr_length rd8 (acpi_boot_madt s)) 0;
        case r of Inl v \<Rightarrow> Some v | Inr _ \<Rightarrow> None })"

definition count_body :: "bytes \<Rightarrow> addr \<Rightarrow> nat \<Rightarrow> unit + nat" where
  "count_body rd8 entry cpus =
     (if rd8 entry = ACPI_MADT_XAPIC_ENTRY then
        (if rd32 rd8 (entry + 4) mod 4 = 0 then Inr cpus else Inr (u32 (cpus + 1)))
      else if rd8 entry = ACPI_MADT_X2APIC_ENTRY then
        (if rd32 rd8 (entry + 8) mod 4 = 0 then Inr cpus else Inr (u32 (cpus + 1)))
      else Inr cpus)"

definition acpi_smp_get_max_cpus :: "bytes \<Rightarrow> acpi_state \<Rightarrow> nat option" where
  "acpi_smp_get_max_cpus rd8 s =
     (if acpi_boot_madt s = 0 then Some 1
      else do {
        (r, _) \<leftarrow> walk rd8 (count_body rd8) (acpi_boot_madt s + SIZEOF_acpi_madt)
               (acpi_boot_madt s + hdr_length rd8 (acpi_boot_madt s)) 0;
        case r of Inl _ \<Rightarrow> None | Inr cpus \<Rightarrow> Some cpus })"

record acpi_smp_cpu_iterator =
  it_offset :: nat
  it_logical_id :: nat

record acpi_smp_cpu =
  cpu_acpi_id :: nat
  cpu_apic_id :: nat
  cpu_logical_id :: nat

definition ACPI_SMP_CPU_ITERATOR_INIT :: acpi_smp_cpu_iterator where
  "ACPI_SMP_CPU_ITERATOR_INIT = \<lparr>it_offset = 0, it_logical_id = 0\<rparr>"

definition iterate_body :: "bytes \<Rightarrow> addr \<Rightarrow> unit \<Rightarrow> (nat \<times> nat) + unit" where
  "iterate_body rd8 entry u =
     (if rd8 entry = ACPI_MADT_XAPIC_ENTRY then
        (if rd32 rd8 (entry + 4) mod 4 = 0 then Inr u else Inl (rd8 (entry + 2), rd8 (entry + 3)))
      else if rd8 entry = ACPI_MADT_X2APIC_ENTRY then
        (if rd32 rd8 (entry + 8) mod 4 = 0 then Inr u else Inl (rd32 rd8 (entry + 12), rd32 rd8 (entry + 4)))
      else Inr u)"

text \<open>The first result is the processor found, if any (the code returns whether there is one).\<close>

definition acpi_smp_iterate_over_cpus ::
  "bytes \<Rightarrow> acpi_state \<Rightarrow> acpi_smp_cpu_iterator \<Rightarrow> (acpi_smp_cpu option \<times> acpi_smp_cpu_iterator) option" where
  "acpi_smp_iterate_over_cpus rd8 s iter =
     (let madt = acpi_boot_madt s in
      if madt = 0 then Some (None, iter\<lparr>it_offset := 1\<rparr>)
      else do {
        (r, address) \<leftarrow> walk rd8 (iterate_body rd8) (madt + SIZEOF_acpi_madt + it_offset iter) (madt + hdr_length rd8 madt) ();
        case r of
          Inl (acpi, apic) \<Rightarrow>
            Some (Some \<lparr>cpu_acpi_id = acpi, cpu_apic_id = apic, cpu_logical_id = it_logical_id iter\<rparr>,
              \<lparr>it_offset = address - (madt + SIZEOF_acpi_madt), it_logical_id = u32 (it_logical_id iter + 1)\<rparr>)
        | Inr _ \<Rightarrow> Some (None, iter\<lparr>it_offset := address - (madt + SIZEOF_acpi_madt)\<rparr>) })"

subsection \<open>Decoded entries\<close>

datatype madt_entry =
    Xapic (acpi_id: nat) (apic_id: nat) (lapic_flags: nat)
  | X2apic (acpi_id: nat) (apic_id: nat) (lapic_flags: nat)
  | Other_madt nat nat

fun madt_entry_at :: "bytes \<Rightarrow> addr \<Rightarrow> madt_entry \<Rightarrow> bool" where
  "madt_entry_at rd8 a (Xapic acpi apic flags) \<longleftrightarrow>
     rd8 a = 0 \<and> rd8 (a + 1) = 8 \<and> rd8 (a + 2) = acpi \<and> rd8 (a + 3) = apic \<and> rd32 rd8 (a + 4) = flags"
| "madt_entry_at rd8 a (X2apic acpi apic flags) \<longleftrightarrow>
     rd8 a = 9 \<and> rd8 (a + 1) = 16 \<and> rd32 rd8 (a + 4) = apic \<and> rd32 rd8 (a + 8) = flags \<and> rd32 rd8 (a + 12) = acpi"
| "madt_entry_at rd8 a (Other_madt ty len) \<longleftrightarrow> rd8 a = ty \<and> ty \<noteq> 0 \<and> ty \<noteq> 9 \<and> rd8 (a + 1) = len \<and> 2 \<le> len"

fun madt_len :: "madt_entry \<Rightarrow> nat" where
  "madt_len (Xapic acpi apic flags) = 8"
| "madt_len (X2apic acpi apic flags) = 16"
| "madt_len (Other_madt ty len) = len"

interpretation madt: entry_table madt_entry_at madt_len
proof
  show "madt_entry_at rd8 a e \<Longrightarrow> rd8 (a + 1) = madt_len e \<and> 0 < madt_len e" for rd8 a e
    by (cases e) auto
qed

text \<open>The table as a whole: its entries and the length in its header.\<close>

definition madt_at :: "bytes \<Rightarrow> addr \<Rightarrow> madt_entry list \<Rightarrow> bool" where
  "madt_at rd8 madt es \<longleftrightarrow> madt \<noteq> 0 \<and> entries_at madt_entry_at madt_len rd8 (madt + SIZEOF_acpi_madt) es \<and>
     hdr_length rd8 madt = SIZEOF_acpi_madt + total_len madt_len es \<and>
     madt + hdr_length rd8 madt < 2 ^ 64 \<and> length es < 2 ^ 32"

fun enabled :: "madt_entry \<Rightarrow> bool" where
  "enabled (Other_madt ty len) = False"
| "enabled e = (lapic_flags e mod 4 \<noteq> 0)"

definition cpus_of :: "madt_entry list \<Rightarrow> madt_entry list" where
  "cpus_of es = filter enabled es"

lemma cpus_of_simps [simp]:
  "cpus_of [] = []" "cpus_of (e # es) = (if enabled e then e # cpus_of es else cpus_of es)"
  by (simp_all add: cpus_of_def)

lemma cpus_of_len: "length (cpus_of es) \<le> length es"
  by (simp add: cpus_of_def)

fun load_prop :: "acpi_madt_lapic_entry_prop \<Rightarrow> nat \<Rightarrow> madt_entry \<Rightarrow> nat" where
  "load_prop ACPI_MADT_LAPIC_PROP_LOGICAL_ID lid e = lid"
| "load_prop ACPI_MADT_LAPIC_PROP_ACPI_ID lid e = acpi_id e"
| "load_prop ACPI_MADT_LAPIC_PROP_APIC_ID lid e = apic_id e"

lemmas madt_defs = ACPI_MADT_XAPIC_ENTRY_def ACPI_MADT_X2APIC_ENTRY_def

lemma convert_body_entry:
  "madt_entry_at rd8 a e \<Longrightarrow> convert_body rd8 m r x a lid =
     (if \<not> enabled e then Inr lid else if load_prop m lid e = x then Inl (load_prop r lid e) else Inr (u32 (lid + 1)))"
  by (cases e; cases m; cases r)
    (auto simp: convert_body_def madt_defs acpi_madt_xapic_load_prop_def acpi_madt_x2apic_load_prop_def)

lemma count_body_entry:
  "madt_entry_at rd8 a e \<Longrightarrow> count_body rd8 a n = (if enabled e then Inr (u32 (n + 1)) else Inr n)"
  by (cases e) (auto simp: count_body_def madt_defs)

lemma iterate_body_entry:
  "madt_entry_at rd8 a e \<Longrightarrow> iterate_body rd8 a u = (if enabled e then Inl (acpi_id e, apic_id e) else Inr u)"
  by (cases e) (auto simp: iterate_body_def madt_defs)

lemma scan_count:
  "n + length (cpus_of es) < 2 ^ 32 \<Longrightarrow>
     scan (\<lambda>e n. if enabled e then Inr (u32 (n + 1)) else Inr n) es n = Inr (n + length (cpus_of es))"
  by (induction es arbitrary: n) (auto simp: u32_def)

lemma scan_iterate:
  "case scan (\<lambda>e u. if enabled e then Inl (acpi_id e, apic_id e) else Inr u) es () of
     Inl ((acpi, apic), rest) \<Rightarrow> \<exists>c. cpus_of es = c # cpus_of rest \<and> acpi = acpi_id c \<and> apic = apic_id c
   | Inr u \<Rightarrow> cpus_of es = []"
  by (induction es) (auto split: sum.splits)

lemma scan_convert:
  assumes "lid + length (cpus_of es) < 2 ^ 32"
    "i < length (cpus_of es)" "load_prop m (lid + i) (cpus_of es ! i) = x"
    "\<forall>j < i. load_prop m (lid + j) (cpus_of es ! j) \<noteq> x"
  shows "\<exists>rest. scan (\<lambda>e lid. if \<not> enabled e then Inr lid
      else if load_prop m lid e = x then Inl (load_prop r lid e) else Inr (u32 (lid + 1))) es lid =
    Inl (load_prop r (lid + i) (cpus_of es ! i), rest)"
  using assms
proof (induction es arbitrary: lid i)
  case (Cons e es)
  show ?case
  proof (cases "enabled e")
    case True
    then have c: "cpus_of (e # es) = e # cpus_of es" by (simp add: cpus_of_def)
    show ?thesis
    proof (cases i)
      case 0
      then show ?thesis using Cons.prems(3) True c by simp
    next
      case (Suc k)
      have "load_prop m lid e \<noteq> x" using Cons.prems(4) Suc c by fastforce
      moreover have "u32 (lid + 1) = Suc lid" using Cons.prems(1) c by (simp add: u32_def)
      moreover have "load_prop m (Suc lid + j) (cpus_of es ! j) \<noteq> x" if "j < k" for j
        using Cons.prems(4) [rule_format, of "Suc j"] that Suc c by simp
      ultimately show ?thesis
        using Cons.IH [of "Suc lid" k] Cons.prems(1-3) Suc c True by simp
    qed
  next
    case False
    then have "cpus_of (e # es) = cpus_of es" by (simp add: cpus_of_def)
    then show ?thesis using Cons False by simp
  qed
qed (simp add: cpus_of_def)

lemma madt_end: "madt_at rd8 madt es \<Longrightarrow>
    madt + hdr_length rd8 madt = madt + SIZEOF_acpi_madt + total_len madt_len es"
  by (simp add: madt_at_def)

lemma convert_found:
  assumes m: "madt_at rd8 (acpi_boot_madt s) es" and i: "i < length (cpus_of es)"
    and x: "load_prop p i (cpus_of es ! i) = x" "\<forall>j < i. load_prop p j (cpus_of es ! j) \<noteq> x"
  shows "acpi_madt_convert_ids rd8 s p r x = Some (load_prop r i (cpus_of es ! i))"
proof -
  let ?a = "acpi_boot_madt s + SIZEOF_acpi_madt"
  let ?g = "\<lambda>e lid. if \<not> enabled e then Inr lid
      else if load_prop p lid e = x then Inl (load_prop r lid e) else Inr (u32 (lid + 1))"
  have e: "entries_at madt_entry_at madt_len rd8 ?a es" "?a + total_len madt_len es < 2 ^ 64"
      "acpi_boot_madt s \<noteq> 0" "length (cpus_of es) < 2 ^ 32"
    using m cpus_of_len [of es] by (auto simp: madt_at_def)
  obtain rest where "scan ?g es 0 = Inl (load_prop r i (cpus_of es ! i), rest)"
    using scan_convert [of 0 es i p x r] i x e(4) by auto
  then show ?thesis
    using madt.walk_scan [OF e(1,2), of "convert_body rd8 p r x" ?g 0] convert_body_entry e(3)
    by (simp add: acpi_madt_convert_ids_def madt_end [OF m])
qed

text \<open>The loop that initialises the processors (\<open>thread_smp_core_init\<close>) asks until there are no more.\<close>

partial_function (option) enumerate_cpus ::
  "bytes \<Rightarrow> acpi_state \<Rightarrow> acpi_smp_cpu_iterator \<Rightarrow> acpi_smp_cpu list option" where
  "enumerate_cpus rd8 s iter = do {
     (c, iter) \<leftarrow> acpi_smp_iterate_over_cpus rd8 s iter;
     (case c of None \<Rightarrow> Some [] | Some buf \<Rightarrow> do { rest \<leftarrow> enumerate_cpus rd8 s iter; Some (buf # rest) }) }"

abbreviation next_cpu :: "madt_entry \<Rightarrow> unit \<Rightarrow> (nat \<times> nat) + unit" where
  "next_cpu \<equiv> \<lambda>e u. if enabled e then Inl (acpi_id e, apic_id e) else Inr u"

lemma iterate_step:
  assumes m: "madt_at rd8 (acpi_boot_madt s) all"
    and e: "entries_at madt_entry_at madt_len rd8 (acpi_boot_madt s + SIZEOF_acpi_madt + off) es"
    and t: "off + total_len madt_len es = total_len madt_len all"
  shows "acpi_smp_iterate_over_cpus rd8 s \<lparr>it_offset = off, it_logical_id = n\<rparr> =
    Some (case scan next_cpu es () of
        Inl ((acpi, apic), rest) \<Rightarrow> (Some \<lparr>cpu_acpi_id = acpi, cpu_apic_id = apic, cpu_logical_id = n\<rparr>,
          \<lparr>it_offset = off + (total_len madt_len es - total_len madt_len rest), it_logical_id = u32 (n + 1)\<rparr>)
      | Inr u \<Rightarrow> (None, \<lparr>it_offset = off + total_len madt_len es, it_logical_id = n\<rparr>))"
proof -
  let ?a = "acpi_boot_madt s + SIZEOF_acpi_madt + off"
  have lim: "?a + total_len madt_len es < 2 ^ 64" and nz: "acpi_boot_madt s \<noteq> 0"
    using m t by (auto simp: madt_at_def)
  have fin: "acpi_boot_madt s + hdr_length rd8 (acpi_boot_madt s) = ?a + total_len madt_len es"
    using madt_end [OF m] t by simp
  have w: "walk rd8 (iterate_body rd8) ?a (?a + total_len madt_len es) () =
    Some (case scan next_cpu es () of
        Inl (r, rest) \<Rightarrow> (Inl r, ?a + (total_len madt_len es - total_len madt_len rest))
      | Inr s \<Rightarrow> (Inr s, ?a + total_len madt_len es))"
    by (rule madt.walk_scan [OF e lim]) (rule iterate_body_entry)
  show ?thesis
    unfolding acpi_smp_iterate_over_cpus_def Let_def acpi_smp_cpu_iterator.simps fin w
    using nz by (auto split: sum.splits)
qed

lemma enumerate_suffix:
  assumes m: "madt_at rd8 (acpi_boot_madt s) all"
  shows "entries_at madt_entry_at madt_len rd8 (acpi_boot_madt s + SIZEOF_acpi_madt + off) es \<Longrightarrow>
    off + total_len madt_len es = total_len madt_len all \<Longrightarrow> n + length (cpus_of es) < 2 ^ 32 \<Longrightarrow>
    enumerate_cpus rd8 s \<lparr>it_offset = off, it_logical_id = n\<rparr> =
    Some (map (\<lambda>i. \<lparr>cpu_acpi_id = acpi_id (cpus_of es ! i), cpu_apic_id = apic_id (cpus_of es ! i),
      cpu_logical_id = n + i\<rparr>) [0..<length (cpus_of es)])"
proof (induction "length (cpus_of es)" arbitrary: off es n)
  case 0
  have "scan next_cpu es () = Inr ()" using scan_iterate [of es] 0(1) by (auto split: sum.splits)
  then show ?case
    using iterate_step [OF m 0(2,3), of n] 0(1) by (simp add: enumerate_cpus.simps [of rd8])
next
  case (Suc k)
  obtain c rest where sc: "scan next_cpu es () = Inl ((acpi_id c, apic_id c), rest)" "cpus_of es = c # cpus_of rest"
    using scan_iterate [of es] Suc.hyps(2) by (auto split: sum.splits)
  let ?off = "off + (total_len madt_len es - total_len madt_len rest)"
  have le: "total_len madt_len rest \<le> total_len madt_len es" using scan_len [OF sc(1)] .
  have "entries_at madt_entry_at madt_len rd8 (acpi_boot_madt s + SIZEOF_acpi_madt + ?off) rest"
    using madt.scan_rest [OF Suc.prems(1) sc(1)] by (simp add: add.assoc)
  from Suc.hyps(1) [OF _ this, of "Suc n"] have IH:
    "enumerate_cpus rd8 s \<lparr>it_offset = ?off, it_logical_id = Suc n\<rparr> =
      Some (map (\<lambda>i. \<lparr>cpu_acpi_id = acpi_id (cpus_of rest ! i), cpu_apic_id = apic_id (cpus_of rest ! i),
        cpu_logical_id = Suc n + i\<rparr>) [0..<length (cpus_of rest)])"
    using Suc.hyps(2) Suc.prems(2,3) sc(2) le by simp
  have "u32 (Suc n) = Suc n" using Suc.prems(3) sc(2) by (simp add: u32_def)
  then have "enumerate_cpus rd8 s \<lparr>it_offset = off, it_logical_id = n\<rparr> =
      Some (\<lparr>cpu_acpi_id = acpi_id c, cpu_apic_id = apic_id c, cpu_logical_id = n\<rparr> #
        map (\<lambda>i. \<lparr>cpu_acpi_id = acpi_id (cpus_of rest ! i), cpu_apic_id = apic_id (cpus_of rest ! i),
          cpu_logical_id = Suc n + i\<rparr>) [0..<length (cpus_of rest)])"
    using IH iterate_step [OF m Suc.prems(1,2), of n] sc(1)
    by (simp add: enumerate_cpus.simps [of rd8 s "\<lparr>it_offset = off, it_logical_id = n\<rparr>"])
  moreover have "[0..<length (cpus_of es)] = 0 # map Suc [0..<length (cpus_of rest)]"
    using sc(2) by (simp add: upt_conv_Cons map_Suc_upt del: upt_Suc)
  ultimately show ?case using sc(2) by (simp add: o_def del: upt_Suc)
qed

section \<open>Properties\<close>

text \<open>The processors of the machine. For a MADT that encodes a list of entries, of any kinds and lengths,
  the number of processors is the number of enabled entries; enumerating them ends and gives exactly
  these, in order, with consecutive logical ids; and the conversions between logical and APIC ids
  agree with the enumeration and are inverse to each other when the APIC ids are distinct.\<close>

lemma madt_cpus_correct:
  assumes m: "madt_at rd8 (acpi_boot_madt s) es"
  defines "cs \<equiv> cpus_of es"
  shows "acpi_smp_get_max_cpus rd8 s = Some (length cs) \<and>
    enumerate_cpus rd8 s ACPI_SMP_CPU_ITERATOR_INIT =
      Some (map (\<lambda>i. \<lparr>cpu_acpi_id = acpi_id (cs ! i), cpu_apic_id = apic_id (cs ! i), cpu_logical_id = i\<rparr>)
        [0..<length cs]) \<and>
    (\<forall>i < length cs.
       acpi_madt_convert_ids rd8 s ACPI_MADT_LAPIC_PROP_LOGICAL_ID ACPI_MADT_LAPIC_PROP_APIC_ID i =
         Some (apic_id (cs ! i)) \<and>
       (distinct (map apic_id cs) \<longrightarrow>
          acpi_madt_convert_ids rd8 s ACPI_MADT_LAPIC_PROP_APIC_ID ACPI_MADT_LAPIC_PROP_LOGICAL_ID (apic_id (cs ! i)) =
            Some i))"
proof -
  let ?a = "acpi_boot_madt s + SIZEOF_acpi_madt"
  have e: "entries_at madt_entry_at madt_len rd8 ?a es" "?a + total_len madt_len es < 2 ^ 64"
      "acpi_boot_madt s \<noteq> 0" "length cs < 2 ^ 32"
    using m cpus_of_len [of es] by (auto simp: madt_at_def cs_def)
  let ?g = "\<lambda>e n. if enabled e then Inr (u32 (n + 1)) else Inr n :: unit + nat"
  have "scan ?g es 0 = Inr (length cs)" using scan_count [of 0 es] e(4) by (simp add: cs_def)
  moreover have "walk rd8 (count_body rd8) ?a (?a + total_len madt_len es) 0 =
    Some (case scan ?g es 0 of
        Inl (r, rest) \<Rightarrow> (Inl r, ?a + (total_len madt_len es - total_len madt_len rest))
      | Inr n \<Rightarrow> (Inr n, ?a + total_len madt_len es))"
    by (rule madt.walk_scan [OF e(1,2)]) (rule count_body_entry)
  ultimately have "acpi_smp_get_max_cpus rd8 s = Some (length cs)"
    using e(3) by (simp add: acpi_smp_get_max_cpus_def madt_end [OF m])
  moreover have "enumerate_cpus rd8 s ACPI_SMP_CPU_ITERATOR_INIT =
      Some (map (\<lambda>i. \<lparr>cpu_acpi_id = acpi_id (cs ! i), cpu_apic_id = apic_id (cs ! i), cpu_logical_id = i\<rparr>) [0..<length cs])"
    using enumerate_suffix [OF m, of 0 es 0] e by (simp add: ACPI_SMP_CPU_ITERATOR_INIT_def cs_def)
  moreover have "acpi_madt_convert_ids rd8 s ACPI_MADT_LAPIC_PROP_LOGICAL_ID ACPI_MADT_LAPIC_PROP_APIC_ID i =
      Some (apic_id (cs ! i))" if "i < length cs" for i
    using convert_found [OF m, of i ACPI_MADT_LAPIC_PROP_LOGICAL_ID i] that by (simp add: cs_def)
  moreover have "acpi_madt_convert_ids rd8 s ACPI_MADT_LAPIC_PROP_APIC_ID ACPI_MADT_LAPIC_PROP_LOGICAL_ID (apic_id (cs ! i)) =
      Some i" if "i < length cs" "distinct (map apic_id cs)" for i
    using convert_found [OF m, of i ACPI_MADT_LAPIC_PROP_APIC_ID "apic_id (cs ! i)"] that
    by (auto simp: cs_def distinct_conv_nth)
  ultimately show ?thesis by blast
qed

definition madt_example :: bytes where
  "madt_example = (\<lambda>_. 0)(4100 := 52, 4141 := 8, 4142 := 1, 4143 := 2, 4144 := 1)"

end
