(* ===== verification/Acpi_Numa.thy ===== *)
theory Acpi_Numa
  imports Acpi Phys_Slab
begin

text \<open>
  \<^verbatim>\<open>sys/acpi/numa.c\<close> and \<open>acpi_query_phys_space_size\<close> of \<^verbatim>\<open>sys/acpi/acpi.c\<close>: the memory and processor
  affinities of the SRAT and the distances of the SLIT. Conventions are those of \<open>Acpi\<close>.
\<close>

definition SIZEOF_acpi_srat :: nat where
  "SIZEOF_acpi_srat = 48"

definition ACPI_SRAT_XAPIC_ENTRY :: nat where
  "ACPI_SRAT_XAPIC_ENTRY = 0"

definition ACPI_SRAT_MEM_ENTRY :: nat where
  "ACPI_SRAT_MEM_ENTRY = 1"

definition ACPI_SRAT_X2APIC_ENTRY :: nat where
  "ACPI_SRAT_X2APIC_ENTRY = 2"

lemmas srat_defs = ACPI_SRAT_XAPIC_ENTRY_def ACPI_SRAT_MEM_ENTRY_def ACPI_SRAT_X2APIC_ENTRY_def

text \<open>Fields of the entries.\<close>

definition xapic_domain :: "bytes \<Rightarrow> addr \<Rightarrow> nat" where
  "xapic_domain rd8 entry =
     u32 (rd8 (entry + 2) + 2 ^ 8 * rd8 (entry + 9) + 2 ^ 16 * rd8 (entry + 10) + 2 ^ 24 * rd8 (entry + 11))"

definition mem_base :: "bytes \<Rightarrow> addr \<Rightarrow> nat" where
  "mem_base rd8 entry = u64 (2 ^ 32 * rd32 rd8 (entry + 12) + rd32 rd8 (entry + 8))"

definition mem_len :: "bytes \<Rightarrow> addr \<Rightarrow> nat" where
  "mem_len rd8 entry = u64 (2 ^ 32 * rd32 rd8 (entry + 20) + rd32 rd8 (entry + 16))"

definition mem_active :: "bytes \<Rightarrow> addr \<Rightarrow> bool" where
  "mem_active rd8 entry \<longleftrightarrow> rd32 rd8 (entry + 28) mod 2 \<noteq> 0"

text \<open>The walk over the SRAT from an offset; the second result is the new offset.\<close>

definition srat_walk :: "bytes \<Rightarrow> acpi_state \<Rightarrow> (addr \<Rightarrow> 's \<Rightarrow> 'r + 's) \<Rightarrow> nat \<Rightarrow> 's \<Rightarrow> (('r + 's) \<times> nat) option" where
  "srat_walk rd8 s body offset x =
     (let starting_address = acpi_boot_srat s + SIZEOF_acpi_srat;
          entries_len = sub64 (hdr_length rd8 (acpi_boot_srat s)) SIZEOF_acpi_srat
      in map_option (\<lambda>(r, address). (r, address - starting_address))
           (walk rd8 body (starting_address + offset) (starting_address + entries_len) x))"

section \<open>Operations\<close>

record acpi_numa_proximities_iter =
  pi_srat_offset :: nat
  pi_enumeration_finished :: bool

definition ACPI_NUMA_PROXIMITIES_ITER_INIT :: acpi_numa_proximities_iter where
  "ACPI_NUMA_PROXIMITIES_ITER_INIT = \<lparr>pi_srat_offset = 0, pi_enumeration_finished = False\<rparr>"

definition proximity_body :: "bytes \<Rightarrow> addr \<Rightarrow> unit \<Rightarrow> nat + unit" where
  "proximity_body rd8 entry u =
     (if rd8 entry = ACPI_SRAT_XAPIC_ENTRY then
        (if rd32 rd8 (entry + 4) mod 2 = 0 then Inr u else Inl (xapic_domain rd8 entry))
      else if rd8 entry = ACPI_SRAT_X2APIC_ENTRY then
        (if rd32 rd8 (entry + 12) mod 2 = 0 then Inr u else Inl (rd32 rd8 (entry + 4)))
      else if rd8 entry = ACPI_SRAT_MEM_ENTRY then
        (if \<not> mem_active rd8 entry then Inr u else Inl (rd32 rd8 (entry + 2)))
      else Inr u)"

definition acpi_numa_enumerate_at_boot ::
  "bytes \<Rightarrow> acpi_state \<Rightarrow> acpi_numa_proximities_iter \<Rightarrow> (nat option \<times> acpi_numa_proximities_iter) option" where
  "acpi_numa_enumerate_at_boot rd8 s iter =
     (if acpi_boot_srat s = 0 then
        (if pi_enumeration_finished iter then Some (None, iter)
         else Some (Some 0, iter\<lparr>pi_enumeration_finished := True\<rparr>))
      else do {
        (r, offset) \<leftarrow> srat_walk rd8 s (proximity_body rd8) (pi_srat_offset iter) ();
        let iter = iter\<lparr>pi_srat_offset := offset\<rparr>;
        Some (case r of Inl domain \<Rightarrow> Some domain | Inr _ \<Rightarrow> None, iter) })"

definition acpi_numa_get_distance :: "bytes \<Rightarrow> acpi_state \<Rightarrow> nat \<Rightarrow> nat \<Rightarrow> nat" where
  "acpi_numa_get_distance rd8 s id1 id2 =
     (if acpi_boot_slit s \<noteq> 0
      then slit_lengths rd8 (acpi_boot_slit s) (id1 * slit_localities rd8 (acpi_boot_slit s) + id2)
      else if id1 = id2 then 0 else 1)"

record acpi_numa_phys_range_iter =
  ri_srat_offset :: nat
  ri_range_start :: addr
  ri_range_end :: addr

record acpi_numa_memory_range =
  mr_start :: addr
  mr_end :: addr
  mr_node_id :: nat

definition ACPI_NUMA_PHYS_RANGE_ITER_INIT :: "addr \<Rightarrow> addr \<Rightarrow> acpi_numa_phys_range_iter" where
  "ACPI_NUMA_PHYS_RANGE_ITER_INIT start end' = \<lparr>ri_srat_offset = 0, ri_range_start = start, ri_range_end = end'\<rparr>"

definition range_body :: "bytes \<Rightarrow> addr \<Rightarrow> addr \<Rightarrow> addr \<Rightarrow> unit \<Rightarrow> acpi_numa_memory_range + unit" where
  "range_body rd8 range_start range_end entry u =
     (if rd8 entry \<noteq> ACPI_SRAT_MEM_ENTRY then Inr u
      else if \<not> mem_active rd8 entry then Inr u
      else let base = mem_base rd8 entry; end' = u64 (base + mem_len rd8 entry) in
        if end' \<le> range_start \<or> base \<ge> range_end then Inr u
        else Inl \<lparr>mr_start = align_up (if base < range_start then range_start else base) PAGE_SIZE,
               mr_end = align_down (if end' > range_end then range_end else end') PAGE_SIZE,
               mr_node_id = rd32 rd8 (entry + 2)\<rparr>)"

definition acpi_numa_get_memory_range ::
  "bytes \<Rightarrow> acpi_state \<Rightarrow> acpi_numa_phys_range_iter \<Rightarrow>
   (acpi_numa_memory_range option \<times> acpi_numa_phys_range_iter) option" where
  "acpi_numa_get_memory_range rd8 s iter =
     (if acpi_boot_srat s = 0 then
        (if ri_srat_offset iter = 0
         then Some (Some \<lparr>mr_start = align_up (ri_range_start iter) PAGE_SIZE,
                     mr_end = align_down (ri_range_end iter) PAGE_SIZE, mr_node_id = 0\<rparr>, iter\<lparr>ri_srat_offset := 1\<rparr>)
         else Some (None, iter))
      else do {
        (r, offset) \<leftarrow> srat_walk rd8 s (range_body rd8 (ri_range_start iter) (ri_range_end iter)) (ri_srat_offset iter) ();
        let iter = iter\<lparr>ri_srat_offset := offset\<rparr>;
        Some (case r of Inl buf \<Rightarrow> Some buf | Inr _ \<Rightarrow> None, iter) })"

definition apic_body :: "bytes \<Rightarrow> nat \<Rightarrow> addr \<Rightarrow> unit \<Rightarrow> nat + unit" where
  "apic_body rd8 apic entry u =
     (if rd8 entry = ACPI_SRAT_XAPIC_ENTRY then
        (if rd32 rd8 (entry + 4) mod 2 = 0 then Inr u
         else if rd8 (entry + 3) = apic then Inl (xapic_domain rd8 entry) else Inr u)
      else if rd8 entry = ACPI_SRAT_X2APIC_ENTRY then
        (if rd32 rd8 (entry + 12) mod 2 = 0 then Inr u
         else if rd32 rd8 (entry + 8) = apic then Inl (rd32 rd8 (entry + 4)) else Inr u)
      else Inr u)"

text \<open>An id that the table does not contain panics.\<close>

definition acpi_numa_apic2numa_id :: "bytes \<Rightarrow> acpi_state \<Rightarrow> nat \<Rightarrow> nat option" where
  "acpi_numa_apic2numa_id rd8 s apic =
     (if acpi_boot_srat s = 0 then Some 0
      else do {
        (r, offset) \<leftarrow> srat_walk rd8 s (apic_body rd8 apic) 0 ();
        case r of Inl domain \<Rightarrow> Some domain | Inr _ \<Rightarrow> None })"

definition space_body :: "bytes \<Rightarrow> addr \<Rightarrow> nat \<Rightarrow> unit + nat" where
  "space_body rd8 entry result =
     (if rd8 entry \<noteq> ACPI_SRAT_MEM_ENTRY then Inr result
      else if \<not> mem_active rd8 entry then Inr result
      else let end' = u64 (mem_base rd8 entry + mem_len rd8 entry) in
        if end' > result then Inr end' else Inr result)"

definition acpi_query_phys_space_size :: "bytes \<Rightarrow> acpi_state \<Rightarrow> nat option" where
  "acpi_query_phys_space_size rd8 s =
     (if acpi_boot_srat s = 0 then Some 0
      else do {
        (r, offset) \<leftarrow> srat_walk rd8 s (space_body rd8) 0 0;
        case r of Inl _ \<Rightarrow> None | Inr result \<Rightarrow> Some result })"

text \<open>\<open>acpi_numa_init\<close> returns the new value of \<open>acpi_numa_boot_domain\<close>; \<open>boot_apic_id\<close> is what the
  interrupt controller reports.\<close>

definition acpi_numa_init :: "bytes \<Rightarrow> acpi_state \<Rightarrow> nat \<Rightarrow> nat option" where
  "acpi_numa_init rd8 s boot_apic_id = acpi_numa_apic2numa_id rd8 s boot_apic_id"

text \<open>The loops \<open>while (next(&iter, &buf))\<close> of the callers, with their body.\<close>

partial_function (option) while_next ::
  "('i \<Rightarrow> ('b option \<times> 'i) option) \<Rightarrow> ('b \<Rightarrow> 's \<Rightarrow> 's option) \<Rightarrow> 'i \<Rightarrow> 's \<Rightarrow> 's option" where
  "while_next step body iter x =
     Option.bind (step iter) (\<lambda>(r, iter).
       case r of None \<Rightarrow> Some x
       | Some buf \<Rightarrow> Option.bind (body buf x) (\<lambda>x. while_next step body iter x))"

fun fold_opt :: "('b \<Rightarrow> 's \<Rightarrow> 's option) \<Rightarrow> 'b list \<Rightarrow> 's \<Rightarrow> 's option" where
  "fold_opt body [] x = Some x"
| "fold_opt body (b # bs) x = Option.bind (body b x) (fold_opt body bs)"

section \<open>Decoded entries\<close>

datatype srat_entry =
    Srat_xapic (sr_domain: nat) (sr_apic_id: nat) (sr_flags: nat)
  | Srat_x2apic (sr_domain: nat) (sr_apic_id: nat) (sr_flags: nat)
  | Srat_mem (sr_domain: nat) (sr_base: nat) (sr_len: nat) (sr_flags: nat)
  | Srat_other nat nat

fun srat_entry_at :: "bytes \<Rightarrow> addr \<Rightarrow> srat_entry \<Rightarrow> bool" where
  "srat_entry_at rd8 a (Srat_xapic domain apic flags) \<longleftrightarrow>
     rd8 a = 0 \<and> rd8 (a + 1) = 16 \<and> xapic_domain rd8 a = domain \<and> rd8 (a + 3) = apic \<and> rd32 rd8 (a + 4) = flags"
| "srat_entry_at rd8 a (Srat_x2apic domain apic flags) \<longleftrightarrow>
     rd8 a = 2 \<and> rd8 (a + 1) = 24 \<and> rd32 rd8 (a + 4) = domain \<and> rd32 rd8 (a + 8) = apic \<and> rd32 rd8 (a + 12) = flags"
| "srat_entry_at rd8 a (Srat_mem domain base len flags) \<longleftrightarrow>
     rd8 a = 1 \<and> rd8 (a + 1) = 40 \<and> rd32 rd8 (a + 2) = domain \<and> mem_base rd8 a = base \<and> mem_len rd8 a = len \<and>
     rd32 rd8 (a + 28) = flags \<and> base + len < 2 ^ 64"
| "srat_entry_at rd8 a (Srat_other ty len) \<longleftrightarrow> rd8 a = ty \<and> 2 < ty \<and> rd8 (a + 1) = len \<and> 2 \<le> len"

fun srat_len :: "srat_entry \<Rightarrow> nat" where
  "srat_len (Srat_xapic domain apic flags) = 16"
| "srat_len (Srat_x2apic domain apic flags) = 24"
| "srat_len (Srat_mem domain base len flags) = 40"
| "srat_len (Srat_other ty len) = len"

interpretation srat: entry_table srat_entry_at srat_len
proof
  show "srat_entry_at rd8 a e \<Longrightarrow> rd8 (a + 1) = srat_len e \<and> 0 < srat_len e" for rd8 a e
    by (cases e) auto
qed

definition srat_at :: "bytes \<Rightarrow> addr \<Rightarrow> srat_entry list \<Rightarrow> bool" where
  "srat_at rd8 srat es \<longleftrightarrow> srat \<noteq> 0 \<and> entries_at srat_entry_at srat_len rd8 (srat + SIZEOF_acpi_srat) es \<and>
     hdr_length rd8 srat = SIZEOF_acpi_srat + total_len srat_len es \<and> srat + hdr_length rd8 srat < 2 ^ 64"

fun active :: "srat_entry \<Rightarrow> bool" where
  "active (Srat_other ty len) = False"
| "active e = (sr_flags e mod 2 \<noteq> 0)"

fun is_mem :: "srat_entry \<Rightarrow> bool" where
  "is_mem (Srat_mem domain base len flags) = True"
| "is_mem _ = False"

lemma srat_end:
  assumes "srat_at rd8 srat es"
  shows "sub64 (hdr_length rd8 srat) SIZEOF_acpi_srat = total_len srat_len es"
  using assms sub64_le [of SIZEOF_acpi_srat "hdr_length rd8 srat"] by (simp add: srat_at_def)

text \<open>A walk from an entry boundary is a scan of the entries from there.\<close>

lemma srat_walk_scan:
  assumes m: "srat_at rd8 (acpi_boot_srat s) es"
    and at: "entries_at srat_entry_at srat_len rd8 (acpi_boot_srat s + SIZEOF_acpi_srat + off) rest"
      "off + total_len srat_len rest = total_len srat_len es"
    and body: "\<And>a e x. srat_entry_at rd8 a e \<Longrightarrow> body a x = g e x"
  shows "srat_walk rd8 s body off x = Some (case scan g rest x of
      Inl (r, rest') \<Rightarrow> (Inl r, total_len srat_len es - total_len srat_len rest')
    | Inr x \<Rightarrow> (Inr x, total_len srat_len es))"
proof -
  let ?b = "acpi_boot_srat s + SIZEOF_acpi_srat" and ?t = "total_len srat_len"
  have lim: "?b + off + ?t rest < 2 ^ 64" and stop: "?b + off + ?t rest = ?b + ?t es"
    using m at(2) by (simp_all add: srat_at_def)
  note w = srat.walk_scan [OF at(1) lim body, where s = x, unfolded stop]
  show ?thesis
  proof (cases "scan g rest x")
    case (Inl p)
    obtain r rest' where p: "p = (r, rest')" by (cases p)
    have "?t rest' \<le> ?t rest" using scan_len [of g rest x r rest' srat_len] Inl p by simp
    then have "?b + off + (?t rest - ?t rest') - ?b = ?t es - ?t rest'" using at(2) by linarith
    then show ?thesis using w Inl p by (simp add: srat_walk_def Let_def srat_end [OF m])
  next
    case (Inr y)
    then show ?thesis using w by (simp add: srat_walk_def Let_def srat_end [OF m])
  qed
qed

lemmas srat_walk_start = srat_walk_scan [where off = 0, simplified]

text \<open>The bodies, on decoded entries.\<close>

lemma proximity_body_entry:
  "srat_entry_at rd8 a e \<Longrightarrow> proximity_body rd8 a u = (if active e then Inl (sr_domain e) else Inr u)"
  by (cases e) (auto simp: proximity_body_def srat_defs mem_active_def)

definition overlap :: "addr \<Rightarrow> addr \<Rightarrow> srat_entry \<Rightarrow> bool" where
  "overlap lo hi e \<longleftrightarrow> active e \<and> is_mem e \<and> lo < sr_base e + sr_len e \<and> sr_base e < hi"

definition clip :: "addr \<Rightarrow> addr \<Rightarrow> srat_entry \<Rightarrow> acpi_numa_memory_range" where
  "clip lo hi e = \<lparr>mr_start = align_up (max lo (sr_base e)) PAGE_SIZE,
     mr_end = align_down (min hi (sr_base e + sr_len e)) PAGE_SIZE, mr_node_id = sr_domain e\<rparr>"

lemma range_body_entry:
  "srat_entry_at rd8 a e \<Longrightarrow> range_body rd8 lo hi a u = (if overlap lo hi e then Inl (clip lo hi e) else Inr u)"
  by (cases e) (auto simp: range_body_def srat_defs mem_active_def overlap_def clip_def Let_def u64_small max_def min_def)

lemma apic_body_entry:
  "srat_entry_at rd8 a e \<Longrightarrow> apic_body rd8 apic a u =
     (if active e \<and> \<not> is_mem e \<and> sr_apic_id e = apic then Inl (sr_domain e) else Inr u)"
  by (cases e) (auto simp: apic_body_def srat_defs)

lemma space_body_entry:
  "srat_entry_at rd8 a e \<Longrightarrow> space_body rd8 a n =
     (if active e \<and> is_mem e then Inr (max n (sr_base e + sr_len e)) else Inr n)"
  by (cases e) (auto simp: space_body_def srat_defs mem_active_def Let_def u64_small max_def)

text \<open>A scan that looks for the first entry with a property.\<close>

lemma scan_first:
  "case scan (\<lambda>e u. if P e then Inl (f e) else Inr u) es () of
     Inl (r, rest) \<Rightarrow> (\<exists>e. r = f e \<and> filter P es = e # filter P rest)
   | Inr u \<Rightarrow> filter P es = []"
  by (induction es) (auto split: sum.splits)

lemma scan_max:
  "scan (\<lambda>e n. if P e then Inr (max n (f e)) else Inr n) es n =
     (Inr (fold (\<lambda>e n. max n (f e)) (filter P es) n) :: ('r \<times> 'e list) + nat)"
  by (induction es arbitrary: n) auto

text \<open>Both iterators visit the entries that satisfy a predicate, in order.\<close>

lemma while_next_scan:
  assumes m: "srat_at rd8 (acpi_boot_srat s) es"
    and step: "\<And>off. step (mk off) = Option.bind (srat_walk rd8 s body off ())
      (\<lambda>(r, off). Some (case r of Inl b \<Rightarrow> Some b | Inr _ \<Rightarrow> None, mk off))"
    and body: "\<And>a e u. srat_entry_at rd8 a e \<Longrightarrow> body a u = (if P e then Inl (h e) else Inr u)"
    and at: "entries_at srat_entry_at srat_len rd8 (acpi_boot_srat s + SIZEOF_acpi_srat + off) rest"
      "off + total_len srat_len rest = total_len srat_len es"
  shows "while_next step f (mk off) x = fold_opt f (map h (filter P rest)) x"
  using at
proof (induction "length (filter P rest)" arbitrary: off rest x rule: less_induct)
  case less
  let ?g = "\<lambda>e (u::unit). if P e then Inl (h e) else Inr u"
  have w: "srat_walk rd8 s body off () = Some (case scan ?g rest () of
      Inl (r, rest') \<Rightarrow> (Inl r, total_len srat_len es - total_len srat_len rest')
    | Inr x \<Rightarrow> (Inr x, total_len srat_len es))"
    by (rule srat_walk_scan [OF m less.prems]) (rule body)
  note first = scan_first [where P = P and f = h and es = rest]
  show ?case
  proof (cases "scan ?g rest ()")
    case (Inr u)
    then show ?thesis using w first by (simp add: while_next.simps [of step f "mk off"] step)
  next
    case (Inl p)
    obtain r rest' where p: "p = (r, rest')" by (cases p)
    obtain e where e: "r = h e" "filter P rest = e # filter P rest'" using first Inl p by auto
    let ?off = "total_len srat_len es - total_len srat_len rest'"
    have le: "total_len srat_len rest' \<le> total_len srat_len rest"
      using scan_len [of ?g rest "()" r rest' srat_len] Inl p by simp
    have "entries_at srat_entry_at srat_len rd8
        (acpi_boot_srat s + SIZEOF_acpi_srat + off + (total_len srat_len rest - total_len srat_len rest')) rest'"
      using srat.scan_rest [OF less.prems(1)] Inl p by simp
    moreover have "off + (total_len srat_len rest - total_len srat_len rest') = ?off" using le less.prems(2) by linarith
    ultimately have "while_next step f (mk ?off) y = fold_opt f (map h (filter P rest')) y" for y
      using less.hyps [of rest' ?off y] e(2) le less.prems(2) by (simp add: add.assoc)
    then have "while_next step f (mk ?off) = fold_opt f (map h (filter P rest'))" by (rule ext)
    then show ?thesis using w Inl p e by (simp add: while_next.simps [of step f "mk off"] step)
  qed
qed

lemma proximities_loop:
  assumes "srat_at rd8 (acpi_boot_srat s) es"
  shows "while_next (acpi_numa_enumerate_at_boot rd8 s) f ACPI_NUMA_PROXIMITIES_ITER_INIT x =
    fold_opt f (map sr_domain (filter active es)) x"
  using while_next_scan [OF assms, of "acpi_numa_enumerate_at_boot rd8 s"
      "\<lambda>off. \<lparr>pi_srat_offset = off, pi_enumeration_finished = False\<rparr>" "proximity_body rd8" active sr_domain 0 es f x]
    proximity_body_entry assms
  by (simp add: acpi_numa_enumerate_at_boot_def srat_at_def ACPI_NUMA_PROXIMITIES_ITER_INIT_def Let_def)

lemma ranges_loop:
  assumes "srat_at rd8 (acpi_boot_srat s) es"
  shows "while_next (acpi_numa_get_memory_range rd8 s) f (ACPI_NUMA_PHYS_RANGE_ITER_INIT lo hi) x =
    fold_opt f (map (clip lo hi) (filter (overlap lo hi) es)) x"
  using while_next_scan [OF assms, of "acpi_numa_get_memory_range rd8 s"
      "\<lambda>off. \<lparr>ri_srat_offset = off, ri_range_start = lo, ri_range_end = hi\<rparr>" "range_body rd8 lo hi"
      "overlap lo hi" "clip lo hi" 0 es f x]
    range_body_entry assms
  by (simp add: acpi_numa_get_memory_range_def srat_at_def ACPI_NUMA_PHYS_RANGE_ITER_INIT_def Let_def)

text \<open>Without a table there is one domain, 0, and one range.\<close>

lemma proximities_loop_none:
  assumes "acpi_boot_srat s = 0"
  shows "while_next (acpi_numa_enumerate_at_boot rd8 s) f ACPI_NUMA_PROXIMITIES_ITER_INIT x = f 0 x"
  using assms by (cases "f 0 x")
    (simp_all add: while_next.simps acpi_numa_enumerate_at_boot_def ACPI_NUMA_PROXIMITIES_ITER_INIT_def)

lemma ranges_loop_none:
  assumes "acpi_boot_srat s = 0"
  shows "while_next (acpi_numa_get_memory_range rd8 s) f (ACPI_NUMA_PHYS_RANGE_ITER_INIT lo hi) x =
    f \<lparr>mr_start = align_up lo PAGE_SIZE, mr_end = align_down hi PAGE_SIZE, mr_node_id = 0\<rparr> x"
  using assms by (cases "f \<lparr>mr_start = align_up lo PAGE_SIZE, mr_end = align_down hi PAGE_SIZE, mr_node_id = 0\<rparr> x")
    (simp_all add: while_next.simps acpi_numa_get_memory_range_def ACPI_NUMA_PHYS_RANGE_ITER_INIT_def)

lemma fold_opt_snoc: "fold_opt (\<lambda>b xs. Some (xs @ [b])) bs xs = Some (xs @ bs)"
  by (induction bs arbitrary: xs) auto

lemma fold_max_Max: "fold (\<lambda>e n. max n (f e)) es k = Max (insert (k::nat) (f ` set es))"
proof -
  have "fold (\<lambda>e n. max n (f e)) es k = fold max (map f es) k"
    by (induction es arbitrary: k) (auto simp: max.commute)
  then show ?thesis using Max.set_eq_fold [of k "map f es"] by simp
qed

lemma query_space:
  assumes m: "srat_at rd8 (acpi_boot_srat s) es"
  shows "acpi_query_phys_space_size rd8 s =
    Some (Max (insert 0 ((\<lambda>e. sr_base e + sr_len e) ` {e \<in> set es. active e \<and> is_mem e})))"
proof -
  have nz: "acpi_boot_srat s \<noteq> 0"
    and at: "entries_at srat_entry_at srat_len rd8 (acpi_boot_srat s + SIZEOF_acpi_srat) es"
    using m by (simp_all add: srat_at_def)
  have "srat_walk rd8 s (space_body rd8) 0 0 =
      Some (case scan (\<lambda>e n. if active e \<and> is_mem e then Inr (max n (sr_base e + sr_len e)) else Inr n) es 0 of
        Inl (r, rest') \<Rightarrow> (Inl r, total_len srat_len es - total_len srat_len rest')
      | Inr x \<Rightarrow> (Inr x, total_len srat_len es))"
    by (rule srat_walk_start [OF m at refl]) (rule space_body_entry)
  then show ?thesis using nz by (simp add: acpi_query_phys_space_size_def scan_max fold_max_Max)
qed

section \<open>Properties\<close>

text \<open>The affinity table is read correctly. For an SRAT that encodes a list of entries, of any kinds and lengths: enumerating the
  proximity domains ends and gives those of the active entries in order; a local interrupt
  controller belongs to the domain of the first active processor entry that names it, and the kernel
  panics if there is none; the size of physical memory is the highest end of an active memory entry;
  and the subranges of a physical range are its intersections with the active memory entries, page
  aligned inwards.\<close>

lemma srat_correct:
  assumes m: "srat_at rd8 (acpi_boot_srat s) es"
  defines "cpu \<equiv> \<lambda>apic e. active e \<and> \<not> is_mem e \<and> sr_apic_id e = apic"
  shows "while_next (acpi_numa_enumerate_at_boot rd8 s) (\<lambda>b xs. Some (xs @ [b])) ACPI_NUMA_PROXIMITIES_ITER_INIT [] =
      Some (map sr_domain (filter active es)) \<and>
    acpi_numa_apic2numa_id rd8 s apic = map_option sr_domain (find (cpu apic) es) \<and>
    acpi_query_phys_space_size rd8 s =
      Some (Max (insert 0 ((\<lambda>e. sr_base e + sr_len e) ` {e \<in> set es. active e \<and> is_mem e}))) \<and>
    while_next (acpi_numa_get_memory_range rd8 s) (\<lambda>b xs. Some (xs @ [b])) (ACPI_NUMA_PHYS_RANGE_ITER_INIT lo hi) [] =
      Some (map (clip lo hi) (filter (overlap lo hi) es))"
proof -
  have nz: "acpi_boot_srat s \<noteq> 0"
    and at: "entries_at srat_entry_at srat_len rd8 (acpi_boot_srat s + SIZEOF_acpi_srat) es"
    using m by (simp_all add: srat_at_def)
  have "srat_walk rd8 s (apic_body rd8 apic) 0 () =
      Some (case scan (\<lambda>e u. if cpu apic e then Inl (sr_domain e) else Inr u) es () of
        Inl (r, rest') \<Rightarrow> (Inl r, total_len srat_len es - total_len srat_len rest')
      | Inr x \<Rightarrow> (Inr x, total_len srat_len es))"
    by (rule srat_walk_start [OF m at refl]) (simp add: apic_body_entry cpu_def)
  moreover have "find (cpu apic) es = (case filter (cpu apic) es of [] \<Rightarrow> None | e # _ \<Rightarrow> Some e)"
    by (induction es) auto
  ultimately have "acpi_numa_apic2numa_id rd8 s apic = map_option sr_domain (find (cpu apic) es)"
    using scan_first [where P = "cpu apic" and f = sr_domain and es = es] nz
    by (auto simp: acpi_numa_apic2numa_id_def split: sum.splits)
  then show ?thesis
    by (simp add: query_space [OF m] proximities_loop [OF m] ranges_loop [OF m] fold_opt_snoc)
qed

definition srat_example :: bytes where
  "srat_example = (\<lambda>_. 0)(4100 := 104, 4144 := 0, 4145 := 16, 4146 := 3, 4147 := 7, 4148 := 1,
     4160 := 1, 4161 := 40, 4162 := 3, 4169 := 16, 4177 := 32, 4188 := 1)"

end
