(* ===== verification/Numa.thy ===== *)
theory Numa
  imports Acpi_Numa Bootstrap
begin

text \<open>
  \<^verbatim>\<open>sys/numa/numa.c\<close>: the table of NUMA nodes. A node that is not \<open>initialized\<close> is \<^const>\<open>None\<close>; the neighbour
  list of an initialised node is \<^const>\<open>None\<close> until it is allocated, because the memory of the table is
  not cleared. Reading such a list has no result. The tables are allocated by \<open>Bootstrap\<close>.
\<close>

definition MEM_HEAP_SLAB_ORDERS :: nat where
  "MEM_HEAP_SLAB_ORDERS = 12"

record mem_heap_slab_data =
  hs_free_lists :: "addr list"
  hs_slabs :: addr

definition MEM_HEAP_SLAB_DATA_INIT :: mem_heap_slab_data where
  "MEM_HEAP_SLAB_DATA_INIT = \<lparr>hs_free_lists = replicate MEM_HEAP_SLAB_ORDERS 0, hs_slabs = 0\<rparr>"

record numa_node =
  nn_neighbours :: "nat list option"
  nn_ranges :: addr
  nn_slab_data :: mem_heap_slab_data

record numa_state =
  numa_nodes_count :: nat
  numa_nodes_size :: nat
  numa_nodes :: "numa_node option list"

definition SIZEOF_numa_node :: nat where
  "SIZEOF_numa_node = 144"

definition SIZEOF_numa_id_t :: nat where
  "SIZEOF_numa_id_t = 4"

section \<open>Operations\<close>

text \<open>Selection sort of the array by distance: the position of the minimum from \<open>i\<close> on, and one exchange.\<close>

definition find_minimum :: "(nat \<Rightarrow> nat) \<Rightarrow> nat list \<Rightarrow> nat \<Rightarrow> nat" where
  "find_minimum dist arr i =
     fst (foldl (\<lambda>(minimum_id, minimum_distance) j.
         if dist (arr ! j) < minimum_distance then (j, dist (arr ! j)) else (minimum_id, minimum_distance))
       (i, dist (arr ! i)) [Suc i..<length arr])"

definition sort_step :: "(nat \<Rightarrow> nat) \<Rightarrow> nat list \<Rightarrow> nat \<Rightarrow> nat list" where
  "sort_step dist arr i =
     (let minimum_id = find_minimum dist arr i; tmp = arr ! i in arr[i := arr ! minimum_id, minimum_id := tmp])"

definition numa_init_neighbour_list ::
  "bytes \<Rightarrow> acpi_state \<Rightarrow> addr \<Rightarrow> stivale2_mmap_entry list \<Rightarrow> nat \<Rightarrow> numa_state \<times> bootstrap \<Rightarrow>
   (numa_state \<times> bootstrap) option" where
  "numa_init_neighbour_list rd8 s win memmap node = (\<lambda>(st, bs). do {
     (_, bs) \<leftarrow> mem_bootstrap_alloc win memmap (numa_nodes_count st * SIZEOF_numa_id_t) bs;
     let arr = filter (\<lambda>i. numa_nodes st ! i \<noteq> None) [0..<numa_nodes_size st];
     if length arr \<noteq> numa_nodes_count st then None
     else do {
       let arr = foldl (sort_step (acpi_numa_get_distance rd8 s node)) arr [0..<numa_nodes_count st];
       self \<leftarrow> numa_nodes st ! node;
       Some (st\<lparr>numa_nodes := (numa_nodes st)[node := Some (self\<lparr>nn_neighbours := Some arr\<rparr>)]\<rparr>, bs) } })"

text \<open>The dump reads the neighbours of every initialised node.\<close>

definition numa_dump_nodes :: "numa_state \<Rightarrow> unit option" where
  "numa_dump_nodes st =
     (if \<exists>n \<in> set (numa_nodes st). case n of None \<Rightarrow> False | Some n \<Rightarrow> nn_neighbours n = None \<and> 0 < numa_nodes_count st
      then None else Some ())"

definition numa_nodes_upper_bound :: "bytes \<Rightarrow> acpi_state \<Rightarrow> nat option" where
  "numa_nodes_upper_bound rd8 s = do {
     m \<leftarrow> while_next (acpi_numa_enumerate_at_boot rd8 s) (\<lambda>buf m. Some (if buf > m then buf else m))
            ACPI_NUMA_PROXIMITIES_ITER_INIT 0;
     Some (u32 (m + 1)) }"

definition add_node :: "nat \<Rightarrow> numa_state \<Rightarrow> numa_state option" where
  "add_node buf st =
     (if buf \<ge> numa_nodes_size st then None
      else if numa_nodes st ! buf \<noteq> None then Some st
      else Some (st\<lparr>numa_nodes_count := u32 (numa_nodes_count st + 1),
        numa_nodes := (numa_nodes st)[buf := Some \<lparr>nn_neighbours = None, nn_ranges = 0,
          nn_slab_data = MEM_HEAP_SLAB_DATA_INIT\<rparr>]\<rparr>))"

definition numa_init ::
  "bytes \<Rightarrow> acpi_state \<Rightarrow> addr \<Rightarrow> stivale2_mmap_entry list \<Rightarrow> bootstrap \<Rightarrow> (numa_state \<times> bootstrap) option" where
  "numa_init rd8 s win memmap bs = do {
     nodes_size \<leftarrow> numa_nodes_upper_bound rd8 s;
     (_, bs) \<leftarrow> mem_bootstrap_alloc win memmap (SIZEOF_numa_node * nodes_size) bs;
     let st = \<lparr>numa_nodes_count = 0, numa_nodes_size = nodes_size, numa_nodes = replicate nodes_size None\<rparr>;
     st \<leftarrow> while_next (acpi_numa_enumerate_at_boot rd8 s) add_node ACPI_NUMA_PROXIMITIES_ITER_INIT st;
     (st, bs) \<leftarrow> fold_opt (\<lambda>i (st, bs).
         if i \<ge> numa_nodes_size st then None
         else if numa_nodes st ! i \<noteq> None then numa_init_neighbour_list rd8 s win memmap i (st, bs)
         else Some (st, bs)) [0..<numa_nodes_count st] (st, bs);
     _ \<leftarrow> numa_dump_nodes st;
     Some (st, bs) }"

section \<open>Selection sort\<close>

lemma find_minimum_upto:
  fixes dist :: "nat \<Rightarrow> nat"
  assumes "i < n" "n \<le> length arr"
  shows "case foldl (\<lambda>(mi, md) j. if dist (arr ! j) < md then (j, dist (arr ! j)) else (mi, md))
      (i, dist (arr ! i)) [Suc i..<n] of
    (mi, md) \<Rightarrow> i \<le> mi \<and> mi < n \<and> md = dist (arr ! mi) \<and> (\<forall>j. i \<le> j \<longrightarrow> j < n \<longrightarrow> md \<le> dist (arr ! j))"
  using assms
proof (induction n)
  case (Suc n)
  show ?case
  proof (cases "i = n")
    case True
    then show ?thesis by (auto simp: less_Suc_eq)
  next
    case False
    then have "i < n" using Suc.prems by simp
    moreover have "[Suc i..<Suc n] = [Suc i..<n] @ [n]" using \<open>i < n\<close> by (simp add: upt_Suc_append)
    ultimately show ?thesis using Suc.IH Suc.prems(2) by (auto simp: less_Suc_eq split: prod.splits)
  qed
qed simp

lemma find_minimum_spec:
  assumes "i < length arr"
  shows "i \<le> find_minimum dist arr i" "find_minimum dist arr i < length arr"
    "\<forall>j. i \<le> j \<longrightarrow> j < length arr \<longrightarrow> dist (arr ! find_minimum dist arr i) \<le> dist (arr ! j)"
  using find_minimum_upto [OF assms order_refl, of dist] by (auto simp: find_minimum_def split: prod.splits)

text \<open>After \<open>i\<close> steps the first \<open>i\<close> elements are sorted and not above the others.\<close>

definition sorted_upto :: "(nat \<Rightarrow> nat) \<Rightarrow> nat list \<Rightarrow> nat \<Rightarrow> bool" where
  "sorted_upto dist arr i \<longleftrightarrow> (\<forall>p q. p < i \<longrightarrow> p < q \<longrightarrow> q < length arr \<longrightarrow> dist (arr ! p) \<le> dist (arr ! q))"

lemma sort_step_perm: "i < length arr \<Longrightarrow> mset (sort_step dist arr i) = mset arr"
  using find_minimum_spec [of i arr dist] by (simp add: sort_step_def Let_def mset_swap)

lemma length_sort_step [simp]: "length (sort_step dist arr i) = length arr"
  by (simp add: sort_step_def Let_def)

lemma sort_step_nth:
  assumes "i < length arr" "k < length arr"
  shows "sort_step dist arr i ! k =
    (if k = i then arr ! find_minimum dist arr i
     else if k = find_minimum dist arr i then arr ! i else arr ! k)"
  using assms find_minimum_spec(2) [OF assms(1), of dist] by (auto simp: sort_step_def Let_def nth_list_update)

lemma sort_step_sorted:
  assumes i: "i < length arr" and s: "sorted_upto dist arr i"
  shows "sorted_upto dist (sort_step dist arr i) (Suc i)"
  unfolding sorted_upto_def
proof (intro allI impI)
  fix p q assume "p < Suc i" "p < q" "q < length (sort_step dist arr i)"
  then have pq: "p < q" "q < length arr" "p = i \<or> p < i" by auto
  note m = find_minimum_spec [OF i, of dist] and n = sort_step_nth [OF i, of _ dist]
  have *: "dist (arr ! p) \<le> dist (arr ! k)" if "p < i" "i \<le> k" "k < length arr" for k
    using s that by (simp add: sorted_upto_def)
  from pq(3) show "dist (sort_step dist arr i ! p) \<le> dist (sort_step dist arr i ! q)"
  proof
    assume "p = i"
    then show ?thesis using pq m i by (simp add: n)
  next
    assume "p < i"
    then have "sort_step dist arr i ! p = arr ! p" using pq m(1) by (simp add: n)
    then show ?thesis
      using pq \<open>p < i\<close> * i m s by (auto simp: n sorted_upto_def)
  qed
qed

lemma selection_sort:
  assumes "k \<le> length arr"
  shows "mset (foldl (sort_step dist) arr [0..<k]) = mset arr \<and>
    sorted_upto dist (foldl (sort_step dist) arr [0..<k]) k"
  using assms
proof (induction k)
  case (Suc k)
  let ?a = "foldl (sort_step dist) arr [0..<k]"
  have "length ?a = length arr" using Suc by (metis mset_eq_length Suc_leD)
  then show ?case using Suc sort_step_perm [of k ?a dist] sort_step_sorted [of k ?a dist] by simp
qed (simp add: sorted_upto_def)

lemma selection_sort_full:
  "mset (foldl (sort_step dist) arr [0..<length arr]) = mset arr"
  "sorted (map dist (foldl (sort_step dist) arr [0..<length arr]))"
proof -
  let ?a = "foldl (sort_step dist) arr [0..<length arr]"
  have s: "mset ?a = mset arr" "sorted_upto dist ?a (length arr)"
    using selection_sort [of "length arr" arr dist] by simp_all
  then have "length ?a = length arr" by (metis mset_eq_length)
  then show "sorted (map dist ?a)" using s(2) by (simp add: sorted_upto_def sorted_iff_nth_mono_less)
  show "mset ?a = mset arr" by (fact s(1))
qed

section \<open>Initialisation\<close>

text \<open>The proximity domains that enumeration yields.\<close>

definition domains :: "bytes \<Rightarrow> acpi_state \<Rightarrow> nat list \<Rightarrow> bool" where
  "domains rd8 s D \<longleftrightarrow> (acpi_boot_srat s = 0 \<and> D = [0]) \<or>
     (\<exists>es. srat_at rd8 (acpi_boot_srat s) es \<and> D = map sr_domain (filter active es))"

lemma domains_loop:
  assumes "domains rd8 s D"
  shows "while_next (acpi_numa_enumerate_at_boot rd8 s) f ACPI_NUMA_PROXIMITIES_ITER_INIT x = fold_opt f D x"
proof (cases "acpi_boot_srat s = 0")
  case True
  then have "D = [0]" using assms by (auto simp: domains_def srat_at_def)
  then show ?thesis by (cases "f 0 x") (simp_all add: proximities_loop_none [OF True])
next
  case False
  then show ?thesis using assms by (auto simp: domains_def proximities_loop)
qed

lemma fold_opt_max:
  "fold_opt (\<lambda>buf m. Some (if buf > m then buf else m)) D m = Some (Max (insert (m::nat) (set D)))"
proof -
  have "fold_opt (\<lambda>buf m. Some (if buf > m then buf else m)) D m = Some (fold (\<lambda>e n. max n e) D m)"
    by (induction D arbitrary: m) (auto simp: max_def)
  then show ?thesis using fold_max_Max [of "\<lambda>e. e" D m] by simp
qed

definition fresh_node :: numa_node where
  "fresh_node = \<lparr>nn_neighbours = None, nn_ranges = 0, nn_slab_data = MEM_HEAP_SLAB_DATA_INIT\<rparr>"

definition marked :: "nat \<Rightarrow> nat set \<Rightarrow> numa_state" where
  "marked N X = \<lparr>numa_nodes_count = card X, numa_nodes_size = N,
     numa_nodes = map (\<lambda>i. if i \<in> X then Some fresh_node else None) [0..<N]\<rparr>"

lemma marked_sel [simp]:
  "numa_nodes_count (marked N X) = card X" "numa_nodes_size (marked N X) = N"
  "length (numa_nodes (marked N X)) = N"
  "i < N \<Longrightarrow> numa_nodes (marked N X) ! i = (if i \<in> X then Some fresh_node else None)"
  by (simp_all add: marked_def)

lemma marked_empty: "\<lparr>numa_nodes_count = 0, numa_nodes_size = N, numa_nodes = replicate N None\<rparr> = marked N {}"
  by (simp add: marked_def map_replicate_trivial)

lemma add_node_marked:
  assumes "X \<subseteq> {..<N}" "d < N" "N < 2 ^ 32"
  shows "add_node d (marked N X) = Some (marked N (insert d X))"
proof (cases "d \<in> X")
  case True
  then show ?thesis using assms by (simp add: add_node_def insert_absorb)
next
  case False
  have fin: "finite X" using assms(1) finite_subset by blast
  have "card (insert d X) \<le> N" using assms(1,2) card_mono [of "{..<N}" "insert d X"] by simp
  then have "u32 (card X + 1) = card (insert d X)"
    using False fin assms(3) by (intro trans [OF u32_small]) auto
  moreover have "(map (\<lambda>i. if i \<in> X then Some fresh_node else None) [0..<N])[d := Some fresh_node] =
      map (\<lambda>i. if i \<in> insert d X then Some fresh_node else None) [0..<N]"
    using assms(2) by (intro nth_equalityI) (auto simp: nth_list_update)
  ultimately show ?thesis
    using False assms(2) by (simp add: add_node_def) (simp add: marked_def fresh_node_def [symmetric])
qed

lemma add_nodes_marked:
  assumes "X \<subseteq> {..<N}" "set D \<subseteq> {..<N}" "N < 2 ^ 32"
  shows "fold_opt add_node D (marked N X) = Some (marked N (X \<union> set D))"
  using assms by (induction D arbitrary: X) (auto simp: add_node_marked)

text \<open>The neighbour lists.\<close>

definition neighbour_list :: "bytes \<Rightarrow> acpi_state \<Rightarrow> nat \<Rightarrow> nat \<Rightarrow> nat list" where
  "neighbour_list rd8 s n i = foldl (sort_step (acpi_numa_get_distance rd8 s i)) [0..<n] [0..<n]"

definition listed :: "bytes \<Rightarrow> acpi_state \<Rightarrow> nat \<Rightarrow> nat \<Rightarrow> numa_state" where
  "listed rd8 s n k = \<lparr>numa_nodes_count = n, numa_nodes_size = n,
     numa_nodes = map (\<lambda>i. Some (if i < k then fresh_node\<lparr>nn_neighbours := Some (neighbour_list rd8 s n i)\<rparr>
       else fresh_node)) [0..<n]\<rparr>"

lemma marked_listed: "marked n {0..<n} = listed rd8 s n 0"
  by (simp add: marked_def listed_def)

text \<open>The requests to the bootstrap allocator, in order.\<close>

definition boot_allocs :: "addr \<Rightarrow> stivale2_mmap_entry list \<Rightarrow> nat list \<Rightarrow> bootstrap \<Rightarrow> bootstrap option" where
  "boot_allocs win memmap = fold_opt (\<lambda>n bs. map_option snd (mem_bootstrap_alloc win memmap n bs))"

lemma neighbour_list_step:
  assumes "k < n" "mem_bootstrap_alloc win memmap (n * 4) bs = Some (p, bs')"
  shows "numa_init_neighbour_list rd8 s win memmap k (listed rd8 s n k, bs) = Some (listed rd8 s n (Suc k), bs')"
proof -
  have "filter (\<lambda>i. numa_nodes (listed rd8 s n k) ! i \<noteq> None) [0..<n] = [0..<n]"
    by (rule filter_True) (simp add: listed_def)
  moreover have "(numa_nodes (listed rd8 s n k))[k := Some (fresh_node\<lparr>nn_neighbours := Some (neighbour_list rd8 s n k)\<rparr>)] =
      numa_nodes (listed rd8 s n (Suc k))"
    by (rule nth_equalityI) (auto simp: listed_def nth_list_update less_Suc_eq)
  ultimately show ?thesis
    using assms by (simp add: numa_init_neighbour_list_def SIZEOF_numa_id_t_def neighbour_list_def [symmetric])
      (simp add: listed_def neighbour_list_def)
qed

definition neighbour_loop :: "bytes \<Rightarrow> acpi_state \<Rightarrow> addr \<Rightarrow> stivale2_mmap_entry list \<Rightarrow> nat list \<Rightarrow>
    numa_state \<times> bootstrap \<Rightarrow> (numa_state \<times> bootstrap) option" where
  "neighbour_loop rd8 s win memmap = fold_opt (\<lambda>i (st, bs).
     if i \<ge> numa_nodes_size st then None
     else if numa_nodes st ! i \<noteq> None then numa_init_neighbour_list rd8 s win memmap i (st, bs)
     else Some (st, bs))"

lemma neighbour_loop_dense:
  assumes "k \<le> n" "boot_allocs win memmap (replicate (n - k) (4 * n)) bs = Some bs'"
  shows "neighbour_loop rd8 s win memmap [k..<n] (listed rd8 s n k, bs) = Some (listed rd8 s n n, bs')"
  using assms
proof (induction "n - k" arbitrary: k bs)
  case 0
  then show ?case by (simp add: neighbour_loop_def boot_allocs_def)
next
  case (Suc m)
  then have k: "k < n" "n - k = Suc (n - Suc k)" by simp_all
  obtain p bs1 where b: "mem_bootstrap_alloc win memmap (n * 4) bs = Some (p, bs1)"
      "boot_allocs win memmap (replicate (n - Suc k) (4 * n)) bs1 = Some bs'"
    using Suc.prems(2) by (auto simp: k(2) boot_allocs_def bind_eq_Some_conv mult.commute)
  have "neighbour_loop rd8 s win memmap [Suc k..<n] (listed rd8 s n (Suc k), bs1) = Some (listed rd8 s n n, bs')"
    using Suc.hyps b(2) k by simp
  then show ?case using neighbour_list_step [OF k(1) b(1)] k(1)
    by (simp add: neighbour_loop_def upt_conv_Cons) (simp add: listed_def)
qed

text \<open>A node with an id beyond the number of nodes never gets a list.\<close>

lemma neighbour_list_other:
  "numa_init_neighbour_list rd8 s win memmap i (st, bs) = Some (st', bs') \<Longrightarrow> d \<noteq> i \<Longrightarrow>
     numa_nodes st' ! d = numa_nodes st ! d \<and> numa_nodes_count st' = numa_nodes_count st \<and>
     length (numa_nodes st') = length (numa_nodes st)"
  by (auto simp: numa_init_neighbour_list_def bind_eq_Some_conv Let_def split: if_splits)

lemma neighbour_loop_other:
  assumes "neighbour_loop rd8 s win memmap xs (st, bs) = Some (st', bs')" "d \<notin> set xs"
  shows "numa_nodes st' ! d = numa_nodes st ! d \<and> numa_nodes_count st' = numa_nodes_count st \<and>
     length (numa_nodes st') = length (numa_nodes st)"
  using assms
proof (induction xs arbitrary: st bs)
  case (Cons i xs)
  obtain st1 bs1 where "(if i \<ge> numa_nodes_size st then None
      else if numa_nodes st ! i \<noteq> None then numa_init_neighbour_list rd8 s win memmap i (st, bs)
      else Some (st, bs)) = Some (st1, bs1)" "neighbour_loop rd8 s win memmap xs (st1, bs1) = Some (st', bs')"
    using Cons.prems(1) by (fastforce simp: neighbour_loop_def bind_eq_Some_conv)
  then show ?case
    using Cons.IH [of st1 bs1] Cons.prems(2) neighbour_list_other [of rd8 s win memmap i st bs st1 bs1 d]
    by (auto split: if_splits)
qed (simp add: neighbour_loop_def)

lemma dump_listed: "numa_dump_nodes (listed rd8 s n n) = Some ()"
  by (auto simp: numa_dump_nodes_def listed_def split: if_splits)

text \<open>The distances the tables give: a table that passed validation makes every node the closest to
  itself.\<close>

lemma slit_loop_True: "slit_loop dist ps = Some True \<Longrightarrow> (i, j) \<in> set ps \<Longrightarrow>
    (if i = j then dist i j = 10 else 10 < dist i j)"
  by (induction dist ps rule: slit_loop.induct) (auto split: if_splits)

definition distances_ok :: "bytes \<Rightarrow> acpi_state \<Rightarrow> nat \<Rightarrow> bool" where
  "distances_ok rd8 s n \<longleftrightarrow> acpi_boot_slit s = 0 \<or>
     acpi_validate_slit rd8 (acpi_boot_slit s) = Some True \<and> n \<le> slit_localities rd8 (acpi_boot_slit s)"

lemma distance_self:
  assumes "distances_ok rd8 s n" "i < n" "j < n" "i \<noteq> j"
  shows "acpi_numa_get_distance rd8 s i i < acpi_numa_get_distance rd8 s i j"
proof (cases "acpi_boot_slit s = 0")
  case False
  let ?n = "slit_localities rd8 (acpi_boot_slit s)"
  have v: "slit_loop (\<lambda>i j. slit_lengths rd8 (acpi_boot_slit s) (i * ?n + j)) (List.product [0..<?n] [0..<?n]) = Some True"
    and "n \<le> ?n" using assms(1) False by (auto simp: distances_ok_def acpi_validate_slit_def Let_def)
  then show ?thesis
    using slit_loop_True [OF v, of i i] slit_loop_True [OF v, of i j] assms(2-4) False
    by (simp add: acpi_numa_get_distance_def)
qed (use assms in \<open>simp add: acpi_numa_get_distance_def\<close>)

lemma neighbour_list_spec:
  "mset (neighbour_list rd8 s n i) = mset [0..<n]"
  "sorted (map (acpi_numa_get_distance rd8 s i) (neighbour_list rd8 s n i))"
  using selection_sort_full [of "acpi_numa_get_distance rd8 s i" "[0..<n]"] by (simp_all add: neighbour_list_def)

lemma neighbour_list_self:
  assumes "distances_ok rd8 s n" "i < n"
  shows "hd (neighbour_list rd8 s n i) = i"
proof (rule ccontr)
  let ?l = "neighbour_list rd8 s n i"
  assume ne: "hd ?l \<noteq> i"
  have s: "set ?l = {0..<n}" using neighbour_list_spec(1) [of rd8 s n i] by (metis set_mset_mset set_upt)
  then obtain x xs where l: "?l = x # xs" using assms(2) by (cases ?l) auto
  then have x: "x < n" "x \<noteq> i" "i \<in> set xs" using s ne assms(2) by auto
  have "acpi_numa_get_distance rd8 s i x \<le> acpi_numa_get_distance rd8 s i i"
    using neighbour_list_spec(2) [of rd8 s i n] l x(3) by simp
  then show False using distance_self [OF assms(1,2) x(1)] x(2) by simp
qed

section \<open>Properties\<close>

text \<open>C31: node discovery. Let \<open>D\<close> be the proximity domains the firmware reports. When they are numbered from 0
  without a gap and the bootstrap allocator can serve the requests, initialisation creates one node
  for each, and the neighbours of every node are all nodes, sorted by their distance from it; with a
  validated distance table, or none, the node itself comes first. When the numbering has a gap, the
  neighbour lists of the nodes numbered beyond their count are never set up, and reading them leaves
  initialisation without a result.\<close>

theorem numa_init_correct:
  assumes d: "domains rd8 s D" "\<forall>d \<in> set D. d + 1 < 2 ^ 32"
  defines "n \<equiv> card (set D)"
  shows "(set D = {0..<n} \<and> D \<noteq> [] \<longrightarrow>
      boot_allocs win memmap (SIZEOF_numa_node * n # replicate n (4 * n)) bs = Some bs' \<longrightarrow>
      (\<exists>st. numa_init rd8 s win memmap bs = Some (st, bs') \<and>
        numa_nodes_count st = n \<and> length (numa_nodes st) = n \<and>
        (\<forall>i < n. \<exists>node nb. numa_nodes st ! i = Some node \<and> nn_neighbours node = Some nb \<and>
           mset nb = mset [0..<n] \<and> sorted (map (acpi_numa_get_distance rd8 s i) nb) \<and>
           (distances_ok rd8 s n \<longrightarrow> hd nb = i)))) \<and>
    (set D \<noteq> {0..<n} \<longrightarrow> numa_init rd8 s win memmap bs = None)"
proof -
  define N where "N = Suc (Max (insert 0 (set D)))"
  have N: "set D \<subseteq> {..<N}" "N < 2 ^ 32" using d(2) by (auto simp: N_def less_Suc_eq_le)
  have loops: "numa_nodes_upper_bound rd8 s = Some N"
    "while_next (acpi_numa_enumerate_at_boot rd8 s) add_node ACPI_NUMA_PROXIMITIES_ITER_INIT (marked N {}) =
       Some (marked N (set D))"
    using N add_nodes_marked [of "{}" N D]
    by (simp_all add: numa_nodes_upper_bound_def domains_loop [OF d(1)] fold_opt_max u32_small N_def [symmetric])
  have init: "numa_init rd8 s win memmap bs = Option.bind (mem_bootstrap_alloc win memmap (SIZEOF_numa_node * N) bs)
      (\<lambda>(_, bs). Option.bind (neighbour_loop rd8 s win memmap [0..<n] (marked N (set D), bs))
        (\<lambda>(st, bs). Option.bind (numa_dump_nodes st) (\<lambda>_. Some (st, bs))))"
    by (simp add: numa_init_def loops marked_empty neighbour_loop_def n_def)
  have "\<exists>st. numa_init rd8 s win memmap bs = Some (st, bs') \<and>
        numa_nodes_count st = n \<and> length (numa_nodes st) = n \<and>
        (\<forall>i < n. \<exists>node nb. numa_nodes st ! i = Some node \<and> nn_neighbours node = Some nb \<and>
           mset nb = mset [0..<n] \<and> sorted (map (acpi_numa_get_distance rd8 s i) nb) \<and>
           (distances_ok rd8 s n \<longrightarrow> hd nb = i))"
    if dense: "set D = {0..<n}" "D \<noteq> []"
      and a: "boot_allocs win memmap (SIZEOF_numa_node * n # replicate n (4 * n)) bs = Some bs'"
  proof -
    have "0 < n" using dense by (cases n) auto
    have "Max {0..<n} = n - 1" using \<open>0 < n\<close> by (intro Max_eqI) auto
    moreover have "insert 0 (set D) = {0..<n}" unfolding dense(1) using \<open>0 < n\<close> by auto
    ultimately have Nn: "N = n" unfolding N_def using \<open>0 < n\<close> by simp
    obtain p bs1 where b: "mem_bootstrap_alloc win memmap (SIZEOF_numa_node * n) bs = Some (p, bs1)"
        "boot_allocs win memmap (replicate (n - 0) (4 * n)) bs1 = Some bs'"
      using a by (auto simp: boot_allocs_def bind_eq_Some_conv)
    have "marked N (set D) = listed rd8 s n 0" using Nn dense(1) marked_listed by simp
    then have "numa_init rd8 s win memmap bs = Some (listed rd8 s n n, bs')"
      using b(1) neighbour_loop_dense [OF _ b(2), of rd8 s] Nn by (simp add: init dump_listed)
    then show ?thesis
      using neighbour_list_spec [of rd8 s] neighbour_list_self [of rd8 s n]
      by (intro exI [of _ "listed rd8 s n n"]) (simp add: listed_def)
  qed
  moreover have "numa_init rd8 s win memmap bs = None" if gap: "set D \<noteq> {0..<n}"
  proof -
    have "card (set D) = card {0..<n}" by (simp add: n_def)
    then have "\<not> set D \<subseteq> {0..<n}" using gap card_subset_eq [of "{0..<n}" "set D"] by blast
    then obtain d where dd: "d \<in> set D" "\<not> d < n" by (metis atLeastLessThan_iff le0 subsetI)
    then have "0 < card (set D)" by (auto simp: card_gt_0_iff)
    then have dN: "d < N" "0 < n" using dd(1) N(1) by (auto simp: n_def)
    have "numa_dump_nodes st = None" if "neighbour_loop rd8 s win memmap [0..<n] (marked N (set D), b) = Some (st, b')" for b st b'
    proof -
      have "numa_nodes st ! d = Some fresh_node" "numa_nodes_count st = n" "length (numa_nodes st) = N"
        using neighbour_loop_other [OF that, of d] dd dN by (simp_all add: n_def)
      then have "Some fresh_node \<in> set (numa_nodes st)" "0 < numa_nodes_count st" using dN by (metis nth_mem)+
      then show ?thesis by (force simp: numa_dump_nodes_def fresh_node_def)
    qed
    then show ?thesis by (auto simp: init split: bind_splits)
  qed
  ultimately show ?thesis by blast
qed

definition numa_memmap :: "stivale2_mmap_entry list" where
  "numa_memmap = [\<lparr>mm_base = 2097152, mm_length = 1048576, mm_type = 1\<rparr>]"

theorem numa_init_correct_witness:
  "\<exists>st bs. numa_init (\<lambda>_. 0) acpi_static 0 numa_memmap boot_start = Some (st, bs) \<and> length (numa_nodes st) = 1"
proof -
  have "boot_allocs 0 numa_memmap [SIZEOF_numa_node * 1, 4 * 1] boot_start =
      Some \<lparr>bs_border_offset = 2097312, bs_memmap_index = 0, bs_usable = True\<rparr>"
    by (simp add: boot_allocs_def mem_bootstrap_alloc_def boot_start_def numa_memmap_def PHYS_LOW_def
        STIVALE2_MMAP_USABLE_def entry_end_def SIZEOF_numa_node_def u64_def sub64_def align_up_def align_down_def)
  moreover have "domains (\<lambda>_. 0) acpi_static [0]" by (simp add: domains_def acpi_static_def)
  ultimately show ?thesis
    using numa_init_correct [of "\<lambda>_. 0" acpi_static "[0]" 0 numa_memmap boot_start] by fastforce
qed

end
