(* ===== verification/Phys.thy ===== *)
theory Phys
  imports Numa
begin

text \<open>
  \<^verbatim>\<open>mem/phys/phys.c\<close>: physical memory as ranges that belong to NUMA nodes. A \<open>mem_range\<close> starts
  with the pointer to the next range and the slab; \<open>MEM_REF_BORROW\<close> and \<open>MEM_REF_DROP\<close> treat it as a reference
  counted object, so that the counter is the pointer \<open>rg_next\<close>, and the destructor is the word after it,
  the unused counter of the slab, \<open>rg_drop\<close>. Following a pointer that is not the address of a range, or
  calling such a destructor, has no result. Sections under a node's lock are atomic.
\<close>

record mem_range =
  rg_next :: addr
  rg_drop :: addr
  rg_slab :: mem_phys_slab

record mem_phys_object_data =
  po_range :: addr
  po_size :: nat
  po_node_id :: nat

text \<open>\<open>ph_info\<close> is \<open>mem_phys_objects_info\<close>: none while it is \<open>NULL\<close>; entries never written are \<^const>\<open>None\<close>.\<close>

record phys_state =
  ph_numa :: numa_state
  ph_ranges :: "addr \<Rightarrow> mem_range option"
  ph_mem :: phys_mem
  ph_info :: "mem_phys_object_data option list option"

definition SIZEOF_mem_phys_object_data :: nat where
  "SIZEOF_mem_phys_object_data = 24"

definition node_of :: "phys_state \<Rightarrow> nat \<Rightarrow> numa_node option" where
  "node_of st node = (if node < length (numa_nodes (ph_numa st)) then numa_nodes (ph_numa st) ! node else None)"

definition put_range :: "addr \<Rightarrow> mem_range \<Rightarrow> phys_state \<Rightarrow> phys_state" where
  "put_range r rg st = st\<lparr>ph_ranges := (ph_ranges st)(r \<mapsto> rg)\<rparr>"

section \<open>Operations\<close>

definition mem_phys_store_info :: "addr \<Rightarrow> nat \<Rightarrow> addr \<Rightarrow> nat \<Rightarrow> phys_state \<Rightarrow> phys_state option" where
  "mem_phys_store_info a sz r node st =
     (case ph_info st of
        None \<Rightarrow> Some st
      | Some info \<Rightarrow>
          if a div PAGE_SIZE \<ge> length info then None
          else do {
            range \<leftarrow> ph_ranges st r;
            let st = put_range r (range\<lparr>rg_next := inc64 (rg_next range)\<rparr>) st;
            Some (st\<lparr>ph_info := Some (info[a div PAGE_SIZE := Some \<lparr>po_range = r, po_size = sz, po_node_id = node\<rparr>])\<rparr>) })"

partial_function (option) ranges_loop ::
  "addr \<Rightarrow> nat \<Rightarrow> nat \<Rightarrow> addr \<Rightarrow> phys_state \<Rightarrow> (addr \<times> phys_state) option" where
  "ranges_loop win sz node r st =
     (if r = 0 then Some (PHYS_NULL, st)
      else Option.bind (ph_ranges st r) (\<lambda>range.
        Option.bind (mem_phys_slab_alloc win sz (rg_slab range, ph_mem st)) (\<lambda>(result, slab, mem).
          let st = (put_range r (range\<lparr>rg_slab := slab\<rparr>) st)\<lparr>ph_mem := mem\<rparr> in
          if result \<ge> win then None
          else if result \<noteq> PHYS_NULL
          then Option.bind (mem_phys_store_info result sz r node st) (\<lambda>st. Some (result, st))
          else ranges_loop win sz node (rg_next range) st)))"

definition mem_phys_alloc_specific_nolock :: "addr \<Rightarrow> nat \<Rightarrow> nat \<Rightarrow> phys_state \<Rightarrow> (addr \<times> phys_state) option" where
  "mem_phys_alloc_specific_nolock win sz node st = do {
     nd \<leftarrow> node_of st node;
     ranges_loop win sz node (nn_ranges nd) st }"

definition mem_phys_alloc_specific :: "addr \<Rightarrow> nat \<Rightarrow> nat \<Rightarrow> phys_state \<Rightarrow> (addr \<times> phys_state) option" where
  "mem_phys_alloc_specific win sz node st = mem_phys_alloc_specific_nolock win sz node st"

fun neighbours_loop :: "addr \<Rightarrow> nat \<Rightarrow> nat list \<Rightarrow> phys_state \<Rightarrow> (addr \<times> phys_state) option" where
  "neighbours_loop win sz [] st = Some (PHYS_NULL, st)"
| "neighbours_loop win sz (neighbour # rest) st = do {
     (result, st) \<leftarrow> mem_phys_alloc_specific win sz neighbour st;
     if result \<noteq> PHYS_NULL then Some (result, st) else neighbours_loop win sz rest st }"

text \<open>The first \<open>numa_nodes_count\<close> entries of the neighbour array.\<close>

definition neighbours_of :: "phys_state \<Rightarrow> nat \<Rightarrow> nat list option" where
  "neighbours_of st node = do {
     nd \<leftarrow> node_of st node;
     nb \<leftarrow> nn_neighbours nd;
     if length nb < numa_nodes_count (ph_numa st) then None else Some (take (numa_nodes_count (ph_numa st)) nb) }"

definition mem_phys_alloc_on_behalf :: "addr \<Rightarrow> nat \<Rightarrow> nat \<Rightarrow> phys_state \<Rightarrow> (addr \<times> phys_state) option" where
  "mem_phys_alloc_on_behalf win sz node st = do {
     nb \<leftarrow> neighbours_of st node;
     neighbours_loop win sz nb st }"

definition mem_phys_get_data :: "addr \<Rightarrow> phys_state \<Rightarrow> mem_phys_object_data option" where
  "mem_phys_get_data a st = do {
     info \<leftarrow> ph_info st;
     if a div PAGE_SIZE < length info then info ! (a div PAGE_SIZE) else None }"

definition drop_range :: "addr \<Rightarrow> phys_state \<Rightarrow> phys_state option" where
  "drop_range r st = do {
     range \<leftarrow> ph_ranges st r;
     if rg_next range = 1 \<and> rg_drop range \<noteq> 0 then None
     else Some (put_range r (range\<lparr>rg_next := dec64 (rg_next range)\<rparr>) st) }"

definition mem_phys_free :: "addr \<Rightarrow> addr \<Rightarrow> phys_state \<Rightarrow> phys_state option" where
  "mem_phys_free win a st = do {
     obj \<leftarrow> mem_phys_get_data a st;
     _ \<leftarrow> node_of st (po_node_id obj);
     range \<leftarrow> ph_ranges st (po_range obj);
     (slab, mem) \<leftarrow> mem_phys_slab_free win a (po_size obj) (rg_slab range, ph_mem st);
     drop_range (po_range obj) ((put_range (po_range obj) (range\<lparr>rg_slab := slab\<rparr>) st)\<lparr>ph_mem := mem\<rparr>) }"

definition mem_phys_init :: "addr \<Rightarrow> nat \<Rightarrow> nat \<Rightarrow> phys_state \<Rightarrow> phys_state option" where
  "mem_phys_init win space_size boot_domain st = do {
     let gran_units_size = space_size div PAGE_SIZE;
     (info_phys, st) \<leftarrow>
       mem_phys_alloc_on_behalf win (gran_units_size * SIZEOF_mem_phys_object_data) boot_domain st;
     if info_phys = PHYS_NULL then None
     else Some (st\<lparr>ph_info := Some (replicate gran_units_size None)\<rparr>) }"

section \<open>Slabs in a shared memory\<close>

text \<open>A request writes only into free memory of the region, and a slab depends only on its region.\<close>

lemma split_frame:
  assumes "mem_phys_slab_split_until_target win b k target (slab, mem) = Some (slab', mem')" "b + 2 ^ k \<le> 2 ^ 52"
    "w \<notin> {b..<b + 2 ^ k}"
  shows "mem' w = mem w"
  using assms
proof (induction k arbitrary: slab mem)
  case (Suc k)
  have p: "(2::nat) ^ Suc k = 2 ^ k + 2 ^ k" "(0::nat) < 2 ^ k" by simp_all
  then have u: "u64 (b + 2 ^ k) = b + 2 ^ k" using Suc.prems(2) by (intro u64_small) simp
  show ?case
  proof (cases "Suc k > target")
    case True
    then obtain slab1 mem1 where e: "mem_phys_slab_enqueue win k (b + 2 ^ k) (slab, mem) = Some (slab1, mem1)"
        "mem_phys_slab_split_until_target win b k target (slab1, mem1) = Some (slab', mem')"
      using Suc.prems(1) by (auto simp: u bind_eq_Some_conv)
    have "w \<notin> {b..<b + 2 ^ k}" "w \<noteq> b + 2 ^ k" "b + 2 ^ k \<le> 2 ^ 52" using Suc.prems(2,3) p by auto
    moreover have "mem1 w = mem w" using e(1) \<open>w \<noteq> b + 2 ^ k\<close>
      by (auto simp: mem_phys_slab_enqueue_def Let_def split: if_splits)
    ultimately show ?thesis using Suc.IH [OF e(2)] by simp
  qed (use Suc.prems(1) in simp)
qed simp

lemma alloc_frame:
  assumes inv: "slab_inv win (slab, mem) live"
    and a: "mem_phys_slab_alloc win sz (slab, mem) = Some (b, slab', mem')"
    and w: "w \<notin> {sl_base slab..<sl_base slab + sl_length slab} \<or> (\<exists>x \<in># live. w \<in> {fst x..<fst x + 2 ^ snd x})"
  shows "mem' w = mem w"
proof -
  let ?k = "mem_phys_slab_get_order sz"
  obtain fls where rep: "slab_rep win (slab, mem) fls live" using inv by (auto simp: slab_inv_def)
  have max: "sl_max_freed_order slab < 64" using rep by (simp add: slab_rep_def)
  show ?thesis
  proof (cases "find (\<lambda>i. sl_free_lists slab ! i \<noteq> PHYS_NULL) [?k ..< Suc (sl_max_freed_order slab)]")
    case (Some i)
    then have i: "i < 64" "sl_free_lists slab ! i \<noteq> PHYS_NULL" using find_first [OF Some] max by auto
    obtain c xs slab1 mem1 where d: "mem_phys_slab_dequeue win i (slab, mem) = Some (c, slab1, mem1)"
        "slab_rep win (slab1, mem1) (fls[i := xs]) (add_mset (c, i) live)"
      using dequeue_rep [OF rep i] by auto
    have region: "sl_base slab1 = sl_base slab" "sl_length slab1 = sl_length slab" "mem1 = mem"
      using dequeue_region [OF d(1)] d(1)
      by (auto simp: same_region_def mem_phys_slab_dequeue_def Let_def split: if_splits)
    have c: "sl_base slab \<le> c" "c + 2 ^ i \<le> sl_base slab + sl_length slab" "c + 2 ^ i \<le> 2 ^ 52"
      using d(2) region by (auto simp: slab_rep_def blocks_in_def)
    show ?thesis
    proof (cases "?k = 64")
      case False
      then have "mem_phys_slab_split_until_target win c i ?k (slab1, mem1) = Some (slab', mem')"
        using a Some d(1) max by (auto simp: mem_phys_slab_alloc_def slab_consts Let_def bind_eq_Some_conv)
      moreover have "blk_disj (c, i) x" if "x \<in># live" for x
        using d(2) that by (auto simp: slab_rep_def blocks_in_def all_disj_add)
      then have "w \<notin> {c..<c + 2 ^ i}" using w c by (fastforce simp: blk_disj_def)
      ultimately show ?thesis using split_frame [OF _ c(3)] region(3) by blast
    qed (use a in \<open>simp add: mem_phys_slab_alloc_def slab_consts\<close>)
  next
    case None
    then show ?thesis using a by (auto simp: mem_phys_slab_alloc_def Let_def split: if_splits)
  qed
qed

lemma flist_cong: "\<forall>x \<in> set xs. mem' x = mem x \<Longrightarrow> flist mem' h xs = flist mem h xs"
  by (induction xs arbitrary: h) auto

lemma slab_inv_frame:
  assumes "slab_inv win (slab, mem) live"
    "\<forall>w \<in> {sl_base slab..<sl_base slab + sl_length slab}. mem' w = mem w"
  shows "slab_inv win (slab, mem') live"
proof -
  obtain fls where rep: "slab_rep win (slab, mem) fls live" using assms by (auto simp: slab_inv_def)
  have "mem' x = mem x" if "k < 64" "x \<in> set (fls ! k)" for k x
  proof -
    have "(x, k) \<in># live + free_mset fls" using free_mset_mem [of k fls x] that rep by (simp add: slab_rep_def)
    then show ?thesis
      using blocks_in_mem [of "sl_base slab" "sl_base slab + sl_brk_bytes slab" "live + free_mset fls" x k] rep assms(2)
      by (simp add: slab_rep_def)
  qed
  then have "flist mem' (sl_free_lists slab ! k) (fls ! k)" if "k < 64" for k
    using that rep flist_cong [of "fls ! k" mem' mem] by (simp add: slab_rep_def)
  then have "slab_rep win (slab, mem') fls live" using rep by (simp add: slab_rep_def)
  then show ?thesis by (auto simp: slab_inv_def)
qed

section \<open>The invariant\<close>

text \<open>
  Ghost state: the ranges of each node as they were linked, the blocks in use of each range, and those of them
  that have an entry in the info table, one reference to the range each.
\<close>

record ghost =
  gh_chain :: "nat \<Rightarrow> addr list"
  gh_live :: "addr \<Rightarrow> block multiset"
  gh_rec :: "addr \<Rightarrow> block multiset"

fun linked :: "(addr \<Rightarrow> mem_range option) \<Rightarrow> (addr \<Rightarrow> nat) \<Rightarrow> addr \<Rightarrow> addr list \<Rightarrow> bool" where
  "linked ranges cnt h [] \<longleftrightarrow> h = 0"
| "linked ranges cnt h (r # rs) \<longleftrightarrow> h = r \<and> r \<noteq> 0 \<and>
     (\<exists>rg nxt. ranges r = Some rg \<and> nxt < 2 ^ 64 \<and> rg_next rg = u64 (nxt + cnt r) \<and> linked ranges cnt nxt rs)"

definition region :: "mem_range \<Rightarrow> nat set" where
  "region rg = {sl_base (rg_slab rg)..<sl_base (rg_slab rg) + sl_length (rg_slab rg)}"

definition regions :: "phys_state \<Rightarrow> addr \<Rightarrow> (addr \<times> nat) option" where
  "regions st r = map_option (\<lambda>rg. (sl_base (rg_slab rg), sl_length (rg_slab rg))) (ph_ranges st r)"

definition counts :: "ghost \<Rightarrow> addr \<Rightarrow> nat" where
  "counts g r = size (gh_rec g r)"

definition recorded_at :: "phys_state \<Rightarrow> addr \<Rightarrow> block \<Rightarrow> bool" where
  "recorded_at st r x \<longleftrightarrow> (\<exists>obj. mem_phys_get_data (fst x) st = Some obj \<and> po_range obj = r \<and>
     mem_phys_slab_get_order (po_size obj) = snd x \<and> node_of st (po_node_id obj) \<noteq> None)"

definition phys_inv :: "addr \<Rightarrow> ghost \<Rightarrow> phys_state \<Rightarrow> bool" where
  "phys_inv win g st \<longleftrightarrow>
     (\<forall>node nd. node_of st node = Some nd \<longrightarrow> linked (ph_ranges st) (counts g) (nn_ranges nd) (gh_chain g node)) \<and>
     (\<forall>r rg. ph_ranges st r = Some rg \<longrightarrow> slab_inv win (rg_slab rg, ph_mem st) (gh_live g r)) \<and>
     (\<forall>r r' rg rg'. ph_ranges st r = Some rg \<longrightarrow> ph_ranges st r' = Some rg' \<longrightarrow> r \<noteq> r' \<longrightarrow> region rg \<inter> region rg' = {}) \<and>
     (\<forall>r. gh_rec g r \<subseteq># gh_live g r \<and> (gh_live g r \<noteq> {#} \<longrightarrow> ph_ranges st r \<noteq> None)) \<and>
     (\<forall>r. \<forall>x \<in># gh_live g r. PHYS_SLAB_GRAN \<le> snd x \<and> snd x < 64) \<and>
     (\<forall>r. \<forall>x \<in># gh_rec g r. recorded_at st r x) \<and>
     (\<forall>info r rg. ph_info st = Some info \<longrightarrow> ph_ranges st r = Some rg \<longrightarrow>
        sl_base (rg_slab rg) + sl_length (rg_slab rg) \<le> length info * PAGE_SIZE)"

lemma phys_invD:
  assumes "phys_inv win g st"
  shows "node_of st node = Some nd \<Longrightarrow> linked (ph_ranges st) (counts g) (nn_ranges nd) (gh_chain g node)"
    and "ph_ranges st r = Some rg \<Longrightarrow> slab_inv win (rg_slab rg, ph_mem st) (gh_live g r)"
    and "ph_ranges st r = Some rg \<Longrightarrow> ph_ranges st r' = Some rg' \<Longrightarrow> r \<noteq> r' \<Longrightarrow> region rg \<inter> region rg' = {}"
    and "gh_rec g r \<subseteq># gh_live g r" "x \<in># gh_live g r \<Longrightarrow> \<exists>rg. ph_ranges st r = Some rg"
    and "x \<in># gh_live g r \<Longrightarrow> PHYS_SLAB_GRAN \<le> snd x \<and> snd x < 64"
    and "x \<in># gh_rec g r \<Longrightarrow> recorded_at st r x"
    and "ph_info st = Some info \<Longrightarrow> ph_ranges st r = Some rg \<Longrightarrow>
      sl_base (rg_slab rg) + sl_length (rg_slab rg) \<le> length info * PAGE_SIZE"
proof -
  note i = assms [unfolded phys_inv_def]
  from i show "node_of st node = Some nd \<Longrightarrow> linked (ph_ranges st) (counts g) (nn_ranges nd) (gh_chain g node)" by simp
  from i show "ph_ranges st r = Some rg \<Longrightarrow> slab_inv win (rg_slab rg, ph_mem st) (gh_live g r)" by simp
  from i show "ph_ranges st r = Some rg \<Longrightarrow> ph_ranges st r' = Some rg' \<Longrightarrow> r \<noteq> r' \<Longrightarrow> region rg \<inter> region rg' = {}" by meson
  from i show "gh_rec g r \<subseteq># gh_live g r" by simp
  from i have "gh_live g r \<noteq> {#} \<longrightarrow> ph_ranges st r \<noteq> None" by simp
  then show "x \<in># gh_live g r \<Longrightarrow> \<exists>rg. ph_ranges st r = Some rg" by auto
  from i show "x \<in># gh_live g r \<Longrightarrow> PHYS_SLAB_GRAN \<le> snd x \<and> snd x < 64" by meson
  from i show "x \<in># gh_rec g r \<Longrightarrow> recorded_at st r x" by simp
  from i show "ph_info st = Some info \<Longrightarrow> ph_ranges st r = Some rg \<Longrightarrow>
      sl_base (rg_slab rg) + sl_length (rg_slab rg) \<le> length info * PAGE_SIZE" by meson
qed

lemma linked_cong:
  assumes "linked ranges cnt h rs"
    and "\<And>r rg nxt. ranges r = Some rg \<Longrightarrow> nxt < 2 ^ 64 \<Longrightarrow> rg_next rg = u64 (nxt + cnt r) \<Longrightarrow>
      \<exists>rg'. ranges' r = Some rg' \<and> rg_next rg' = u64 (nxt + cnt' r)"
  shows "linked ranges' cnt' h rs"
  using assms(1)
proof (induction rs arbitrary: h)
  case (Cons r rs)
  then show ?case using assms(2) by fastforce
qed simp

lemma inc64_u64: "inc64 (u64 (n + c)) = u64 (n + Suc c)"
  by (simp add: inc64_def u64_def mod_Suc_eq)

lemma dec64_u64: "dec64 (u64 (n + Suc c)) = u64 (n + c)"
proof (cases "u64 (n + c) = 2 ^ 64 - 1")
  case True
  then have "u64 (n + Suc c) = 0" by (simp add: u64_def mod_Suc)
  then show ?thesis using True by (simp add: dec64_zero)
next
  case False
  then have "u64 (n + Suc c) = Suc (u64 (n + c))" by (simp add: u64_def mod_Suc)
  then show ?thesis using dec64_pos [of "u64 (n + Suc c)"] u64_bound [of "n + Suc c"] by simp
qed

text \<open>Blocks in use anywhere are disjoint, and have different entries in the info table.\<close>

lemma live_region:
  assumes "phys_inv win g st" "x \<in># gh_live g r" "ph_ranges st r = Some rg"
  shows "{fst x..<fst x + 2 ^ snd x} \<subseteq> region rg"
  using slab_inv_live [OF phys_invD(2) [OF assms(1,3)]] assms(2)
  by (auto simp: region_def blocks_in_def)

lemma live_disj:
  assumes inv: "phys_inv win g st" and x: "x \<in># gh_live g r" and y: "y \<in># gh_live g r'" and ne: "x \<noteq> y \<or> r \<noteq> r'"
  shows "blk_disj x y"
proof -
  obtain rg rg' where rg: "ph_ranges st r = Some rg" "ph_ranges st r' = Some rg'" using phys_invD(5) [OF inv] x y by metis
  show ?thesis
  proof (cases "r = r'")
    case True
    have "all_disj (gh_live g r)" using slab_inv_live [OF phys_invD(2) [OF inv rg(1)]] by (simp add: blocks_in_def)
    moreover have "{#x, y#} \<subseteq># gh_live g r" using x y ne True
      by (simp add: insert_subset_eq_iff in_diff_count)
    ultimately show ?thesis unfolding all_disj_def by blast
  next
    case False
    then have e: "{fst x..<fst x + 2 ^ snd x} \<inter> {fst y..<fst y + 2 ^ snd y} = {}"
      using live_region [OF inv x rg(1)] live_region [OF inv y rg(2)] phys_invD(3) [OF inv rg] by blast
    show ?thesis
    proof (rule ccontr)
      assume "\<not> blk_disj x y"
      then have "max (fst x) (fst y) \<in> {fst x..<fst x + 2 ^ snd x} \<inter> {fst y..<fst y + 2 ^ snd y}"
        by (auto simp: blk_disj_def max_def)
      then show False using e by simp
    qed
  qed
qed

lemma disj_index:
  assumes "blk_disj x y" "PHYS_SLAB_GRAN \<le> snd x" "PHYS_SLAB_GRAN \<le> snd y"
  shows "fst x div PAGE_SIZE \<noteq> fst y div PAGE_SIZE"
proof -
  have p: "PAGE_SIZE \<le> 2 ^ snd x" "PAGE_SIZE \<le> 2 ^ snd y"
    using assms(2,3) by (auto simp: PAGE_SIZE_def intro!: power_increasing)
  have *: "a div PAGE_SIZE \<noteq> b div PAGE_SIZE" if "a + PAGE_SIZE \<le> b" for a b
  proof -
    have "(a + PAGE_SIZE) div PAGE_SIZE \<le> b div PAGE_SIZE" using that by (rule div_le_mono)
    then show ?thesis by (simp add: slab_consts)
  qed
  show ?thesis using assms(1) p *[of "fst x" "fst y"] *[of "fst y" "fst x"] by (auto simp: blk_disj_def)
qed

section \<open>Steps of the allocator\<close>

definition set_blocks :: "ghost \<Rightarrow> addr \<Rightarrow> block multiset \<Rightarrow> block multiset \<Rightarrow> ghost" where
  "set_blocks g r live tracked = g\<lparr>gh_live := (gh_live g)(r := live), gh_rec := (gh_rec g)(r := tracked)\<rparr>"

lemma set_blocks_sel [simp]:
  "gh_chain (set_blocks g r live tracked) = gh_chain g"
  "gh_live (set_blocks g r live tracked) r' = (if r' = r then live else gh_live g r')"
  "gh_rec (set_blocks g r live tracked) r' = (if r' = r then tracked else gh_rec g r')"
  by (simp_all add: set_blocks_def)

lemma put_range_sel [simp]:
  "ph_numa (put_range r rg st) = ph_numa st" "ph_mem (put_range r rg st) = ph_mem st"
  "ph_info (put_range r rg st) = ph_info st" "ph_ranges (put_range r rg st) = (ph_ranges st)(r \<mapsto> rg)"
  "node_of (put_range r rg st) node = node_of st node"
  by (simp_all add: put_range_def node_of_def)

lemma state_upd [simp]:
  "node_of (st\<lparr>ph_mem := m\<rparr>) node = node_of st node" "node_of (st\<lparr>ph_info := i\<rparr>) node = node_of st node"
  "mem_phys_get_data a (st\<lparr>ph_mem := m\<rparr>) = mem_phys_get_data a st"
  "mem_phys_get_data a (put_range r rg st) = mem_phys_get_data a st"
  "recorded_at (st\<lparr>ph_mem := m\<rparr>) r' x = recorded_at st r' x" "recorded_at (put_range r rg st) r' x = recorded_at st r' x"
  by (simp_all add: node_of_def mem_phys_get_data_def put_range_def recorded_at_def)

text \<open>Replacing one slab, its links and the memory of its region.\<close>

lemma range_update_inv:
  assumes inv: "phys_inv win g st" and rg: "ph_ranges st r = Some rg"
    and st': "ph_ranges st' = (ph_ranges st)(r \<mapsto> rg')" "ph_mem st' = mem'" "node_of st' = node_of st"
    and reg: "same_region (rg_slab rg) (rg_slab rg')" "\<And>w. w \<notin> region rg \<Longrightarrow> mem' w = ph_mem st w"
    and slab: "slab_inv win (rg_slab rg', mem') live" "\<forall>x \<in># live. PHYS_SLAB_GRAN \<le> snd x \<and> snd x < 64"
    and tracked: "tracked \<subseteq># live" "\<forall>x \<in># tracked. recorded_at st' r x"
      "\<And>r' x. r' \<noteq> r \<Longrightarrow> x \<in># gh_rec g r' \<Longrightarrow> recorded_at st' r' x"
    and nx: "\<And>nxt. rg_next rg = u64 (nxt + counts g r) \<Longrightarrow> rg_next rg' = u64 (nxt + size tracked)"
    and info: "map_option length (ph_info st') = map_option length (ph_info st)"
  shows "phys_inv win (set_blocks g r live tracked) st'"
proof -
  let ?g = "set_blocks g r live tracked"
  have same: "region rg' = region rg" "sl_base (rg_slab rg') = sl_base (rg_slab rg)"
      "sl_length (rg_slab rg') = sl_length (rg_slab rg)"
    using reg(1) by (simp_all add: region_def same_region_def)
  have "linked (ph_ranges st') (counts ?g) (nn_ranges nd) (gh_chain ?g node)" if "node_of st' node = Some nd" for node nd
  proof (rule linked_cong [of "ph_ranges st" "counts g"])
    show "linked (ph_ranges st) (counts g) (nn_ranges nd) (gh_chain ?g node)"
      using phys_invD(1) [OF inv] that st'(3) by simp
    show "\<exists>rg''. ph_ranges st' r' = Some rg'' \<and> rg_next rg'' = u64 (nxt + counts ?g r')"
      if "ph_ranges st r' = Some rg0" "rg_next rg0 = u64 (nxt + counts g r')" for r' rg0 nxt
      using that rg nx [of nxt] st'(1) by (auto simp: counts_def)
  qed
  moreover have "slab_inv win (rg_slab rg0, ph_mem st') (gh_live ?g r')" if "ph_ranges st' r' = Some rg0" for r' rg0
  proof (cases "r' = r")
    case False
    then have r': "ph_ranges st r' = Some rg0" using that st'(1) by simp
    then have "region rg0 \<inter> region rg = {}" using phys_invD(3) [OF inv r' rg] False by simp
    then have "\<forall>w \<in> region rg0. mem' w = ph_mem st w" using reg(2) by blast
    then show ?thesis using slab_inv_frame phys_invD(2) [OF inv r'] False st'(2) by (simp add: region_def)
  qed (use that st'(1,2) slab(1) in simp)
  moreover have "region rg1 \<inter> region rg2 = {}"
    if "ph_ranges st' r1 = Some rg1" "ph_ranges st' r2 = Some rg2" "r1 \<noteq> r2" for r1 r2 rg1 rg2
    using that st'(1) same(1) phys_invD(3) [OF inv _ _ that(3)] rg by (auto split: if_splits)
  moreover have "gh_rec ?g r' \<subseteq># gh_live ?g r' \<and> (gh_live ?g r' \<noteq> {#} \<longrightarrow> ph_ranges st' r' \<noteq> None)" for r'
  proof (cases "r' = r")
    case False
    then show ?thesis using phys_invD(4) [OF inv] phys_invD(5) [OF inv, of _ r'] st'(1) by (auto dest: multiset_nonemptyE)
  qed (use tracked(1) st'(1) in simp)
  moreover have "\<forall>x \<in># gh_live ?g r'. PHYS_SLAB_GRAN \<le> snd x \<and> snd x < 64" for r'
    using phys_invD(6) [OF inv] slab(2) by simp
  moreover have "\<forall>x \<in># gh_rec ?g r'. recorded_at st' r' x" for r' using tracked by simp
  moreover have "sl_base (rg_slab rg0) + sl_length (rg_slab rg0) \<le> length i * PAGE_SIZE"
    if i: "ph_info st' = Some i" and r': "ph_ranges st' r' = Some rg0" for i r' rg0
  proof -
    obtain i0 where "ph_info st = Some i0" "length i0 = length i" using info i by (cases "ph_info st") auto
    then show ?thesis using phys_invD(8) [OF inv, of i0] r' rg st'(1) same by (auto split: if_splits)
  qed
  ultimately show ?thesis unfolding phys_inv_def by blast
qed

lemma set_blocks_id [simp]: "set_blocks g r (gh_live g r) (gh_rec g r) = g"
  by (simp add: set_blocks_def)

lemma slab_alloc_step:
  assumes inv: "phys_inv win g st" and rg: "ph_ranges st r = Some rg"
    and a: "mem_phys_slab_alloc win sz (rg_slab rg, ph_mem st) = Some (b, slab, mem)" and b: "b \<noteq> PHYS_NULL"
  defines "x \<equiv> (b, mem_phys_slab_get_order sz)"
  shows "phys_inv win (set_blocks g r (add_mset x (gh_live g r)) (gh_rec g r))
    ((put_range r (rg\<lparr>rg_slab := slab\<rparr>) st)\<lparr>ph_mem := mem\<rparr>)" "b < win"
proof -
  have s: "slab_inv win (slab, mem) (add_mset x (gh_live g r))" "snd x < 64"
    using alloc_inv [OF phys_invD(2) [OF inv rg], of sz] a b by (auto simp: x_def)
  have o: "\<forall>y \<in># add_mset x (gh_live g r). PHYS_SLAB_GRAN \<le> snd y \<and> snd y < 64"
    using phys_invD(6) [OF inv] s(2) get_order_spec(1) [of sz] by (simp add: x_def slab_consts)
  show "phys_inv win (set_blocks g r (add_mset x (gh_live g r)) (gh_rec g r))
      ((put_range r (rg\<lparr>rg_slab := slab\<rparr>) st)\<lparr>ph_mem := mem\<rparr>)"
  proof (rule range_update_inv [OF inv rg, of _ "rg\<lparr>rg_slab := slab\<rparr>" mem])
    show "mem w = ph_mem st w" if "w \<notin> region rg" for w
      using alloc_frame [OF phys_invD(2) [OF inv rg] a, of w] that by (simp add: region_def)
    show "same_region (rg_slab rg) (rg_slab (rg\<lparr>rg_slab := slab\<rparr>))" using alloc_region [OF a] by simp
    show "gh_rec g r \<subseteq># add_mset x (gh_live g r)"
      using phys_invD(4) [OF inv, of r] by (simp add: subset_mset.trans)
  qed (use s o phys_invD(7) [OF inv] in \<open>auto simp: counts_def\<close>)
  have "(b, snd x) \<in># add_mset x (gh_live g r)" by (simp add: x_def)
  then show "b < win"
    using blocks_in_mem [OF slab_inv_live [OF s(1)]] s(1) by (fastforce simp: slab_inv_def slab_rep_def)
qed

lemma get_data_update:
  "ph_info st = Some info \<Longrightarrow> i < length info \<Longrightarrow>
     mem_phys_get_data a (st\<lparr>ph_info := Some (info[i := v])\<rparr>) = (if a div PAGE_SIZE = i then v else mem_phys_get_data a st)"
  by (auto simp: mem_phys_get_data_def nth_list_update)

lemma store_info_step:
  assumes inv: "phys_inv win g st" and rg: "ph_ranges st r = Some rg"
    and x: "add_mset x (gh_rec g r) \<subseteq># gh_live g r" "mem_phys_slab_get_order sz = snd x" and nd: "node_of st node \<noteq> None"
    and info: "ph_info st = Some info"
  shows "\<exists>st'. mem_phys_store_info (fst x) sz r node st = Some st' \<and>
    phys_inv win (set_blocks g r (gh_live g r) (add_mset x (gh_rec g r))) st' \<and>
    ph_numa st' = ph_numa st \<and> regions st' = regions st \<and> ph_info st' \<noteq> None \<and> ph_mem st' = ph_mem st"
proof -
  let ?i = "fst x div PAGE_SIZE" and ?rg = "rg\<lparr>rg_next := inc64 (rg_next rg)\<rparr>"
  let ?obj = "\<lparr>po_range = r, po_size = sz, po_node_id = node\<rparr>"
  let ?st = "(put_range r ?rg st)\<lparr>ph_info := Some (info[?i := Some ?obj])\<rparr>"
  have x': "x \<in># gh_live g r" using x(1) by (meson mset_subset_eqD union_single_eq_member)
  have "fst x < sl_base (rg_slab rg) + sl_length (rg_slab rg)"
    using blocks_in_mem(3) [OF slab_inv_live [OF phys_invD(2) [OF inv rg]], of "fst x" "snd x"] x' by simp
  then have "fst x < length info * PAGE_SIZE" using phys_invD(8) [OF inv info rg] by linarith
  then have i: "?i < length info" by (simp add: less_mult_imp_div_less)
  have data: "mem_phys_get_data a ?st = (if a div PAGE_SIZE = ?i then Some ?obj else mem_phys_get_data a st)" for a
    using get_data_update [of "put_range r ?rg st" info ?i] info i by (simp add: mem_phys_get_data_def)
  have keep: "recorded_at ?st r' y" if y: "y \<in># gh_rec g r'" for r' y
  proof -
    have yl: "y \<in># gh_live g r'" using phys_invD(4) [OF inv] y by (rule mset_subset_eqD)
    have "blk_disj x y"
    proof (cases "r' = r")
      case True
      have "{#x, y#} \<subseteq># add_mset x (gh_rec g r)" using y True by simp
      then have "{#x, y#} \<subseteq># gh_live g r" using x(1) by (rule subset_mset.trans)
      moreover have "all_disj (gh_live g r)"
        using slab_inv_live [OF phys_invD(2) [OF inv rg]] by (simp add: blocks_in_def)
      ultimately show ?thesis unfolding all_disj_def by blast
    qed (use live_disj [OF inv x' yl] in simp)
    then have "fst y div PAGE_SIZE \<noteq> ?i" using disj_index [of x y] phys_invD(6) [OF inv] x' yl by metis
    then show ?thesis using phys_invD(7) [OF inv y] by (simp add: recorded_at_def data)
  qed
  have "phys_inv win (set_blocks g r (gh_live g r) (add_mset x (gh_rec g r))) ?st"
  proof (rule range_update_inv [OF inv rg, of _ ?rg "ph_mem st"])
    show "\<forall>y \<in># add_mset x (gh_rec g r). recorded_at ?st r y"
      using keep x(2) nd by (auto simp: recorded_at_def data)
    show "rg_next ?rg = u64 (nxt + size (add_mset x (gh_rec g r)))" if "rg_next rg = u64 (nxt + counts g r)" for nxt
      using that by (simp add: counts_def inc64_u64)
  qed (use x(1) keep phys_invD(2) [OF inv rg] phys_invD(6) [OF inv] info in \<open>auto simp: same_region_def fun_eq_iff\<close>)
  moreover have "mem_phys_store_info (fst x) sz r node st = Some ?st"
    using info i rg by (simp add: mem_phys_store_info_def)
  moreover have "regions ?st = regions st" using rg by (auto simp: regions_def region_def)
  ultimately show ?thesis by auto
qed

section \<open>Requests\<close>

definition add_block :: "ghost \<Rightarrow> phys_state \<Rightarrow> addr \<Rightarrow> block \<Rightarrow> ghost" where
  "add_block g st r x = set_blocks g r (add_mset x (gh_live g r))
     (if ph_info st = None then gh_rec g r else add_mset x (gh_rec g r))"

text \<open>The shape of the state that no request changes.\<close>

definition same_shape :: "phys_state \<Rightarrow> phys_state \<Rightarrow> bool" where
  "same_shape st st' \<longleftrightarrow> ph_numa st' = ph_numa st \<and> regions st' = regions st \<and>
     (ph_info st' = None \<longleftrightarrow> ph_info st = None)"

text \<open>The contents of blocks in use are kept.\<close>

definition keeps :: "ghost \<Rightarrow> phys_state \<Rightarrow> phys_state \<Rightarrow> bool" where
  "keeps g st st' \<longleftrightarrow> (\<forall>r. \<forall>x \<in># gh_live g r. \<forall>w \<in> {fst x..<fst x + 2 ^ snd x}. ph_mem st' w = ph_mem st w)"

definition granted :: "addr \<Rightarrow> nat \<Rightarrow> ghost \<Rightarrow> phys_state \<Rightarrow> addr \<Rightarrow> phys_state \<Rightarrow> bool" where
  "granted win sz g st b st' \<longleftrightarrow> same_shape st st' \<and> b \<noteq> PHYS_NULL \<and> keeps g st st' \<and>
     (\<exists>r. phys_inv win (add_block g st r (b, mem_phys_slab_get_order sz)) st')"

definition refuses :: "addr \<Rightarrow> nat \<Rightarrow> phys_state \<Rightarrow> addr \<Rightarrow> bool" where
  "refuses win sz st r \<longleftrightarrow> (\<exists>rg s. ph_ranges st r = Some rg \<and>
     mem_phys_slab_alloc win sz (rg_slab rg, ph_mem st) = Some (PHYS_NULL, s))"

lemma take_step:
  assumes inv: "phys_inv win g st" and rg: "ph_ranges st r = Some rg" and nd: "node_of st node \<noteq> None"
    and a: "mem_phys_slab_alloc win sz (rg_slab rg, ph_mem st) = Some (b, slab, mem)" and b: "b \<noteq> PHYS_NULL"
  shows "b < win" "\<exists>st'. mem_phys_store_info b sz r node ((put_range r (rg\<lparr>rg_slab := slab\<rparr>) st)\<lparr>ph_mem := mem\<rparr>) = Some st' \<and>
    granted win sz g st b st'"
proof -
  let ?x = "(b, mem_phys_slab_get_order sz)" and ?st = "(put_range r (rg\<lparr>rg_slab := slab\<rparr>) st)\<lparr>ph_mem := mem\<rparr>"
  let ?g = "set_blocks g r (add_mset ?x (gh_live g r)) (gh_rec g r)"
  note s = slab_alloc_step [OF inv rg a b]
  have reg: "regions ?st = regions st"
    using rg alloc_region [OF a] by (auto simp: regions_def region_def same_region_def)
  have kp: "keeps g st ?st"
    unfolding keeps_def
  proof (intro allI ballI)
    fix r' x w assume x: "x \<in># gh_live g r'" and w: "w \<in> {fst x..<fst x + 2 ^ snd x}"
    obtain rg' where rg': "ph_ranges st r' = Some rg'" using phys_invD(5) [OF inv x] by blast
    have "w \<notin> region rg \<or> r' = r" using live_region [OF inv x rg'] phys_invD(3) [OF inv rg' rg] w by blast
    then show "ph_mem ?st w = ph_mem st w"
      using alloc_frame [OF phys_invD(2) [OF inv rg] a, of w] x w by (auto simp: region_def)
  qed
  show "b < win" by (fact s(2))
  show "\<exists>st'. mem_phys_store_info b sz r node ?st = Some st' \<and> granted win sz g st b st'"
  proof (cases "ph_info st")
    case None
    then have "granted win sz g st b ?st" using s(1) b reg kp
      by (auto simp: granted_def same_shape_def add_block_def)
    then show ?thesis using None by (simp add: mem_phys_store_info_def)
  next
    case (Some info)
    have "set_blocks ?g r (gh_live ?g r) (add_mset ?x (gh_rec ?g r)) = add_block g st r ?x"
      using Some by (simp add: add_block_def set_blocks_def)
    moreover have "\<exists>st'. mem_phys_store_info (fst ?x) sz r node ?st = Some st' \<and>
        phys_inv win (set_blocks ?g r (gh_live ?g r) (add_mset ?x (gh_rec ?g r))) st' \<and>
        ph_numa st' = ph_numa ?st \<and> regions st' = regions ?st \<and> ph_info st' \<noteq> None \<and> ph_mem st' = ph_mem ?st"
      by (rule store_info_step [OF s(1)]) (use nd Some phys_invD(4) [OF inv] in auto)
    ultimately show ?thesis using b reg kp Some by (auto simp: granted_def same_shape_def keeps_def)
  qed
qed

lemma refused_same:
  assumes "phys_inv win g st" "ph_ranges st r = Some rg"
    "mem_phys_slab_alloc win sz (rg_slab rg, ph_mem st) = Some (PHYS_NULL, slab, mem)"
  shows "(put_range r (rg\<lparr>rg_slab := slab\<rparr>) st)\<lparr>ph_mem := mem\<rparr> = st"
proof -
  have "slab = rg_slab rg" "mem = ph_mem st"
    using alloc_inv [OF phys_invD(2) [OF assms(1,2)], of sz] assms(3) by auto
  then show ?thesis using assms(2) by (simp add: put_range_def fun_upd_idem)
qed

text \<open>Whatever pointers it follows, a loop that returns is safe.\<close>

lemma ranges_loop_safe:
  assumes "ranges_loop win sz node r st = Some (b, st')" "phys_inv win g st" "node_of st node \<noteq> None"
  shows "(b = PHYS_NULL \<and> st' = st) \<or> granted win sz g st b st'"
proof -
  let ?P = "\<lambda>win sz node r st res. phys_inv win g st \<longrightarrow> node_of st node \<noteq> None \<longrightarrow>
      (fst res = PHYS_NULL \<and> snd res = st) \<or> granted win sz g st (fst res) (snd res)"
  have "?P win sz node r st (b, st')"
  proof (rule ranges_loop.raw_induct [of ?P, OF _ assms(1)])
    fix loop win sz node r st res
    assume IH: "\<And>win sz node r st res. loop win sz node r st = Some res \<Longrightarrow> ?P win sz node r st res"
      and body: "(if r = 0 then Some (PHYS_NULL, st)
      else Option.bind (ph_ranges st r) (\<lambda>range.
        Option.bind (mem_phys_slab_alloc win sz (rg_slab range, ph_mem st)) (\<lambda>(result, slab, mem).
          let st = (put_range r (range\<lparr>rg_slab := slab\<rparr>) st)\<lparr>ph_mem := mem\<rparr> in
          if win \<le> result then None
          else if result \<noteq> PHYS_NULL
          then Option.bind (mem_phys_store_info result sz r node st) (\<lambda>st. Some (result, st))
          else loop win sz node (rg_next range) st))) = Some res"
    show "?P win sz node r st res"
    proof (intro impI)
      assume inv: "phys_inv win g st" and nd: "node_of st node \<noteq> None"
      show "(fst res = PHYS_NULL \<and> snd res = st) \<or> granted win sz g st (fst res) (snd res)"
      proof (cases "r = 0")
        case False
        then obtain rg b slab mem where rg: "ph_ranges st r = Some rg"
          and a: "mem_phys_slab_alloc win sz (rg_slab rg, ph_mem st) = Some (b, slab, mem)"
          and w: "b < win"
          and rest: "(if b \<noteq> PHYS_NULL then Option.bind (mem_phys_store_info b sz r node
              ((put_range r (rg\<lparr>rg_slab := slab\<rparr>) st)\<lparr>ph_mem := mem\<rparr>)) (\<lambda>st. Some (b, st))
            else loop win sz node (rg_next rg) ((put_range r (rg\<lparr>rg_slab := slab\<rparr>) st)\<lparr>ph_mem := mem\<rparr>)) = Some res"
          using body by (auto simp: bind_eq_Some_conv Let_def split: if_splits)
        show ?thesis
        proof (cases "b = PHYS_NULL")
          case True
          then have "loop win sz node (rg_next rg) st = Some res"
            using rest refused_same [OF inv rg] a by simp
          then show ?thesis using IH inv nd by blast
        next
          case False
          then show ?thesis using rest take_step(2) [OF inv rg nd a False] by auto
        qed
      qed (use body in auto)
    qed
  qed
  then show ?thesis using assms(2,3) by simp
qed

text \<open>It returns if it passes only ranges that have no recorded blocks.\<close>

lemma ranges_loop_returns:
  assumes inv: "phys_inv win g st" and nd: "node_of st node \<noteq> None"
    and "linked (ph_ranges st) (counts g) h rs"
    and "\<forall>r \<in> set rs. refuses win sz st r \<longrightarrow> gh_rec g r = {#}"
  shows "\<exists>b st'. ranges_loop win sz node h st = Some (b, st') \<and>
    (b = PHYS_NULL \<longleftrightarrow> (\<forall>r \<in> set rs. refuses win sz st r))"
  using assms(3,4)
proof (induction rs arbitrary: h)
  case Nil
  then show ?case by (simp add: ranges_loop.simps)
next
  case (Cons r rs)
  obtain rg nxt where r: "h = r" "r \<noteq> 0" "ph_ranges st r = Some rg" "nxt < 2 ^ 64"
      "rg_next rg = u64 (nxt + counts g r)" "linked (ph_ranges st) (counts g) nxt rs"
    using Cons.prems(1) by auto
  obtain b slab mem where a: "mem_phys_slab_alloc win sz (rg_slab rg, ph_mem st) = Some (b, slab, mem)"
    using alloc_inv [OF phys_invD(2) [OF inv r(3)], of sz] by (metis prod.exhaust)
  show ?case
  proof (cases "b = PHYS_NULL")
    case True
    then have ref: "refuses win sz st r" using a r(3) by (auto simp: refuses_def)
    then have "counts g r = 0" using Cons.prems(2) by (simp add: counts_def)
    then have nx: "rg_next rg = nxt" using r(4,5) by (simp add: u64_small)
    have "0 < win" using phys_invD(2) [OF inv r(3)] by (auto simp: slab_inv_def slab_rep_def)
    then have "ranges_loop win sz node h st = ranges_loop win sz node nxt st"
      using r(1-3) a True nx refused_same [OF inv r(3), of sz slab mem]
      by (simp add: ranges_loop.simps [of win sz node r] slab_consts)
    then show ?thesis using Cons.IH [OF r(6)] Cons.prems(2) ref by simp
  next
    case False
    then have "\<not> refuses win sz st r" using a r(3) by (auto simp: refuses_def)
    then show ?thesis
      using take_step [OF inv r(3) nd a False] False a r(1-3)
      by (auto simp: ranges_loop.simps [of win sz node r] Let_def)
  qed
qed

text \<open>A range with recorded blocks that refuses a request sends the loop to a wrong address.\<close>

lemma ranges_loop_lost:
  assumes inv: "phys_inv win g st" and "linked (ph_ranges st) (counts g) h (r # rs)"
    and "refuses win sz st r" "gh_rec g r \<noteq> {#}"
    and rg: "ph_ranges st r = Some rg" "rg_next rg \<noteq> 0" "ph_ranges st (rg_next rg) = None"
  shows "ranges_loop win sz node h st = None"
proof -
  obtain slab mem where a: "mem_phys_slab_alloc win sz (rg_slab rg, ph_mem st) = Some (PHYS_NULL, slab, mem)"
    using assms(3) rg(1) by (auto simp: refuses_def)
  have h: "h = r" "r \<noteq> 0" "0 < win"
    using assms(2) phys_invD(2) [OF inv rg(1)] by (auto simp: slab_inv_def slab_rep_def)
  have "ranges_loop win sz node (rg_next rg) st = None"
    using rg(2,3) by (simp add: ranges_loop.simps [of win sz node "rg_next rg"])
  then show ?thesis
    using h rg(1) a refused_same [OF inv rg(1) a] by (simp add: ranges_loop.simps [of win sz node r] slab_consts)
qed

lemma same_shape_node: "same_shape st st' \<Longrightarrow> node_of st' node = node_of st node \<and> neighbours_of st' node = neighbours_of st node"
  by (simp add: same_shape_def node_of_def neighbours_of_def cong: if_cong)

lemma alloc_specific_safe:
  assumes "mem_phys_alloc_specific win sz node st = Some (b, st')" "phys_inv win g st"
  shows "(b = PHYS_NULL \<and> st' = st) \<or> granted win sz g st b st'"
proof -
  obtain nd where "node_of st node = Some nd" "ranges_loop win sz node (nn_ranges nd) st = Some (b, st')"
    using assms(1) by (auto simp: mem_phys_alloc_specific_def mem_phys_alloc_specific_nolock_def bind_eq_Some_conv)
  then show ?thesis using ranges_loop_safe assms(2) by fastforce
qed

lemma neighbours_loop_safe:
  assumes "neighbours_loop win sz nb st = Some (b, st')" "phys_inv win g st"
  shows "(b = PHYS_NULL \<and> st' = st) \<or> granted win sz g st b st'"
  using assms
proof (induction nb)
  case (Cons n nb)
  then obtain b1 st1 where "mem_phys_alloc_specific win sz n st = Some (b1, st1)"
      "(if b1 \<noteq> PHYS_NULL then Some (b1, st1) else neighbours_loop win sz nb st1) = Some (b, st')"
    by (auto simp: bind_eq_Some_conv)
  then show ?case using alloc_specific_safe [of win sz n st b1 st1 g] Cons by (auto simp: granted_def split: if_splits)
qed simp

lemma alloc_on_behalf_safe:
  assumes "mem_phys_alloc_on_behalf win sz node st = Some (b, st')" "phys_inv win g st"
  shows "(b = PHYS_NULL \<and> st' = st) \<or> granted win sz g st b st'"
  using assms neighbours_loop_safe [of win sz _ st b st' g]
  by (auto simp: mem_phys_alloc_on_behalf_def bind_eq_Some_conv)

text \<open>The ranges a request passes.\<close>

definition passable :: "addr \<Rightarrow> nat \<Rightarrow> ghost \<Rightarrow> phys_state \<Rightarrow> nat \<Rightarrow> bool" where
  "passable win sz g st node \<longleftrightarrow> node_of st node \<noteq> None \<and>
     (\<forall>r \<in> set (gh_chain g node). refuses win sz st r \<longrightarrow> gh_rec g r = {#})"

lemma alloc_specific_returns:
  assumes inv: "phys_inv win g st" and p: "passable win sz g st node"
  shows "\<exists>b st'. mem_phys_alloc_specific win sz node st = Some (b, st') \<and>
    (b = PHYS_NULL \<longleftrightarrow> (\<forall>r \<in> set (gh_chain g node). refuses win sz st r))"
proof -
  obtain nd where nd: "node_of st node = Some nd" using p by (auto simp: passable_def)
  then show ?thesis
    using ranges_loop_returns [OF inv, of node "nn_ranges nd" "gh_chain g node" sz] phys_invD(1) [OF inv nd] p
    by (simp add: mem_phys_alloc_specific_def mem_phys_alloc_specific_nolock_def passable_def)
qed

lemma neighbours_loop_returns:
  assumes inv: "phys_inv win g st" and "\<forall>n \<in> set nb. passable win sz g st n"
  shows "\<exists>b st'. neighbours_loop win sz nb st = Some (b, st') \<and>
    (b = PHYS_NULL \<longleftrightarrow> (\<forall>n \<in> set nb. \<forall>r \<in> set (gh_chain g n). refuses win sz st r))"
  using assms(2)
proof (induction nb)
  case (Cons n nb)
  obtain b st' where a: "mem_phys_alloc_specific win sz n st = Some (b, st')"
      "b = PHYS_NULL \<longleftrightarrow> (\<forall>r \<in> set (gh_chain g n). refuses win sz st r)"
    using alloc_specific_returns [OF inv, of sz n] Cons.prems by auto
  show ?case
  proof (cases "b = PHYS_NULL")
    case True
    then have "st' = st" using alloc_specific_safe [OF a(1) inv] by (auto simp: granted_def)
    then show ?thesis using Cons a True by simp
  qed (use a in auto)
qed simp

section \<open>Returns and client writes\<close>

definition del_block :: "ghost \<Rightarrow> addr \<Rightarrow> block \<Rightarrow> ghost" where
  "del_block g r x = set_blocks g r (gh_live g r - {#x#}) (gh_rec g r - {#x#})"

lemma free_step:
  assumes inv: "phys_inv win g st" and x: "x \<in># gh_rec g r"
  shows "\<exists>rg. ph_ranges st r = Some rg \<and>
    (case mem_phys_free win (fst x) st of
       Some st' \<Rightarrow> same_shape st st' \<and> phys_inv win (del_block g r x) st' \<and> (\<forall>w. w \<noteq> fst x \<longrightarrow> ph_mem st' w = ph_mem st w)
     | None \<Rightarrow> rg_next rg = 1 \<and> rg_drop rg \<noteq> 0)"
proof -
  have xl: "x \<in># gh_live g r" using phys_invD(4) [OF inv] x by (rule mset_subset_eqD)
  obtain rg where rg: "ph_ranges st r = Some rg" using phys_invD(5) [OF inv xl] by blast
  obtain obj where obj: "mem_phys_get_data (fst x) st = Some obj" "po_range obj = r"
      "mem_phys_slab_get_order (po_size obj) = snd x" "node_of st (po_node_id obj) \<noteq> None"
    using phys_invD(7) [OF inv x] by (auto simp: recorded_at_def)
  have ord: "snd x < 64" using phys_invD(6) [OF inv xl] by simp
  have live: "gh_live g r = add_mset x (gh_live g r - {#x#})" using xl by simp
  have "slab_inv win (rg_slab rg, ph_mem st) (add_mset (fst x, mem_phys_slab_get_order (po_size obj)) (gh_live g r - {#x#}))"
    using phys_invD(2) [OF inv rg] obj(3) live by simp
  from free_inv [OF this] obtain slab mem where
    f: "mem_phys_slab_free win (fst x) (po_size obj) (rg_slab rg, ph_mem st) = Some (slab, mem)"
    and s: "slab_inv win (slab, mem) (gh_live g r - {#x#})"
    using ord obj(3) by auto
  have frame: "mem w = ph_mem st w" if "w \<noteq> fst x" for w
    using f that by (auto simp: mem_phys_slab_free_def mem_phys_slab_enqueue_def Let_def split: if_splits)
  moreover have "fst x \<in> region rg" using live_region [OF inv xl rg] by auto
  ultimately have w: "mem w = ph_mem st w" if "w \<notin> region rg" for w using that by metis
  let ?st1 = "(put_range r (rg\<lparr>rg_slab := slab\<rparr>) st)\<lparr>ph_mem := mem\<rparr>"
  let ?rg = "rg\<lparr>rg_slab := slab, rg_next := dec64 (rg_next rg)\<rparr>"
  have free: "mem_phys_free win (fst x) st =
      (if rg_next rg = 1 \<and> rg_drop rg \<noteq> 0 then None else Some (put_range r ?rg ?st1))"
    using obj f rg by (auto simp: mem_phys_free_def drop_range_def)
  have "phys_inv win (del_block g r x) (put_range r ?rg ?st1)"
    unfolding del_block_def
  proof (rule range_update_inv [OF inv rg, of _ ?rg mem])
    show "same_region (rg_slab rg) (rg_slab ?rg)" using enqueue_region [OF f [unfolded mem_phys_slab_free_def]] by simp
    show "rg_next ?rg = u64 (nxt + size (gh_rec g r - {#x#}))" if "rg_next rg = u64 (nxt + counts g r)" for nxt
    proof -
      have "counts g r = Suc (size (gh_rec g r - {#x#}))" using x size_Suc_Diff1 [OF x] by (simp add: counts_def)
      then show ?thesis using that dec64_u64 by simp
    qed
    show "\<forall>y \<in># gh_live g r - {#x#}. PHYS_SLAB_GRAN \<le> snd y \<and> snd y < 64"
      using phys_invD(6) [OF inv, of _ r] by (blast dest: in_diffD)
    show "\<forall>y \<in># gh_rec g r - {#x#}. recorded_at (put_range r ?rg ?st1) r y"
      using phys_invD(7) [OF inv, of _ r] by (auto dest: in_diffD)
    show "gh_rec g r - {#x#} \<subseteq># gh_live g r - {#x#}"
      using phys_invD(4) [OF inv, of r] x xl by (simp add: subset_eq_diff_conv)
  qed (use w s phys_invD(7) [OF inv] in auto)
  moreover have "same_shape st (put_range r ?rg ?st1)"
    using rg enqueue_region [OF f [unfolded mem_phys_slab_free_def]]
    by (auto simp: same_shape_def regions_def region_def same_region_def)
  ultimately show ?thesis using rg free frame by (auto split: if_splits)
qed

lemma client_change:
  assumes inv: "phys_inv win g st" and x: "x \<in># gh_live g r"
    and eq: "\<And>w. w \<notin> {fst x..<fst x + 2 ^ snd x} \<Longrightarrow> mem' w = ph_mem st w"
  shows "phys_inv win g (st\<lparr>ph_mem := mem'\<rparr>)"
proof -
  obtain rg where rg: "ph_ranges st r = Some rg" using phys_invD(5) [OF inv x] by blast
  have wr: "mem' w = ph_mem st w" if "w \<notin> region rg" for w using live_region [OF inv x rg] that eq [of w] by blast
  obtain fls where rep: "slab_rep win (rg_slab rg, ph_mem st) fls (gh_live g r)"
    using phys_invD(2) [OF inv rg] by (auto simp: slab_inv_def)
  have "mem' y = ph_mem st y" if "k < 64" "y \<in> set (fls ! k)" for k y
  proof (rule eq)
    show "y \<notin> {fst x..<fst x + 2 ^ snd x}" using live_not_free [OF rep, of "fst x" "snd x" y] x that by auto
  qed
  then have "slab_rep win (rg_slab rg, mem') fls (gh_live g r)"
    using rep flist_cong [of _ mem' "ph_mem st"] by (simp add: slab_rep_def)
  then have "slab_inv win (rg_slab rg, mem') (gh_live g r)" by (auto simp: slab_inv_def)
  then have "phys_inv win (set_blocks g r (gh_live g r) (gh_rec g r)) (st\<lparr>ph_mem := mem'\<rparr>)"
    by (intro range_update_inv [OF inv rg, of _ rg mem'])
      (use wr rg phys_invD [OF inv] in \<open>auto simp: same_region_def counts_def fun_upd_idem\<close>)
  then show ?thesis by simp
qed

lemma client_step:
  assumes inv: "phys_inv win g st" and x: "x \<in># gh_live g r" and w: "w \<in> {fst x..<fst x + 2 ^ snd x}"
  shows "phys_inv win g (st\<lparr>ph_mem := (ph_mem st)(w := v)\<rparr>)"
  by (rule client_change [OF inv x]) (use w in auto)

end
