(* ===== verification/Phys_Boot.thy ===== *)
theory Phys_Boot
  imports Phys
begin

text \<open>
  \<^verbatim>\<open>mem/mem.c\<close>: how the usable memory of the memory map becomes the ranges of the NUMA nodes, and the safety of
  the physical memory allocator from boot on.
\<close>

definition SIZEOF_mem_range :: nat where
  "SIZEOF_mem_range = 576"

section \<open>Ranges\<close>

text \<open>\<^verbatim>\<open>mem/mem.c\<close>: a first pass over the memory map counts the subranges, the second adds them to the nodes.\<close>

definition usable_bounds :: "stivale2_mmap_entry \<Rightarrow> (addr \<times> addr) option" where
  "usable_bounds e = (if mm_type e \<noteq> STIVALE2_MMAP_USABLE then None else Some (mm_base e, entry_end e))"

definition mem_estimate_boot_ranges_upper_bound ::
  "bytes \<Rightarrow> acpi_state \<Rightarrow> stivale2_mmap_entry list \<Rightarrow> nat option" where
  "mem_estimate_boot_ranges_upper_bound rd8 s memmap =
     fold_opt (\<lambda>e result. case usable_bounds e of
         None \<Rightarrow> Some result
       | Some (start, end') \<Rightarrow>
           while_next (acpi_numa_get_memory_range rd8 s) (\<lambda>buf result. Some (Suc result))
             (ACPI_NUMA_PHYS_RANGE_ITER_INIT start end') result) memmap 0"

text \<open>One subrange: \<open>k\<close> is \<open>current_entry\<close>, \<open>junk\<close> what the allocated memory held before.\<close>

definition add_range ::
  "(addr \<Rightarrow> nat) \<Rightarrow> addr \<Rightarrow> nat \<Rightarrow> acpi_numa_memory_range \<Rightarrow> nat \<times> phys_state \<Rightarrow> (nat \<times> phys_state) option" where
  "add_range junk entries num_entries buf = (\<lambda>(k, st).
     if \<not> k < num_entries then None
     else do {
       let r = entries + k * SIZEOF_mem_range;
       nd \<leftarrow> node_of st (mr_node_id buf);
       let range = \<lparr>rg_next = nn_ranges nd, rg_drop = junk (r + 8),
         rg_slab = mem_phys_slab_init (mr_start buf) (sub64 (mr_end buf) (mr_start buf))\<rparr>;
       let numa = ph_numa st;
       let numa = numa\<lparr>numa_nodes := (numa_nodes numa)[mr_node_id buf := Some (nd\<lparr>nn_ranges := r\<rparr>)]\<rparr>;
       Some (Suc k, put_range r range (st\<lparr>ph_numa := numa\<rparr>)) })"

definition mem_add_numa_ranges ::
  "bytes \<Rightarrow> acpi_state \<Rightarrow> addr \<Rightarrow> (addr \<Rightarrow> nat) \<Rightarrow> stivale2_mmap_entry list option \<Rightarrow> bootstrap \<times> phys_state \<Rightarrow>
   (bootstrap \<times> phys_state) option" where
  "mem_add_numa_ranges rd8 s win junk memmap_tag = (\<lambda>(bs, st). do {
     memmap \<leftarrow> memmap_tag;
     num_entries \<leftarrow> mem_estimate_boot_ranges_upper_bound rd8 s memmap;
     (entries, bs) \<leftarrow> mem_bootstrap_alloc win memmap (SIZEOF_mem_range * num_entries) bs;
     let (border, bs) = mem_bootstrap_terminate_allocator bs;
     (_, st) \<leftarrow> fold_opt (\<lambda>e x. case usable_bounds e of
         None \<Rightarrow> Some x
       | Some (start, end') \<Rightarrow>
           if end' \<le> border then Some x
           else while_next (acpi_numa_get_memory_range rd8 s) (add_range junk entries num_entries)
             (ACPI_NUMA_PHYS_RANGE_ITER_INIT (if start < border then border else start) end') x) memmap (0, st);
     Some (bs, st) })"

section \<open>The ranges found at boot\<close>

text \<open>The subranges of a physical range, without and with an affinity table.\<close>

definition srat_view :: "bytes \<Rightarrow> acpi_state \<Rightarrow> srat_entry list option \<Rightarrow> bool" where
  "srat_view rd8 s v \<longleftrightarrow> (case v of None \<Rightarrow> acpi_boot_srat s = 0 | Some es \<Rightarrow> srat_at rd8 (acpi_boot_srat s) es)"

definition subranges :: "srat_entry list option \<Rightarrow> addr \<Rightarrow> addr \<Rightarrow> acpi_numa_memory_range list" where
  "subranges v lo hi = (case v of
     None \<Rightarrow> [\<lparr>mr_start = align_up lo PAGE_SIZE, mr_end = align_down hi PAGE_SIZE, mr_node_id = 0\<rparr>]
   | Some es \<Rightarrow> map (clip lo hi) (filter (overlap lo hi) es))"

lemma subranges_loop:
  assumes "srat_view rd8 s v"
  shows "while_next (acpi_numa_get_memory_range rd8 s) f (ACPI_NUMA_PHYS_RANGE_ITER_INIT lo hi) x = fold_opt f (subranges v lo hi) x"
proof (cases v)
  case None
  let ?b = "\<lparr>mr_start = align_up lo PAGE_SIZE, mr_end = align_down hi PAGE_SIZE, mr_node_id = 0\<rparr>"
  from None show ?thesis using assms by (cases "f ?b x") (simp_all add: srat_view_def subranges_def ranges_loop_none)
qed (use assms in \<open>simp add: srat_view_def subranges_def Acpi_Numa.ranges_loop\<close>)

lemma fold_opt_append: "fold_opt f (xs @ ys) x = Option.bind (fold_opt f xs x) (fold_opt f ys)"
proof (induction xs arbitrary: x)
  case (Cons a xs)
  then show ?case by (cases "f a x") simp_all
qed simp

lemma fold_opt_concat: "fold_opt (\<lambda>a. fold_opt f (h a)) xs x = fold_opt f (concat (map h xs)) x"
proof (induction xs arbitrary: x)
  case (Cons a xs)
  then show ?case by (cases "fold_opt f (h a) x") (simp_all add: fold_opt_append)
qed simp

lemma fold_opt_count: "fold_opt (\<lambda>b n. Some (Suc n)) bs n = Some (n + length bs)"
  by (induction bs arbitrary: n) simp_all

text \<open>The subranges of both passes over the memory map.\<close>

definition all_subranges :: "srat_entry list option \<Rightarrow> stivale2_mmap_entry list \<Rightarrow> acpi_numa_memory_range list" where
  "all_subranges v memmap = concat (map (\<lambda>e. case usable_bounds e of
     None \<Rightarrow> [] | Some (lo, hi) \<Rightarrow> subranges v lo hi) memmap)"

definition boot_subranges ::
  "srat_entry list option \<Rightarrow> addr \<Rightarrow> stivale2_mmap_entry list \<Rightarrow> acpi_numa_memory_range list" where
  "boot_subranges v border memmap = concat (map (\<lambda>e. case usable_bounds e of
     None \<Rightarrow> [] | Some (lo, hi) \<Rightarrow> if hi \<le> border then [] else subranges v (if lo < border then border else lo) hi) memmap)"

lemma estimate_spec:
  assumes "srat_view rd8 s v"
  shows "mem_estimate_boot_ranges_upper_bound rd8 s memmap = Some (length (all_subranges v memmap))"
proof -
  have "mem_estimate_boot_ranges_upper_bound rd8 s memmap =
      fold_opt (\<lambda>e. fold_opt (\<lambda>b n. Some (Suc n)) (case usable_bounds e of None \<Rightarrow> [] | Some (lo, hi) \<Rightarrow> subranges v lo hi)) memmap 0"
    unfolding mem_estimate_boot_ranges_upper_bound_def
    by (intro arg_cong [of _ _ "\<lambda>f. fold_opt f memmap 0"] ext) (simp add: subranges_loop [OF assms] split: option.split)
  then show ?thesis by (simp add: fold_opt_concat fold_opt_count all_subranges_def)
qed

lemma boot_subranges_le: "length (boot_subranges v border memmap) \<le> length (all_subranges v memmap)"
proof -
  have *: "length (subranges v lo' hi) \<le> length (subranges v lo hi)" if "lo \<le> lo'" for lo lo' hi
  proof (cases v)
    case (Some es)
    have "length (filter (overlap lo' hi) es) \<le> length (filter (overlap lo hi) es)"
      using that by (induction es) (auto simp: overlap_def)
    then show ?thesis using Some by (simp add: subranges_def)
  qed (simp add: subranges_def)
  have "length (boot_subranges v border memmap) =
      (\<Sum>e\<leftarrow>memmap. length (case usable_bounds e of None \<Rightarrow> [] | Some (lo, hi) \<Rightarrow>
        if hi \<le> border then [] else subranges v (if lo < border then border else lo) hi))"
    by (simp add: boot_subranges_def length_concat o_def)
  also have "\<dots> \<le> (\<Sum>e\<leftarrow>memmap. length (case usable_bounds e of None \<Rightarrow> [] | Some (lo, hi) \<Rightarrow> subranges v lo hi))"
    using * by (intro sum_list_mono) (auto split: option.splits)
  finally show ?thesis by (simp add: all_subranges_def length_concat o_def)
qed

lemma add_numa_ranges_eq:
  assumes "srat_view rd8 s v"
  shows "mem_add_numa_ranges rd8 s win junk (Some memmap) (bs, st) = do {
     let n = length (all_subranges v memmap);
     (entries, bs) \<leftarrow> mem_bootstrap_alloc win memmap (SIZEOF_mem_range * n) bs;
     let (border, bs) = mem_bootstrap_terminate_allocator bs;
     (_, st) \<leftarrow> fold_opt (add_range junk entries n) (boot_subranges v border memmap) (0, st);
     Some (bs, st) }"
proof -
  have "(\<lambda>e x. case usable_bounds e of
         None \<Rightarrow> Some x
       | Some (start, end') \<Rightarrow>
           if end' \<le> border then Some x
           else while_next (acpi_numa_get_memory_range rd8 s) f
             (ACPI_NUMA_PHYS_RANGE_ITER_INIT (if start < border then border else start) end') x) =
      (\<lambda>e. fold_opt f (case usable_bounds e of
         None \<Rightarrow> [] | Some (lo, hi) \<Rightarrow> if hi \<le> border then [] else subranges v (if lo < border then border else lo) hi))"
    for border and f :: "acpi_numa_memory_range \<Rightarrow> nat \<times> phys_state \<Rightarrow> (nat \<times> phys_state) option"
    by (intro ext) (simp add: subranges_loop [OF assms] split: option.split)
  then show ?thesis
    by (simp add: mem_add_numa_ranges_def estimate_spec [OF assms] fold_opt_concat boot_subranges_def Let_def)
qed

definition span :: "acpi_numa_memory_range \<Rightarrow> nat set" where
  "span b = {mr_start b..<mr_end b}"

definition spans_ok :: "addr \<Rightarrow> acpi_numa_memory_range list \<Rightarrow> bool" where
  "spans_ok win bufs \<longleftrightarrow> (\<forall>b \<in> set bufs. 0 < mr_start b \<and> PAGE_SIZE dvd mr_start b \<and> mr_start b \<le> mr_end b \<and> mr_end b \<le> win \<and> mr_end b \<le> 2 ^ 52) \<and>
     sorted_wrt (\<lambda>b b'. span b \<inter> span b' = {}) bufs"

lemma spans_ok_append: "spans_ok win (xs @ ys) \<Longrightarrow> spans_ok win xs"
  by (auto simp: spans_ok_def sorted_wrt_append)

definition of_span :: "mem_range \<Rightarrow> acpi_numa_memory_range \<Rightarrow> bool" where
  "of_span rg b \<longleftrightarrow> sl_base (rg_slab rg) = mr_start b \<and> sl_length (rg_slab rg) = mr_end b - mr_start b"

lemma of_span_region: "of_span rg b \<Longrightarrow> spans_ok win bufs \<Longrightarrow> b \<in> set bufs \<Longrightarrow> region rg = span b"
  by (auto simp: of_span_def region_def span_def spans_ok_def)

text \<open>The state after the subranges \<open>bufs\<close> were added.\<close>

definition added :: "addr \<Rightarrow> addr \<Rightarrow> acpi_numa_memory_range list \<Rightarrow> ghost \<Rightarrow> phys_state \<Rightarrow> bool" where
  "added win entries bufs g st \<longleftrightarrow> phys_inv win g st \<and> gh_live g = (\<lambda>_. {#}) \<and> gh_rec g = (\<lambda>_. {#}) \<and> ph_info st = None \<and>
     dom (ph_ranges st) = (\<lambda>i. entries + i * SIZEOF_mem_range) ` {..<length bufs} \<and>
     (\<forall>r rg. ph_ranges st r = Some rg \<longrightarrow> (\<exists>b \<in> set bufs. of_span rg b)) \<and>
     (\<forall>b \<in> set bufs. \<exists>r rg. ph_ranges st r = Some rg \<and> of_span rg b \<and> r \<in> set (gh_chain g (mr_node_id b))) \<and>
     (\<forall>node nd. node_of st node = Some nd \<longrightarrow> nn_ranges nd < 2 ^ 64)"

lemma node_of_update:
  "node < length (numa_nodes (ph_numa st)) \<Longrightarrow>
   node_of (st\<lparr>ph_numa := (ph_numa st)\<lparr>numa_nodes := (numa_nodes (ph_numa st))[node := Some nd]\<rparr>\<rparr>) n =
     (if n = node then Some nd else node_of st n)"
  by (auto simp: node_of_def)

lemma add_range_step:
  assumes a: "added win entries bufs g st" and b: "spans_ok win (bufs @ [b])" and nd: "node_of st (mr_node_id b) = Some nd"
    and n: "length bufs < num" "0 < entries" "entries + num * SIZEOF_mem_range \<le> 2 ^ 64"
  shows "\<exists>g' st'. add_range junk entries num b (length bufs, st) = Some (Suc (length bufs), st') \<and>
    added win entries (bufs @ [b]) g' st' \<and> (\<forall>n. node_of st' n = None \<longleftrightarrow> node_of st n = None)"
proof -
  let ?r = "entries + length bufs * SIZEOF_mem_range" and ?n = "mr_node_id b"
  let ?rg = "\<lparr>rg_next = nn_ranges nd, rg_drop = junk (?r + 8), rg_slab = mem_phys_slab_init (mr_start b) (mr_end b - mr_start b)\<rparr>"
  let ?st = "put_range ?r ?rg (st\<lparr>ph_numa := (ph_numa st)\<lparr>numa_nodes := (numa_nodes (ph_numa st))[?n := Some (nd\<lparr>nn_ranges := ?r\<rparr>)]\<rparr>\<rparr>)"
  let ?g = "g\<lparr>gh_chain := (gh_chain g)(?n := ?r # gh_chain g ?n)\<rparr>"
  have inv: "phys_inv win g st" and live: "gh_live g = (\<lambda>_. {#})" "gh_rec g = (\<lambda>_. {#})" "ph_info st = None"
    and dom: "dom (ph_ranges st) = (\<lambda>i. entries + i * SIZEOF_mem_range) ` {..<length bufs}"
    and cover: "\<And>r rg. ph_ranges st r = Some rg \<Longrightarrow> \<exists>b \<in> set bufs. of_span rg b"
    and onto: "\<And>b. b \<in> set bufs \<Longrightarrow> \<exists>r rg. ph_ranges st r = Some rg \<and> of_span rg b \<and> r \<in> set (gh_chain g (mr_node_id b))"
    and small: "\<And>node nd. node_of st node = Some nd \<Longrightarrow> nn_ranges nd < 2 ^ 64"
    using a by (auto simp: added_def)
  have fresh: "ph_ranges st ?r = None"
  proof -
    have "?r \<notin> dom (ph_ranges st)" unfolding dom by (auto simp: SIZEOF_mem_range_def)
    then show ?thesis by auto
  qed
  have "length bufs * SIZEOF_mem_range < num * SIZEOF_mem_range" using n(1) by (simp add: SIZEOF_mem_range_def)
  then have r: "?r < 2 ^ 64" "?r \<noteq> 0" using n(2,3) by linarith+
  have len: "?n < length (numa_nodes (ph_numa st))" using nd by (auto simp: node_of_def split: if_splits)
  note node = node_of_update [OF len, of "nd\<lparr>nn_ranges := ?r\<rparr>"]
  have bb: "0 < mr_start b" "mr_start b \<le> mr_end b" "mr_end b \<le> win" "mr_end b \<le> 2 ^ 52" "PAGE_SIZE dvd mr_start b"
    and disj: "\<And>b'. b' \<in> set bufs \<Longrightarrow> span b' \<inter> span b = {}"
    using b by (auto simp: spans_ok_def sorted_wrt_append)
  have rg: "of_span ?rg b" using bb by (simp add: of_span_def mem_phys_slab_init_def)
  have reg: "region ?rg = span b" by (rule of_span_region [OF rg b]) simp
  have cover': "\<exists>b \<in> set bufs. region rg = span b" if "ph_ranges st r = Some rg" for r rg
    using cover [OF that] of_span_region [OF _ spans_ok_append [OF b]] by blast
  have add: "add_range junk entries num b (length bufs, st) = Some (Suc (length bufs), ?st)"
    using n(1) nd bb sub64_le [of "mr_start b" "mr_end b"] by (simp add: add_range_def Let_def)
  have cong: "linked (ph_ranges ?st) (counts ?g) h rs" if "linked (ph_ranges st) (counts g) h rs" for h rs
    using that
  proof (rule linked_cong)
    show "\<exists>rg'. ph_ranges ?st r = Some rg' \<and> rg_next rg' = u64 (nxt + counts ?g r)"
      if "ph_ranges st r = Some rg0" "rg_next rg0 = u64 (nxt + counts g r)" for r rg0 nxt
      using that fresh by (auto simp: counts_def)
  qed
  have "linked (ph_ranges ?st) (counts ?g) (nn_ranges nd') (gh_chain ?g node)" if "node_of ?st node = Some nd'" for node nd'
  proof (cases "node = ?n")
    case True
    have "linked (ph_ranges ?st) (counts ?g) ?r (?r # gh_chain g ?n)"
      using cong [OF phys_invD(1) [OF inv nd]] r(2) small [OF nd] by (auto simp: counts_def live u64_small)
    moreover have "nd' = nd\<lparr>nn_ranges := ?r\<rparr>" using True that by (simp add: node)
    ultimately show ?thesis using True by simp
  next
    case False
    then show ?thesis using that cong phys_invD(1) [OF inv] by (simp add: node)
  qed
  moreover have "slab_inv win (rg_slab rg0, ph_mem ?st) (gh_live ?g r)" if "ph_ranges ?st r = Some rg0" for r rg0
    using that phys_invD(2) [OF inv] slab_init_inv [of "mr_start b" "mr_end b - mr_start b" win] bb
    by (auto simp: live split: if_splits)
  moreover have "region rg1 \<inter> region rg2 = {}"
    if "ph_ranges ?st r1 = Some rg1" "ph_ranges ?st r2 = Some rg2" "r1 \<noteq> r2" for r1 r2 rg1 rg2
    using that phys_invD(3) [OF inv _ _ that(3)] reg cover' disj by (fastforce split: if_splits)
  ultimately have "phys_inv win ?g ?st" unfolding phys_inv_def by (simp add: live)
  moreover have "dom (ph_ranges ?st) = (\<lambda>i. entries + i * SIZEOF_mem_range) ` {..<length (bufs @ [b])}"
    using dom by (auto simp: lessThan_Suc)
  moreover have "\<exists>b' \<in> set (bufs @ [b]). of_span rg0 b'" if "ph_ranges ?st r = Some rg0" for r rg0
    using that rg cover by (auto split: if_splits)
  moreover have "\<exists>r rg0. ph_ranges ?st r = Some rg0 \<and> of_span rg0 b' \<and> r \<in> set (gh_chain ?g (mr_node_id b'))"
    if b': "b' \<in> set (bufs @ [b])" for b'
  proof (cases "b' = b")
    case False
    then have "b' \<in> set bufs" using b' by simp
    then obtain r0 rg0 where "ph_ranges st r0 = Some rg0" "of_span rg0 b'" "r0 \<in> set (gh_chain g (mr_node_id b'))"
      using onto by blast
    then show ?thesis using fresh by (intro exI [of _ r0] exI [of _ rg0]) auto
  qed (use rg in \<open>auto intro!: exI [of _ ?r]\<close>)
  ultimately have "added win entries (bufs @ [b]) ?g ?st"
    using r(1) small live by (auto simp: added_def node)
  then show ?thesis using add nd by (intro exI [of _ ?g] exI [of _ ?st]) (simp add: node)
qed

lemma add_ranges_fold:
  assumes "added win entries done g st" "spans_ok win (done @ bufs)"
    and "\<forall>b \<in> set bufs. node_of st (mr_node_id b) \<noteq> None"
    and n: "length (done @ bufs) \<le> num" "0 < entries" "entries + num * SIZEOF_mem_range \<le> 2 ^ 64"
  shows "\<exists>g' st'. fold_opt (add_range junk entries num) bufs (length done, st) = Some (length (done @ bufs), st') \<and>
    added win entries (done @ bufs) g' st'"
  using assms(1-4)
proof (induction bufs arbitrary: "done" g st)
  case (Cons b bufs)
  obtain nd where nd: "node_of st (mr_node_id b) = Some nd" using Cons.prems(3) by auto
  have "spans_ok win (done @ [b])" using Cons.prems(2) spans_ok_append [of win "done @ [b]" bufs] by simp
  from add_range_step [OF Cons.prems(1) this nd _ n(2,3), of junk] obtain g' st' where
    s: "add_range junk entries num b (length done, st) = Some (Suc (length done), st')"
      "added win entries (done @ [b]) g' st'" "\<forall>n. node_of st' n = None \<longleftrightarrow> node_of st n = None"
    using Cons.prems(4) by auto
  have "\<exists>g'' st''. fold_opt (add_range junk entries num) bufs (length (done @ [b]), st') =
      Some (length ((done @ [b]) @ bufs), st'') \<and> added win entries ((done @ [b]) @ bufs) g'' st''"
    by (rule Cons.IH [OF s(2)]) (use Cons.prems(2-4) s(3) in auto)
  then show ?case using s(1) by auto
qed auto

text \<open>What the firmware promises of its memory entries: page aligned, disjoint, within 52 bits.\<close>

definition srat_ok :: "srat_entry list \<Rightarrow> bool" where
  "srat_ok es \<longleftrightarrow> (\<forall>e \<in> set es. active e \<and> is_mem e \<longrightarrow>
       PAGE_SIZE dvd sr_base e \<and> PAGE_SIZE dvd sr_len e \<and> sr_base e + sr_len e \<le> 2 ^ 52) \<and>
     sorted_wrt (\<lambda>e e'. {sr_base e..<sr_base e + sr_len e} \<inter> {sr_base e'..<sr_base e' + sr_len e'} = {})
       (filter (\<lambda>e. active e \<and> is_mem e) es)"

lemma align_page: "PAGE_SIZE dvd v \<Longrightarrow> v < 2 ^ 63 \<Longrightarrow> align_up v PAGE_SIZE = v \<and> align_down v PAGE_SIZE = v"
  using align_up_aligned [of PAGE_SIZE v] by (simp add: slab_consts align_down_def)

lemma subranges_spans:
  assumes "PAGE_SIZE dvd lo" "PAGE_SIZE dvd hi" "lo \<le> hi" "hi < 2 ^ 63"
    and v: "case v of None \<Rightarrow> True | Some es \<Rightarrow> srat_ok es"
  shows "\<forall>b \<in> set (subranges v lo hi). lo \<le> mr_start b \<and> mr_start b \<le> mr_end b \<and> mr_end b \<le> hi"
    "sorted_wrt (\<lambda>b b'. span b \<inter> span b' = {}) (subranges v lo hi)"
proof -
  have clip: "mr_start (clip lo hi e) = max lo (sr_base e) \<and> mr_end (clip lo hi e) = min hi (sr_base e + sr_len e)"
    if "overlap lo hi e" "v = Some es" "e \<in> set es" for e es
  proof -
    have "PAGE_SIZE dvd sr_base e" "PAGE_SIZE dvd sr_len e" using that v by (auto simp: srat_ok_def overlap_def)
    then have "PAGE_SIZE dvd max lo (sr_base e)" "PAGE_SIZE dvd min hi (sr_base e + sr_len e)"
      using assms(1,2) by (auto simp: max_def min_def)
    moreover have "max lo (sr_base e) < 2 ^ 63" "min hi (sr_base e + sr_len e) < 2 ^ 63"
      using that(1) assms(3,4) by (auto simp: overlap_def)
    ultimately show ?thesis by (simp add: clip_def align_page)
  qed
  show "\<forall>b \<in> set (subranges v lo hi). lo \<le> mr_start b \<and> mr_start b \<le> mr_end b \<and> mr_end b \<le> hi"
  proof (cases v)
    case None
    then show ?thesis using assms align_page [of lo] align_page [of hi] by (simp add: subranges_def)
  next
    case (Some es)
    then show ?thesis using clip [OF _ Some] assms(3) by (auto simp: subranges_def overlap_def)
  qed
  show "sorted_wrt (\<lambda>b b'. span b \<inter> span b' = {}) (subranges v lo hi)"
  proof (cases v)
    case (Some es)
    have "sorted_wrt (\<lambda>e e'. {sr_base e..<sr_base e + sr_len e} \<inter> {sr_base e'..<sr_base e' + sr_len e'} = {})
        (filter (overlap lo hi) es)"
    proof -
      have eq: "filter (overlap lo hi) es = filter (overlap lo hi) (filter (\<lambda>e. active e \<and> is_mem e) es)"
        by (auto simp: overlap_def intro!: filter_cong)
      have "srat_ok es" using v Some by simp
      then show ?thesis unfolding eq srat_ok_def by - (rule sorted_wrt_filter, blast)
    qed
    then have "sorted_wrt (\<lambda>e e'. span (clip lo hi e) \<inter> span (clip lo hi e') = {}) (filter (overlap lo hi) es)"
      by (rule sorted_wrt_mono_rel [rotated]) (use clip [OF _ Some] in \<open>auto simp: span_def\<close>)
    then show ?thesis using Some by (simp add: subranges_def sorted_wrt_map)
  qed (simp add: subranges_def)
qed

lemma subranges_aligned: "b \<in> set (subranges v lo hi) \<Longrightarrow> PAGE_SIZE dvd mr_start b"
  by (auto simp: subranges_def clip_def align_up_dvd split: option.splits)

text \<open>The domain an address belongs to.\<close>

definition belongs :: "srat_entry list option \<Rightarrow> nat \<Rightarrow> addr \<Rightarrow> bool" where
  "belongs v node a \<longleftrightarrow> (case v of None \<Rightarrow> node = 0
     | Some es \<Rightarrow> \<exists>e \<in> set es. active e \<and> is_mem e \<and> a \<in> {sr_base e..<sr_base e + sr_len e} \<and> sr_domain e = node)"

lemma subranges_cover:
  assumes "PAGE_SIZE dvd lo" "PAGE_SIZE dvd hi" "hi < 2 ^ 63" "a \<in> {lo..<hi}" "belongs v node a"
    and v: "case v of None \<Rightarrow> True | Some es \<Rightarrow> srat_ok es"
  shows "\<exists>b \<in> set (subranges v lo hi). a \<in> span b \<and> mr_node_id b = node"
proof (cases v)
  case None
  have "lo < 2 ^ 63" using assms(3,4) by simp
  then show ?thesis
    using None assms align_page [of lo] align_page [of hi] by (simp add: subranges_def span_def belongs_def)
next
  case (Some es)
  then obtain e where e: "e \<in> set es" "active e" "is_mem e" "a \<in> {sr_base e..<sr_base e + sr_len e}" "sr_domain e = node"
    using assms(5) by (auto simp: belongs_def)
  have "PAGE_SIZE dvd sr_base e" "PAGE_SIZE dvd sr_len e" using e v Some by (auto simp: srat_ok_def)
  then have "align_up (max lo (sr_base e)) PAGE_SIZE = max lo (sr_base e)"
      "align_down (min hi (sr_base e + sr_len e)) PAGE_SIZE = min hi (sr_base e + sr_len e)"
    using align_page [of "max lo (sr_base e)"] align_page [of "min hi (sr_base e + sr_len e)"] assms(1-4) e(4)
    by (auto simp: max_def min_def)
  then have "a \<in> span (clip lo hi e)" "mr_node_id (clip lo hi e) = node" "overlap lo hi e"
    using e assms(4) by (auto simp: span_def clip_def overlap_def)
  then show ?thesis using Some e(1) by (auto simp: subranges_def)
qed

lemma usable_ok:
  assumes "memmap_ok lim memmap" "e \<in> set memmap" "usable_bounds e = Some (lo, hi)"
  shows "mm_type e = STIVALE2_MMAP_USABLE" "lo = mm_base e" "hi = mm_base e + mm_length e"
    "PAGE_SIZE dvd lo" "PAGE_SIZE dvd hi" "lo \<le> hi" "hi < lim"
  using assms entry_end_ok [OF assms(1,2)] by (auto simp: memmap_ok_def usable_bounds_def split: if_splits)

lemma boot_subranges_spans:
  assumes "memmap_ok lim memmap" "lim \<le> 2 ^ 52" "lim \<le> win" "PAGE_SIZE dvd border" "0 < border"
    and v: "case v of None \<Rightarrow> True | Some es \<Rightarrow> srat_ok es"
  shows "spans_ok win (boot_subranges v border memmap) \<and> (\<forall>b \<in> set (boot_subranges v border memmap).
    border \<le> mr_start b \<and> mr_start b \<le> mr_end b \<and> mr_end b < lim \<and> (\<exists>e \<in> set memmap.
      mm_type e = STIVALE2_MMAP_USABLE \<and> mm_base e \<le> mr_start b \<and> mr_end b \<le> mm_base e + mm_length e))"
  using assms(1)
proof (induction memmap)
  case Nil
  then show ?case by (simp add: boot_subranges_def spans_ok_def)
next
  case (Cons e memmap)
  let ?sub = "\<lambda>e. case usable_bounds e of None \<Rightarrow> [] | Some (lo, hi) \<Rightarrow>
      if hi \<le> border then [] else subranges v (if lo < border then border else lo) hi"
  have ok: "memmap_ok lim memmap" using Cons.prems by (simp add: memmap_ok_def)
  note IH = Cons.IH [OF ok]
  have eq: "boot_subranges v border (e # memmap) = ?sub e @ boot_subranges v border memmap"
    by (simp add: boot_subranges_def)
  show ?case
  proof (cases "?sub e")
    case Nil
    then show ?thesis using IH eq by auto
  next
    case (Cons b0 bs0)
    then obtain lo hi where lh: "usable_bounds e = Some (lo, hi)" "\<not> hi \<le> border"
      by (auto split: option.splits if_splits)
    note u = usable_ok [OF Cons.prems _ lh(1), simplified]
    let ?lo = "if lo < border then border else lo"
    have sub: "?sub e = subranges v ?lo hi" using lh by simp
    have d: "PAGE_SIZE dvd ?lo" "PAGE_SIZE dvd hi" "?lo \<le> hi" "hi < 2 ^ 63" "lo \<le> ?lo" "border \<le> ?lo"
      using u lh(2) assms(2,4) by auto
    note sp = subranges_spans [OF d(1-4) v]
    have here: "border \<le> mr_start b \<and> mr_start b \<le> mr_end b \<and> mr_end b < lim \<and>
        mm_base e \<le> mr_start b \<and> mr_end b \<le> mm_base e + mm_length e" if "b \<in> set (?sub e)" for b
      using sp(1) that d(5,6) u unfolding sub by force
    have later: "mm_base e + mm_length e \<le> mr_start b" if b: "b \<in> set (boot_subranges v border memmap)" for b
    proof -
      obtain e' where "e' \<in> set memmap" "mm_base e' \<le> mr_start b" using IH b by blast
      moreover have "mm_base e + mm_length e \<le> mm_base e'"
        using Cons.prems u(1) \<open>e' \<in> set memmap\<close> by (simp add: memmap_ok_def)
      ultimately show ?thesis by simp
    qed
    have "span b \<inter> span b' = {}" if "b \<in> set (?sub e)" "b' \<in> set (boot_subranges v border memmap)" for b b'
      using here [OF that(1)] later [OF that(2)] by (auto simp: span_def)
    moreover have "0 < mr_start b \<and> PAGE_SIZE dvd mr_start b \<and> mr_start b \<le> mr_end b \<and> mr_end b \<le> win \<and> mr_end b \<le> 2 ^ 52"
      if "b \<in> set (?sub e)" for b
      using here [OF that] subranges_aligned that assms(2,3,5) unfolding sub by auto
    moreover have "sorted_wrt (\<lambda>b b'. span b \<inter> span b' = {}) (?sub e)" unfolding sub by (rule sp(2))
    ultimately have "spans_ok win (?sub e @ boot_subranges v border memmap)"
      using IH unfolding spans_ok_def sorted_wrt_append set_append ball_Un by blast
    then show ?thesis using IH here u(1) unfolding eq set_append ball_Un by (meson list.set_intros)
  qed
qed

text \<open>The state before the ranges are added: what firmware and boot loader promise, nodes for all domains and
  no range yet.\<close>

definition boot_ok :: "bytes \<Rightarrow> acpi_state \<Rightarrow> srat_entry list option \<Rightarrow> addr \<Rightarrow> nat \<Rightarrow> stivale2_mmap_entry list \<Rightarrow>
    bootstrap \<Rightarrow> phys_state \<Rightarrow> bool" where
  "boot_ok rd8 s v win lim memmap bs st \<longleftrightarrow> srat_view rd8 s v \<and> (case v of None \<Rightarrow> True | Some es \<Rightarrow> srat_ok es) \<and>
     memmap_ok lim memmap \<and> PHYS_LOW < lim \<and> lim \<le> 2 ^ 52 \<and> lim \<le> win \<and> win + lim \<le> 2 ^ 64 \<and>
     boot_inv lim win memmap (bs, []) \<and>
     (\<forall>node. (case v of None \<Rightarrow> node = 0 | Some es \<Rightarrow> \<exists>e \<in> set es. active e \<and> sr_domain e = node) \<longrightarrow> node_of st node \<noteq> None) \<and>
     (\<forall>node nd. node_of st node = Some nd \<longrightarrow> nn_ranges nd = 0) \<and>
     ph_ranges st = Map.empty \<and> ph_info st = None \<and>
     SIZEOF_mem_range * length (all_subranges v memmap) \<le> 2 ^ 52"

lemma boot_subranges_nodes:
  assumes "b \<in> set (boot_subranges v border memmap)"
  shows "case v of None \<Rightarrow> mr_node_id b = 0 | Some es \<Rightarrow> \<exists>e \<in> set es. active e \<and> sr_domain e = mr_node_id b"
  using assms by (cases v) (auto simp: boot_subranges_def subranges_def clip_def overlap_def split: option.splits if_splits)

lemma boot_ranges:
  assumes ok: "boot_ok rd8 s v win lim memmap bs st"
    and a: "mem_bootstrap_alloc win memmap (SIZEOF_mem_range * length (all_subranges v memmap)) bs = Some (p, bs1)"
  defines "border \<equiv> align_up (bs_border_offset bs1) PAGE_SIZE"
  shows "\<exists>g st'. mem_add_numa_ranges rd8 s win junk (Some memmap) (bs, st) = Some (bs1\<lparr>bs_usable := False\<rparr>, st') \<and>
    added win p (boot_subranges v border memmap) g st' \<and> PAGE_SIZE dvd border \<and> 0 < border \<and> border < 2 ^ 63 \<and>
    win + border \<ge> p + SIZEOF_mem_range * length (all_subranges v memmap)"
proof -
  let ?n = "length (all_subranges v memmap)" and ?bufs = "boot_subranges v border memmap"
  have o: "srat_view rd8 s v" "case v of None \<Rightarrow> True | Some es \<Rightarrow> srat_ok es" "memmap_ok lim memmap"
      "lim \<le> 2 ^ 52" "lim \<le> win" "win + lim \<le> 2 ^ 64" "boot_inv lim win memmap (bs, [])" "SIZEOF_mem_range * ?n \<le> 2 ^ 52"
    and nodes: "\<And>node. (case v of None \<Rightarrow> node = 0 | Some es \<Rightarrow> \<exists>e \<in> set es. active e \<and> sr_domain e = node) \<Longrightarrow> node_of st node \<noteq> None"
    and empty: "\<And>node nd. node_of st node = Some nd \<Longrightarrow> nn_ranges nd = 0" "ph_ranges st = Map.empty" "ph_info st = None"
    using ok by (simp_all add: boot_ok_def)
  have b: "boot_inv lim win memmap (bs1, [(p, SIZEOF_mem_range * ?n)])"
    using bootstrap_alloc_spec [OF o(3,6,8,7)] a by simp
  have up: "bs_border_offset bs1 \<le> border" "border < bs_border_offset bs1 + PAGE_SIZE"
    using align_up_ge [of PAGE_SIZE "bs_border_offset bs1"] align_up_less [of PAGE_SIZE "bs_border_offset bs1"] b o(4)
    by (auto simp: border_def boot_inv_def slab_consts)
  have p: "0 < p" "p + ?n * SIZEOF_mem_range \<le> 2 ^ 64" "p + SIZEOF_mem_range * ?n \<le> win + border" "0 < border" "border < 2 ^ 63"
    using b o(4,6) up by (auto simp: boot_inv_def PHYS_LOW_def slab_consts mult.commute)
  have dvd: "PAGE_SIZE dvd border" by (simp add: border_def align_up_dvd)
  have sp: "spans_ok win ?bufs" using boot_subranges_spans [OF o(3-5) dvd p(4) o(2)] by simp
  let ?g = "\<lparr>gh_chain = \<lambda>_. [], gh_live = \<lambda>_. {#}, gh_rec = \<lambda>_. {#}\<rparr>"
  have "added win p [] ?g st" using empty by (simp add: added_def phys_inv_def)
  moreover have "\<forall>b \<in> set ?bufs. node_of st (mr_node_id b) \<noteq> None" using boot_subranges_nodes nodes by blast
  ultimately obtain g st' where f: "fold_opt (add_range junk p ?n) ?bufs (0, st) = Some (length ?bufs, st')"
      "added win p ?bufs g st'"
    using add_ranges_fold [of win p "[]" ?g st ?bufs ?n junk] sp boot_subranges_le p(1,2) by auto
  then have "mem_add_numa_ranges rd8 s win junk (Some memmap) (bs, st) = Some (bs1\<lparr>bs_usable := False\<rparr>, st')"
    using a by (simp add: add_numa_ranges_eq [OF o(1)] mem_bootstrap_terminate_allocator_def border_def [symmetric])
  then show ?thesis using f(2) dvd p by blast
qed

lemma boot_subranges_cover:
  assumes "memmap_ok lim memmap" "lim \<le> 2 ^ 52" "PAGE_SIZE dvd border" "case v of None \<Rightarrow> True | Some es \<Rightarrow> srat_ok es"
    and e: "e \<in> set memmap" "mm_type e = STIVALE2_MMAP_USABLE" "a \<in> {mm_base e..<mm_base e + mm_length e}"
    and a: "border \<le> a" "belongs v node a"
  shows "\<exists>b \<in> set (boot_subranges v border memmap). a \<in> span b \<and> mr_node_id b = node"
proof -
  have u: "usable_bounds e = Some (mm_base e, mm_base e + mm_length e)"
    using e(2) entry_end_ok [OF assms(1) e(1)] by (simp add: usable_bounds_def)
  note k = usable_ok [OF assms(1) e(1) u]
  let ?lo = "if mm_base e < border then border else mm_base e"
  have "\<exists>b \<in> set (subranges v ?lo (mm_base e + mm_length e)). a \<in> span b \<and> mr_node_id b = node"
    by (rule subranges_cover) (use k assms(2-4) e(3) a in auto)
  moreover have "set (subranges v ?lo (mm_base e + mm_length e)) \<subseteq> set (boot_subranges v border memmap)"
    using e(1,3) a(1) u unfolding boot_subranges_def set_concat set_map image_image
    by (intro order_trans [OF _ UN_upper [OF e(1)]]) simp
  ultimately show ?thesis by blast
qed

text \<open>The size of the physical space covers every range.\<close>

lemma space_covers:
  assumes "srat_view rd8 s v" "case v of None \<Rightarrow> True | Some es \<Rightarrow> srat_ok es" "memmap_ok lim memmap" "lim \<le> 2 ^ 52"
    and q: "acpi_query_phys_space_size rd8 s = Some q" "mem_calculate_phys_space_size q (Some memmap) = Some space"
    and b: "b \<in> set (boot_subranges v border memmap)"
      "e \<in> set memmap" "mr_end b \<le> mm_base e + mm_length e"
  shows "mr_end b \<le> space"
proof (cases v)
  case None
  then have "q = 0" using assms(1) q(1) by (simp add: srat_view_def acpi_query_phys_space_size_def)
  then have "mm_base e + mm_length e \<le> space" using phys_space_covers [OF assms(3) b(2)] q(2) by auto
  then show ?thesis using b(3) by simp
next
  case (Some es)
  let ?M = "{e \<in> set es. active e \<and> is_mem e}"
  have m: "srat_at rd8 (acpi_boot_srat s) es" using assms(1) Some by (simp add: srat_view_def)
  then have q': "q = Max (insert 0 ((\<lambda>e. sr_base e + sr_len e) ` ?M))" using query_space q(1) by simp
  obtain lo hi x where x: "x \<in> ?M" "b = clip lo hi x"
    using b(1) Some by (auto simp: boot_subranges_def subranges_def overlap_def split: option.splits if_splits)
  have "mr_end b \<le> sr_base x + sr_len x"
    using x(2) align_down_le [of "min hi (sr_base x + sr_len x)" PAGE_SIZE] by (simp add: clip_def)
  also have "\<dots> \<le> q" unfolding q' using x(1) by (intro Max_ge) auto
  finally have le: "mr_end b \<le> q" .
  have "q \<le> 2 ^ 52" unfolding q' using assms(2) Some by (subst Max_le_iff) (auto simp: srat_ok_def)
  then have "q \<le> align_up q PAGE_SIZE" using align_up_ge [of PAGE_SIZE q] by (simp add: slab_consts)
  then show ?thesis using le q(2) by (cases "q = 0") (auto simp: mem_calculate_phys_space_size_def Let_def)
qed

section \<open>Histories\<close>

text \<open>Requests through the interface, returns of recorded blocks, and writes of their owners.\<close>

inductive phys_step :: "addr \<Rightarrow> ghost \<times> phys_state \<Rightarrow> ghost \<times> phys_state \<Rightarrow> bool" for win where
  alloc: "mem_phys_alloc_on_behalf win sz node st = Some (b, st') \<Longrightarrow> b \<noteq> PHYS_NULL \<Longrightarrow>
    mem_phys_get_data b st' = Some obj \<Longrightarrow>
    phys_step win (g, st) (add_block g st (po_range obj) (b, mem_phys_slab_get_order sz), st')"
| refuse: "mem_phys_alloc_on_behalf win sz node st = Some (PHYS_NULL, st') \<Longrightarrow> phys_step win (g, st) (g, st')"
| free: "x \<in># gh_rec g r \<Longrightarrow> mem_phys_free win (fst x) st = Some st' \<Longrightarrow> phys_step win (g, st) (del_block g r x, st')"
| client_write: "x \<in># gh_rec g r \<Longrightarrow> w \<in> {fst x..<fst x + 2 ^ snd x} \<Longrightarrow>
    phys_step win (g, st) (g, st\<lparr>ph_mem := (ph_mem st)(w := v)\<rparr>)"

lemma granted_recorded:
  assumes "granted win sz g st b st'" "ph_info st \<noteq> None" "mem_phys_get_data b st' = Some obj"
  shows "phys_inv win (add_block g st (po_range obj) (b, mem_phys_slab_get_order sz)) st'"
proof -
  let ?x = "(b, mem_phys_slab_get_order sz)"
  obtain r where r: "phys_inv win (add_block g st r ?x) st'" using assms(1) by (auto simp: granted_def)
  have "?x \<in># gh_rec (add_block g st r ?x) r" using assms(2) by (auto simp: add_block_def)
  then have "po_range obj = r" using phys_invD(7) [OF r, of ?x r] assms(3) by (auto simp: recorded_at_def)
  then show ?thesis using r by simp
qed

lemma phys_step_inv:
  assumes "phys_step win (g, st) (g', st')" "phys_inv win g st" "ph_info st \<noteq> None"
  shows "phys_inv win g' st' \<and> same_shape st st'"
  using assms(1)
proof cases
  case (alloc sz node b obj)
  then have "granted win sz g st b st'" using alloc_on_behalf_safe [of win sz node st b st' g] assms(2) by simp
  then show ?thesis using granted_recorded assms(3) alloc by (auto simp: granted_def)
next
  case (refuse sz node)
  then show ?thesis using alloc_on_behalf_safe [of win sz node st PHYS_NULL st' g] assms(2)
    by (auto simp: granted_def same_shape_def)
next
  case (free x r)
  then show ?thesis using free_step [OF assms(2), of x r] by auto
next
  case (client_write x r w v)
  have "x \<in># gh_live g r" using phys_invD(4) [OF assms(2)] client_write(3) by (rule mset_subset_eqD)
  then show ?thesis using client_step [OF assms(2) _ client_write(4)] client_write
    by (auto simp: same_shape_def regions_def)
qed

lemma phys_steps_inv:
  assumes "(phys_step win)\<^sup>*\<^sup>* (g0, st0) (g, st)" "phys_inv win g0 st0" "ph_info st0 \<noteq> None"
  shows "phys_inv win g st \<and> same_shape st0 st"
  using assms(1)
proof (induction rule: rtranclp_induct2)
  case refl
  then show ?case using assms(2) by (simp add: same_shape_def)
next
  case (step g st g' st')
  then show ?case using phys_step_inv [of win g st g' st'] assms(3) by (auto simp: same_shape_def)
qed

text \<open>\<open>mem_phys_init\<close> takes one block, which has no entry in the table it is for.\<close>

lemma phys_init_inv:
  assumes "mem_phys_init win space boot st = Some st'" "phys_inv win g st" "ph_info st = None" "gh_rec g = (\<lambda>_. {#})"
    and "\<forall>r rg. ph_ranges st r = Some rg \<longrightarrow> sl_base (rg_slab rg) + sl_length (rg_slab rg) \<le> space div PAGE_SIZE * PAGE_SIZE"
  shows "\<exists>g'. phys_inv win g' st' \<and> gh_chain g' = gh_chain g \<and> gh_rec g' = (\<lambda>_. {#}) \<and>
    ph_info st' \<noteq> None \<and> regions st' = regions st \<and> ph_numa st' = ph_numa st"
proof -
  let ?n = "space div PAGE_SIZE"
  let ?sz = "?n * SIZEOF_mem_phys_object_data"
  obtain b st1 where a: "mem_phys_alloc_on_behalf win ?sz boot st = Some (b, st1)" "b \<noteq> PHYS_NULL"
      "st' = st1\<lparr>ph_info := Some (replicate ?n None)\<rparr>"
    using assms(1) by (auto simp: mem_phys_init_def bind_eq_Some_conv Let_def split: if_splits)
  then have "granted win ?sz g st b st1" using alloc_on_behalf_safe [OF a(1) assms(2)] by simp
  then obtain r where r: "phys_inv win (add_block g st r (b, mem_phys_slab_get_order ?sz)) st1" and sh: "same_shape st st1"
    by (auto simp: granted_def)
  let ?g = "add_block g st r (b, mem_phys_slab_get_order ?sz)"
  have rec: "gh_rec ?g = (\<lambda>_. {#})" using assms(3,4) by (auto simp: add_block_def set_blocks_def)
  have "sl_base (rg_slab rg) + sl_length (rg_slab rg) \<le> ?n * PAGE_SIZE" if rg: "ph_ranges st1 r = Some rg" for r rg
  proof -
    have "regions st1 r = regions st r" using sh by (simp add: same_shape_def)
    then obtain rg0 where "ph_ranges st r = Some rg0" "sl_base (rg_slab rg0) = sl_base (rg_slab rg)"
        "sl_length (rg_slab rg0) = sl_length (rg_slab rg)"
      using rg by (cases "ph_ranges st r") (auto simp: regions_def)
    then show ?thesis using assms(5) by metis
  qed
  then have "phys_inv win ?g st'" using r rec unfolding phys_inv_def a(3) by simp
  then show ?thesis using rec sh a(3)
    by (intro exI [of _ ?g]) (auto simp: add_block_def same_shape_def regions_def fun_eq_iff)
qed

text \<open>What a request does in a state with blocks in use: it returns nothing and changes nothing, or it returns
  a block that is large enough and disjoint from them; it fails to return only when it meets a node
  that does not exist, or passes a range that refuses it although blocks of the range are in use.\<close>

definition request_ok :: "addr \<Rightarrow> ghost \<Rightarrow> phys_state \<Rightarrow> nat \<Rightarrow> nat \<Rightarrow> bool" where
  "request_ok win g st sz node \<longleftrightarrow> (case mem_phys_alloc_on_behalf win sz node st of
       Some (b, st') \<Rightarrow> (b = PHYS_NULL \<and> st' = st) \<or>
         (b \<noteq> PHYS_NULL \<and> sz \<le> 2 ^ mem_phys_slab_get_order sz \<and>
          (\<forall>r. \<forall>x \<in># gh_rec g r. blk_disj (b, mem_phys_slab_get_order sz) x))
     | None \<Rightarrow> neighbours_of st node = None \<or> (\<exists>nb n. neighbours_of st node = Some nb \<and> n \<in> set nb \<and>
         (node_of st n = None \<or> (\<exists>r \<in> set (gh_chain g n). refuses win sz st r \<and> gh_rec g r \<noteq> {#}))))"

lemma granted_disj:
  assumes g: "granted win sz g st b st'" and x: "x \<in># gh_live g r"
  shows "blk_disj (b, mem_phys_slab_get_order sz) x" "sz \<le> 2 ^ mem_phys_slab_get_order sz"
proof -
  let ?y = "(b, mem_phys_slab_get_order sz)"
  obtain r' where inv: "phys_inv win (add_block g st r' ?y) st'" using g by (auto simp: granted_def)
  have y: "?y \<in># gh_live (add_block g st r' ?y) r'" by (simp add: add_block_def)
  have "snd ?y < 64" using phys_invD(6) [OF inv y] by simp
  then show "sz \<le> 2 ^ mem_phys_slab_get_order sz" using get_order_spec(3) by simp
  show "blk_disj ?y x"
  proof (cases "r' = r")
    case True
    obtain rg where rg: "ph_ranges st' r = Some rg" using phys_invD(5) [OF inv y] True by blast
    have "all_disj (add_mset ?y (gh_live g r))"
      using slab_inv_live [OF phys_invD(2) [OF inv rg]] True by (simp add: blocks_in_def add_block_def)
    then show ?thesis using x by (simp add: all_disj_add)
  next
    case False
    then show ?thesis using live_disj [OF inv y, of x r] x by (simp add: add_block_def)
  qed
qed

lemma request_safe:
  assumes inv: "phys_inv win g st"
  shows "request_ok win g st sz node"
proof (cases "mem_phys_alloc_on_behalf win sz node st")
  case None
  show ?thesis
  proof (cases "neighbours_of st node")
    case (Some nb)
    then have "neighbours_loop win sz nb st = None" using None by (simp add: mem_phys_alloc_on_behalf_def)
    then have "\<not> (\<forall>n \<in> set nb. passable win sz g st n)" using neighbours_loop_returns [OF inv, of nb sz] by auto
    then show ?thesis using None Some by (auto simp: request_ok_def passable_def)
  qed (use None in \<open>simp add: request_ok_def\<close>)
next
  case (Some r)
  obtain b st' where r: "r = (b, st')" by (cases r)
  consider "b = PHYS_NULL" "st' = st" | "granted win sz g st b st'"
    using alloc_on_behalf_safe [of win sz node st b st' g] Some r inv by auto
  then show ?thesis
  proof cases
    case 2
    have "blk_disj (b, mem_phys_slab_get_order sz) x" if "x \<in># gh_rec g r" for x r
      using granted_disj(1) [OF 2, of x r] mset_subset_eqD [OF phys_invD(4) [OF inv] that] by simp
    moreover obtain r' where "phys_inv win (add_block g st r' (b, mem_phys_slab_get_order sz)) st'" "b \<noteq> PHYS_NULL"
      using 2 by (auto simp: granted_def)
    moreover have "sz \<le> 2 ^ mem_phys_slab_get_order sz"
      using phys_invD(6) [OF calculation(2), of "(b, mem_phys_slab_get_order sz)" r'] get_order_spec(3) [of sz]
      by (simp add: add_block_def)
    ultimately show ?thesis using Some r by (simp add: request_ok_def)
  qed (use Some r in \<open>simp add: request_ok_def\<close>)
qed

section \<open>Properties\<close>

text \<open>C30: physical memory is handed to the nodes correctly at boot. With what the boot loader and the firmware promise of their tables, adding the ranges
  never runs out of the range objects it reserved and returns. Afterwards nothing is in use, every range
  lies in a usable entry above all bootstrap memory and above the range objects themselves, ranges are
  disjoint, and every usable address above the border that belongs to a domain is in a range of that
  domain's node.\<close>

theorem boot_ranges_correct:
  assumes ok: "boot_ok rd8 s v win lim memmap bs st"
    and a: "mem_bootstrap_alloc win memmap (SIZEOF_mem_range * length (all_subranges v memmap)) bs = Some (p, bs1)"
  defines "border \<equiv> align_up (bs_border_offset bs1) PAGE_SIZE"
  shows "\<exists>g bs' st'. mem_add_numa_ranges rd8 s win junk (Some memmap) (bs, st) = Some (bs', st') \<and>
    phys_inv win g st' \<and> (\<forall>r. gh_live g r = {#}) \<and>
    p + SIZEOF_mem_range * length (all_subranges v memmap) \<le> win + border \<and>
    (\<forall>r rg. ph_ranges st' r = Some rg \<longrightarrow> (\<exists>e \<in> set memmap. mm_type e = STIVALE2_MMAP_USABLE \<and>
       region rg \<subseteq> {mm_base e..<mm_base e + mm_length e} \<inter> {border..})) \<and>
    (\<forall>r r' rg rg'. ph_ranges st' r = Some rg \<longrightarrow> ph_ranges st' r' = Some rg' \<longrightarrow> r \<noteq> r' \<longrightarrow> region rg \<inter> region rg' = {}) \<and>
    (\<forall>e \<in> set memmap. \<forall>x node. mm_type e = STIVALE2_MMAP_USABLE \<longrightarrow> x \<in> {mm_base e..<mm_base e + mm_length e} \<longrightarrow>
       border \<le> x \<longrightarrow> belongs v node x \<longrightarrow>
       (\<exists>r rg. r \<in> set (gh_chain g node) \<and> ph_ranges st' r = Some rg \<and> x \<in> region rg))"
proof -
  let ?bufs = "boot_subranges v border memmap"
  have o: "memmap_ok lim memmap" "lim \<le> 2 ^ 52" "lim \<le> win" "case v of None \<Rightarrow> True | Some es \<Rightarrow> srat_ok es"
    using ok by (simp_all add: boot_ok_def)
  obtain g st' where m: "mem_add_numa_ranges rd8 s win junk (Some memmap) (bs, st) = Some (bs1\<lparr>bs_usable := False\<rparr>, st')"
    and ad: "added win p ?bufs g st'" and b: "PAGE_SIZE dvd border" "0 < border"
    and le: "p + SIZEOF_mem_range * length (all_subranges v memmap) \<le> win + border"
    using boot_ranges [OF ok a] unfolding border_def by blast
  note sp = boot_subranges_spans [OF o(1-3) b o(4)]
  have inv: "phys_inv win g st'" and live: "\<forall>r. gh_live g r = {#}" using ad by (simp_all add: added_def)
  have "\<exists>e \<in> set memmap. mm_type e = STIVALE2_MMAP_USABLE \<and> region rg \<subseteq> {mm_base e..<mm_base e + mm_length e} \<inter> {border..}"
    if rg: "ph_ranges st' r = Some rg" for r rg
  proof -
    obtain b where "b \<in> set ?bufs" "region rg = span b"
      using ad rg of_span_region [of rg _ win ?bufs] sp unfolding added_def by blast
    then show ?thesis using sp by (fastforce simp: span_def)
  qed
  moreover have "\<exists>r rg. r \<in> set (gh_chain g node) \<and> ph_ranges st' r = Some rg \<and> x \<in> region rg"
    if e: "e \<in> set memmap" "mm_type e = STIVALE2_MMAP_USABLE" "x \<in> {mm_base e..<mm_base e + mm_length e}"
      "border \<le> x" "belongs v node x" for e x node
  proof -
    obtain b where "b \<in> set ?bufs" "x \<in> span b" "mr_node_id b = node"
      using boot_subranges_cover [OF o(1,2) b(1) o(4) e] by blast
    then show ?thesis using ad of_span_region [of _ b win ?bufs] sp unfolding added_def by blast
  qed
  ultimately show ?thesis using m inv live le phys_invD(3) [OF inv] by blast
qed

text \<open>C20: the physical memory allocator is safe from boot on. After the ranges are added and the allocator is initialised, in every state that
  requests, returns and writes of the owners reach: blocks in use are disjoint; a request that returns
  gives nothing and changes nothing, or a block that is large enough and disjoint from every block in
  use; a request for a node with neighbours fails to return only when it passes a range that refuses it although it has
  blocks in use; and returning a block fails only through the word that is taken for a destructor.\<close>

theorem phys_alloc_safe:
  assumes ok: "boot_ok rd8 s v win lim memmap bs st0"
    and a: "mem_bootstrap_alloc win memmap (SIZEOF_mem_range * length (all_subranges v memmap)) bs = Some (p, bs1)"
    and add: "mem_add_numa_ranges rd8 s win junk (Some memmap) (bs, st0) = Some (bs', st1)"
    and space: "acpi_query_phys_space_size rd8 s = Some q" "mem_calculate_phys_space_size q (Some memmap) = Some space"
    and init: "mem_phys_init win space boot st1 = Some st2"
  shows "\<exists>g0. gh_rec g0 = (\<lambda>_. {#}) \<and> (\<forall>g st. (phys_step win)\<^sup>*\<^sup>* (g0, st2) (g, st) \<longrightarrow>
    (\<forall>r r' x y. x \<in># gh_rec g r \<longrightarrow> y \<in># gh_rec g r' \<longrightarrow> x \<noteq> y \<or> r \<noteq> r' \<longrightarrow> blk_disj x y) \<and>
    (\<forall>sz node. request_ok win g st sz node) \<and>
    (\<forall>r. \<forall>x \<in># gh_rec g r. mem_phys_free win (fst x) st = None \<longrightarrow>
       (\<exists>rg. ph_ranges st r = Some rg \<and> rg_next rg = 1 \<and> rg_drop rg \<noteq> 0)))"
proof -
  define border where "border = align_up (bs_border_offset bs1) PAGE_SIZE"
  let ?bufs = "boot_subranges v border memmap"
  have o: "memmap_ok lim memmap" "lim \<le> 2 ^ 52" "lim \<le> win" "case v of None \<Rightarrow> True | Some es \<Rightarrow> srat_ok es" "srat_view rd8 s v"
    using ok by (simp_all add: boot_ok_def)
  obtain g1 where ad: "added win p ?bufs g1 st1" and b: "PAGE_SIZE dvd border" "0 < border"
    using boot_ranges [OF ok a, of junk] add unfolding border_def by auto
  note sp = boot_subranges_spans [OF o(1-3) b o(4)]
  have "PAGE_SIZE dvd space" using space(2) by (auto simp: mem_calculate_phys_space_size_def Let_def align_up_dvd)
  then have pg: "space div PAGE_SIZE * PAGE_SIZE = space" by simp
  have cover: "sl_base (rg_slab rg) + sl_length (rg_slab rg) \<le> space" if rg: "ph_ranges st1 r = Some rg" for r rg
  proof -
    obtain b where b': "b \<in> set ?bufs" "of_span rg b" using ad rg unfolding added_def by blast
    then obtain e where "e \<in> set memmap" "mr_end b \<le> mm_base e + mm_length e" "mr_start b \<le> mr_end b" using sp by blast
    then show ?thesis using space_covers [OF o(5,4,1,2) space b'(1)] b'(2) by (simp add: of_span_def)
  qed
  obtain g0 where g0: "phys_inv win g0 st2" "gh_rec g0 = (\<lambda>_. {#})" "ph_info st2 \<noteq> None"
    using phys_init_inv [OF init, of g1] ad cover pg by (auto simp: added_def)
  have "(\<forall>r r' x y. x \<in># gh_rec g r \<longrightarrow> y \<in># gh_rec g r' \<longrightarrow> x \<noteq> y \<or> r \<noteq> r' \<longrightarrow> blk_disj x y) \<and>
    (\<forall>sz node. request_ok win g st sz node) \<and> (\<forall>r. \<forall>x \<in># gh_rec g r. mem_phys_free win (fst x) st = None \<longrightarrow>
       (\<exists>rg. ph_ranges st r = Some rg \<and> rg_next rg = 1 \<and> rg_drop rg \<noteq> 0))"
    if "(phys_step win)\<^sup>*\<^sup>* (g0, st2) (g, st)" for g st
  proof -
    have inv: "phys_inv win g st" "ph_info st \<noteq> None" using phys_steps_inv [OF that g0(1,3)] g0(3) by (auto simp: same_shape_def)
    have "blk_disj x y" if "x \<in># gh_rec g r" "y \<in># gh_rec g r'" "x \<noteq> y \<or> r \<noteq> r'" for r r' x y
      using live_disj [OF inv(1) _ _ that(3)] mset_subset_eqD [OF phys_invD(4) [OF inv(1)]] that(1,2) by blast
    moreover have "\<exists>rg. ph_ranges st r = Some rg \<and> rg_next rg = 1 \<and> rg_drop rg \<noteq> 0"
      if "x \<in># gh_rec g r" "mem_phys_free win (fst x) st = None" for r x
      using free_step [OF inv(1) that(1)] that(2) by auto
    ultimately show ?thesis using request_safe [OF inv(1)] by blast
  qed
  then show ?thesis using g0(2) by blast
qed

text \<open>A machine with one node, one usable entry and no affinity table.\<close>

definition boot_node :: numa_node where
  "boot_node = \<lparr>nn_neighbours = Some [0], nn_ranges = 0, nn_slab_data = MEM_HEAP_SLAB_DATA_INIT\<rparr>"

definition boot_phys :: phys_state where
  "boot_phys = \<lparr>ph_numa = \<lparr>numa_nodes_count = 1, numa_nodes_size = 1, numa_nodes = [Some boot_node]\<rparr>,
     ph_ranges = Map.empty, ph_mem = (\<lambda>_. 0), ph_info = None\<rparr>"

definition boot_win :: addr where
  "boot_win = 0xffff800000000000"

lemma boot_example:
  "boot_ok (\<lambda>_. 0) acpi_static None boot_win (2 ^ 40) numa_memmap boot_start boot_phys"
  "length (all_subranges None numa_memmap) = 1"
  "mem_bootstrap_alloc boot_win numa_memmap (SIZEOF_mem_range * length (all_subranges None numa_memmap)) boot_start =
     Some (boot_win + 2097152, \<lparr>bs_border_offset = 2097728, bs_memmap_index = 0, bs_usable = True\<rparr>)"
proof -
  show l: "length (all_subranges None numa_memmap) = 1"
    by (simp add: all_subranges_def usable_bounds_def numa_memmap_def STIVALE2_MMAP_USABLE_def subranges_def)
  have "memmap_ok (2 ^ 40) numa_memmap" by (simp add: memmap_ok_def numa_memmap_def slab_consts)
  then show "boot_ok (\<lambda>_. 0) acpi_static None boot_win (2 ^ 40) numa_memmap boot_start boot_phys"
    by (simp add: boot_ok_def srat_view_def acpi_static_def PHYS_LOW_def boot_win_def boot_inv_def boot_start_def
        node_of_def boot_phys_def boot_node_def l SIZEOF_mem_range_def)
  show "mem_bootstrap_alloc boot_win numa_memmap (SIZEOF_mem_range * length (all_subranges None numa_memmap)) boot_start =
     Some (boot_win + 2097152, \<lparr>bs_border_offset = 2097728, bs_memmap_index = 0, bs_usable = True\<rparr>)"
    unfolding l by (simp add: mem_bootstrap_alloc_def boot_start_def numa_memmap_def PHYS_LOW_def boot_win_def
        STIVALE2_MMAP_USABLE_def entry_end_def SIZEOF_mem_range_def u64_def sub64_def align_up_def align_down_def)
qed

theorem boot_ranges_correct_witness:
  "\<exists>bs st. mem_add_numa_ranges (\<lambda>_. 0) acpi_static boot_win (\<lambda>_. 0) (Some numa_memmap) (boot_start, boot_phys) = Some (bs, st)"
  using boot_ranges_correct [OF boot_example(1,3), of "\<lambda>_. 0"] by blast

definition boot_done :: phys_state where
  "boot_done = \<lparr>ph_numa = \<lparr>numa_nodes_count = 1, numa_nodes_size = 1,
       numa_nodes = [Some (boot_node\<lparr>nn_ranges := boot_win + 2097152\<rparr>)]\<rparr>,
     ph_ranges = [boot_win + 2097152 \<mapsto> \<lparr>rg_next = 0, rg_drop = 0, rg_slab = mem_phys_slab_init 2101248 1044480\<rparr>],
     ph_mem = (\<lambda>_. 0), ph_info = None\<rparr>"

lemma boot_done_eq:
  "mem_add_numa_ranges (\<lambda>_. 0) acpi_static boot_win (\<lambda>_. 0) (Some numa_memmap) (boot_start, boot_phys) =
     Some (\<lparr>bs_border_offset = 2097728, bs_memmap_index = 0, bs_usable = False\<rparr>, boot_done)"
proof -
  have "boot_subranges None 2101248 numa_memmap = [\<lparr>mr_start = 2101248, mr_end = 3145728, mr_node_id = 0\<rparr>]"
    by (simp add: boot_subranges_def subranges_def usable_bounds_def numa_memmap_def STIVALE2_MMAP_USABLE_def entry_end_def
        u64_def slab_consts align_up_def align_down_def)
  moreover have "srat_view (\<lambda>_. 0) acpi_static None" by (simp add: srat_view_def acpi_static_def)
  ultimately show ?thesis
    using boot_example(2,3)
    by (simp add: add_numa_ranges_eq mem_bootstrap_terminate_allocator_def align_up_def align_down_def u64_def slab_consts
        add_range_def node_of_def boot_phys_def boot_node_def boot_done_def put_range_def sub64_def Let_def)
qed

definition boot_slab :: "nat \<Rightarrow> mem_phys_slab" where
  "boot_slab brk = \<lparr>sl_base = 2101248, sl_brk_bytes = brk, sl_length = 1044480,
     sl_free_lists = replicate MEM_PHYS_SLAB_ORDERS_COUNT PHYS_NULL, sl_max_freed_order = 0\<rparr>"

definition boot_run :: "nat \<Rightarrow> nat \<Rightarrow> mem_phys_object_data option list option \<Rightarrow> phys_state" where
  "boot_run refs brk info = boot_done\<lparr>ph_ranges := [boot_win + 2097152 \<mapsto>
     \<lparr>rg_next = refs, rg_drop = 0, rg_slab = boot_slab brk\<rparr>], ph_info := info\<rparr>"

lemma boot_done_run: "boot_done = boot_run 0 0 None"
  by (simp add: boot_run_def boot_done_def boot_slab_def mem_phys_slab_init_def)

lemma boot_slab_alloc:
  assumes "mem_phys_slab_get_order sz = k" "12 \<le> k" "k < 64" "brk \<le> 2 ^ 40"
  shows "mem_phys_slab_alloc win sz (boot_slab brk, mem) =
    (if brk + 2 ^ k \<le> 1044480 then Some (brk + 2101248, boot_slab (brk + 2 ^ k), mem) else Some (0, boot_slab brk, mem))"
proof -
  have "(2::nat) ^ k \<le> 2 ^ 63" using assms(3) by (intro power_increasing) auto
  then have u: "u64 (brk + 2 ^ k) = brk + 2 ^ k" "u64 (brk + 2101248) = brk + 2101248"
    using assms(4) by (auto intro!: u64_small)
  have "[k..<Suc 0] = []" using assms(2) by simp
  then show ?thesis
    using assms u by (simp add: mem_phys_slab_alloc_def boot_slab_def slab_consts Let_def del: upt_Suc)
qed

lemma boot_alloc:
  assumes "mem_phys_slab_get_order sz = k" "12 \<le> k" "k < 64" "brk + 2 ^ k \<le> 1044480"
    and "case info of None \<Rightarrow> True | Some i \<Rightarrow> length i = 768"
  shows "mem_phys_alloc_on_behalf boot_win sz 0 (boot_run refs brk info) = Some (brk + 2101248,
    case info of None \<Rightarrow> boot_run refs (brk + 2 ^ k) None
    | Some i \<Rightarrow> boot_run (inc64 refs) (brk + 2 ^ k)
        (Some (i[(brk + 2101248) div 4096 := Some \<lparr>po_range = boot_win + 2097152, po_size = sz, po_node_id = 0\<rparr>])))"
proof -
  have "(0::nat) < 2 ^ k" by simp
  then have "brk + 2101248 < 768 * 4096" using assms(4) by linarith
  then have "(brk + 2101248) div 4096 < 768" by (rule less_mult_imp_div_less)
  moreover have "brk \<le> 2 ^ 40" using assms(4) by simp
  moreover have "brk + 2101248 < boot_win" using assms(4) by (simp add: boot_win_def)
  ultimately show ?thesis
    using boot_slab_alloc [OF assms(1-3)] assms(4,5)
    by (auto simp: mem_phys_alloc_on_behalf_def neighbours_of_def node_of_def boot_run_def boot_done_def boot_node_def
        mem_phys_alloc_specific_def mem_phys_alloc_specific_nolock_def ranges_loop.simps [of boot_win sz 0 "boot_win + 2097152"]
        mem_phys_store_info_def put_range_def Let_def slab_consts split: option.splits)
qed

definition boot_info :: "mem_phys_object_data option list" where
  "boot_info = replicate 768 None"

lemma boot_init: "mem_phys_init boot_win 3145728 0 boot_done = Some (boot_run 0 32768 (Some boot_info))"
proof -
  have "mem_phys_slab_get_order 18432 = 15" by (rule get_order_eqI) simp_all
  then have "mem_phys_alloc_on_behalf boot_win 18432 0 boot_done = Some (2101248, boot_run 0 32768 None)"
    using boot_alloc [of 18432 15 0 None 0] by (simp add: boot_done_run)
  then show ?thesis
    by (simp add: mem_phys_init_def SIZEOF_mem_phys_object_data_def slab_consts boot_info_def [symmetric])
      (simp add: boot_run_def)
qed

lemma boot_space:
  "acpi_query_phys_space_size (\<lambda>_. 0) acpi_static = Some 0"
  "mem_calculate_phys_space_size 0 (Some numa_memmap) = Some 3145728"
  by (simp_all add: acpi_query_phys_space_size_def acpi_static_def mem_calculate_phys_space_size_def numa_memmap_def
      entry_end_def u64_def align_up_def align_down_def slab_consts)

theorem phys_alloc_safe_witness:
  "\<exists>st2. mem_phys_init boot_win 3145728 0 boot_done = Some st2 \<and> mem_phys_alloc_on_behalf boot_win (2 ^ 30) 0 st2 \<noteq> None"
proof -
  let ?st = "boot_run 0 32768 (Some boot_info)"
  obtain g0 where g: "gh_rec g0 = (\<lambda>_. {#})" and q: "\<And>sz node. request_ok boot_win g0 ?st sz node"
    using phys_alloc_safe [OF boot_example(1,3) boot_done_eq boot_space boot_init] by (meson rtranclp.rtrancl_refl)
  have "neighbours_of ?st 0 = Some [0]" "node_of ?st 0 \<noteq> None"
    by (simp_all add: neighbours_of_def node_of_def boot_run_def boot_done_def boot_node_def)
  then have "mem_phys_alloc_on_behalf boot_win (2 ^ 30) 0 ?st \<noteq> None" 
    using q [of "2 ^ 30" 0] g by (auto simp: request_ok_def split: option.splits)
  then show ?thesis using boot_init by blast
qed

text \<open>C35: references to ranges corrupt the list of ranges. The counter that a block's reference to its range increments
  is the pointer to the next range. When the only range of a node has blocks in use and refuses a
  request, the request is not refused: the loop goes on at an address that is no range, and has no
  result.\<close>

theorem range_list_corrupted:
  assumes inv: "phys_inv win g st" and nd: "node_of st node \<noteq> None" and r: "gh_chain g node = [r]"
    and n: "0 < size (gh_rec g r)" "size (gh_rec g r) < 2 ^ 64" "ph_ranges st (size (gh_rec g r)) = None"
    and ref: "refuses win sz st r"
  shows "mem_phys_alloc_specific win sz node st = None"
proof -
  obtain nd where nd: "node_of st node = Some nd" using nd by blast
  have l: "linked (ph_ranges st) (counts g) (nn_ranges nd) [r]" using phys_invD(1) [OF inv nd] r by simp
  then obtain rg where rg: "ph_ranges st r = Some rg" "rg_next rg = size (gh_rec g r)"
    using n(2) by (auto simp: counts_def u64_small)
  then have "ranges_loop win sz node (nn_ranges nd) st = None"
    using ranges_loop_lost [OF inv l ref] n by fastforce
  then show ?thesis using nd by (simp add: mem_phys_alloc_specific_def mem_phys_alloc_specific_nolock_def)
qed

definition boot_used :: phys_state where
  "boot_used = boot_run 1 36864 (Some (boot_info[521 := Some \<lparr>po_range = boot_win + 2097152, po_size = 4096, po_node_id = 0\<rparr>]))"

lemma boot_ready:
  "\<exists>g. phys_inv boot_win g (boot_run 0 32768 (Some boot_info)) \<and> gh_chain g 0 = [boot_win + 2097152] \<and> gh_rec g = (\<lambda>_. {#})"
proof -
  let ?r = "boot_win + 2097152" and ?st = "boot_run 0 32768 (Some boot_info)"
  obtain g1 bufs where ad: "added boot_win ?r bufs g1 boot_done"
    using boot_ranges [OF boot_example(1,3), of "\<lambda>_. 0"] boot_done_eq by auto
  have "node_of boot_done 0 = Some (boot_node\<lparr>nn_ranges := ?r\<rparr>)" by (simp add: node_of_def boot_done_def)
  then have l: "linked (ph_ranges boot_done) (counts g1) ?r (gh_chain g1 0)"
    using phys_invD(1) [of boot_win g1 boot_done 0] ad by (simp add: added_def)
  have c: "gh_chain g1 0 = [?r]"
  proof (cases "gh_chain g1 0")
    case (Cons r rs)
    then have "linked (ph_ranges boot_done) (counts g1) 0 rs" using l ad
      by (auto simp: boot_done_def counts_def added_def u64_small boot_win_def)
    then show ?thesis using Cons l by (cases rs) auto
  qed (use l in \<open>simp add: boot_win_def\<close>)
  have "\<forall>r rg. ph_ranges boot_done r = Some rg \<longrightarrow>
      sl_base (rg_slab rg) + sl_length (rg_slab rg) \<le> 3145728 div PAGE_SIZE * PAGE_SIZE"
    by (auto simp: boot_done_def slab_consts mem_phys_slab_init_def split: if_splits)
  then show ?thesis using phys_init_inv [OF boot_init, of g1] ad c by (auto simp: added_def)
qed

lemma boot_used_eq: "mem_phys_alloc_on_behalf boot_win 4096 0 (boot_run 0 32768 (Some boot_info)) = Some (2134016, boot_used)"
proof -
  have "mem_phys_slab_get_order 4096 = 12" by (rule get_order_eqI) simp_all
  then show ?thesis
    using boot_alloc [of 4096 12 32768 "Some boot_info" 0] by (simp add: boot_info_def inc64_def u64_def boot_used_def)
qed

lemma boot_ghost:
  "\<exists>g. phys_inv boot_win g boot_used \<and> gh_chain g 0 = [boot_win + 2097152] \<and> gh_rec g (boot_win + 2097152) = {#(2134016, 12)#}"
proof -
  let ?r = "boot_win + 2097152" and ?st = "boot_run 0 32768 (Some boot_info)"
  obtain g2 where g2: "phys_inv boot_win g2 ?st" "gh_chain g2 0 = [?r]" "gh_rec g2 = (\<lambda>_. {#})" using boot_ready by blast
  have "granted boot_win 4096 g2 ?st 2134016 boot_used"
    using alloc_on_behalf_safe [OF boot_used_eq g2(1)] by (simp add: slab_consts)
  moreover have "mem_phys_get_data 2134016 boot_used = Some \<lparr>po_range = ?r, po_size = 4096, po_node_id = 0\<rparr>"
    by (simp add: mem_phys_get_data_def boot_used_def boot_run_def boot_info_def slab_consts)
  ultimately have "phys_inv boot_win (add_block g2 ?st ?r (2134016, mem_phys_slab_get_order 4096)) boot_used"
    using granted_recorded [of boot_win 4096 g2 ?st 2134016 boot_used] by (auto simp: boot_run_def)
  moreover have "mem_phys_slab_get_order 4096 = 12" by (rule get_order_eqI) simp_all
  then have "gh_rec (add_block g2 ?st ?r (2134016, mem_phys_slab_get_order 4096)) ?r = {#(2134016, 12)#}"
    using g2(3) by (simp add: add_block_def boot_run_def)
  ultimately show ?thesis using g2(2) by (intro exI) (auto simp: add_block_def)
qed

theorem range_list_corrupted_witness: "mem_phys_alloc_specific boot_win (2 ^ 30) 0 boot_used = None"
proof -
  obtain g where g: "phys_inv boot_win g boot_used" "gh_chain g 0 = [boot_win + 2097152]" "gh_rec g (boot_win + 2097152) = {#(2134016, 12)#}"
    using boot_ghost by blast
  have "mem_phys_slab_get_order (2 ^ 30) = 30" by (rule get_order_eqI) simp_all
  then have "refuses boot_win (2 ^ 30) boot_used (boot_win + 2097152)"
    using boot_slab_alloc [of "2 ^ 30" 30 36864]
    by (simp add: refuses_def boot_used_def boot_run_def slab_consts)
  moreover have "node_of boot_used 0 \<noteq> None" "ph_ranges boot_used 1 = None"
    by (simp_all add: boot_used_def boot_run_def node_of_def boot_done_def boot_win_def)
  ultimately show ?thesis using range_list_corrupted [OF g(1) _ g(2)] g(3) by simp
qed

end
