(* ===== verification/Heap.thy ===== *)
theory Heap
  imports Phys_Boot
begin

text \<open>
  \<^verbatim>\<open>mem/heap/heap.c\<close>: the kernel heap. Objects below 4 KiB come from 64 KiB slabs, each dedicated to one size
  and one node; larger ones from \<open>Phys\<close>. All its memory is physical memory seen through the window at \<open>win\<close>:
  pointers are virtual addresses, \<open>ph_mem\<close> is read at the physical ones. A slab starts with its owner and
  the pointer to the next free slab, a free object with the pointer to the next free object.
\<close>

definition MEM_HEAP_SLAB_SIZE :: nat where
  "MEM_HEAP_SLAB_SIZE = 65536"

definition MEM_HEAP_CHUNK_SIZE :: nat where
  "MEM_HEAP_CHUNK_SIZE = 64 * MEM_HEAP_SLAB_SIZE"

definition SIZEOF_mem_heap_slab_hdr :: nat where
  "SIZEOF_mem_heap_slab_hdr = 16"

text \<open>Fields of \<open>mem_heap_slab_hdr\<close> and \<open>mem_heap_obj\<close>, as the physical addresses of their words.\<close>

definition hdr_owner :: "addr \<Rightarrow> addr \<Rightarrow> addr" where
  "hdr_owner win slab = slab - win"

definition hdr_next_free :: "addr \<Rightarrow> addr \<Rightarrow> addr" where
  "hdr_next_free win slab = slab - win + 8"

definition obj_next :: "addr \<Rightarrow> addr \<Rightarrow> addr" where
  "obj_next win obj = obj - win"

definition put_mem :: "addr \<Rightarrow> nat \<Rightarrow> phys_state \<Rightarrow> phys_state" where
  "put_mem a v st = st\<lparr>ph_mem := (ph_mem st)(a := v)\<rparr>"

definition put_slab_data :: "nat \<Rightarrow> mem_heap_slab_data \<Rightarrow> phys_state \<Rightarrow> phys_state" where
  "put_slab_data node d st = (case node_of st node of
     None \<Rightarrow> st
   | Some nd \<Rightarrow> st\<lparr>ph_numa := (ph_numa st)\<lparr>numa_nodes :=
       (numa_nodes (ph_numa st))[node := Some (nd\<lparr>nn_slab_data := d\<rparr>)]\<rparr>\<rparr>)"

section \<open>Operations\<close>

text \<open>Adding a slab to the free slabs of a node, and an object to a free list.\<close>

definition push_slab :: "addr \<Rightarrow> nat \<Rightarrow> addr \<Rightarrow> phys_state \<Rightarrow> phys_state option" where
  "push_slab win node physaddr st = (if physaddr mod MEM_HEAP_SLAB_SIZE \<noteq> 0 then None else do {
     nd \<leftarrow> node_of st node;
     let d = nn_slab_data nd;
     let new_slab = win + physaddr;
     Some (put_slab_data node (d\<lparr>hs_slabs := new_slab\<rparr>) (put_mem (hdr_next_free win new_slab) (hs_slabs d) st)) })"

definition mem_allocate_new_slabs_chunk :: "addr \<Rightarrow> nat \<Rightarrow> phys_state \<Rightarrow> (bool \<times> phys_state) option" where
  "mem_allocate_new_slabs_chunk win node st = do {
     (backing_physmem, st) \<leftarrow> mem_phys_alloc_specific_nolock win MEM_HEAP_CHUNK_SIZE node st;
     if backing_physmem = PHYS_NULL then Some (False, st)
     else do {
       let backing_begin = align_up backing_physmem MEM_HEAP_SLAB_SIZE;
       let backing_end = align_down (u64 (backing_physmem + MEM_HEAP_CHUNK_SIZE)) MEM_HEAP_SLAB_SIZE;
       st \<leftarrow> fold_opt (push_slab win node)
         (map (\<lambda>i. backing_begin + i * MEM_HEAP_SLAB_SIZE) [0..<(backing_end - backing_begin) div MEM_HEAP_SLAB_SIZE]) st;
       Some (True, st) } }"

definition push_obj :: "addr \<Rightarrow> nat \<Rightarrow> nat \<Rightarrow> addr \<Rightarrow> phys_state \<Rightarrow> phys_state option" where
  "push_obj win node order obj st = do {
     nd \<leftarrow> node_of st node;
     let d = nn_slab_data nd;
     if \<not> order < length (hs_free_lists d) then None
     else Some (put_slab_data node (d\<lparr>hs_free_lists := (hs_free_lists d)[order := obj]\<rparr>)
       (put_mem (obj_next win obj) (hs_free_lists d ! order) st)) }"

definition mem_heap_add_slab :: "addr \<Rightarrow> nat \<Rightarrow> nat \<Rightarrow> phys_state \<Rightarrow> phys_state option" where
  "mem_heap_add_slab win node order st = do {
     nd \<leftarrow> node_of st node;
     let new_slab = hs_slabs (nn_slab_data nd);
     if new_slab = 0 then None
     else do {
       let st = put_slab_data node ((nn_slab_data nd)\<lparr>hs_slabs := ph_mem st (hdr_next_free win new_slab)\<rparr>) st;
       let st = put_mem (hdr_owner win new_slab) node st;
       let start = align_up (new_slab + SIZEOF_mem_heap_slab_hdr) (2 ^ order);
       let end' = u64 (new_slab + MEM_HEAP_SLAB_SIZE);
       fold_opt (\<lambda>obj st. if align_down obj MEM_HEAP_SLAB_SIZE \<noteq> new_slab then None else push_obj win node order obj st)
         (map (\<lambda>i. start + i * 2 ^ order) [0..<(end' - start + 2 ^ order - 1) div 2 ^ order]) st } }"

text \<open>The loop over \<open>test\<close> and \<open>result\<close>; all callers start it with \<open>result < max_order\<close>, which it keeps.\<close>

function size_order_loop :: "nat \<Rightarrow> nat \<Rightarrow> nat \<Rightarrow> nat \<Rightarrow> nat" where
  "size_order_loop sz max_order test result =
     (if sz > test \<and> result < max_order then
        (if Suc result = max_order then max_order else size_order_loop sz max_order (u64 (test * 2)) (Suc result))
      else result)"
  by auto
termination by (relation "measure (\<lambda>(sz, max_order, test, result). max_order - result)") auto

declare size_order_loop.simps [simp del]

definition mem_heap_get_size_order :: "nat \<Rightarrow> nat \<Rightarrow> nat" where
  "mem_heap_get_size_order sz max_order = size_order_loop (if sz < 16 then 16 else sz) max_order 16 4"

definition mem_allocate_from_slab :: "addr \<Rightarrow> nat \<Rightarrow> nat \<Rightarrow> phys_state \<Rightarrow> (addr \<times> phys_state) option" where
  "mem_allocate_from_slab win node order st = do {
     nd \<leftarrow> node_of st node;
     let d = nn_slab_data nd;
     let obj = hs_free_lists d ! order;
     if \<not> order < length (hs_free_lists d) \<or> obj = 0 then None
     else Some (obj, put_slab_data node
       (d\<lparr>hs_free_lists := (hs_free_lists d)[order := ph_mem st (obj_next win obj)]\<rparr>) st) }"

fun heap_loop :: "addr \<Rightarrow> nat \<Rightarrow> nat list \<Rightarrow> phys_state \<Rightarrow> (addr \<times> phys_state) option" where
  "heap_loop win order [] st = Some (0, st)"
| "heap_loop win order (neighbour # rest) st = do {
     nd \<leftarrow> node_of st neighbour;
     let d = nn_slab_data nd;
     if \<not> order < length (hs_free_lists d) then None
     else if hs_free_lists d ! order \<noteq> 0 then mem_allocate_from_slab win neighbour order st
     else if hs_slabs d \<noteq> 0 then do {
       st \<leftarrow> mem_heap_add_slab win neighbour order st;
       mem_allocate_from_slab win neighbour order st }
     else do {
       (ok, st) \<leftarrow> mem_allocate_new_slabs_chunk win neighbour st;
       if \<not> ok then heap_loop win order rest st
       else do {
         st \<leftarrow> mem_heap_add_slab win neighbour order st;
         mem_allocate_from_slab win neighbour order st } } }"

definition mem_heap_alloc_on_behalf :: "addr \<Rightarrow> nat \<Rightarrow> nat \<Rightarrow> phys_state \<Rightarrow> (addr \<times> phys_state) option" where
  "mem_heap_alloc_on_behalf win sz node st =
     (let order = mem_heap_get_size_order sz MEM_HEAP_SLAB_ORDERS in
      if order = MEM_HEAP_SLAB_ORDERS then do {
        (res, st) \<leftarrow> mem_phys_alloc_on_behalf win sz node st;
        Some (if res = PHYS_NULL then 0 else win + res, st) }
      else do {
        nb \<leftarrow> neighbours_of st node;
        heap_loop win order nb st })"

text \<open>\<open>numa_id\<close> is the node of the current processor.\<close>

definition mem_heap_alloc :: "addr \<Rightarrow> nat \<Rightarrow> nat \<Rightarrow> phys_state \<Rightarrow> (addr \<times> phys_state) option" where
  "mem_heap_alloc win numa_id sz st = mem_heap_alloc_on_behalf win sz numa_id st"

definition mem_heap_free :: "addr \<Rightarrow> addr \<Rightarrow> nat \<Rightarrow> phys_state \<Rightarrow> phys_state option" where
  "mem_heap_free win mem sz st =
     (if mem = 0 then None
      else let order = mem_heap_get_size_order sz MEM_HEAP_SLAB_ORDERS in
        if order = MEM_HEAP_SLAB_ORDERS then mem_phys_free win (sub64 mem win) st
        else push_obj win (ph_mem st (hdr_owner win (align_down mem MEM_HEAP_SLAB_SIZE))) order mem st)"

definition mem_copy :: "addr \<Rightarrow> addr \<Rightarrow> nat \<Rightarrow> phys_state \<Rightarrow> phys_state" where
  "mem_copy dst src n st = st\<lparr>ph_mem := (\<lambda>a. if dst \<le> a \<and> a < dst + n then ph_mem st (src + (a - dst)) else ph_mem st a)\<rparr>"

definition mem_heap_realloc :: "addr \<Rightarrow> nat \<Rightarrow> addr \<Rightarrow> nat \<Rightarrow> nat \<Rightarrow> phys_state \<Rightarrow> (addr \<times> phys_state) option" where
  "mem_heap_realloc win numa_id mem newsize oldsize st =
     (if mem = 0 then mem_heap_alloc win numa_id newsize st
      else if newsize = 0 then do {
        st \<leftarrow> mem_heap_free win mem oldsize st;
        Some (0, st) }
      else if mem_heap_get_size_order oldsize 64 = mem_heap_get_size_order newsize 64 then Some (mem, st)
      else do {
        (result, st) \<leftarrow> mem_heap_alloc win numa_id newsize st;
        if result = 0 then Some (0, st)
        else do {
          let st = mem_copy (result - win) (mem - win) (if oldsize < newsize then oldsize else newsize) st;
          st \<leftarrow> mem_heap_free win mem oldsize st;
          Some (result, st) } })"

section \<open>Slabs\<close>

text \<open>
  Ghost state, in physical addresses: the free slabs of a node, the node and order a slab is dedicated to, the free
  objects of a node and order, the objects in use, and the physical blocks (with their range) that hold slabs
  or are in use as large objects.
\<close>

record heap_ghost =
  hg_slabs :: "nat \<Rightarrow> addr list"
  hg_ded :: "addr \<Rightarrow> (nat \<times> nat) option"
  hg_free :: "nat \<Rightarrow> nat \<Rightarrow> addr list"
  hg_live :: "(addr \<times> nat) set"
  hg_chunks :: "(addr \<times> block) set"
  hg_big :: "(addr \<times> block) set"

definition slab_of :: "addr \<Rightarrow> addr" where
  "slab_of a = align_down a MEM_HEAP_SLAB_SIZE"

definition in_slab :: "heap_ghost \<Rightarrow> nat \<Rightarrow> nat \<Rightarrow> addr \<Rightarrow> bool" where
  "in_slab h n k a \<longleftrightarrow> hg_ded h (slab_of a) = Some (n, k) \<and> slab_of a + 16 \<le> a \<and> 2 ^ k dvd a"

fun vchain :: "phys_mem \<Rightarrow> addr \<Rightarrow> nat \<Rightarrow> addr \<Rightarrow> addr list \<Rightarrow> bool" where
  "vchain mem win off h [] \<longleftrightarrow> h = 0"
| "vchain mem win off h (x # xs) \<longleftrightarrow> h = win + x \<and> vchain mem win off (mem (x + off)) xs"

definition all_slabs :: "heap_ghost \<Rightarrow> addr set" where
  "all_slabs h = (\<Union>n. set (hg_slabs h n)) \<union> dom (hg_ded h)"

definition slabs_inv :: "addr \<Rightarrow> heap_ghost \<Rightarrow> (nat \<Rightarrow> mem_heap_slab_data option) \<Rightarrow> phys_mem \<Rightarrow> bool" where
  "slabs_inv win h D mem \<longleftrightarrow>
     (\<forall>s \<in> all_slabs h. MEM_HEAP_SLAB_SIZE dvd s) \<and>
     (\<forall>n. distinct (hg_slabs h n) \<and> (\<forall>s \<in> set (hg_slabs h n). hg_ded h s = None)) \<and>
     (\<forall>n m. n \<noteq> m \<longrightarrow> set (hg_slabs h n) \<inter> set (hg_slabs h m) = {}) \<and>
     (\<forall>s n k. hg_ded h s = Some (n, k) \<longrightarrow> D n \<noteq> None \<and> 4 \<le> k \<and> k < 12 \<and> mem s = n) \<and>
     (\<forall>n k. distinct (hg_free h n k) \<and> (\<forall>a \<in> set (hg_free h n k). in_slab h n k a \<and> (a, k) \<notin> hg_live h)) \<and>
     (\<forall>(a, k) \<in> hg_live h. \<exists>n. in_slab h n k a) \<and>
     (\<forall>n d. D n = Some d \<longrightarrow> length (hs_free_lists d) = 12 \<and>
        (\<forall>k < 12. vchain mem win 0 (hs_free_lists d ! k) (hg_free h n k)) \<and>
        vchain mem win 8 (hs_slabs d) (hg_slabs h n))"

lemma slabs_invD:
  assumes "slabs_inv win h D mem"
  shows "s \<in> all_slabs h \<Longrightarrow> MEM_HEAP_SLAB_SIZE dvd s"
    and "distinct (hg_slabs h n)" and "s \<in> set (hg_slabs h n) \<Longrightarrow> hg_ded h s = None"
    and "n \<noteq> m \<Longrightarrow> set (hg_slabs h n) \<inter> set (hg_slabs h m) = {}"
    and "hg_ded h s = Some (n, k) \<Longrightarrow> D n \<noteq> None \<and> 4 \<le> k \<and> k < 12 \<and> mem s = n"
    and "distinct (hg_free h n k)"
    and "a \<in> set (hg_free h n k) \<Longrightarrow> in_slab h n k a \<and> (a, k) \<notin> hg_live h"
    and "(a, k) \<in> hg_live h \<Longrightarrow> \<exists>n. in_slab h n k a"
    and "D n = Some d \<Longrightarrow> length (hs_free_lists d) = 12"
    and "D n = Some d \<Longrightarrow> k < 12 \<Longrightarrow> vchain mem win 0 (hs_free_lists d ! k) (hg_free h n k)"
    and "D n = Some d \<Longrightarrow> vchain mem win 8 (hs_slabs d) (hg_slabs h n)"
proof -
  note i = assms [unfolded slabs_inv_def]
  from i show "s \<in> all_slabs h \<Longrightarrow> MEM_HEAP_SLAB_SIZE dvd s" by simp
  from i show "distinct (hg_slabs h n)" by simp
  from i show "s \<in> set (hg_slabs h n) \<Longrightarrow> hg_ded h s = None" by simp
  from i show "n \<noteq> m \<Longrightarrow> set (hg_slabs h n) \<inter> set (hg_slabs h m) = {}" by meson
  from i show "hg_ded h s = Some (n, k) \<Longrightarrow> D n \<noteq> None \<and> 4 \<le> k \<and> k < 12 \<and> mem s = n" by meson
  from i show "distinct (hg_free h n k)" by simp
  from i show "a \<in> set (hg_free h n k) \<Longrightarrow> in_slab h n k a \<and> (a, k) \<notin> hg_live h" by meson
  from i have "\<forall>(a, k) \<in> hg_live h. \<exists>n. in_slab h n k a" by meson
  then show "(a, k) \<in> hg_live h \<Longrightarrow> \<exists>n. in_slab h n k a" by auto
  from i show "D n = Some d \<Longrightarrow> length (hs_free_lists d) = 12" by meson
  from i show "D n = Some d \<Longrightarrow> k < 12 \<Longrightarrow> vchain mem win 0 (hs_free_lists d ! k) (hg_free h n k)" by meson
  from i show "D n = Some d \<Longrightarrow> vchain mem win 8 (hs_slabs d) (hg_slabs h n)" by meson
qed

lemma slabs_all: "s \<in> set (hg_slabs h n) \<Longrightarrow> s \<in> all_slabs h"
  by (auto simp: all_slabs_def)

lemma vchain_cong: "(\<And>x. x \<in> set xs \<Longrightarrow> mem' (x + off) = mem (x + off)) \<Longrightarrow> vchain mem' win off h xs = vchain mem win off h xs"
  by (induction xs arbitrary: h) auto

text \<open>Slab headers and objects do not overlap.\<close>

lemma slab_of_aligned: "MEM_HEAP_SLAB_SIZE dvd s \<Longrightarrow> i < MEM_HEAP_SLAB_SIZE \<Longrightarrow> slab_of (s + i) = s"
  by (auto simp: slab_of_def align_down_def MEM_HEAP_SLAB_SIZE_def elim!: dvdE)

lemma in_slab_not_hdr:
  assumes "in_slab h n k a" "MEM_HEAP_SLAB_SIZE dvd s"
  shows "a \<noteq> s" "a \<noteq> s + 8"
  using assms slab_of_aligned [of s 0] slab_of_aligned [of s 8] by (auto simp: in_slab_def MEM_HEAP_SLAB_SIZE_def)

lemma in_slab_unique: "in_slab h n k a \<Longrightarrow> in_slab h m j a \<Longrightarrow> n = m \<and> k = j"
  by (simp add: in_slab_def)

lemma in_slab_slab: "in_slab h n k a \<Longrightarrow> slab_of a \<in> all_slabs h"
  by (auto simp: in_slab_def all_slabs_def)

text \<open>Objects of one order do not overlap, and lie in their slab.\<close>

lemma in_slab_span:
  assumes "in_slab h n k a" "k < 12"
  shows "slab_of a + 16 \<le> a" "a + 2 ^ k \<le> slab_of a + MEM_HEAP_SLAB_SIZE"
proof -
  show "slab_of a + 16 \<le> a" using assms by (simp add: in_slab_def)
  have lt: "a < slab_of a + MEM_HEAP_SLAB_SIZE"
    using align_down_gt [of MEM_HEAP_SLAB_SIZE a] by (simp add: slab_of_def MEM_HEAP_SLAB_SIZE_def)
  have "(2::nat) ^ k dvd 2 ^ 16" using assms(2) by (intro le_imp_power_dvd) simp
  then have p: "2 ^ k dvd MEM_HEAP_SLAB_SIZE" by (simp add: MEM_HEAP_SLAB_SIZE_def)
  then have "2 ^ k dvd slab_of a" by (rule dvd_trans) (simp add: slab_of_def align_down_dvd)
  then have "2 ^ k dvd slab_of a + MEM_HEAP_SLAB_SIZE" using p by simp
  moreover have "2 ^ k dvd a" using assms(1) by (simp add: in_slab_def)
  ultimately have "2 ^ k dvd (slab_of a + MEM_HEAP_SLAB_SIZE) - a" by (rule dvd_diff_nat)
  then have "2 ^ k \<le> (slab_of a + MEM_HEAP_SLAB_SIZE) - a" using lt by (intro dvd_imp_le) auto
  then show "a + 2 ^ k \<le> slab_of a + MEM_HEAP_SLAB_SIZE" using lt by simp
qed

lemma in_slab_disj:
  assumes "in_slab h n k a" "in_slab h m j b" "k < 12" "j < 12" "a \<noteq> b"
  shows "blk_disj (a, k) (b, j)"
proof (cases "slab_of a = slab_of b")
  case True
  then have "j = k" "2 ^ k dvd a" "2 ^ k dvd b" using assms(1,2) by (auto simp: in_slab_def)
  moreover have "a + 2 ^ k \<le> b" if "a < b" "2 ^ k dvd a" "2 ^ k dvd b" for a b :: nat
  proof -
    have "2 ^ k dvd b - a" using that by (intro dvd_diff_nat) auto
    then have "2 ^ k \<le> b - a" using that by (intro dvd_imp_le) auto
    then show ?thesis using that by simp
  qed
  ultimately show ?thesis using assms(5) by (metis blk_disj_def fst_conv snd_conv linorder_neqE_nat)
next
  case False
  have "MEM_HEAP_SLAB_SIZE dvd slab_of a" "MEM_HEAP_SLAB_SIZE dvd slab_of b" by (simp_all add: slab_of_def align_down_dvd)
  then have "slab_of a + MEM_HEAP_SLAB_SIZE \<le> slab_of b \<or> slab_of b + MEM_HEAP_SLAB_SIZE \<le> slab_of a"
    using False by (auto simp: MEM_HEAP_SLAB_SIZE_def elim!: dvdE)
  then show ?thesis using in_slab_span [OF assms(1,3)] in_slab_span [OF assms(2,4)] by (auto simp: blk_disj_def)
qed

subsection \<open>Steps\<close>

definition set_free :: "nat \<Rightarrow> nat \<Rightarrow> addr list \<Rightarrow> heap_ghost \<Rightarrow> heap_ghost" where
  "set_free n k xs h = h\<lparr>hg_free := (hg_free h)(n := (hg_free h n)(k := xs))\<rparr>"

lemma set_free_sel [simp]:
  "hg_slabs (set_free n k xs h) = hg_slabs h" "hg_ded (set_free n k xs h) = hg_ded h"
  "hg_live (set_free n k xs h) = hg_live h" "hg_big (set_free n k xs h) = hg_big h" "hg_chunks (set_free n k xs h) = hg_chunks h"
  "hg_free (set_free n k xs h) m j = (if m = n \<and> j = k then xs else hg_free h m j)"
  "in_slab (set_free n k xs h) = in_slab h" "all_slabs (set_free n k xs h) = all_slabs h"
  by (auto simp: set_free_def in_slab_def all_slabs_def fun_eq_iff)

lemma live_upd_sel [simp]:
  "in_slab (h\<lparr>hg_live := L\<rparr>) = in_slab h" "all_slabs (h\<lparr>hg_live := L\<rparr>) = all_slabs h"
  by (auto simp: in_slab_def all_slabs_def fun_eq_iff)

text \<open>Taking an object from a free list.\<close>

lemma pop_obj_inv:
  assumes inv: "slabs_inv win h D mem" and d: "D n = Some d" and k: "k < 12" and f: "hg_free h n k = a # xs"
  shows "hs_free_lists d ! k = win + a" "slabs_inv win ((set_free n k xs h)\<lparr>hg_live := insert (a, k) (hg_live h)\<rparr>)
    (D(n \<mapsto> d\<lparr>hs_free_lists := (hs_free_lists d)[k := mem a]\<rparr>)) mem"
proof -
  let ?h = "(set_free n k xs h)\<lparr>hg_live := insert (a, k) (hg_live h)\<rparr>"
  let ?D = "D(n \<mapsto> d\<lparr>hs_free_lists := (hs_free_lists d)[k := mem a]\<rparr>)"
  note I = slabs_invD [OF inv]
  have c: "vchain mem win 0 (hs_free_lists d ! k) (a # xs)" using I(10) [OF d k] f by simp
  then show "hs_free_lists d ! k = win + a" by simp
  have a: "in_slab h n k a" using I(7) [of a n k] f by simp
  have ax: "a \<notin> set xs" "distinct xs" using I(6) [of n k] f by auto
  have other: "a \<notin> set (hg_free h m k)" if "m \<noteq> n" for m
    using I(7) [of a m k] in_slab_unique [OF a] that by blast
  have "length (hs_free_lists d') = 12 \<and> (\<forall>j < 12. vchain mem win 0 (hs_free_lists d' ! j) (hg_free ?h m j)) \<and>
      vchain mem win 8 (hs_slabs d') (hg_slabs ?h m)" if "?D m = Some d'" for m d'
    using that c I(9-11) d k by (auto simp: nth_list_update split: if_splits)
  moreover have "distinct (hg_free ?h m j) \<and> (\<forall>b \<in> set (hg_free ?h m j). in_slab ?h m j b \<and> (b, j) \<notin> hg_live ?h)" for m j
    using I(6) [of m j] I(7) [of _ m j] I(7) [of _ n k] f ax other [of m] by (cases "m = n \<and> j = k") auto
  moreover have "\<forall>(b, j) \<in> hg_live ?h. \<exists>m. in_slab ?h m j b" using I(8) a by auto
  moreover have "?D m \<noteq> None \<and> 4 \<le> j \<and> j < 12 \<and> mem s = m" if "hg_ded ?h s = Some (m, j)" for s m j
    using I(5) that by fastforce
  moreover have "\<forall>s \<in> all_slabs ?h. MEM_HEAP_SLAB_SIZE dvd s" using I(1) by simp
  moreover have "distinct (hg_slabs ?h m) \<and> (\<forall>s \<in> set (hg_slabs ?h m). hg_ded ?h s = None)" for m using I(2,3) by simp
  moreover have "set (hg_slabs ?h m) \<inter> set (hg_slabs ?h m') = {}" if "m \<noteq> m'" for m m' using I(4) [OF that] by simp
  ultimately show "slabs_inv win ?h ?D mem" unfolding slabs_inv_def by blast
qed

text \<open>Putting an object on a free list.\<close>

lemma push_obj_inv:
  assumes inv: "slabs_inv win h D mem" and d: "D n = Some d" and k: "k < 12" and a: "in_slab h n k a" "a \<notin> set (hg_free h n k)"
  shows "slabs_inv win ((set_free n k (a # hg_free h n k) h)\<lparr>hg_live := hg_live h - {(a, k)}\<rparr>)
    (D(n \<mapsto> d\<lparr>hs_free_lists := (hs_free_lists d)[k := win + a]\<rparr>)) (mem(a := hs_free_lists d ! k))"
proof -
  let ?h = "(set_free n k (a # hg_free h n k) h)\<lparr>hg_live := hg_live h - {(a, k)}\<rparr>"
  let ?D = "D(n \<mapsto> d\<lparr>hs_free_lists := (hs_free_lists d)[k := win + a]\<rparr>)" and ?mem = "mem(a := hs_free_lists d ! k)"
  note I = slabs_invD [OF inv]
  have fr: "vchain ?mem win 0 x (hg_free h m j) = vchain mem win 0 x (hg_free h m j)" for x m j
  proof (rule vchain_cong)
    fix b assume b: "b \<in> set (hg_free h m j)"
    then have "in_slab h m j b" using I(7) by blast
    then have "b \<noteq> a" using a b in_slab_unique by metis
    then show "?mem (b + 0) = mem (b + 0)" by simp
  qed
  have sl: "vchain ?mem win 8 x (hg_slabs h m) = vchain mem win 8 x (hg_slabs h m)" for x m
  proof (rule vchain_cong)
    fix y assume "y \<in> set (hg_slabs h m)"
    then have "MEM_HEAP_SLAB_SIZE dvd y" by (intro I(1) slabs_all)
    from in_slab_not_hdr(2) [OF a(1) this] show "?mem (y + 8) = mem (y + 8)" by simp
  qed
  have "length (hs_free_lists d') = 12 \<and> (\<forall>j < 12. vchain ?mem win 0 (hs_free_lists d' ! j) (hg_free ?h m j)) \<and>
      vchain ?mem win 8 (hs_slabs d') (hg_slabs ?h m)" if "?D m = Some d'" for m d'
    using that I(9-11) d k by (auto simp: nth_list_update fr sl split: if_splits)
  moreover have "distinct (hg_free ?h m j) \<and> (\<forall>b \<in> set (hg_free ?h m j). in_slab ?h m j b \<and> (b, j) \<notin> hg_live ?h)" for m j
    using I(6,7) a by auto
  moreover have "\<forall>(b, j) \<in> hg_live ?h. \<exists>m. in_slab ?h m j b" using I(8) by auto
  moreover have "?D m \<noteq> None \<and> 4 \<le> j \<and> j < 12 \<and> ?mem s = m" if "hg_ded ?h s = Some (m, j)" for s m j
  proof -
    have "s \<in> all_slabs h" using that by (auto simp: all_slabs_def)
    then have "s \<noteq> a" using in_slab_not_hdr(1) [OF a(1)] I(1) by blast
    then show ?thesis using I(5) that by fastforce
  qed
  moreover have "\<forall>s \<in> all_slabs ?h. MEM_HEAP_SLAB_SIZE dvd s" using I(1) by simp
  moreover have "distinct (hg_slabs ?h m) \<and> (\<forall>s \<in> set (hg_slabs ?h m). hg_ded ?h s = None)" for m using I(2,3) by simp
  moreover have "set (hg_slabs ?h m) \<inter> set (hg_slabs ?h m') = {}" if "m \<noteq> m'" for m m' using I(4) [OF that] by simp
  ultimately show ?thesis unfolding slabs_inv_def by blast
qed

text \<open>Dedicating a free slab to an order.\<close>

lemma dedicate_inv:
  assumes inv: "slabs_inv win h D mem" and d: "D n = Some d" and k: "4 \<le> k" "k < 12" and s: "hg_slabs h n = s # ss"
  shows "hs_slabs d = win + s" "slabs_inv win (h\<lparr>hg_slabs := (hg_slabs h)(n := ss), hg_ded := (hg_ded h)(s \<mapsto> (n, k))\<rparr>)
    (D(n \<mapsto> d\<lparr>hs_slabs := mem (s + 8)\<rparr>)) (mem(s := n))"
proof -
  let ?h = "h\<lparr>hg_slabs := (hg_slabs h)(n := ss), hg_ded := (hg_ded h)(s \<mapsto> (n, k))\<rparr>"
  let ?D = "D(n \<mapsto> d\<lparr>hs_slabs := mem (s + 8)\<rparr>)" and ?mem = "mem(s := n)"
  note I = slabs_invD [OF inv]
  have c: "vchain mem win 8 (hs_slabs d) (s # ss)" using I(11) [OF d] s by simp
  then show "hs_slabs d = win + s" by simp
  have ded: "hg_ded h s = None" using I(3) [of s n] s by simp
  have as: "s \<in> all_slabs h" by (rule slabs_all [of _ _ n]) (simp add: s)
  have dv: "MEM_HEAP_SLAB_SIZE dvd s" by (rule I(1) [OF as])
  have all: "all_slabs ?h \<subseteq> all_slabs h" using as s by (auto simp: all_slabs_def split: if_splits)
  have in_eq: "in_slab ?h m j b" if "in_slab h m j b" for m j b
    using that ded by (auto simp: in_slab_def)
  have ss: "s \<notin> set ss" "distinct ss" using I(2) [of n] s by auto
  have so: "s \<notin> set (hg_slabs h m)" if "m \<noteq> n" for m using I(4) [OF that] s by auto
  have fr: "vchain ?mem win 0 x (hg_free h m j) = vchain mem win 0 x (hg_free h m j)" for x m j
    by (rule vchain_cong) (use I(7) in_slab_not_hdr(1) [OF _ dv] in fastforce)
  have sl: "vchain ?mem win 8 x xs = vchain mem win 8 x xs" if "set xs \<subseteq> all_slabs h" for x xs
  proof (rule vchain_cong)
    fix y assume "y \<in> set xs"
    then have y: "MEM_HEAP_SLAB_SIZE dvd y" using that I(1) by blast
    have "y + 8 \<noteq> s"
    proof
      assume "y + 8 = s"
      then have "slab_of s = y" using slab_of_aligned [OF y, of 8] by (simp add: MEM_HEAP_SLAB_SIZE_def)
      then show False using \<open>y + 8 = s\<close> slab_of_aligned [OF dv, of 0] by (simp add: MEM_HEAP_SLAB_SIZE_def)
    qed
    then show "?mem (y + 8) = mem (y + 8)" by simp
  qed
  have "length (hs_free_lists d') = 12 \<and> (\<forall>j < 12. vchain ?mem win 0 (hs_free_lists d' ! j) (hg_free ?h m j)) \<and>
      vchain ?mem win 8 (hs_slabs d') (hg_slabs ?h m)" if "?D m = Some d'" for m d'
  proof -
    have "set ss \<subseteq> all_slabs h" "set (hg_slabs h m) \<subseteq> all_slabs h" using slabs_all [of _ h n] slabs_all [of _ h m] s by auto
    then show ?thesis using that I(9-11) d c by (auto simp: fr sl split: if_splits)
  qed
  moreover have "distinct (hg_free ?h m j) \<and> (\<forall>b \<in> set (hg_free ?h m j). in_slab ?h m j b \<and> (b, j) \<notin> hg_live ?h)" for m j
    using I(6,7) in_eq by simp
  moreover have "\<forall>(b, j) \<in> hg_live ?h. \<exists>m. in_slab ?h m j b" using I(8) in_eq by fastforce
  moreover have "?D m \<noteq> None \<and> 4 \<le> j \<and> j < 12 \<and> ?mem s' = m" if "hg_ded ?h s' = Some (m, j)" for s' m j
    using I(5) [of s' m j] that k by (auto split: if_splits)
  moreover have "\<forall>s' \<in> all_slabs ?h. MEM_HEAP_SLAB_SIZE dvd s'" using I(1) all by blast
  moreover have "distinct (hg_slabs ?h m) \<and> (\<forall>s' \<in> set (hg_slabs ?h m). hg_ded ?h s' = None)" for m
    using I(2,3) ss so s by (auto split: if_splits) (metis list.set_intros(2))
  moreover have "set (hg_slabs ?h m) \<inter> set (hg_slabs ?h m') = {}" if "m \<noteq> m'" for m m'
    using I(4) [OF that] s that by (auto split: if_splits)
  ultimately show "slabs_inv win ?h ?D ?mem" unfolding slabs_inv_def by blast
qed

text \<open>Adding a free slab.\<close>

lemma push_slab_inv:
  assumes inv: "slabs_inv win h D mem" and d: "D n = Some d" and s: "MEM_HEAP_SLAB_SIZE dvd s" "s \<notin> all_slabs h"
  shows "slabs_inv win (h\<lparr>hg_slabs := (hg_slabs h)(n := s # hg_slabs h n)\<rparr>)
    (D(n \<mapsto> d\<lparr>hs_slabs := win + s\<rparr>)) (mem(s + 8 := hs_slabs d))"
proof -
  let ?h = "h\<lparr>hg_slabs := (hg_slabs h)(n := s # hg_slabs h n)\<rparr>"
  let ?D = "D(n \<mapsto> d\<lparr>hs_slabs := win + s\<rparr>)" and ?mem = "mem(s + 8 := hs_slabs d)"
  note I = slabs_invD [OF inv]
  have all: "all_slabs ?h = insert s (all_slabs h)" by (auto simp: all_slabs_def split: if_splits)
  have in_eq [simp]: "in_slab ?h = in_slab h" by (simp add: in_slab_def fun_eq_iff)
  have new: "s \<notin> set (hg_slabs h m)" "hg_ded h s = None" for m using s(2) by (auto simp: all_slabs_def)
  have ne: "y \<noteq> s + 8" if "y \<in> all_slabs h" for y
    using slab_of_aligned [OF s(1), of 8] slab_of_aligned [OF I(1) [OF that], of 0] by (auto simp: MEM_HEAP_SLAB_SIZE_def)
  have fr: "vchain ?mem win 0 x (hg_free h m j) = vchain mem win 0 x (hg_free h m j)" for x m j
    by (rule vchain_cong) (use I(7) in_slab_not_hdr(2) [OF _ s(1)] in fastforce)
  have sl: "vchain ?mem win 8 x (hg_slabs h m) = vchain mem win 8 x (hg_slabs h m)" for x m
    by (rule vchain_cong) (use new in auto)
  have "length (hs_free_lists d') = 12 \<and> (\<forall>j < 12. vchain ?mem win 0 (hs_free_lists d' ! j) (hg_free ?h m j)) \<and>
      vchain ?mem win 8 (hs_slabs d') (hg_slabs ?h m)" if "?D m = Some d'" for m d'
    using that I(9-11) d by (auto simp: fr sl split: if_splits)
  moreover have "?D m \<noteq> None \<and> 4 \<le> j \<and> j < 12 \<and> ?mem s' = m" if "hg_ded ?h s' = Some (m, j)" for s' m j
  proof -
    have "s' \<noteq> s + 8" using ne [of s'] that by (auto simp: all_slabs_def)
    then show ?thesis using I(5) that by fastforce
  qed
  moreover have "\<forall>s' \<in> all_slabs ?h. MEM_HEAP_SLAB_SIZE dvd s'" unfolding all using I(1) s(1) by blast
  moreover have "distinct (hg_slabs ?h m) \<and> (\<forall>s' \<in> set (hg_slabs ?h m). hg_ded ?h s' = None)" for m
    using I(2,3) new by auto
  moreover have "set (hg_slabs ?h m) \<inter> set (hg_slabs ?h m') = {}" if "m \<noteq> m'" for m m'
    using I(4) [OF that] new that by auto
  moreover have "\<forall>(b, j) \<in> hg_live ?h. \<exists>m. in_slab ?h m j b" using I(8) by auto
  ultimately show ?thesis using I(6,7) unfolding slabs_inv_def by simp
qed

section \<open>The heap in physical memory\<close>

definition slab_data_of :: "phys_state \<Rightarrow> nat \<Rightarrow> mem_heap_slab_data option" where
  "slab_data_of st n = map_option nn_slab_data (node_of st n)"

text \<open>All physical memory is visible through the window.\<close>

definition in_window :: "addr \<Rightarrow> phys_state \<Rightarrow> bool" where
  "in_window win st \<longleftrightarrow> MEM_HEAP_SLAB_SIZE dvd win \<and> 0 < win \<and> (\<forall>r b l. regions st r = Some (b, l) \<longrightarrow> win + b + l < 2 ^ 64)"

definition heap_inv :: "addr \<Rightarrow> ghost \<Rightarrow> heap_ghost \<Rightarrow> phys_state \<Rightarrow> bool" where
  "heap_inv win g h st \<longleftrightarrow> phys_inv win g st \<and> ph_info st \<noteq> None \<and> slabs_inv win h (slab_data_of st) (ph_mem st) \<and>
     in_window win st \<and>
     hg_chunks h \<inter> hg_big h = {} \<and> (\<forall>(r, x) \<in> hg_chunks h \<union> hg_big h. x \<in># gh_rec g r) \<and>
     (\<forall>s \<in> all_slabs h. \<exists>(r, x) \<in> hg_chunks h. fst x \<le> s \<and> s + MEM_HEAP_SLAB_SIZE \<le> fst x + 2 ^ snd x)"

lemma heap_invD:
  assumes "heap_inv win g h st"
  shows "phys_inv win g st" "ph_info st \<noteq> None" "slabs_inv win h (slab_data_of st) (ph_mem st)"
    "MEM_HEAP_SLAB_SIZE dvd win" "0 < win" "in_window win st" "hg_chunks h \<inter> hg_big h = {}"
    "(r, x) \<in> hg_chunks h \<Longrightarrow> x \<in># gh_rec g r" "(r, x) \<in> hg_big h \<Longrightarrow> x \<in># gh_rec g r"
    "s \<in> all_slabs h \<Longrightarrow> \<exists>r x. (r, x) \<in> hg_chunks h \<and> fst x \<le> s \<and> s + MEM_HEAP_SLAB_SIZE \<le> fst x + 2 ^ snd x"
proof -
  note i = assms [unfolded heap_inv_def]
  from i show "phys_inv win g st" "ph_info st \<noteq> None" "slabs_inv win h (slab_data_of st) (ph_mem st)" "in_window win st"
    "hg_chunks h \<inter> hg_big h = {}" by simp_all
  then show "MEM_HEAP_SLAB_SIZE dvd win" "0 < win" by (simp_all add: in_window_def)
  from i have *: "\<forall>(r, x) \<in> hg_chunks h \<union> hg_big h. x \<in># gh_rec g r" by blast
  then show "(r, x) \<in> hg_chunks h \<Longrightarrow> x \<in># gh_rec g r" "(r, x) \<in> hg_big h \<Longrightarrow> x \<in># gh_rec g r" by auto
  from i have "\<forall>s \<in> all_slabs h. \<exists>(r, x) \<in> hg_chunks h. fst x \<le> s \<and> s + MEM_HEAP_SLAB_SIZE \<le> fst x + 2 ^ snd x" by blast
  then show "s \<in> all_slabs h \<Longrightarrow> \<exists>r x. (r, x) \<in> hg_chunks h \<and> fst x \<le> s \<and> s + MEM_HEAP_SLAB_SIZE \<le> fst x + 2 ^ snd x"
    by blast
qed

lemma node_of_put [simp]:
  "node_of (put_mem a v st) n = node_of st n"
  "node_of st n = Some nd \<Longrightarrow> node_of (put_slab_data n d st) m = (if m = n then Some (nd\<lparr>nn_slab_data := d\<rparr>) else node_of st m)"
  by (auto simp: put_mem_def put_slab_data_def node_of_def split: if_splits)

lemma put_sel [simp]:
  "ph_mem (put_mem a v st) = (ph_mem st)(a := v)" "ph_info (put_mem a v st) = ph_info st"
  "ph_mem (put_slab_data n d st) = ph_mem st" "ph_info (put_slab_data n d st) = ph_info st"
  "ph_ranges (put_slab_data n d st) = ph_ranges st" "ph_ranges (put_mem a v st) = ph_ranges st"
  by (auto simp: put_mem_def put_slab_data_def split: option.splits)

lemma in_window_put [simp]:
  "in_window win (put_slab_data n d st) = in_window win st" "in_window win (put_mem a v st) = in_window win st"
  by (simp_all add: in_window_def regions_def)

lemma slab_data_of_put [simp]:
  "slab_data_of (put_mem a v st) = slab_data_of st"
  "node_of st n = Some nd \<Longrightarrow> slab_data_of (put_slab_data n d st) = (slab_data_of st)(n \<mapsto> d)"
  by (auto simp: slab_data_of_def fun_eq_iff)

lemma phys_put_slab_data:
  assumes inv: "phys_inv win g st" and nd: "node_of st n = Some nd"
  shows "phys_inv win g (put_slab_data n d st)"
proof -
  have "linked (ph_ranges st) (counts g) (nn_ranges nd') (gh_chain g m)"
    if "node_of (put_slab_data n d st) m = Some nd'" for m nd'
    using that nd phys_invD(1) [OF inv] by (auto split: if_splits)
  moreover have "recorded_at (put_slab_data n d st) r x" if "recorded_at st r x" for r x
    using that nd by (auto simp: recorded_at_def mem_phys_get_data_def)
  ultimately show ?thesis using inv unfolding phys_inv_def by simp
qed

text \<open>The heap depends on the contents of its slabs only.\<close>

lemma slabs_inv_frame:
  assumes inv: "slabs_inv win h D mem"
    and eq: "\<And>s w. s \<in> all_slabs h \<Longrightarrow> w \<in> {s..<s + MEM_HEAP_SLAB_SIZE} \<Longrightarrow> mem' w = mem w"
  shows "slabs_inv win h D mem'"
proof -
  note I = slabs_invD [OF inv]
  have "vchain mem' win 0 x (hg_free h n k) = vchain mem win 0 x (hg_free h n k)" for x n k
  proof (rule vchain_cong)
    fix a assume "a \<in> set (hg_free h n k)"
    then have "in_slab h n k a" using I(7) by blast
    moreover have "a < slab_of a + MEM_HEAP_SLAB_SIZE" "slab_of a \<le> a"
      using align_down_gt [of MEM_HEAP_SLAB_SIZE a] align_down_le by (simp_all add: slab_of_def MEM_HEAP_SLAB_SIZE_def)
    ultimately show "mem' (a + 0) = mem (a + 0)" using eq [of "slab_of a" a] in_slab_slab by simp
  qed
  moreover have "vchain mem' win 8 x (hg_slabs h n) = vchain mem win 8 x (hg_slabs h n)" for x n
    by (rule vchain_cong) (auto intro!: eq slabs_all simp: MEM_HEAP_SLAB_SIZE_def)
  moreover have "mem' s = mem s" if "hg_ded h s = Some (n, k)" for s n k
    by (rule eq [of s]) (use that in \<open>auto simp: all_slabs_def MEM_HEAP_SLAB_SIZE_def\<close>)
  ultimately show ?thesis using inv unfolding slabs_inv_def by simp
qed

text \<open>Writing into a slab keeps the physical allocator intact.\<close>

lemma phys_put_mem:
  assumes inv: "heap_inv win g h st" and s: "s \<in> all_slabs h" "w \<in> {s..<s + MEM_HEAP_SLAB_SIZE}"
  shows "phys_inv win g (put_mem w v st)"
proof -
  note I = heap_invD [OF inv]
  obtain r x where x: "(r, x) \<in> hg_chunks h" "fst x \<le> s" "s + MEM_HEAP_SLAB_SIZE \<le> fst x + 2 ^ snd x"
    using I(10) [OF s(1)] by blast
  have "x \<in># gh_live g r" using mset_subset_eqD [OF phys_invD(4) [OF I(1)] I(8) [OF x(1)]] .
  moreover have "w \<in> {fst x..<fst x + 2 ^ snd x}" using s(2) x(2,3) by auto
  ultimately show ?thesis unfolding put_mem_def by (rule client_step [OF I(1)])
qed

lemma slab_word:
  "w \<in> {s..<s + MEM_HEAP_SLAB_SIZE}" if "w = s \<or> w = s + 8"
  using that by (auto simp: MEM_HEAP_SLAB_SIZE_def)

lemma obj_word: "a \<in> {slab_of a..<slab_of a + MEM_HEAP_SLAB_SIZE}"
  using align_down_gt [of MEM_HEAP_SLAB_SIZE a] align_down_le by (simp add: slab_of_def MEM_HEAP_SLAB_SIZE_def)

text \<open>Addresses of slabs are below the limit of physical addresses.\<close>

lemma slab_small:
  assumes inv: "heap_inv win g h st" and s: "s \<in> all_slabs h"
  shows "0 < s" "s + MEM_HEAP_SLAB_SIZE \<le> 2 ^ 52" "win + s + MEM_HEAP_SLAB_SIZE < 2 ^ 64"
proof -
  note I = heap_invD [OF inv]
  obtain r x where x: "(r, x) \<in> hg_chunks h" "fst x \<le> s" "s + MEM_HEAP_SLAB_SIZE \<le> fst x + 2 ^ snd x"
    using I(10) [OF s(1)] by blast
  have xl: "x \<in># gh_live g r" using mset_subset_eqD [OF phys_invD(4) [OF I(1)] I(8) [OF x(1)]] .
  obtain rg where rg: "ph_ranges st r = Some rg" using phys_invD(5) [OF I(1) xl] by blast
  have "0 < sl_base (rg_slab rg)" "sl_base (rg_slab rg) + sl_length (rg_slab rg) \<le> 2 ^ 52"
    using phys_invD(2) [OF I(1) rg] by (auto simp: slab_inv_def slab_rep_def)
  moreover have "win + sl_base (rg_slab rg) + sl_length (rg_slab rg) < 2 ^ 64"
    using I(6) rg by (auto simp: in_window_def regions_def)
  moreover have "sl_base (rg_slab rg) \<le> fst x" "fst x + 2 ^ snd x \<le> sl_base (rg_slab rg) + sl_length (rg_slab rg)"
    using slab_inv_live [OF phys_invD(2) [OF I(1) rg]] xl by (auto simp: blocks_in_def)
  ultimately show "0 < s" "s + MEM_HEAP_SLAB_SIZE \<le> 2 ^ 52" "win + s + MEM_HEAP_SLAB_SIZE < 2 ^ 64" using x(2,3) by linarith+
qed

subsection \<open>Objects\<close>

definition same_nodes :: "phys_state \<Rightarrow> phys_state \<Rightarrow> bool" where
  "same_nodes st st' \<longleftrightarrow> (\<forall>n. node_of st' n = None \<longleftrightarrow> node_of st n = None)"

lemma heap_pop:
  assumes inv: "heap_inv win g h st" and nd: "node_of st n = Some nd" and k: "k < 12" and f: "hg_free h n k = a # xs"
  shows "\<exists>st'. mem_allocate_from_slab win n k st = Some (win + a, st') \<and> ph_mem st' = ph_mem st \<and>
    heap_inv win g ((set_free n k xs h)\<lparr>hg_live := insert (a, k) (hg_live h)\<rparr>) st'"
proof -
  note I = heap_invD [OF inv]
  have d: "slab_data_of st n = Some (nn_slab_data nd)" using nd by (simp add: slab_data_of_def)
  note p = pop_obj_inv [OF I(3) d k f]
  let ?d = "(nn_slab_data nd)\<lparr>hs_free_lists := (hs_free_lists (nn_slab_data nd))[k := ph_mem st a]\<rparr>"
  have "mem_allocate_from_slab win n k st = Some (win + a, put_slab_data n ?d st)"
    using nd p(1) k I(5) slabs_invD(9) [OF I(3) d] by (simp add: mem_allocate_from_slab_def obj_next_def Let_def)
  moreover have "heap_inv win g ((set_free n k xs h)\<lparr>hg_live := insert (a, k) (hg_live h)\<rparr>) (put_slab_data n ?d st)"
    using inv p(2) phys_put_slab_data [OF I(1) nd] nd by (simp add: heap_inv_def set_free_def all_slabs_def)
  ultimately show ?thesis by auto
qed

lemma heap_push:
  assumes inv: "heap_inv win g h st" and nd: "node_of st n = Some nd" and k: "k < 12"
    and a: "in_slab h n k a" "a \<notin> set (hg_free h n k)"
  shows "\<exists>st'. push_obj win n k (win + a) st = Some st' \<and> same_nodes st st' \<and> (\<forall>w. w \<noteq> a \<longrightarrow> ph_mem st' w = ph_mem st w) \<and>
    heap_inv win g ((set_free n k (a # hg_free h n k) h)\<lparr>hg_live := hg_live h - {(a, k)}\<rparr>) st'"
proof -
  note I = heap_invD [OF inv]
  have d: "slab_data_of st n = Some (nn_slab_data nd)" using nd by (simp add: slab_data_of_def)
  let ?l = "hs_free_lists (nn_slab_data nd)"
  let ?st = "put_slab_data n ((nn_slab_data nd)\<lparr>hs_free_lists := ?l[k := win + a]\<rparr>) (put_mem a (?l ! k) st)"
  have "push_obj win n k (win + a) st = Some ?st"
    using nd k slabs_invD(9) [OF I(3) d] by (simp add: push_obj_def obj_next_def Let_def)
  moreover have "phys_inv win g ?st"
    using phys_put_mem [OF inv in_slab_slab [OF a(1)] obj_word] nd by (intro phys_put_slab_data) simp_all
  then have "heap_inv win g ((set_free n k (a # hg_free h n k) h)\<lparr>hg_live := hg_live h - {(a, k)}\<rparr>) ?st"
    using inv push_obj_inv [OF I(3) d k a] nd by (simp add: heap_inv_def set_free_def all_slabs_def)
  ultimately show ?thesis using nd by (auto simp: same_nodes_def)
qed

lemma heap_push_all:
  assumes "heap_inv win g h st" "node_of st n \<noteq> None" and k: "k < 12"
    and "\<forall>a \<in> set xs. in_slab h n k a \<and> a \<notin> set (hg_free h n k)" "distinct xs"
  shows "\<exists>st'. fold_opt (\<lambda>obj st. if align_down obj MEM_HEAP_SLAB_SIZE \<noteq> win + slab_of (obj - win) then None
      else push_obj win n k obj st) (map (\<lambda>a. win + a) xs) st = Some st' \<and> same_nodes st st' \<and>
    (\<forall>w. w \<notin> set xs \<longrightarrow> ph_mem st' w = ph_mem st w) \<and>
    heap_inv win g ((set_free n k (rev xs @ hg_free h n k) h)\<lparr>hg_live := hg_live h - set xs \<times> {k}\<rparr>) st'"
  using assms(1,2,4,5)
proof (induction xs arbitrary: h st)
  case Nil
  have "(set_free n k (hg_free h n k) h)\<lparr>hg_live := hg_live h\<rparr> = h" by (simp add: set_free_def)
  then show ?case using Nil by (auto simp: same_nodes_def)
next
  case (Cons a xs)
  obtain nd where nd: "node_of st n = Some nd" using Cons.prems(2) by auto
  let ?h = "(set_free n k (a # hg_free h n k) h)\<lparr>hg_live := hg_live h - {(a, k)}\<rparr>"
  obtain st1 where s: "push_obj win n k (win + a) st = Some st1" "same_nodes st st1" "heap_inv win g ?h st1"
      "\<forall>w. w \<noteq> a \<longrightarrow> ph_mem st1 w = ph_mem st w"
    using heap_push [OF Cons.prems(1) nd k, of a] Cons.prems(3) by auto
  have n1: "node_of st1 n \<noteq> None" using s(2) nd unfolding same_nodes_def by (metis option.distinct(1))
  have new: "\<forall>b \<in> set xs. in_slab ?h n k b \<and> b \<notin> set (hg_free ?h n k)" using Cons.prems(3,4) by auto
  obtain st2 where t: "fold_opt (\<lambda>obj st. if align_down obj MEM_HEAP_SLAB_SIZE \<noteq> win + slab_of (obj - win) then None
      else push_obj win n k obj st) (map (\<lambda>a. win + a) xs) st1 = Some st2" "same_nodes st1 st2" "\<forall>w. w \<notin> set xs \<longrightarrow> ph_mem st2 w = ph_mem st1 w"
      "heap_inv win g ((set_free n k (rev xs @ hg_free ?h n k) ?h)\<lparr>hg_live := hg_live ?h - set xs \<times> {k}\<rparr>) st2"
    using Cons.IH [OF s(3) n1 new] Cons.prems(4) by fastforce
  have "(set_free n k (rev xs @ hg_free ?h n k) ?h)\<lparr>hg_live := hg_live ?h - set xs \<times> {k}\<rparr> =
      (set_free n k (rev (a # xs) @ hg_free h n k) h)\<lparr>hg_live := hg_live h - set (a # xs) \<times> {k}\<rparr>"
    (is "?l = ?r")
  proof -
    have "hg_live h - {(a, k)} - set xs \<times> {k} = hg_live h - set (a # xs) \<times> {k}" by auto
    then show ?thesis by (simp add: set_free_def)
  qed
  moreover have "align_down (win + a) MEM_HEAP_SLAB_SIZE = win + slab_of a"
    using heap_invD(4) [OF Cons.prems(1)] by (auto simp: slab_of_def align_down_def MEM_HEAP_SLAB_SIZE_def elim!: dvdE)
  ultimately show ?case using s t by (auto simp: same_nodes_def)
qed

text \<open>The objects of a slab, lowest first; there is at least one.\<close>

definition objs_of :: "addr \<Rightarrow> nat \<Rightarrow> addr list" where
  "objs_of s k = map (\<lambda>i. s + 2 ^ k + i * 2 ^ k) [0..<2 ^ (16 - k) - 1]"

lemma power_16: "k < 12 \<Longrightarrow> (2::nat) ^ (16 - k) * 2 ^ k = 65536"
  by (simp add: power_add [symmetric])

lemma objs_of_span:
  assumes "MEM_HEAP_SLAB_SIZE dvd s" "4 \<le> k" "k < 12" "a \<in> set (objs_of s k)"
  shows "slab_of a = s" "s + 16 \<le> a" "2 ^ k dvd a"
proof -
  obtain i where i: "a = s + (2 ^ k + i * 2 ^ k)" "i < 2 ^ (16 - k) - 1" using assms(4) by (auto simp: objs_of_def)
  have "Suc i < 2 ^ (16 - k)" using i(2) by linarith
  then have "Suc i * 2 ^ k < 2 ^ (16 - k) * 2 ^ k" by (rule mult_strict_right_mono) simp
  then have "2 ^ k + i * 2 ^ k < MEM_HEAP_SLAB_SIZE" using power_16 [OF assms(3)] by (simp add: MEM_HEAP_SLAB_SIZE_def)
  then show "slab_of a = s" using slab_of_aligned [OF assms(1)] i(1) by simp
  have "(2::nat) ^ 4 \<le> 2 ^ k" using assms(2) by (intro power_increasing) auto
  then show "s + 16 \<le> a" using i(1) by simp
  have "(2::nat) ^ k dvd 2 ^ 16" using assms(3) by (intro le_imp_power_dvd) simp
  then have "2 ^ k dvd MEM_HEAP_SLAB_SIZE" by (simp add: MEM_HEAP_SLAB_SIZE_def)
  then have "2 ^ k dvd s" using assms(1) by (rule dvd_trans)
  then show "2 ^ k dvd a" using i(1) by simp
qed

lemma objs_of_distinct: "distinct (objs_of s k)"
  by (auto simp: objs_of_def distinct_map inj_on_def)

lemma objs_of_nonempty: "k < 12 \<Longrightarrow> objs_of s k \<noteq> []"
proof -
  assume "k < 12"
  then have "(2::nat) ^ 1 \<le> 2 ^ (16 - k)" by (intro power_increasing) auto
  then show ?thesis by (simp add: objs_of_def)
qed

text \<open>The addresses the loop of \<open>mem_heap_add_slab\<close> visits.\<close>

lemma add_slab_addrs:
  assumes "MEM_HEAP_SLAB_SIZE dvd win" "MEM_HEAP_SLAB_SIZE dvd s"
    "win + s + MEM_HEAP_SLAB_SIZE < 2 ^ 64" and k: "4 \<le> k" "k < 12"
  defines "start \<equiv> align_up (win + s + SIZEOF_mem_heap_slab_hdr) (2 ^ k)"
  shows "map (\<lambda>i. start + i * 2 ^ k) [0..<(u64 (win + s + MEM_HEAP_SLAB_SIZE) - start + 2 ^ k - 1) div 2 ^ k] =
    map (\<lambda>a. win + a) (objs_of s k)"
proof -
  have p: "(2::nat) ^ 4 \<le> 2 ^ k" "(2::nat) ^ k \<le> 2 ^ 12"
    using power_increasing [of 4 k "2::nat"] power_increasing [of k 12 "2::nat"] k by simp_all
  have dvd: "2 ^ k dvd MEM_HEAP_SLAB_SIZE"
    using power_16 [OF k(2)] by (simp add: MEM_HEAP_SLAB_SIZE_def dvd_def) (metis mult.commute)
  then have "2 ^ k dvd win + s" using assms(1,2) dvd_trans by (metis dvd_add)
  then obtain q where q: "win + s = 2 ^ k * q" by (rule dvdE)
  have "(win + s + 16 + 2 ^ k - 1) div 2 ^ k = q + 1"
  proof -
    have "win + s + 16 + 2 ^ k - 1 = 15 + (q + 1) * 2 ^ k" using q p(1) by (simp add: algebra_simps)
    moreover have "(15 + (q + 1) * 2 ^ k) div 2 ^ k = q + 1 + 15 div 2 ^ k" by (rule div_mult_self1) simp
    moreover have "(15::nat) div 2 ^ k = 0" using p(1) by simp
    ultimately show ?thesis by (metis add_0_right)
  qed
  moreover have "win + s + 16 + 2 ^ k - 1 < 2 ^ 64" using assms(3) p(2) by (simp add: MEM_HEAP_SLAB_SIZE_def)
  ultimately have "start = (q + 1) * 2 ^ k"
    unfolding start_def SIZEOF_mem_heap_slab_hdr_def align_up_def align_down_def by (simp add: u64_small)
  then have start: "start = win + s + 2 ^ k" using q by (simp add: algebra_simps)
  have "u64 (win + s + MEM_HEAP_SLAB_SIZE) = win + s + MEM_HEAP_SLAB_SIZE" by (rule u64_small [OF assms(3)])
  then have "u64 (win + s + MEM_HEAP_SLAB_SIZE) - start + 2 ^ k - 1 = 65535"
    using start p(2) by (simp add: MEM_HEAP_SLAB_SIZE_def)
  moreover have "65535 div 2 ^ k = (2::nat) ^ (16 - k) - 1"
  proof (rule div_nat_eqI)
    have "(2 ^ (16 - k) - 1) * 2 ^ k = 65536 - (2::nat) ^ k" using power_16 [OF k(2)] by (simp add: diff_mult_distrib)
    then show "2 ^ k * (2 ^ (16 - k) - 1) \<le> (65535::nat)" using p(1) by (simp add: mult.commute)
    have "(1::nat) \<le> 2 ^ (16 - k)" by simp
    then show "(65535::nat) < 2 ^ k * Suc (2 ^ (16 - k) - 1)" using power_16 [OF k(2)] by (simp add: mult.commute)
  qed
  ultimately show ?thesis using start by (simp add: objs_of_def add.assoc)
qed

lemma fold_opt_cong: "(\<And>x s. x \<in> set xs \<Longrightarrow> f x s = f' x s) \<Longrightarrow> fold_opt f xs s = fold_opt f' xs s"
proof (induction xs arbitrary: s)
  case (Cons x xs)
  then show ?case by (cases "f' x s") auto
qed simp

lemma all_slabs_dedicate:
  assumes "hg_slabs h n = s # ss"
  shows "all_slabs (h\<lparr>hg_slabs := (hg_slabs h)(n := ss), hg_ded := (hg_ded h)(s \<mapsto> x)\<rparr>) = all_slabs h"
proof -
  have "(\<Union>m. set (((hg_slabs h)(n := ss)) m)) = set ss \<union> (\<Union>m \<in> UNIV - {n}. set (hg_slabs h m))" by (auto split: if_splits)
  moreover have "(\<Union>m. set (hg_slabs h m)) = set (hg_slabs h n) \<union> (\<Union>m \<in> UNIV - {n}. set (hg_slabs h m))" by blast
  ultimately show ?thesis using assms by (simp add: all_slabs_def Un_ac)
qed

text \<open>A new slab fills the free list of its order.\<close>

lemma heap_add_slab:
  assumes inv: "heap_inv win g h st" and nd: "node_of st n \<noteq> None" and k: "4 \<le> k" "k < 12" and s: "hg_slabs h n = s # ss"
  shows "\<exists>h' st'. mem_heap_add_slab win n k st = Some st' \<and> heap_inv win g h' st' \<and> same_nodes st st' \<and>
    (\<forall>w. w \<notin> {s..<s + MEM_HEAP_SLAB_SIZE} \<longrightarrow> ph_mem st' w = ph_mem st w) \<and>
    hg_free h' n k \<noteq> [] \<and> hg_live h' = hg_live h \<and> hg_big h' = hg_big h"
proof -
  note I = heap_invD [OF inv]
  obtain nd where nd: "node_of st n = Some nd" using nd by blast
  have d: "slab_data_of st n = Some (nn_slab_data nd)" using nd by (simp add: slab_data_of_def)
  note de = dedicate_inv [OF I(3) d k s]
  let ?h = "h\<lparr>hg_slabs := (hg_slabs h)(n := ss), hg_ded := (hg_ded h)(s \<mapsto> (n, k))\<rparr>"
  let ?st = "put_mem s n (put_slab_data n ((nn_slab_data nd)\<lparr>hs_slabs := ph_mem st (s + 8)\<rparr>) st)"
  have as: "s \<in> all_slabs h" by (rule slabs_all [of _ _ n]) (simp add: s)
  have ded: "hg_ded h s = None" using slabs_invD(3) [OF I(3), of s n] s by simp
  have all: "all_slabs ?h = all_slabs h" by (rule all_slabs_dedicate [OF s])
  have "?st = put_slab_data n ((nn_slab_data nd)\<lparr>hs_slabs := ph_mem st (s + 8)\<rparr>) (put_mem s n st)"
    using nd by (auto simp: put_mem_def put_slab_data_def node_of_def split: if_splits)
  moreover have "phys_inv win g (put_mem s n st)" using slab_word [of s s] by (intro phys_put_mem [OF inv as]) simp
  ultimately have "phys_inv win g ?st" using nd phys_put_slab_data by simp
  then have hi: "heap_inv win g ?h ?st" using inv de(2) nd all by (simp add: heap_inv_def)
  have dv: "MEM_HEAP_SLAB_SIZE dvd s" using slabs_invD(1) [OF I(3) as] .
  have objs: "\<forall>a \<in> set (objs_of s k). in_slab ?h n k a \<and> a \<notin> set (hg_free ?h n k)"
  proof
    fix a assume a: "a \<in> set (objs_of s k)"
    note sp = objs_of_span [OF dv k a]
    have "a \<notin> set (hg_free h n k)" using slabs_invD(7) [OF I(3), of a n k] sp(1) ded by (auto simp: in_slab_def)
    then show "in_slab ?h n k a \<and> a \<notin> set (hg_free ?h n k)" using sp by (simp add: in_slab_def)
  qed
  obtain st' where f: "fold_opt (\<lambda>obj st. if align_down obj MEM_HEAP_SLAB_SIZE \<noteq> win + slab_of (obj - win) then None
      else push_obj win n k obj st) (map (\<lambda>a. win + a) (objs_of s k)) ?st = Some st'" and sn: "same_nodes ?st st'"
    and kp: "\<forall>w. w \<notin> set (objs_of s k) \<longrightarrow> ph_mem st' w = ph_mem ?st w"
    and hi': "heap_inv win g ((set_free n k (rev (objs_of s k) @ hg_free ?h n k) ?h)\<lparr>hg_live := hg_live ?h - set (objs_of s k) \<times> {k}\<rparr>) st'"
    using heap_push_all [OF hi _ k(2) objs objs_of_distinct] nd by auto
  have "fold_opt (\<lambda>obj st. if align_down obj MEM_HEAP_SLAB_SIZE \<noteq> win + s then None
      else push_obj win n k obj st) (map (\<lambda>a. win + a) (objs_of s k)) ?st = Some st'"
    unfolding f [symmetric] using objs_of_span(1) [OF dv k] by (intro fold_opt_cong) auto
  moreover have "map (\<lambda>i. align_up (win + s + SIZEOF_mem_heap_slab_hdr) (2 ^ k) + i * 2 ^ k)
      [0..<(u64 (win + s + MEM_HEAP_SLAB_SIZE) - align_up (win + s + SIZEOF_mem_heap_slab_hdr) (2 ^ k) + 2 ^ k - 1) div 2 ^ k] =
      map (\<lambda>a. win + a) (objs_of s k)"
    by (rule add_slab_addrs [OF I(4) dv slab_small(3) [OF inv as] k])
  ultimately have "mem_heap_add_slab win n k st = Some st'"
    using nd de(1) I(5) by (simp add: mem_heap_add_slab_def hdr_next_free_def hdr_owner_def Let_def)
  moreover have "hg_live h - set (objs_of s k) \<times> {k} = hg_live h"
    using slabs_invD(8) [OF I(3)] objs_of_span(1) [OF dv k] ded by (fastforce simp: in_slab_def)
  moreover have "same_nodes st st'" using sn nd by (auto simp: same_nodes_def split: if_splits)
  moreover have "ph_mem st' w = ph_mem st w" if w: "w \<notin> {s..<s + MEM_HEAP_SLAB_SIZE}" for w
  proof -
    have "w \<notin> set (objs_of s k)" using objs_of_span(1) [OF dv k, of w] obj_word [of w] w by metis
    moreover have "w \<noteq> s" using w by (auto simp: MEM_HEAP_SLAB_SIZE_def)
    ultimately show ?thesis using kp by simp
  qed
  ultimately show ?thesis using hi' objs_of_nonempty [OF k(2)]
    by (intro exI [of _ "(set_free n k (rev (objs_of s k) @ hg_free ?h n k) ?h)\<lparr>hg_live := hg_live ?h - set (objs_of s k) \<times> {k}\<rparr>"]
        exI [of _ st']) (auto simp: set_free_def)
qed

subsection \<open>Objects in use\<close>

definition heap_objs :: "heap_ghost \<Rightarrow> block set" where
  "heap_objs h = hg_live h \<union> snd ` hg_big h"

definition cells :: "block \<Rightarrow> nat set" where
  "cells x = {fst x..<fst x + 2 ^ snd x}"

lemma blk_disj_cells: "blk_disj x y \<Longrightarrow> cells x \<inter> cells y = {}"
  by (auto simp: blk_disj_def cells_def)

lemma cells_nonempty: "fst x \<in> cells x"
  by (simp add: cells_def)

lemma chunk_live: "heap_inv win g h st \<Longrightarrow> (r, x) \<in> hg_chunks h \<Longrightarrow> x \<in># gh_live g r"
  using mset_subset_eqD [OF phys_invD(4) [OF heap_invD(1)]] heap_invD(8) by blast

lemma big_live: "heap_inv win g h st \<Longrightarrow> (r, x) \<in> hg_big h \<Longrightarrow> x \<in># gh_live g r"
  using mset_subset_eqD [OF phys_invD(4) [OF heap_invD(1)]] heap_invD(9) by blast

lemma slab_in_chunk:
  assumes "heap_inv win g h st" "s \<in> all_slabs h"
  obtains r x where "(r, x) \<in> hg_chunks h" "{s..<s + MEM_HEAP_SLAB_SIZE} \<subseteq> cells x"
  using heap_invD(10) [OF assms] by (fastforce simp: cells_def)

lemma chunk_big_disj:
  assumes "heap_inv win g h st" "(r, x) \<in> hg_chunks h" "(r', y) \<in> hg_big h"
  shows "cells x \<inter> cells y = {}"
proof -
  have "x \<noteq> y \<or> r \<noteq> r'" using heap_invD(7) [OF assms(1)] assms(2,3) by blast
  then show ?thesis
    using live_disj [OF heap_invD(1) [OF assms(1)] chunk_live [OF assms(1,2)] big_live [OF assms(1,3)]] blk_disj_cells by blast
qed

lemma live_obj:
  assumes "heap_inv win g h st" "x \<in> hg_live h"
  obtains n where "in_slab h n (snd x) (fst x)" "4 \<le> snd x" "snd x < 12" "cells x \<subseteq> {slab_of (fst x)..<slab_of (fst x) + MEM_HEAP_SLAB_SIZE}"
    "slab_of (fst x) \<in> all_slabs h" "hg_ded h (slab_of (fst x)) = Some (n, snd x)"
proof -
  note S = slabs_invD [OF heap_invD(3) [OF assms(1)]]
  obtain n where n: "in_slab h n (snd x) (fst x)" using S(8) [of "fst x" "snd x"] assms(2) by auto
  then have d: "hg_ded h (slab_of (fst x)) = Some (n, snd x)" by (simp add: in_slab_def)
  then have k: "4 \<le> snd x" "snd x < 12" using S(5) by blast+
  show ?thesis by (rule that [OF n k _ in_slab_slab [OF n] d]) (use in_slab_span [OF n k(2)] in \<open>auto simp: cells_def\<close>)
qed

lemma slabs_apart:
  assumes "MEM_HEAP_SLAB_SIZE dvd s" "MEM_HEAP_SLAB_SIZE dvd t" "s \<noteq> t"
  shows "{s..<s + MEM_HEAP_SLAB_SIZE} \<inter> {t..<t + MEM_HEAP_SLAB_SIZE} = {}"
proof -
  have "s + MEM_HEAP_SLAB_SIZE \<le> t \<or> t + MEM_HEAP_SLAB_SIZE \<le> s"
    using assms by (auto simp: MEM_HEAP_SLAB_SIZE_def elim!: dvdE)
  then show ?thesis by auto
qed

text \<open>Objects in use do not overlap, and do not meet free slabs or physical blocks of others.\<close>

lemma objs_disj:
  assumes inv: "heap_inv win g h st" and x: "x \<in> heap_objs h" and y: "y \<in> heap_objs h" and ne: "x \<noteq> y"
  shows "cells x \<inter> cells y = {}"
proof -
  have lb: "cells a \<inter> cells b = {}" if a: "a \<in> hg_live h" and b: "(r, b) \<in> hg_big h" for a b r
  proof -
    obtain n where c: "cells a \<subseteq> {slab_of (fst a)..<slab_of (fst a) + MEM_HEAP_SLAB_SIZE}" "slab_of (fst a) \<in> all_slabs h"
      using live_obj [OF inv a] by blast
    obtain r' z where z: "(r', z) \<in> hg_chunks h" "{slab_of (fst a)..<slab_of (fst a) + MEM_HEAP_SLAB_SIZE} \<subseteq> cells z"
      by (rule slab_in_chunk [OF inv c(2)])
    then show ?thesis using chunk_big_disj [OF inv z(1) b] c(1) by blast
  qed
  consider "x \<in> hg_live h" "y \<in> hg_live h" | r where "x \<in> hg_live h" "(r, y) \<in> hg_big h"
    | r where "y \<in> hg_live h" "(r, x) \<in> hg_big h" | r r' where "(r, x) \<in> hg_big h" "(r', y) \<in> hg_big h"
    using x y by (auto simp: heap_objs_def)
  then show ?thesis
  proof cases
    case 1
    obtain n m where "in_slab h n (snd x) (fst x)" "snd x < 12" "in_slab h m (snd y) (fst y)" "snd y < 12"
      using live_obj [OF inv 1(1)] live_obj [OF inv 1(2)] by metis
    moreover have "fst x \<noteq> fst y" using calculation in_slab_unique ne by (metis prod.collapse)
    ultimately have "blk_disj x y" using in_slab_disj [of h n "snd x" "fst x" m "snd y" "fst y"] by simp
    then show ?thesis by (rule blk_disj_cells)
  next
    case 4
    then show ?thesis using live_disj [OF heap_invD(1) [OF inv] big_live [OF inv 4(1)] big_live [OF inv 4(2)]] ne blk_disj_cells by blast
  qed (use lb in blast)+
qed

lemma free_slab_disj:
  assumes inv: "heap_inv win g h st" and s: "s \<in> all_slabs h" "hg_ded h s = None" and x: "x \<in> heap_objs h"
  shows "cells x \<inter> {s..<s + MEM_HEAP_SLAB_SIZE} = {}"
proof (cases "x \<in> hg_live h")
  case True
  obtain n where c: "cells x \<subseteq> {slab_of (fst x)..<slab_of (fst x) + MEM_HEAP_SLAB_SIZE}" "slab_of (fst x) \<in> all_slabs h"
      "hg_ded h (slab_of (fst x)) = Some (n, snd x)"
    using live_obj [OF inv True] by blast
  then have "slab_of (fst x) \<noteq> s" using s(2) by auto
  then have "{slab_of (fst x)..<slab_of (fst x) + MEM_HEAP_SLAB_SIZE} \<inter> {s..<s + MEM_HEAP_SLAB_SIZE} = {}"
    using slabs_apart slabs_invD(1) [OF heap_invD(3) [OF inv]] s(1) c(2) by metis
  then show ?thesis using c(1) by (meson disjoint_iff subset_iff)
next
  case False
  then obtain r where r: "(r, x) \<in> hg_big h" using x by (auto simp: heap_objs_def)
  obtain r' z where z: "(r', z) \<in> hg_chunks h" "{s..<s + MEM_HEAP_SLAB_SIZE} \<subseteq> cells z" by (rule slab_in_chunk [OF inv s(1)])
  show ?thesis using chunk_big_disj [OF inv z(1) r] z(2) by (meson disjoint_iff subset_iff)
qed

lemma objs_in_live:
  assumes inv: "heap_inv win g h st" and x: "x \<in> heap_objs h"
  obtains r y where "y \<in># gh_live g r" "cells x \<subseteq> cells y"
proof (cases "x \<in> hg_live h")
  case True
  obtain n where c: "cells x \<subseteq> {slab_of (fst x)..<slab_of (fst x) + MEM_HEAP_SLAB_SIZE}" "slab_of (fst x) \<in> all_slabs h"
    using live_obj [OF inv True] by blast
  obtain r z where z: "(r, z) \<in> hg_chunks h" "{slab_of (fst x)..<slab_of (fst x) + MEM_HEAP_SLAB_SIZE} \<subseteq> cells z"
    by (rule slab_in_chunk [OF inv c(2)])
  then show ?thesis using that [OF chunk_live [OF inv z(1)]] c(1) by blast
next
  case False
  then obtain r where "(r, x) \<in> hg_big h" using x by (auto simp: heap_objs_def)
  then show ?thesis using that [OF big_live [OF inv]] by blast
qed

subsection \<open>New chunks\<close>

definition add_chunk :: "addr \<Rightarrow> block \<Rightarrow> heap_ghost \<Rightarrow> heap_ghost" where
  "add_chunk r x h = h\<lparr>hg_chunks := insert (r, x) (hg_chunks h)\<rparr>"

definition add_big :: "addr \<Rightarrow> block \<Rightarrow> heap_ghost \<Rightarrow> heap_ghost" where
  "add_big r x h = h\<lparr>hg_big := insert (r, x) (hg_big h)\<rparr>"

lemma ghost_upd [simp]:
  "all_slabs (h\<lparr>hg_chunks := c\<rparr>) = all_slabs h" "all_slabs (h\<lparr>hg_big := b\<rparr>) = all_slabs h"
  "slabs_inv win (h\<lparr>hg_chunks := c\<rparr>) D mem = slabs_inv win h D mem" "slabs_inv win (h\<lparr>hg_big := b\<rparr>) D mem = slabs_inv win h D mem"
  by (simp_all add: all_slabs_def slabs_inv_def in_slab_def)

text \<open>A block that the physical allocator hands out becomes a chunk or a large object.\<close>

lemma heap_granted:
  assumes inv: "heap_inv win g h st" and gr: "granted win sz g st b st'"
  defines "x \<equiv> (b, mem_phys_slab_get_order sz)"
  shows "\<exists>r g'. heap_inv win g' (add_chunk r x h) st' \<and> heap_inv win g' (add_big r x h) st'"
    "\<forall>y \<in> heap_objs h. cells y \<inter> cells x = {} \<and> (\<forall>w \<in> cells y. ph_mem st' w = ph_mem st w)"
    "\<forall>s \<in> all_slabs h. cells x \<inter> {s..<s + MEM_HEAP_SLAB_SIZE} = {}"
proof -
  note I = heap_invD [OF inv]
  obtain r where r: "phys_inv win (add_block g st r x) st'" and sh: "same_shape st st'" and kp: "keeps g st st'"
    using gr by (auto simp: granted_def x_def)
  let ?g = "add_block g st r x"
  have dj: "cells x \<inter> cells y = {}" if "y \<in># gh_live g q" for y q
    using granted_disj(1) [OF gr that] blk_disj_cells by (simp add: x_def)
  have new: "(q, x) \<notin> hg_chunks h" "(q, x) \<notin> hg_big h" for q
    using dj chunk_live [OF inv] big_live [OF inv] cells_nonempty by blast+
  show slabs: "\<forall>s \<in> all_slabs h. cells x \<inter> {s..<s + MEM_HEAP_SLAB_SIZE} = {}"
  proof
    fix s assume "s \<in> all_slabs h"
    then obtain q z where z: "(q, z) \<in> hg_chunks h" "{s..<s + MEM_HEAP_SLAB_SIZE} \<subseteq> cells z" by (rule slab_in_chunk [OF inv])
    show "cells x \<inter> {s..<s + MEM_HEAP_SLAB_SIZE} = {}" using dj [OF chunk_live [OF inv z(1)]] z(2) by (meson disjoint_iff subset_iff)
  qed
  show "\<forall>y \<in> heap_objs h. cells y \<inter> cells x = {} \<and> (\<forall>w \<in> cells y. ph_mem st' w = ph_mem st w)"
  proof
    fix y assume "y \<in> heap_objs h"
    then obtain q z where z: "z \<in># gh_live g q" "cells y \<subseteq> cells z" by (rule objs_in_live [OF inv])
    have "cells y \<inter> cells x = {}" using dj [OF z(1)] z(2) by (meson disjoint_iff subset_iff)
    moreover have "\<forall>w \<in> cells y. ph_mem st' w = ph_mem st w" using kp z unfolding keeps_def cells_def by (meson subsetD)
    ultimately show "cells y \<inter> cells x = {} \<and> (\<forall>w \<in> cells y. ph_mem st' w = ph_mem st w)" by blast
  qed
  have "ph_mem st' w = ph_mem st w" if s: "s \<in> all_slabs h" "w \<in> {s..<s + MEM_HEAP_SLAB_SIZE}" for s w
  proof -
    obtain q z where z: "(q, z) \<in> hg_chunks h" "{s..<s + MEM_HEAP_SLAB_SIZE} \<subseteq> cells z" by (rule slab_in_chunk [OF inv s(1)])
    then show ?thesis using kp chunk_live [OF inv z(1)] s(2) unfolding keeps_def cells_def by (meson subsetD)
  qed
  moreover have "slab_data_of st' = slab_data_of st" using same_shape_node [OF sh] by (simp add: slab_data_of_def fun_eq_iff)
  ultimately have sl: "slabs_inv win h (slab_data_of st') (ph_mem st')" using slabs_inv_frame [OF I(3)] by simp
  have w: "in_window win st'" "ph_info st' \<noteq> None" using I(2,6) sh by (simp_all add: in_window_def same_shape_def)
  have rc: "z \<in># gh_rec ?g q" if "z \<in># gh_rec g q \<or> (q, z) = (r, x)" for z q using that I(2) by (auto simp: add_block_def)
  have chunks: "\<exists>(q, z) \<in> hg_chunks h. fst z \<le> s \<and> s + MEM_HEAP_SLAB_SIZE \<le> fst z + 2 ^ snd z" if "s \<in> all_slabs h" for s
    using I(10) [OF that] by blast
  have "heap_inv win ?g (add_chunk r x h) st'"
    using r w sl I(7) new rc I(8,9) chunks unfolding heap_inv_def add_chunk_def by auto
  moreover have "heap_inv win ?g (add_big r x h) st'"
    using r w sl I(7) new rc I(8,9) chunks unfolding heap_inv_def add_big_def by auto
  ultimately show "\<exists>r g'. heap_inv win g' (add_chunk r x h) st' \<and> heap_inv win g' (add_big r x h) st'" by blast
qed

definition set_slabs :: "nat \<Rightarrow> addr list \<Rightarrow> heap_ghost \<Rightarrow> heap_ghost" where
  "set_slabs n ss h = h\<lparr>hg_slabs := (hg_slabs h)(n := ss)\<rparr>"

lemma heap_push_slab:
  assumes inv: "heap_inv win g h st" and nd: "node_of st n \<noteq> None" and s: "MEM_HEAP_SLAB_SIZE dvd s" "s \<notin> all_slabs h"
    and x: "(r, x) \<in> hg_chunks h" "{s..<s + MEM_HEAP_SLAB_SIZE} \<subseteq> cells x"
  shows "\<exists>st'. push_slab win n s st = Some st' \<and> same_nodes st st' \<and> heap_inv win g (set_slabs n (s # hg_slabs h n) h) st' \<and>
    (\<forall>w. w \<noteq> s + 8 \<longrightarrow> ph_mem st' w = ph_mem st w)"
proof -
  note I = heap_invD [OF inv]
  obtain nd where nd: "node_of st n = Some nd" using nd by blast
  have d: "slab_data_of st n = Some (nn_slab_data nd)" using nd by (simp add: slab_data_of_def)
  let ?d = "nn_slab_data nd" and ?h = "set_slabs n (s # hg_slabs h n) h"
  let ?st = "put_slab_data n (?d\<lparr>hs_slabs := win + s\<rparr>) (put_mem (s + 8) (hs_slabs ?d) st)"
  have "push_slab win n s st = Some ?st"
    using nd s(1) by (simp add: push_slab_def hdr_next_free_def Let_def mod_eq_0_iff_dvd)
  moreover have "s + 8 \<in> {fst x..<fst x + 2 ^ snd x}" using x(2) by (auto simp: cells_def MEM_HEAP_SLAB_SIZE_def)
  then have "phys_inv win g (put_mem (s + 8) (hs_slabs ?d) st)"
    unfolding put_mem_def by (rule client_step [OF I(1) chunk_live [OF inv x(1)]])
  then have p: "phys_inv win g ?st" using nd by (intro phys_put_slab_data) simp_all
  have all: "all_slabs ?h = insert s (all_slabs h)" by (auto simp: all_slabs_def set_slabs_def split: if_splits)
  have "fst x \<le> s \<and> s + MEM_HEAP_SLAB_SIZE \<le> fst x + 2 ^ snd x"
    using x(2) by (simp add: cells_def ivl_subset MEM_HEAP_SLAB_SIZE_def)
  then have "\<forall>t \<in> all_slabs ?h. \<exists>(r, x) \<in> hg_chunks h. fst x \<le> t \<and> t + MEM_HEAP_SLAB_SIZE \<le> fst x + 2 ^ snd x"
    using x(1) I(10) unfolding all by blast
  then have "heap_inv win g ?h ?st"
    using inv push_slab_inv [OF I(3) d s] nd p unfolding heap_inv_def by (simp add: set_slabs_def)
  ultimately show ?thesis using nd by (auto simp: same_nodes_def)
qed

lemma heap_push_slabs:
  assumes "heap_inv win g h st" "node_of st n \<noteq> None" "distinct ss" "(r, x) \<in> hg_chunks h"
    and "\<forall>s \<in> set ss. MEM_HEAP_SLAB_SIZE dvd s \<and> s \<notin> all_slabs h \<and> {s..<s + MEM_HEAP_SLAB_SIZE} \<subseteq> cells x"
  shows "\<exists>st'. fold_opt (push_slab win n) ss st = Some st' \<and> same_nodes st st' \<and>
    heap_inv win g (set_slabs n (rev ss @ hg_slabs h n) h) st' \<and> (\<forall>w. w \<notin> cells x \<longrightarrow> ph_mem st' w = ph_mem st w)"
  using assms
proof (induction ss arbitrary: h st)
  case Nil
  then show ?case by (auto simp: same_nodes_def set_slabs_def)
next
  case (Cons s ss)
  have s: "MEM_HEAP_SLAB_SIZE dvd s" "s \<notin> all_slabs h" "{s..<s + MEM_HEAP_SLAB_SIZE} \<subseteq> cells x" using Cons.prems(5) by auto
  let ?h = "set_slabs n (s # hg_slabs h n) h"
  obtain st1 where st1: "push_slab win n s st = Some st1" "same_nodes st st1" "heap_inv win g ?h st1"
      "\<forall>w. w \<noteq> s + 8 \<longrightarrow> ph_mem st1 w = ph_mem st w"
    using heap_push_slab [OF Cons.prems(1,2) s(1,2) Cons.prems(4) s(3)] by blast
  have n1: "node_of st1 n \<noteq> None" using st1(2) Cons.prems(2) by (simp add: same_nodes_def)
  have "all_slabs ?h = insert s (all_slabs h)" by (auto simp: all_slabs_def set_slabs_def split: if_splits)
  then have new: "\<forall>t \<in> set ss. MEM_HEAP_SLAB_SIZE dvd t \<and> t \<notin> all_slabs ?h \<and> {t..<t + MEM_HEAP_SLAB_SIZE} \<subseteq> cells x"
    using Cons.prems(3,5) by auto
  have c: "(r, x) \<in> hg_chunks ?h" using Cons.prems(4) by (simp add: set_slabs_def)
  obtain st2 where st2: "fold_opt (push_slab win n) ss st1 = Some st2" "same_nodes st1 st2"
      "heap_inv win g (set_slabs n (rev ss @ hg_slabs ?h n) ?h) st2" "\<forall>w. w \<notin> cells x \<longrightarrow> ph_mem st2 w = ph_mem st1 w"
    using Cons.IH [OF st1(3) n1 _ c new] Cons.prems(3) by auto
  have "set_slabs n (rev ss @ hg_slabs ?h n) ?h = set_slabs n (rev (s # ss) @ hg_slabs h n) h" by (simp add: set_slabs_def)
  moreover have "s + 8 \<in> cells x" using s(3) by (auto simp: MEM_HEAP_SLAB_SIZE_def)
  then have "ph_mem st2 w = ph_mem st w" if "w \<notin> cells x" for w using st1(4) st2(4) that by metis
  ultimately show ?case using st1(1,2) st2 by (auto simp: same_nodes_def)
qed

text \<open>The slabs of a chunk.\<close>

lemma chunk_slabs:
  assumes "b + MEM_HEAP_CHUNK_SIZE \<le> 2 ^ 52"
  defines "lo \<equiv> align_up b MEM_HEAP_SLAB_SIZE" and "hi \<equiv> align_down (u64 (b + MEM_HEAP_CHUNK_SIZE)) MEM_HEAP_SLAB_SIZE"
  defines "ss \<equiv> map (\<lambda>i. lo + i * MEM_HEAP_SLAB_SIZE) [0..<(hi - lo) div MEM_HEAP_SLAB_SIZE]"
  shows "ss \<noteq> []" "distinct ss" "\<forall>s \<in> set ss. MEM_HEAP_SLAB_SIZE dvd s \<and> {s..<s + MEM_HEAP_SLAB_SIZE} \<subseteq> cells (b, 22)"
proof -
  have u: "u64 (b + MEM_HEAP_CHUNK_SIZE) = b + MEM_HEAP_CHUNK_SIZE" using assms(1) by (intro u64_small) simp
  have c: "0 < MEM_HEAP_SLAB_SIZE" "b + MEM_HEAP_SLAB_SIZE \<le> 2 ^ 64"
    using assms(1) by (simp_all add: MEM_HEAP_SLAB_SIZE_def MEM_HEAP_CHUNK_SIZE_def)
  have lo: "MEM_HEAP_SLAB_SIZE dvd lo" "b \<le> lo" "lo < b + MEM_HEAP_SLAB_SIZE"
    unfolding lo_def using c by (auto simp: align_up_dvd intro!: align_up_ge align_up_less)
  have hi: "MEM_HEAP_SLAB_SIZE dvd hi" "hi \<le> b + MEM_HEAP_CHUNK_SIZE" "b + MEM_HEAP_CHUNK_SIZE < hi + MEM_HEAP_SLAB_SIZE"
    unfolding hi_def u using c by (auto simp: align_down_dvd align_down_le align_down_gt)
  have "lo + MEM_HEAP_SLAB_SIZE \<le> hi" using lo(3) hi(3) lo(1) hi(1)
    by (auto simp: MEM_HEAP_SLAB_SIZE_def MEM_HEAP_CHUNK_SIZE_def elim!: dvdE)
  then have "1 \<le> (hi - lo) div MEM_HEAP_SLAB_SIZE" using div_le_mono [of MEM_HEAP_SLAB_SIZE "hi - lo" MEM_HEAP_SLAB_SIZE] c(1) by simp
  then show "ss \<noteq> []" by (auto simp: ss_def)
  show "distinct ss" using c(1) by (auto simp: ss_def distinct_map inj_on_def)
  show "\<forall>s \<in> set ss. MEM_HEAP_SLAB_SIZE dvd s \<and> {s..<s + MEM_HEAP_SLAB_SIZE} \<subseteq> cells (b, 22)"
  proof
    fix s assume "s \<in> set ss"
    then have "s \<in> (\<lambda>i. lo + i * MEM_HEAP_SLAB_SIZE) ` {0..<(hi - lo) div MEM_HEAP_SLAB_SIZE}"
      unfolding ss_def set_map set_upt .
    then obtain i where i: "s = lo + i * MEM_HEAP_SLAB_SIZE" "i \<in> {0..<(hi - lo) div MEM_HEAP_SLAB_SIZE}" by (rule imageE)
    have "Suc i * MEM_HEAP_SLAB_SIZE \<le> (hi - lo) div MEM_HEAP_SLAB_SIZE * MEM_HEAP_SLAB_SIZE" using i(2) by (intro mult_le_mono1) simp
    also have "\<dots> \<le> hi - lo" by simp
    finally have "s + MEM_HEAP_SLAB_SIZE \<le> hi" using i(1) \<open>lo + MEM_HEAP_SLAB_SIZE \<le> hi\<close> by (simp add: add.commute)
    then have "s + MEM_HEAP_SLAB_SIZE \<le> b + 2 ^ 22" using hi(2) by (simp add: MEM_HEAP_CHUNK_SIZE_def MEM_HEAP_SLAB_SIZE_def)
    then show "MEM_HEAP_SLAB_SIZE dvd s \<and> {s..<s + MEM_HEAP_SLAB_SIZE} \<subseteq> cells (b, 22)"
      using i(1) lo by (auto simp: cells_def)
  qed
qed

lemma block_small:
  assumes "phys_inv win g st" "x \<in># gh_live g r"
  shows "0 < fst x" "fst x + 2 ^ snd x \<le> 2 ^ 52"
proof -
  obtain rg where rg: "ph_ranges st r = Some rg" using phys_invD(5) [OF assms] by blast
  have "0 < sl_base (rg_slab rg)" "sl_base (rg_slab rg) + sl_length (rg_slab rg) \<le> 2 ^ 52"
    using phys_invD(2) [OF assms(1) rg] by (auto simp: slab_inv_def slab_rep_def)
  moreover have "sl_base (rg_slab rg) \<le> fst x" "fst x + 2 ^ snd x \<le> sl_base (rg_slab rg) + sl_length (rg_slab rg)"
    using slab_inv_live [OF phys_invD(2) [OF assms(1) rg]] assms(2) by (auto simp: blocks_in_def)
  ultimately show "0 < fst x" "fst x + 2 ^ snd x \<le> 2 ^ 52" by linarith+
qed

lemma heap_new_chunk:
  assumes inv: "heap_inv win g h st" and nd: "node_of st n \<noteq> None"
    and a: "mem_phys_alloc_specific_nolock win MEM_HEAP_CHUNK_SIZE n st = Some (b, st1)"
  shows "\<exists>st'. mem_allocate_new_slabs_chunk win n st = Some (b \<noteq> PHYS_NULL, st') \<and>
    (if b = PHYS_NULL then st' = st else same_nodes st st' \<and> (\<exists>g' h'. heap_inv win g' h' st' \<and> hg_slabs h' n \<noteq> [] \<and>
       heap_objs h' = heap_objs h \<and> (\<forall>y \<in> heap_objs h. \<forall>w \<in> cells y. ph_mem st' w = ph_mem st w)))"
proof -
  have s: "(b = PHYS_NULL \<and> st1 = st) \<or> granted win MEM_HEAP_CHUNK_SIZE g st b st1"
    using alloc_specific_safe heap_invD(1) [OF inv] a by (simp add: mem_phys_alloc_specific_def)
  show ?thesis
  proof (cases "b = PHYS_NULL")
    case True
    then show ?thesis using a s by (auto simp: mem_allocate_new_slabs_chunk_def granted_def)
  next
    case False
    then have gr: "granted win MEM_HEAP_CHUNK_SIZE g st b st1" using s by simp
    have "mem_phys_slab_get_order MEM_HEAP_CHUNK_SIZE = 22"
      by (rule get_order_eqI) (simp_all add: MEM_HEAP_CHUNK_SIZE_def MEM_HEAP_SLAB_SIZE_def)
    note G = heap_granted [OF inv gr, unfolded this]
    obtain r g1 where h1: "heap_inv win g1 (add_chunk r (b, 22) h) st1" using G(1) by blast
    have c: "(r, (b, 22)) \<in> hg_chunks (add_chunk r (b, 22) h)" by (simp add: add_chunk_def)
    have "b + MEM_HEAP_CHUNK_SIZE \<le> 2 ^ 52"
      using block_small(2) [OF heap_invD(1) [OF h1] chunk_live [OF h1 c]] by (simp add: MEM_HEAP_CHUNK_SIZE_def MEM_HEAP_SLAB_SIZE_def)
    note C = chunk_slabs [OF this]
    let ?lo = "align_up b MEM_HEAP_SLAB_SIZE" and ?hi = "align_down (u64 (b + MEM_HEAP_CHUNK_SIZE)) MEM_HEAP_SLAB_SIZE"
    let ?ss = "map (\<lambda>i. ?lo + i * MEM_HEAP_SLAB_SIZE) [0..<(?hi - ?lo) div MEM_HEAP_SLAB_SIZE]"
    have n1: "same_nodes st st1" using gr same_shape_node by (auto simp: same_nodes_def granted_def)
    have "\<forall>s \<in> set ?ss. MEM_HEAP_SLAB_SIZE dvd s \<and> s \<notin> all_slabs (add_chunk r (b, 22) h) \<and> {s..<s + MEM_HEAP_SLAB_SIZE} \<subseteq> cells (b, 22)"
    proof
      fix s assume "s \<in> set ?ss"
      then have s: "MEM_HEAP_SLAB_SIZE dvd s" "{s..<s + MEM_HEAP_SLAB_SIZE} \<subseteq> cells (b, 22)" using C(3) by blast+
      have "s \<in> {s..<s + MEM_HEAP_SLAB_SIZE}" by (simp add: MEM_HEAP_SLAB_SIZE_def)
      then have "s \<notin> all_slabs h" using G(3) s(2) by (meson disjoint_iff subset_iff)
      then show "MEM_HEAP_SLAB_SIZE dvd s \<and> s \<notin> all_slabs (add_chunk r (b, 22) h) \<and> {s..<s + MEM_HEAP_SLAB_SIZE} \<subseteq> cells (b, 22)"
        using s by (simp add: add_chunk_def)
    qed
    moreover have "node_of st1 n \<noteq> None" using n1 nd by (simp add: same_nodes_def)
    ultimately obtain st2 where st2: "fold_opt (push_slab win n) ?ss st1 = Some st2" "same_nodes st1 st2"
        "heap_inv win g1 (set_slabs n (rev ?ss @ hg_slabs (add_chunk r (b, 22) h) n) (add_chunk r (b, 22) h)) st2"
        "\<forall>w. w \<notin> cells (b, 22) \<longrightarrow> ph_mem st2 w = ph_mem st1 w"
      using heap_push_slabs [OF h1 _ C(2) c] by blast
    have "mem_allocate_new_slabs_chunk win n st = Some (True, st2)"
      using a False st2(1) by (simp add: mem_allocate_new_slabs_chunk_def Let_def)
    moreover have ne: "hg_slabs (set_slabs n (rev ?ss @ hg_slabs (add_chunk r (b, 22) h) n) (add_chunk r (b, 22) h)) n \<noteq> []"
      using C(1) by (simp add: set_slabs_def)
    have ob: "heap_objs (set_slabs n xs (add_chunk r (b, 22) h)) = heap_objs h" for xs
      by (simp add: heap_objs_def set_slabs_def add_chunk_def)
    have kp: "\<forall>y \<in> heap_objs h. \<forall>w \<in> cells y. ph_mem st2 w = ph_mem st w" using G(2) st2(4) by (metis disjoint_iff)
    have "\<exists>g' h'. heap_inv win g' h' st2 \<and> hg_slabs h' n \<noteq> [] \<and> heap_objs h' = heap_objs h \<and>
        (\<forall>y \<in> heap_objs h. \<forall>w \<in> cells y. ph_mem st2 w = ph_mem st w)"
      by (intro exI conjI) (rule st2(3) ne ob kp)+
    moreover have "same_nodes st st2" using n1 st2(2) by (simp add: same_nodes_def)
    ultimately show ?thesis using False by (intro exI [of _ st2]) simp
  qed
qed

section \<open>Allocation\<close>

text \<open>A new object: it meets no object in use, and no object in use changes.\<close>

definition obtained :: "addr \<Rightarrow> heap_ghost \<Rightarrow> phys_state \<Rightarrow> addr \<Rightarrow> nat \<Rightarrow> phys_state \<Rightarrow> bool" where
  "obtained win h st p k st' \<longleftrightarrow> win < p \<and> (\<exists>g' h'. heap_inv win g' h' st' \<and> (p - win, k) \<notin> heap_objs h \<and>
     heap_objs h' = insert (p - win, k) (heap_objs h)) \<and> (\<forall>y \<in> heap_objs h. \<forall>w \<in> cells y. ph_mem st' w = ph_mem st w)"

lemma obtained_trans:
  assumes "obtained win h1 st1 p k st2" "heap_objs h1 = heap_objs h" "\<forall>y \<in> heap_objs h. \<forall>w \<in> cells y. ph_mem st1 w = ph_mem st w"
  shows "obtained win h st p k st2"
  using assms by (simp add: obtained_def)

lemma big_order: "heap_inv win g h st \<Longrightarrow> (r, x) \<in> hg_big h \<Longrightarrow> 12 \<le> snd x"
  using phys_invD(6) [OF heap_invD(1) big_live] by (fastforce simp: slab_consts)

lemma alloc_from_list:
  assumes inv: "heap_inv win g h st" and nd: "node_of st n \<noteq> None" and k: "k < 12" and f: "hg_free h n k \<noteq> []"
  shows "\<exists>p st'. mem_allocate_from_slab win n k st = Some (p, st') \<and> obtained win h st p k st'"
proof -
  obtain nd where nd: "node_of st n = Some nd" using nd by blast
  obtain a xs where ax: "hg_free h n k = a # xs" using f by (cases "hg_free h n k") auto
  let ?h = "(set_free n k xs h)\<lparr>hg_live := insert (a, k) (hg_live h)\<rparr>"
  obtain st' where st': "mem_allocate_from_slab win n k st = Some (win + a, st')" "ph_mem st' = ph_mem st" "heap_inv win g ?h st'"
    using heap_pop [OF inv nd k ax] by blast
  have free: "in_slab h n k a" "(a, k) \<notin> hg_live h" using slabs_invD(7) [OF heap_invD(3) [OF inv], of a n k] ax by auto
  then have "(a, k) \<notin> heap_objs h" using big_order [OF inv, of _ "(a, k)"] k by (auto simp: heap_objs_def)
  moreover have "0 < a" using in_slab_span(1) [OF free(1) k] by simp
  moreover have "heap_objs ?h = insert (a, k) (heap_objs h)" by (simp add: heap_objs_def)
  ultimately show ?thesis using st' by (auto simp: obtained_def)
qed

lemma alloc_from_slabs:
  assumes inv: "heap_inv win g h st" and nd: "node_of st n \<noteq> None" and k: "4 \<le> k" "k < 12" and s: "hg_slabs h n \<noteq> []"
  shows "\<exists>p st'. Option.bind (mem_heap_add_slab win n k st) (mem_allocate_from_slab win n k) = Some (p, st') \<and> obtained win h st p k st'"
proof -
  obtain t ts where t: "hg_slabs h n = t # ts" using s by (cases "hg_slabs h n") auto
  obtain h1 st1 where h1: "mem_heap_add_slab win n k st = Some st1" "heap_inv win g h1 st1" "same_nodes st st1"
      "\<forall>w. w \<notin> {t..<t + MEM_HEAP_SLAB_SIZE} \<longrightarrow> ph_mem st1 w = ph_mem st w"
      "hg_free h1 n k \<noteq> []" "hg_live h1 = hg_live h" "hg_big h1 = hg_big h"
    using heap_add_slab [OF inv nd k t] by blast
  have "node_of st1 n \<noteq> None" using h1(3) nd by (simp add: same_nodes_def)
  then obtain p st' where p: "mem_allocate_from_slab win n k st1 = Some (p, st')" "obtained win h1 st1 p k st'"
    using alloc_from_list [OF h1(2) _ k(2) h1(5)] by blast
  have ded: "t \<in> all_slabs h" "hg_ded h t = None" using slabs_invD(3) [OF heap_invD(3) [OF inv], of t n] slabs_all [of t h n] t by auto
  have "\<forall>y \<in> heap_objs h. \<forall>w \<in> cells y. ph_mem st1 w = ph_mem st w"
    using free_slab_disj [OF inv ded] h1(4) by (meson disjoint_iff)
  moreover have "heap_objs h1 = heap_objs h" using h1(6,7) by (simp add: heap_objs_def)
  ultimately have "obtained win h st p k st'" using obtained_trans [OF p(2)] by blast
  then show ?thesis using h1(1) p(1) by simp
qed

text \<open>The free lists and free slabs a node shows.\<close>

lemma lists_shown:
  assumes inv: "heap_inv win g h st" and nd: "node_of st n = Some nd" and k: "k < 12"
  shows "length (hs_free_lists (nn_slab_data nd)) = 12" "hs_free_lists (nn_slab_data nd) ! k \<noteq> 0 \<longleftrightarrow> hg_free h n k \<noteq> []"
    "hs_slabs (nn_slab_data nd) \<noteq> 0 \<longleftrightarrow> hg_slabs h n \<noteq> []"
proof -
  have d: "slab_data_of st n = Some (nn_slab_data nd)" using nd by (simp add: slab_data_of_def)
  note S = slabs_invD(9-11) [OF heap_invD(3) [OF inv] d]
  show "length (hs_free_lists (nn_slab_data nd)) = 12" by (rule S(1))
  show "hs_free_lists (nn_slab_data nd) ! k \<noteq> 0 \<longleftrightarrow> hg_free h n k \<noteq> []"
    using S(2) [OF k] heap_invD(5) [OF inv] by (cases "hg_free h n k") auto
  show "hs_slabs (nn_slab_data nd) \<noteq> 0 \<longleftrightarrow> hg_slabs h n \<noteq> []"
    using S(3) heap_invD(5) [OF inv] by (cases "hg_slabs h n") auto
qed

text \<open>A node that cannot serve a request for a chunk.\<close>

definition stuck_node :: "addr \<Rightarrow> nat \<Rightarrow> ghost \<Rightarrow> phys_state \<Rightarrow> nat \<Rightarrow> bool" where
  "stuck_node win sz g st n \<longleftrightarrow> node_of st n = None \<or> (\<exists>r \<in> set (gh_chain g n). refuses win sz st r \<and> gh_rec g r \<noteq> {#})"

lemma alloc_specific_stuck:
  "phys_inv win g st \<Longrightarrow> mem_phys_alloc_specific win sz n st = None \<Longrightarrow> stuck_node win sz g st n"
  using alloc_specific_returns [of win g st sz n] by (fastforce simp: stuck_node_def passable_def)

lemma alloc_from_chunk:
  assumes inv: "heap_inv win g h st" and nd: "node_of st n \<noteq> None" and k: "4 \<le> k" "k < 12"
    and a: "mem_phys_alloc_specific_nolock win MEM_HEAP_CHUNK_SIZE n st = Some (b, st1)"
  shows "b = PHYS_NULL \<Longrightarrow> mem_allocate_new_slabs_chunk win n st = Some (False, st)"
    "b \<noteq> PHYS_NULL \<Longrightarrow> \<exists>st' p st2. mem_allocate_new_slabs_chunk win n st = Some (True, st') \<and>
      Option.bind (mem_heap_add_slab win n k st') (mem_allocate_from_slab win n k) = Some (p, st2) \<and> obtained win h st p k st2"
proof -
  obtain st' where st': "mem_allocate_new_slabs_chunk win n st = Some (b \<noteq> PHYS_NULL, st')"
    and post: "if b = PHYS_NULL then st' = st else same_nodes st st' \<and> (\<exists>g' h'. heap_inv win g' h' st' \<and> hg_slabs h' n \<noteq> [] \<and>
      heap_objs h' = heap_objs h \<and> (\<forall>y \<in> heap_objs h. \<forall>w \<in> cells y. ph_mem st' w = ph_mem st w))"
    using heap_new_chunk [OF inv nd a] by blast
  then show "b = PHYS_NULL \<Longrightarrow> mem_allocate_new_slabs_chunk win n st = Some (False, st)" by simp
  assume "b \<noteq> PHYS_NULL"
  then obtain g1 h1 where h1: "heap_inv win g1 h1 st'" "hg_slabs h1 n \<noteq> []" "heap_objs h1 = heap_objs h" "same_nodes st st'"
      "\<forall>y \<in> heap_objs h. \<forall>w \<in> cells y. ph_mem st' w = ph_mem st w"
    using post by auto
  have "node_of st' n \<noteq> None" using h1(4) nd by (simp add: same_nodes_def)
  then obtain p st2 where p: "Option.bind (mem_heap_add_slab win n k st') (mem_allocate_from_slab win n k) = Some (p, st2)"
      "obtained win h1 st' p k st2"
    using alloc_from_slabs [OF h1(1) _ k h1(2)] by blast
  have "obtained win h st p k st2" by (rule obtained_trans [OF p(2) h1(3,5)])
  then show "\<exists>st' p st2. mem_allocate_new_slabs_chunk win n st = Some (True, st') \<and>
      Option.bind (mem_heap_add_slab win n k st') (mem_allocate_from_slab win n k) = Some (p, st2) \<and> obtained win h st p k st2"
    using st' p(1) \<open>b \<noteq> PHYS_NULL\<close> by simp
qed

lemma heap_loop_spec:
  assumes inv: "heap_inv win g h st" and k: "4 \<le> k" "k < 12"
  shows "case heap_loop win k nb st of
      Some (p, st') \<Rightarrow> (p = 0 \<and> st' = st) \<or> obtained win h st p k st'
    | None \<Rightarrow> \<exists>n \<in> set nb. stuck_node win MEM_HEAP_CHUNK_SIZE g st n"
proof (induction nb)
  case (Cons n nb)
  show ?case
  proof (cases "node_of st n")
    case (Some nd)
    note L = lists_shown [OF inv Some k(2)]
    show ?thesis
    proof (cases "hg_free h n k = []")
      case False
      then show ?thesis using L alloc_from_list [OF inv _ k(2) False] Some k(2) by (auto simp: Let_def)
    next
      case free: True
      show ?thesis
      proof (cases "hg_slabs h n = []")
        case False
        then show ?thesis using L free alloc_from_slabs [OF inv _ k False] Some k(2) by (auto simp: Let_def)
      next
        case True
        then have step: "heap_loop win k (n # nb) st = do {
            (ok, st) \<leftarrow> mem_allocate_new_slabs_chunk win n st;
            if \<not> ok then heap_loop win k nb st
            else Option.bind (mem_heap_add_slab win n k st) (mem_allocate_from_slab win n k) }"
          using L free Some k(2) by (simp add: Let_def)
        show ?thesis
        proof (cases "mem_phys_alloc_specific_nolock win MEM_HEAP_CHUNK_SIZE n st")
          case None
          then have "stuck_node win MEM_HEAP_CHUNK_SIZE g st n"
            using alloc_specific_stuck heap_invD(1) [OF inv] by (simp add: mem_phys_alloc_specific_def)
          moreover have "heap_loop win k (n # nb) st = None" unfolding step using None by (simp add: mem_allocate_new_slabs_chunk_def)
          ultimately show ?thesis by simp
        next
          case (Some bs)
          then obtain b st1 where a: "mem_phys_alloc_specific_nolock win MEM_HEAP_CHUNK_SIZE n st = Some (b, st1)" by (cases bs) auto
          have nd: "node_of st n \<noteq> None" using \<open>node_of st n = Some nd\<close> by simp
          note C = alloc_from_chunk [OF inv nd k a]
          show ?thesis
          proof (cases "b = PHYS_NULL")
            case True
            then have "heap_loop win k (n # nb) st = heap_loop win k nb st" unfolding step using C(1) by simp
            then show ?thesis using Cons.IH by (auto split: option.splits)
          next
            case False
            then obtain p st2 where "heap_loop win k (n # nb) st = Some (p, st2)" "obtained win h st p k st2"
              unfolding step using C(2) by auto
            then show ?thesis by simp
          qed
        qed
      qed
    qed
  qed (simp add: stuck_node_def)
qed simp

subsection \<open>Sizes\<close>

lemma size_order_loop_spec:
  fixes sz :: nat
  assumes "test = 2 ^ result" "result < m" "m \<le> 64"
  defines "r \<equiv> size_order_loop sz m test result"
  shows "result \<le> r" "r \<le> m" "r < m \<Longrightarrow> sz \<le> 2 ^ r" "result < r \<Longrightarrow> 2 ^ (r - 1) < sz"
proof -
  have "result \<le> size_order_loop sz m test result \<and> size_order_loop sz m test result \<le> m \<and>
      (size_order_loop sz m test result < m \<longrightarrow> sz \<le> 2 ^ size_order_loop sz m test result) \<and>
      (result < size_order_loop sz m test result \<longrightarrow> 2 ^ (size_order_loop sz m test result - 1) < sz)"
    using assms(1-3)
  proof (induction sz m test result rule: size_order_loop.induct)
    case (1 sz m test result)
    show ?case
    proof (cases "sz > test")
      case gt: True
      show ?thesis
      proof (cases "Suc result = m")
        case True
        then have "size_order_loop sz m test result = m" using gt 1(3) by (subst size_order_loop.simps) simp
        then show ?thesis using gt 1(2) True by auto
      next
        case False
        have "(2::nat) ^ Suc result \<le> 2 ^ 63" using False 1(3,4) by (intro power_increasing) auto
        then have u: "u64 (test * 2) = 2 ^ Suc result" using 1(2) by (simp add: u64_small)
        have step: "size_order_loop sz m test result = size_order_loop sz m (u64 (test * 2)) (Suc result)"
          using gt False 1(3) by (subst size_order_loop.simps) simp
        have IH: "Suc result \<le> size_order_loop sz m (u64 (test * 2)) (Suc result) \<and> size_order_loop sz m (u64 (test * 2)) (Suc result) \<le> m \<and>
            (size_order_loop sz m (u64 (test * 2)) (Suc result) < m \<longrightarrow> sz \<le> 2 ^ size_order_loop sz m (u64 (test * 2)) (Suc result)) \<and>
            (Suc result < size_order_loop sz m (u64 (test * 2)) (Suc result) \<longrightarrow> 2 ^ (size_order_loop sz m (u64 (test * 2)) (Suc result) - 1) < sz)"
          using 1(1) [OF _ False u] gt False 1(3,4) by simp
        have "2 ^ (size_order_loop sz m (u64 (test * 2)) (Suc result) - 1) < sz"
          if "Suc result = size_order_loop sz m (u64 (test * 2)) (Suc result)"
          unfolding that [symmetric] using gt 1(2) by simp
        then show ?thesis unfolding step using IH by auto
      qed
    next
      case False
      then have "size_order_loop sz m test result = result" by (subst size_order_loop.simps) simp
      then show ?thesis using False 1(2-4) by simp
    qed
  qed
  then show "result \<le> r" "r \<le> m" "r < m \<Longrightarrow> sz \<le> 2 ^ r" "result < r \<Longrightarrow> 2 ^ (r - 1) < sz" unfolding r_def by blast+
qed

lemma size_order_spec:
  assumes "4 < m" "m \<le> 64"
  shows "4 \<le> mem_heap_get_size_order sz m" "mem_heap_get_size_order sz m \<le> m"
    "mem_heap_get_size_order sz m < m \<Longrightarrow> sz \<le> 2 ^ mem_heap_get_size_order sz m"
    "4 < mem_heap_get_size_order sz m \<Longrightarrow> 2 ^ (mem_heap_get_size_order sz m - 1) < sz"
proof -
  define z where "z = (if sz < 16 then 16 else sz)"
  have eq: "mem_heap_get_size_order sz m = size_order_loop z m 16 4" by (simp add: mem_heap_get_size_order_def z_def)
  note L = size_order_loop_spec [of 16 4 m z, folded eq] assms
  show "4 \<le> mem_heap_get_size_order sz m" "mem_heap_get_size_order sz m \<le> m" using L by simp_all
  have "sz \<le> z" by (simp add: z_def)
  then show "mem_heap_get_size_order sz m < m \<Longrightarrow> sz \<le> 2 ^ mem_heap_get_size_order sz m" using L(3) assms by simp
  have "size_order_loop 16 m 16 4 = 4" by (simp add: size_order_loop.simps [of 16])
  then show "2 ^ (mem_heap_get_size_order sz m - 1) < sz" if "4 < mem_heap_get_size_order sz m"
    using L(4) assms that eq by (cases "sz < 16") (simp_all add: z_def)
qed

text \<open>The order of a block is the same for the heap and for the physical allocator.\<close>

abbreviation obj_order :: "nat \<Rightarrow> nat" where
  "obj_order sz \<equiv> mem_heap_get_size_order sz 64"

lemma order_unique:
  fixes a b sz :: nat
  assumes "sz \<le> 2 ^ a" "a < b" "2 ^ (b - 1) < sz"
  shows False
proof -
  have "(2::nat) ^ a \<le> 2 ^ (b - 1)" using assms(2) by (intro power_increasing) auto
  then show False using assms(1,3) by linarith
qed

lemma heap_order: "mem_heap_get_size_order sz 12 = min 12 (obj_order sz)"
proof -
  let ?a = "mem_heap_get_size_order sz 12" and ?b = "obj_order sz"
  have m: "(4::nat) < 12" "(12::nat) \<le> 64" "(4::nat) < 64" "(64::nat) \<le> 64" by simp_all
  note a = size_order_spec [OF m(1,2), of sz] and b = size_order_spec [OF m(3,4), of sz]
  have 1: False if "?b < ?a" by (rule order_unique [OF b(3) that a(4)]) (use that a b in linarith)+
  have 2: False if "?a < ?b" "?a < 12" by (rule order_unique [OF a(3) that(1) b(4)]) (use that a b in linarith)+
  have "?a \<le> ?b" using 1 by (rule ccontr) simp
  moreover have "?a = ?b \<or> ?a = 12" using 2 a(2) \<open>?a \<le> ?b\<close> by (metis le_neq_implies_less)
  ultimately show ?thesis using a(2) by (auto simp: min_def)
qed

lemma phys_order: "mem_phys_slab_get_order sz = max 12 (obj_order sz)"
proof -
  let ?a = "mem_phys_slab_get_order sz" and ?b = "obj_order sz"
  have m: "(4::nat) < 64" "(64::nat) \<le> 64" by simp_all
  note a = get_order_spec [of sz] and b = size_order_spec [OF m, of sz]
  have 1: False if "?a < ?b" by (rule order_unique [OF a(3) that b(4)]) (use that a(1) b in linarith)+
  have 2: False if "?b < ?a" "12 < ?a" by (rule order_unique [OF b(3) that(1) a(4)]) (use that a(1,2) b in linarith)+
  have "?b \<le> ?a" using 1 by (rule ccontr) simp
  moreover have "?a = ?b \<or> ?a = 12" using 2 a(1) \<open>?b \<le> ?a\<close> by (metis le_neq_implies_less)
  ultimately show ?thesis using a(1) by (auto simp: max_def)
qed

definition obj_block :: "addr \<Rightarrow> addr \<times> nat \<Rightarrow> block" where
  "obj_block win o' = (fst o' - win, obj_order (snd o'))"

subsection \<open>Requests\<close>

lemma heap_alloc_spec:
  assumes inv: "heap_inv win g h st"
  defines "need sz \<equiv> if 12 \<le> obj_order sz then sz else MEM_HEAP_CHUNK_SIZE"
  shows "case mem_heap_alloc_on_behalf win sz node st of
      Some (p, st') \<Rightarrow> (p = 0 \<and> st' = st) \<or> (obtained win h st p (obj_order sz) st' \<and> sz \<le> 2 ^ obj_order sz)
    | None \<Rightarrow> neighbours_of st node = None \<or> (\<exists>nb n. neighbours_of st node = Some nb \<and> n \<in> set nb \<and> stuck_node win (need sz) g st n)"
proof (cases "12 \<le> obj_order sz")
  case big: True
  then have o: "mem_heap_get_size_order sz MEM_HEAP_SLAB_ORDERS = MEM_HEAP_SLAB_ORDERS" by (simp add: heap_order MEM_HEAP_SLAB_ORDERS_def)
  have p: "mem_phys_slab_get_order sz = obj_order sz" using big by (simp add: phys_order max_def)
  show ?thesis
  proof (cases "mem_phys_alloc_on_behalf win sz node st")
    case None
    then have "mem_heap_alloc_on_behalf win sz node st = None" using o by (simp add: mem_heap_alloc_on_behalf_def)
    then show ?thesis
      using None request_safe [OF heap_invD(1) [OF inv], of sz node] big
      by (auto simp: request_ok_def need_def stuck_node_def)
  next
    case (Some bs)
    then obtain b st' where a: "mem_phys_alloc_on_behalf win sz node st = Some (b, st')" by (cases bs) auto
    then have eq: "mem_heap_alloc_on_behalf win sz node st = Some (if b = PHYS_NULL then 0 else win + b, st')"
      using o by (simp add: mem_heap_alloc_on_behalf_def)
    consider "b = PHYS_NULL" "st' = st" | "granted win sz g st b st'"
      using alloc_on_behalf_safe [OF a heap_invD(1) [OF inv]] by blast
    then show ?thesis
    proof cases
      case 2
      note G = heap_granted [OF inv 2, unfolded p]
      obtain r g' where g': "heap_inv win g' (add_big r (b, obj_order sz) h) st'" using G(1) by blast
      have "(r, (b, obj_order sz)) \<in> hg_big (add_big r (b, obj_order sz) h)" by (simp add: add_big_def)
      from big_live [OF g' this] have live: "(b, obj_order sz) \<in># gh_live g' r" .
      have "b \<noteq> PHYS_NULL" using 2 by (simp add: granted_def)
      moreover have "(b, obj_order sz) \<notin> heap_objs h" using G(2) cells_nonempty [of "(b, obj_order sz)"] by blast
      moreover have "heap_objs (add_big r (b, obj_order sz) h) = insert (b, obj_order sz) (heap_objs h)"
        by (auto simp: heap_objs_def add_big_def)
      moreover have "0 < b" using block_small(1) [OF heap_invD(1) [OF g'] live] by simp
      moreover have "obj_order sz < 64" using phys_invD(6) [OF heap_invD(1) [OF g'] live] by simp
      ultimately show ?thesis using eq g' G(2) size_order_spec(3) [of 64 sz] by (auto simp: obtained_def)
    qed (use eq in simp)
  qed
next
  case False
  then have o: "mem_heap_get_size_order sz 12 = obj_order sz" "obj_order sz < 12" "4 \<le> obj_order sz"
    using size_order_spec(1) [of 64 sz] by (simp_all add: heap_order)
  then have fit: "sz \<le> 2 ^ obj_order sz" using size_order_spec(3) [of 64 sz] by simp
  have call: "mem_heap_alloc_on_behalf win sz node st = Option.bind (neighbours_of st node) (\<lambda>nb. heap_loop win (obj_order sz) nb st)"
    using o by (simp add: mem_heap_alloc_on_behalf_def MEM_HEAP_SLAB_ORDERS_def)
  show ?thesis
  proof (cases "neighbours_of st node")
    case (Some nb)
    then have eq: "mem_heap_alloc_on_behalf win sz node st = heap_loop win (obj_order sz) nb st" using call by simp
    show ?thesis
      using heap_loop_spec [OF inv o(3,2), of nb] fit Some False unfolding eq
      by (auto simp: need_def split: option.splits)
  qed (use call in simp)
qed

section \<open>Returns\<close>

lemma heap_change:
  assumes inv: "heap_inv win g h st" and x: "x \<in> heap_objs h" and eq: "\<And>w. w \<notin> cells x \<Longrightarrow> mem' w = ph_mem st w"
  shows "heap_inv win g h (st\<lparr>ph_mem := mem'\<rparr>) \<longleftrightarrow> slabs_inv win h (slab_data_of st) mem'"
proof -
  obtain r y where y: "y \<in># gh_live g r" "cells x \<subseteq> cells y" by (rule objs_in_live [OF inv x])
  have "phys_inv win g (st\<lparr>ph_mem := mem'\<rparr>)"
    using y(2) eq by (intro client_change [OF heap_invD(1) [OF inv] y(1)]) (auto simp: cells_def)
  moreover have "slab_data_of (st\<lparr>ph_mem := mem'\<rparr>) = slab_data_of st" by (simp add: slab_data_of_def fun_eq_iff)
  moreover have "in_window win (st\<lparr>ph_mem := mem'\<rparr>) = in_window win st" by (simp add: in_window_def regions_def)
  ultimately show ?thesis using inv by (simp add: heap_inv_def)
qed

text \<open>Owners may write into their objects.\<close>

lemma heap_client:
  assumes inv: "heap_inv win g h st" and x: "x \<in> heap_objs h" and eq: "\<And>w. w \<notin> cells x \<Longrightarrow> mem' w = ph_mem st w"
  shows "heap_inv win g h (st\<lparr>ph_mem := mem'\<rparr>)"
proof -
  note S = slabs_invD [OF heap_invD(3) [OF inv]]
  have hdr: "mem' (s + i) = ph_mem st (s + i)" if s: "s \<in> all_slabs h" and i: "i < 16" for s i
  proof (rule eq)
    have si: "s + i \<in> {s..<s + MEM_HEAP_SLAB_SIZE}" using i by (simp add: MEM_HEAP_SLAB_SIZE_def)
    show "s + i \<notin> cells x"
    proof (cases "x \<in> hg_live h")
      case True
      obtain n where n: "in_slab h n (snd x) (fst x)" "cells x \<subseteq> {slab_of (fst x)..<slab_of (fst x) + MEM_HEAP_SLAB_SIZE}"
        "slab_of (fst x) \<in> all_slabs h"
        using live_obj [OF inv True] by blast
      show ?thesis
      proof (cases "slab_of (fst x) = s")
        case False
        then show ?thesis using slabs_apart [OF S(1) [OF n(3)] S(1) [OF s]] si n(2) by (meson disjoint_iff subset_iff)
      qed (use n(1) i in \<open>auto simp: in_slab_def cells_def\<close>)
    next
      case False
      then obtain r where r: "(r, x) \<in> hg_big h" using x by (auto simp: heap_objs_def)
      obtain q z where "(q, z) \<in> hg_chunks h" "{s..<s + MEM_HEAP_SLAB_SIZE} \<subseteq> cells z" by (rule slab_in_chunk [OF inv s])
      then show ?thesis using chunk_big_disj [OF inv _ r] si by (meson disjoint_iff subset_iff)
    qed
  qed
  have fr: "mem' a = ph_mem st a" if a: "a \<in> set (hg_free h n k)" for a n k
  proof (rule eq, rule notI)
    assume w: "a \<in> cells x"
    have ia: "in_slab h n k a" "(a, k) \<notin> hg_live h" using S(7) [OF a] by blast+
    show False
    proof (cases "x \<in> hg_live h")
      case True
      obtain m where m: "in_slab h m (snd x) (fst x)" "snd x < 12" using live_obj [OF inv True] by blast
      have k: "k < 12" using S(5) ia(1) unfolding in_slab_def by blast
      have "a \<noteq> fst x" using True ia in_slab_unique [OF ia(1)] m(1) by (metis prod.collapse)
      then have "cells (a, k) \<inter> cells x = {}" using in_slab_disj [OF ia(1) m(1) k m(2)] blk_disj_cells [of "(a, k)" x] by simp
      then show False using w cells_nonempty [of "(a, k)"] by auto
    next
      case False
      then obtain r where r: "(r, x) \<in> hg_big h" using x by (auto simp: heap_objs_def)
      obtain q z where "(q, z) \<in> hg_chunks h" "{slab_of a..<slab_of a + MEM_HEAP_SLAB_SIZE} \<subseteq> cells z"
        by (rule slab_in_chunk [OF inv in_slab_slab [OF ia(1)]])
      then show False using chunk_big_disj [OF inv _ r] obj_word [of a] w by (meson disjoint_iff subset_iff)
    qed
  qed
  have "vchain mem' win 0 a (hg_free h n k) = vchain (ph_mem st) win 0 a (hg_free h n k)" for a n k
    by (rule vchain_cong) (simp add: fr)
  moreover have "vchain mem' win 8 a (hg_slabs h n) = vchain (ph_mem st) win 8 a (hg_slabs h n)" for a n
    by (rule vchain_cong) (simp add: hdr slabs_all)
  moreover have "mem' t = ph_mem st t" if "hg_ded h t = Some (n, k)" for t n k
    using hdr [of t 0] that by (auto simp: all_slabs_def)
  ultimately have "slabs_inv win h (slab_data_of st) mem'" using heap_invD(3) [OF inv] unfolding slabs_inv_def by simp
  then show ?thesis using heap_change [OF inv x eq] by blast
qed

text \<open>Returning a small and a large object.\<close>

definition returned :: "addr \<Rightarrow> heap_ghost \<Rightarrow> phys_state \<Rightarrow> block \<Rightarrow> phys_state \<Rightarrow> bool" where
  "returned win h st x st' \<longleftrightarrow> (\<exists>g' h'. heap_inv win g' h' st' \<and> heap_objs h' = heap_objs h - {x}) \<and>
     (\<forall>w. w \<notin> cells x \<longrightarrow> ph_mem st' w = ph_mem st w)"

lemma free_small:
  assumes inv: "heap_inv win g h st" and x: "(a, k) \<in> hg_live h"
  shows "\<exists>st'. push_obj win (ph_mem st (hdr_owner win (align_down (win + a) MEM_HEAP_SLAB_SIZE))) k (win + a) st = Some st' \<and>
    returned win h st (a, k) st'"
proof -
  note S = slabs_invD [OF heap_invD(3) [OF inv]]
  obtain n where n: "in_slab h n k a" "k < 12" "hg_ded h (slab_of a) = Some (n, k)"
    using live_obj [OF inv x] unfolding fst_conv snd_conv by metis
  have "slab_data_of st n \<noteq> None" "ph_mem st (slab_of a) = n" using S(5) [OF n(3)] by simp_all
  then obtain nd where nd: "node_of st n = Some nd" by (auto simp: slab_data_of_def)
  have "align_down (win + a) MEM_HEAP_SLAB_SIZE = win + slab_of a"
    using heap_invD(4) [OF inv] by (auto simp: slab_of_def align_down_def MEM_HEAP_SLAB_SIZE_def elim!: dvdE)
  then have o: "ph_mem st (hdr_owner win (align_down (win + a) MEM_HEAP_SLAB_SIZE)) = n"
    using \<open>ph_mem st (slab_of a) = n\<close> by (simp add: hdr_owner_def)
  have "a \<notin> set (hg_free h n k)" using S(7) [of a n k] x by blast
  then obtain st' where st': "push_obj win n k (win + a) st = Some st'" "\<forall>w. w \<noteq> a \<longrightarrow> ph_mem st' w = ph_mem st w"
      "heap_inv win g ((set_free n k (a # hg_free h n k) h)\<lparr>hg_live := hg_live h - {(a, k)}\<rparr>) st'"
    using heap_push [OF inv nd n(2,1)] by blast
  have "(a, k) \<notin> snd ` hg_big h" using big_order [OF inv, of _ "(a, k)"] n(2) by auto
  then have "heap_objs ((set_free n k (a # hg_free h n k) h)\<lparr>hg_live := hg_live h - {(a, k)}\<rparr>) = heap_objs h - {(a, k)}"
    by (auto simp: heap_objs_def)
  moreover have "w \<noteq> a" if "w \<notin> cells (a, k)" for w using that cells_nonempty [of "(a, k)"] by auto
  ultimately show ?thesis using st' o by (auto simp: returned_def)
qed

lemma free_big:
  assumes inv: "heap_inv win g h st" and x: "(r, x) \<in> hg_big h"
  shows "case mem_phys_free win (fst x) st of Some st' \<Rightarrow> returned win h st x st'
    | None \<Rightarrow> \<exists>rg. ph_ranges st r = Some rg \<and> rg_next rg = 1 \<and> rg_drop rg \<noteq> 0"
proof (cases "mem_phys_free win (fst x) st")
  case None
  then show ?thesis using free_step [OF heap_invD(1) [OF inv] heap_invD(9) [OF inv x]] by auto
next
  case (Some st')
  note I = heap_invD [OF inv]
  let ?g = "del_block g r x" and ?h = "h\<lparr>hg_big := hg_big h - {(r, x)}\<rparr>"
  have f: "same_shape st st'" "phys_inv win ?g st'" "\<forall>w. w \<noteq> fst x \<longrightarrow> ph_mem st' w = ph_mem st w"
    using free_step [OF I(1) I(9) [OF x]] Some by auto
  have "ph_mem st' w = ph_mem st w" if s: "s \<in> all_slabs h" "w \<in> {s..<s + MEM_HEAP_SLAB_SIZE}" for s w
  proof -
    obtain q z where "(q, z) \<in> hg_chunks h" "{s..<s + MEM_HEAP_SLAB_SIZE} \<subseteq> cells z" by (rule slab_in_chunk [OF inv s(1)])
    then have "w \<noteq> fst x" using chunk_big_disj [OF inv _ x] cells_nonempty [of x] s(2) by (meson disjoint_iff subset_iff)
    then show ?thesis using f(3) by blast
  qed
  moreover have "slab_data_of st' = slab_data_of st" using same_shape_node [OF f(1)] by (simp add: slab_data_of_def fun_eq_iff)
  ultimately have sl: "slabs_inv win h (slab_data_of st') (ph_mem st')" using slabs_inv_frame [OF I(3)] by simp
  have rc: "z \<in># gh_rec ?g q" if "z \<in># gh_rec g q" "(q, z) \<noteq> (r, x)" for q z
    using that by (auto simp: del_block_def in_diff_count)
  have "\<forall>(q, z) \<in> hg_chunks h \<union> (hg_big h - {(r, x)}). z \<in># gh_rec ?g q" using rc I(7-9) x by blast
  moreover have "in_window win st'" "ph_info st' \<noteq> None" using f(1) I(2,6) by (simp_all add: in_window_def same_shape_def)
  ultimately have hi: "heap_inv win ?g ?h st'" using f(2) sl inv unfolding heap_inv_def by auto
  have only: "q = r" if "(q, x) \<in> hg_big h" for q
    using live_disj [OF I(1) big_live [OF inv that] big_live [OF inv x]] blk_disj_cells [of x x] cells_nonempty [of x] by auto
  moreover have "x \<notin> hg_live h"
  proof
    assume "x \<in> hg_live h"
    from live_obj [OF inv this] have "snd x < 12" by blast
    then show False using big_order [OF inv x] by simp
  qed
  moreover have "snd ` (hg_big h - {(r, x)}) = snd ` hg_big h - {x}"
  proof (intro set_eqI iffI)
    fix y assume "y \<in> snd ` (hg_big h - {(r, x)})"
    then obtain z where z: "z \<in> hg_big h" "z \<noteq> (r, x)" "y = snd z" by blast
    then obtain q where "(q, y) \<in> hg_big h" "(q, y) \<noteq> (r, x)" by (cases z) simp
    then show "y \<in> snd ` hg_big h - {x}" using only [of q] by (cases "y = x") (auto simp: rev_image_eqI)
  qed force
  ultimately have "heap_objs ?h = heap_objs h - {x}" by (auto simp: heap_objs_def)
  moreover have "w \<noteq> fst x" if "w \<notin> cells x" for w using that cells_nonempty [of x] by auto
  ultimately have "returned win h st x st'" using hi f(3) unfolding returned_def by blast
  then show ?thesis using Some by simp
qed

lemma obj_below:
  assumes inv: "heap_inv win g h st" and x: "x \<in> heap_objs h"
  shows "0 < fst x" "fst x + 2 ^ snd x \<le> 2 ^ 52" "win + fst x + 2 ^ snd x < 2 ^ 64"
proof -
  obtain r y where y: "y \<in># gh_live g r" "cells x \<subseteq> cells y" by (rule objs_in_live [OF inv x])
  have le: "fst y \<le> fst x" "fst x + 2 ^ snd x \<le> fst y + 2 ^ snd y" using y(2) by (simp_all add: cells_def ivl_subset)
  obtain rg where rg: "ph_ranges st r = Some rg" using phys_invD(5) [OF heap_invD(1) [OF inv] y(1)] by blast
  have "win + sl_base (rg_slab rg) + sl_length (rg_slab rg) < 2 ^ 64"
    using heap_invD(6) [OF inv] rg by (auto simp: in_window_def regions_def)
  moreover have "fst y + 2 ^ snd y \<le> sl_base (rg_slab rg) + sl_length (rg_slab rg)"
    using slab_inv_live [OF phys_invD(2) [OF heap_invD(1) [OF inv] rg]] y(1) by (auto simp: blocks_in_def)
  ultimately show "0 < fst x" "fst x + 2 ^ snd x \<le> 2 ^ 52" "win + fst x + 2 ^ snd x < 2 ^ 64"
    using block_small [OF heap_invD(1) [OF inv] y(1)] le by linarith+
qed

lemma heap_free_spec:
  assumes inv: "heap_inv win g h st" and p: "win < p" "obj_block win (p, sz) \<in> heap_objs h"
  shows "case mem_heap_free win p sz st of Some st' \<Rightarrow> returned win h st (obj_block win (p, sz)) st'
    | None \<Rightarrow> 12 \<le> obj_order sz \<and> (\<exists>r rg. ph_ranges st r = Some rg \<and> rg_next rg = 1 \<and> rg_drop rg \<noteq> 0)"
proof -
  let ?a = "p - win" and ?k = "obj_order sz"
  have x: "obj_block win (p, sz) = (?a, ?k)" by (simp add: obj_block_def)
  consider "(?a, ?k) \<in> hg_live h" | r where "(r, (?a, ?k)) \<in> hg_big h" using p(2) unfolding x by (auto simp: heap_objs_def)
  then show ?thesis
  proof cases
    case 1
    from live_obj [OF inv 1] have "?k < 12" by auto
    then have "mem_heap_get_size_order sz MEM_HEAP_SLAB_ORDERS = ?k" "?k \<noteq> MEM_HEAP_SLAB_ORDERS"
      by (simp_all add: MEM_HEAP_SLAB_ORDERS_def heap_order)
    then show ?thesis using free_small [OF inv 1] p(1) unfolding x by (auto simp: mem_heap_free_def Let_def)
  next
    case 2
    have k: "12 \<le> ?k" using big_order [OF inv 2] by simp
    then have "mem_heap_get_size_order sz MEM_HEAP_SLAB_ORDERS = MEM_HEAP_SLAB_ORDERS" by (simp add: MEM_HEAP_SLAB_ORDERS_def heap_order)
    moreover have "?a + 2 ^ ?k \<le> 2 ^ 52" using block_small(2) [OF heap_invD(1) [OF inv] big_live [OF inv 2]] by simp
    moreover have "p < 2 ^ 64" using obj_below [OF inv p(2)] p(1) by (simp add: x)
    ultimately have "mem_heap_free win p sz st = mem_phys_free win ?a st"
      using p(1) sub64_le [of win p] by (simp add: mem_heap_free_def Let_def)
    then show ?thesis using free_big [OF inv 2] k unfolding x by (auto split: option.splits)
  qed
qed

section \<open>Histories\<close>

text \<open>The objects a client holds after a reallocation.\<close>

definition after_realloc :: "(addr \<times> nat) set \<Rightarrow> addr \<times> nat \<Rightarrow> nat \<Rightarrow> addr \<Rightarrow> (addr \<times> nat) set" where
  "after_realloc objs x newsize q = (if newsize \<noteq> 0 \<and> q = 0 then objs
     else (objs - {x}) \<union> (if newsize = 0 then {} else {(q, newsize)}))"

text \<open>
  The objects a client holds, with the sizes it asked for: requests, refused requests, returns, reallocations,
  and writes into the objects.
\<close>

inductive heap_run :: "addr \<Rightarrow> phys_state \<Rightarrow> (addr \<times> nat) set \<Rightarrow> phys_state \<Rightarrow> bool" for win st0 where
  start: "heap_run win st0 {} st0"
| alloc: "heap_run win st0 objs st \<Longrightarrow> mem_heap_alloc_on_behalf win sz node st = Some (p, st') \<Longrightarrow>
    heap_run win st0 (if p = 0 then objs else insert (p, sz) objs) st'"
| free: "heap_run win st0 objs st \<Longrightarrow> (p, sz) \<in> objs \<Longrightarrow> mem_heap_free win p sz st = Some st' \<Longrightarrow>
    heap_run win st0 (objs - {(p, sz)}) st'"
| realloc: "heap_run win st0 objs st \<Longrightarrow> (p, sz) \<in> objs \<Longrightarrow> mem_heap_realloc win numa_id p newsize sz st = Some (q, st') \<Longrightarrow>
    heap_run win st0 (after_realloc objs (p, sz) newsize q) st'"
| client: "heap_run win st0 objs st \<Longrightarrow> (p, sz) \<in> objs \<Longrightarrow> i < sz \<Longrightarrow> heap_run win st0 objs (put_mem (p - win + i) v st)"

definition run_inv :: "addr \<Rightarrow> (addr \<times> nat) set \<Rightarrow> phys_state \<Rightarrow> bool" where
  "run_inv win objs st \<longleftrightarrow> (\<exists>g h. heap_inv win g h st \<and> inj_on (obj_block win) objs \<and>
     (\<forall>x \<in> objs. win < fst x \<and> snd x \<le> 2 ^ obj_order (snd x) \<and> obj_block win x \<in> heap_objs h))"

lemma run_invE:
  assumes "run_inv win objs st"
  obtains g h where "heap_inv win g h st" "inj_on (obj_block win) objs"
    "\<And>p sz. (p, sz) \<in> objs \<Longrightarrow> win < p \<and> sz \<le> 2 ^ obj_order sz \<and> obj_block win (p, sz) \<in> heap_objs h"
  using assms unfolding run_inv_def by (metis fst_conv snd_conv)

lemma run_invI:
  assumes "heap_inv win g h st" "inj_on (obj_block win) objs"
    "\<And>p sz. (p, sz) \<in> objs \<Longrightarrow> win < p \<and> sz \<le> 2 ^ obj_order sz \<and> obj_block win (p, sz) \<in> heap_objs h"
  shows "run_inv win objs st"
  unfolding run_inv_def using assms by (metis prod.collapse)

text \<open>The contents of an object.\<close>

definition obj_cells :: "addr \<Rightarrow> addr \<times> nat \<Rightarrow> nat set" where
  "obj_cells win x = {fst x - win..<fst x - win + snd x}"

lemma obj_cells_block: "snd x \<le> 2 ^ obj_order (snd x) \<Longrightarrow> obj_cells win x \<subseteq> cells (obj_block win x)"
  by (auto simp: obj_cells_def cells_def obj_block_def)

lemma run_alloc:
  assumes run: "run_inv win objs st" and a: "mem_heap_alloc_on_behalf win sz node st = Some (p, st')"
  shows "(p = 0 \<and> st' = st) \<or> (run_inv win (insert (p, sz) objs) st' \<and> (p, sz) \<notin> objs \<and>
    (\<forall>x \<in> objs. \<forall>w \<in> cells (obj_block win x). ph_mem st' w = ph_mem st w))"
proof -
  obtain g h where inv: "heap_inv win g h st" and inj: "inj_on (obj_block win) objs"
    and o: "\<And>p sz. (p, sz) \<in> objs \<Longrightarrow> win < p \<and> sz \<le> 2 ^ obj_order sz \<and> obj_block win (p, sz) \<in> heap_objs h"
    by (rule run_invE [OF run]) blast
  consider "p = 0" "st' = st" | "obtained win h st p (obj_order sz) st'" "sz \<le> 2 ^ obj_order sz"
    using heap_alloc_spec [OF inv, of node sz] a by auto
  then show ?thesis
  proof cases
    case 2
    let ?x = "obj_block win (p, sz)"
    obtain g' h' where h': "heap_inv win g' h' st'" "?x \<notin> heap_objs h" "heap_objs h' = insert ?x (heap_objs h)" and p: "win < p"
      and kp: "\<forall>y \<in> heap_objs h. \<forall>w \<in> cells y. ph_mem st' w = ph_mem st w"
      using 2(1) by (auto simp: obtained_def obj_block_def)
    have o': "obj_block win x \<in> heap_objs h" if "x \<in> objs" for x using o [of "fst x" "snd x"] that by simp
    then have "?x \<notin> obj_block win ` objs" using h'(2) by (metis imageE)
    then have new: "(p, sz) \<notin> objs" and "inj_on (obj_block win) (insert (p, sz) objs)" using inj by auto
    then have "run_inv win (insert (p, sz) objs) st'" using o h'(1,3) p 2(2) by (intro run_invI) auto
    then show ?thesis using new kp o' by blast
  qed simp
qed

lemma run_free:
  assumes run: "run_inv win objs st" and x: "(p, sz) \<in> objs" and a: "mem_heap_free win p sz st = Some st'"
  shows "run_inv win (objs - {(p, sz)}) st'" "\<And>w. w \<notin> cells (obj_block win (p, sz)) \<Longrightarrow> ph_mem st' w = ph_mem st w"
proof -
  obtain g h where inv: "heap_inv win g h st" and inj: "inj_on (obj_block win) objs"
    and o: "\<And>p sz. (p, sz) \<in> objs \<Longrightarrow> win < p \<and> sz \<le> 2 ^ obj_order sz \<and> obj_block win (p, sz) \<in> heap_objs h"
    by (rule run_invE [OF run]) blast
  have r: "returned win h st (obj_block win (p, sz)) st'" using heap_free_spec [OF inv, of p sz] o [OF x] a by simp
  then show "\<And>w. w \<notin> cells (obj_block win (p, sz)) \<Longrightarrow> ph_mem st' w = ph_mem st w" by (simp add: returned_def)
  obtain g' h' where h': "heap_inv win g' h' st'" "heap_objs h' = heap_objs h - {obj_block win (p, sz)}"
    using r by (auto simp: returned_def)
  have "obj_block win y \<noteq> obj_block win (p, sz)" if "y \<in> objs" "y \<noteq> (p, sz)" for y using inj_onD [OF inj _ that(1) x] that(2) by blast
  then show "run_inv win (objs - {(p, sz)}) st'" using o h' inj by (intro run_invI) (auto intro: inj_on_diff)
qed

text \<open>Blocks of different objects do not meet.\<close>

lemma run_disj:
  assumes run: "run_inv win objs st" and x: "x \<in> objs" "y \<in> objs" "x \<noteq> y"
  shows "cells (obj_block win x) \<inter> cells (obj_block win y) = {}" "obj_cells win x \<inter> obj_cells win y = {}"
proof -
  obtain g h where inv: "heap_inv win g h st" and inj: "inj_on (obj_block win) objs"
    and o: "\<And>p sz. (p, sz) \<in> objs \<Longrightarrow> win < p \<and> sz \<le> 2 ^ obj_order sz \<and> obj_block win (p, sz) \<in> heap_objs h"
    by (rule run_invE [OF run]) blast
  have xy: "obj_block win x \<in> heap_objs h" "obj_block win y \<in> heap_objs h" using o [of "fst x" "snd x"] o [of "fst y" "snd y"] x by simp_all
  have "obj_block win x \<noteq> obj_block win y" using inj_onD [OF inj] x by blast
  then show d: "cells (obj_block win x) \<inter> cells (obj_block win y) = {}" by (rule objs_disj [OF inv xy])
  show "obj_cells win x \<inter> obj_cells win y = {}"
    using d obj_cells_block [of x win] obj_cells_block [of y win] o [of "fst x" "snd x"] o [of "fst y" "snd y"] x
    by simp (meson disjoint_iff subset_iff)
qed

lemma run_change:
  assumes run: "run_inv win objs st" and x: "x \<in> objs" and eq: "\<And>w. w \<notin> obj_cells win x \<Longrightarrow> mem' w = ph_mem st w"
  shows "run_inv win objs (st\<lparr>ph_mem := mem'\<rparr>)"
proof -
  obtain g h where inv: "heap_inv win g h st" and inj: "inj_on (obj_block win) objs"
    and o: "\<And>p sz. (p, sz) \<in> objs \<Longrightarrow> win < p \<and> sz \<le> 2 ^ obj_order sz \<and> obj_block win (p, sz) \<in> heap_objs h"
    by (rule run_invE [OF run]) blast
  have "mem' w = ph_mem st w" if "w \<notin> cells (obj_block win x)" for w
    using eq obj_cells_block [of x win] o [of "fst x" "snd x"] x that by auto
  then have "heap_inv win g h (st\<lparr>ph_mem := mem'\<rparr>)" using o [of "fst x" "snd x"] x by (intro heap_client [OF inv]) auto
  then show ?thesis using inj o by (rule run_invI)
qed

lemma run_alloc_pos: "run_inv win (insert (p, sz) objs) st \<Longrightarrow> 0 < p"
  by (auto simp: run_inv_def)

subsection \<open>Reallocation\<close>

text \<open>What reallocation promises: the common part of the contents moves, other objects keep theirs, and a
  failure changes nothing.\<close>

definition moved :: "addr \<Rightarrow> (addr \<times> nat) set \<Rightarrow> addr \<times> nat \<Rightarrow> nat \<Rightarrow> phys_state \<Rightarrow> addr \<Rightarrow> phys_state \<Rightarrow> bool" where
  "moved win objs x newsize st q st' \<longleftrightarrow>
     (newsize \<noteq> 0 \<longrightarrow> q = 0 \<longrightarrow> st' = st) \<and>
     (newsize \<noteq> 0 \<longrightarrow> q \<noteq> 0 \<longrightarrow> (q, newsize) \<notin> objs - {x} \<and> (\<forall>i < min (snd x) newsize. ph_mem st' (q - win + i) = ph_mem st (fst x - win + i))) \<and>
     (\<forall>y \<in> objs - {x}. \<forall>w \<in> obj_cells win y. ph_mem st' w = ph_mem st w)"

lemma realloc_in_place:
  assumes run: "run_inv win objs st" and x: "(p, sz) \<in> objs" and o: "obj_order newsize = obj_order sz"
  shows "run_inv win ((objs - {(p, sz)}) \<union> {(p, newsize)}) st" "(p, newsize) \<notin> objs - {(p, sz)}"
proof -
  obtain g h where inv: "heap_inv win g h st" and inj: "inj_on (obj_block win) objs"
    and ob: "\<And>p sz. (p, sz) \<in> objs \<Longrightarrow> win < p \<and> sz \<le> 2 ^ obj_order sz \<and> obj_block win (p, sz) \<in> heap_objs h"
    by (rule run_invE [OF run]) blast
  have same: "obj_block win (p, newsize) = obj_block win (p, sz)" using o by (simp add: obj_block_def)
  have "(2::nat) ^ obj_order sz \<le> 2 ^ 52" using obj_below(2) [OF inv] ob [OF x] by (fastforce simp: obj_block_def)
  then have "obj_order sz \<le> 52" by (rule power_le_imp_le_exp [rotated]) simp
  then have fit: "newsize \<le> 2 ^ obj_order newsize" using size_order_spec(3) [of 64 newsize] o by simp
  have new: "obj_block win (p, newsize) \<notin> obj_block win ` (objs - {(p, sz)})" using inj x same by (auto simp: inj_on_def)
  then show "(p, newsize) \<notin> objs - {(p, sz)}" by blast
  from new have "inj_on (obj_block win) ((objs - {(p, sz)}) \<union> {(p, newsize)})" using inj by (auto intro: inj_on_diff)
  then show "run_inv win ((objs - {(p, sz)}) \<union> {(p, newsize)}) st" using ob x same fit by (intro run_invI [OF inv]) auto
qed

lemma realloc_copy:
  assumes run: "run_inv win objs st" and x: "(p, sz) \<in> objs"
    and a: "mem_heap_alloc_on_behalf win newsize node st = Some (q, st1)" and q: "q \<noteq> 0"
    and f: "mem_heap_free win p sz (mem_copy (q - win) (p - win) (min sz newsize) st1) = Some st'"
  shows "run_inv win ((objs - {(p, sz)}) \<union> {(q, newsize)}) st'" "moved win objs (p, sz) newsize st q st'"
proof -
  let ?x = "(p, sz)" and ?y = "(q, newsize)" and ?m = "min sz newsize"
  let ?st2 = "mem_copy (q - win) (p - win) ?m st1"
  have r1: "run_inv win (insert ?y objs) st1" and new: "?y \<notin> objs"
    and kp: "\<forall>z \<in> objs. \<forall>w \<in> cells (obj_block win z). ph_mem st1 w = ph_mem st w"
    using run_alloc [OF run a] q by auto
  have c: "ph_mem ?st2 w = (if w \<in> {q - win..<q - win + ?m} then ph_mem st1 (p - win + (w - (q - win))) else ph_mem st1 w)" for w
    by (auto simp: mem_copy_def)
  have "ph_mem ?st2 w = ph_mem st1 w" if "w \<notin> obj_cells win ?y" for w using that by (auto simp: c obj_cells_def)
  then have r2: "run_inv win (insert ?y objs) ?st2"
    using run_change [OF r1, of ?y "ph_mem ?st2"] by (simp add: mem_copy_def)
  have x': "?x \<in> insert ?y objs" "?x \<noteq> ?y" using x new by auto
  note F = run_free [OF r2 x'(1) f]
  have "insert ?y objs - {?x} = (objs - {?x}) \<union> {?y}" using x' new by auto
  then show "run_inv win ((objs - {?x}) \<union> {?y}) st'" using F(1) by simp
  have sub: "obj_cells win z \<subseteq> cells (obj_block win z)" if "z \<in> insert ?y objs" for z
  proof -
    have "snd z \<le> 2 ^ obj_order (snd z)" using r1 that unfolding run_inv_def by blast
    then show ?thesis by (rule obj_cells_block)
  qed
  have kept: "ph_mem st' w = ph_mem ?st2 w" if z: "z \<in> insert ?y objs" "z \<noteq> ?x" and w: "w \<in> obj_cells win z" for z w
    using F(2) run_disj(1) [OF r1 z(1) x'(1) z(2)] sub [OF z(1)] w by blast
  have "ph_mem st' (q - win + i) = ph_mem st (p - win + i)" if i: "i < ?m" for i
  proof -
    have "ph_mem st' (q - win + i) = ph_mem ?st2 (q - win + i)"
      by (rule kept [of ?y]) (use i x'(2) in \<open>auto simp: obj_cells_def\<close>)
    also have "\<dots> = ph_mem st1 (p - win + i)" using i by (simp add: c)
    also have "\<dots> = ph_mem st (p - win + i)"
    proof -
      have "p - win + i \<in> obj_cells win ?x" using i by (simp add: obj_cells_def)
      then show ?thesis using kp x sub [OF x'(1)] by blast
    qed
    finally show ?thesis .
  qed
  moreover have "ph_mem st' w = ph_mem st w" if z: "z \<in> objs - {?x}" and w: "w \<in> obj_cells win z" for z w
  proof -
    have zy: "z \<noteq> ?y" using z new by auto
    have "ph_mem st' w = ph_mem ?st2 w" using kept [of z w] z w by blast
    also have "\<dots> = ph_mem st1 w"
      using run_disj(2) [OF r1, of z ?y] z w zy by (auto simp: c obj_cells_def)
    also have "\<dots> = ph_mem st w" using kp z w sub [of z] by blast
    finally show ?thesis .
  qed
  ultimately show "moved win objs ?x newsize st q st'" using q new by (simp add: moved_def)
qed

lemma run_realloc:
  assumes run: "run_inv win objs st" and x: "(p, sz) \<in> objs"
    and a: "mem_heap_realloc win numa_id p newsize sz st = Some (q, st')"
  shows "run_inv win (after_realloc objs (p, sz) newsize q) st' \<and> moved win objs (p, sz) newsize st q st'"
proof -
  have p: "0 < p" using run x by (auto simp: run_inv_def)
  consider "newsize = 0" | "newsize \<noteq> 0" "obj_order sz = obj_order newsize" | "newsize \<noteq> 0" "obj_order sz \<noteq> obj_order newsize" by blast
  then show ?thesis
  proof cases
    case 1
    then have f: "mem_heap_free win p sz st = Some st'" "q = 0"
      using a p by (auto simp: mem_heap_realloc_def bind_eq_Some_conv)
    note F = run_free [OF run x f(1)]
    have sub: "obj_cells win z \<subseteq> cells (obj_block win z)" if "z \<in> objs" for z
      using run that obj_cells_block [of z win] unfolding run_inv_def by blast
    have "ph_mem st' w = ph_mem st w" if "y \<in> objs - {(p, sz)}" "w \<in> obj_cells win y" for y w
      using F(2) [of w] run_disj(1) [OF run, of y "(p, sz)"] sub [of y] x that by blast
    then show ?thesis using F(1) 1 by (simp add: after_realloc_def moved_def)
  next
    case 2
    then have "q = p" "st' = st" using a p by (auto simp: mem_heap_realloc_def)
    then show ?thesis using realloc_in_place [OF run x] 2 p by (simp add: after_realloc_def moved_def)
  next
    case 3
    obtain r st1 where al: "mem_heap_alloc_on_behalf win newsize numa_id st = Some (r, st1)"
      and rest: "(if r = 0 then Some (0, st1)
        else let st = mem_copy (r - win) (p - win) (if sz < newsize then sz else newsize) st1 in
          Option.bind (mem_heap_free win p sz st) (\<lambda>st. Some (r, st))) = Some (q, st')"
      using a 3 p by (auto simp: mem_heap_realloc_def mem_heap_alloc_def bind_eq_Some_conv)
    show ?thesis
    proof (cases "r = 0")
      case True
      then have "q = 0" "st' = st" using rest run_alloc [OF run al] by (auto dest: run_alloc_pos)
      then show ?thesis using run 3 by (simp add: after_realloc_def moved_def)
    next
      case False
      have m: "(if sz < newsize then sz else newsize) = min sz newsize" by (simp add: min_def)
      have "q = r" "mem_heap_free win p sz (mem_copy (r - win) (p - win) (min sz newsize) st1) = Some st'"
        using rest False unfolding m by (auto simp: bind_eq_Some_conv Let_def)
      then show ?thesis using realloc_copy [OF run x al False] 3 False by (simp add: after_realloc_def)
    qed
  qed
qed

section \<open>Properties\<close>

text \<open>The heap before its first use.\<close>

definition heap_ready :: "addr \<Rightarrow> phys_state \<Rightarrow> bool" where
  "heap_ready win st \<longleftrightarrow> (\<exists>g. phys_inv win g st) \<and> ph_info st \<noteq> None \<and> in_window win st \<and>
     (\<forall>n nd. node_of st n = Some nd \<longrightarrow> nn_slab_data nd = MEM_HEAP_SLAB_DATA_INIT)"

lemma heap_ready_inv:
  assumes "heap_ready win st"
  shows "run_inv win {} st"
proof -
  let ?h = "\<lparr>hg_slabs = (\<lambda>_. []), hg_ded = Map.empty, hg_free = (\<lambda>_ _. []), hg_live = {}, hg_chunks = {}, hg_big = {}\<rparr>"
  have "slabs_inv win ?h (slab_data_of st) (ph_mem st)"
    using assms by (auto simp: slabs_inv_def heap_ready_def slab_data_of_def all_slabs_def MEM_HEAP_SLAB_DATA_INIT_def MEM_HEAP_SLAB_ORDERS_def)
  moreover obtain g where "phys_inv win g st" using assms by (auto simp: heap_ready_def)
  ultimately have "heap_inv win g ?h st" using assms by (simp add: heap_inv_def heap_ready_def all_slabs_def)
  then show ?thesis by (rule run_invI) simp_all
qed

lemma heap_run_inv: "heap_run win st0 objs st \<Longrightarrow> heap_ready win st0 \<Longrightarrow> run_inv win objs st"
proof (induction rule: heap_run.induct)
  case (alloc objs st sz node p st')
  then show ?case using run_alloc [of win objs st sz node p st'] by (auto dest: run_alloc_pos)
next
  case (client objs st p sz i v)
  have "((ph_mem st)(p - win + i := v)) w = ph_mem st w" if "w \<notin> obj_cells win (p, sz)" for w
    using client.hyps that by (auto simp: obj_cells_def)
  from run_change [OF client.IH [OF client.prems] client.hyps(2) this] show ?case unfolding put_mem_def .
qed (auto intro: heap_ready_inv run_free(1) dest: run_realloc)

definition span_of :: "addr \<times> nat \<Rightarrow> nat set" where
  "span_of x = {fst x..<fst x + snd x}"

lemma span_disj:
  assumes "win < fst x" "win < fst y" "obj_cells win x \<inter> obj_cells win y = {}"
  shows "span_of x \<inter> span_of y = {}"
proof (rule ccontr)
  assume "span_of x \<inter> span_of y \<noteq> {}"
  then obtain w where "w \<in> span_of x" "w \<in> span_of y" by blast
  then have "w - win \<in> obj_cells win x \<inter> obj_cells win y" using assms(1,2) by (auto simp: span_of_def obj_cells_def)
  then show False using assms(3) by blast
qed

lemma run_spans:
  assumes run: "run_inv win objs st"
  shows "x \<in> objs \<Longrightarrow> win < fst x \<and> fst x + snd x \<le> win + 2 ^ 52 \<and> fst x + snd x < 2 ^ 64"
    "x \<in> objs \<Longrightarrow> y \<in> objs \<Longrightarrow> x \<noteq> y \<Longrightarrow> span_of x \<inter> span_of y = {}"
proof -
  obtain g h where inv: "heap_inv win g h st"
    and o: "\<And>p sz. (p, sz) \<in> objs \<Longrightarrow> win < p \<and> sz \<le> 2 ^ obj_order sz \<and> obj_block win (p, sz) \<in> heap_objs h"
    by (rule run_invE [OF run]) blast
  note o' = o [of "fst x" "snd x" for x, simplified]
  show "win < fst x \<and> fst x + snd x \<le> win + 2 ^ 52 \<and> fst x + snd x < 2 ^ 64" if "x \<in> objs"
    using obj_below(2,3) [OF inv, of "obj_block win x"] o' [OF that] by (auto simp: obj_block_def)
  show "span_of x \<inter> span_of y = {}" if "x \<in> objs" "y \<in> objs" "x \<noteq> y"
    using span_disj run_disj(2) [OF run that] o' [OF that(1)] o' [OF that(2)] by blast
qed

text \<open>C21: the heap is safe. Whatever requests, returns, reallocations and writes of their owners happened since the physical
  allocator was initialised: the objects in use lie in the window onto physical memory and are disjoint;
  a request that returns gives nothing and changes nothing, or an object of the requested size that is
  disjoint from all objects in use and leaves their contents alone; it fails to return only when the node
  has no neighbours, or a neighbour does not exist or has a range with blocks in use that refuses the memory; and returning an object
  fails only for large objects, through the word that the physical allocator takes for a destructor.\<close>

theorem heap_alloc_safe:
  assumes ready: "heap_ready win st0" and run: "heap_run win st0 objs st"
  shows "(\<forall>x \<in> objs. win < fst x \<and> fst x + snd x \<le> win + 2 ^ 52 \<and> fst x + snd x < 2 ^ 64) \<and>
    (\<forall>x \<in> objs. \<forall>y \<in> objs. x \<noteq> y \<longrightarrow> span_of x \<inter> span_of y = {}) \<and>
    (\<forall>sz node p st'. mem_heap_alloc_on_behalf win sz node st = Some (p, st') \<longrightarrow> (p = 0 \<and> st' = st) \<or>
       (win < p \<and> p + sz < 2 ^ 64 \<and> (\<forall>x \<in> objs. span_of (p, sz) \<inter> span_of x = {} \<and>
          (\<forall>w \<in> obj_cells win x. ph_mem st' w = ph_mem st w)))) \<and>
    (\<exists>g. phys_inv win g st \<and> (\<forall>sz node. mem_heap_alloc_on_behalf win sz node st = None \<longrightarrow>
       neighbours_of st node = None \<or> (\<exists>nb n. neighbours_of st node = Some nb \<and> n \<in> set nb \<and>
         stuck_node win (if 12 \<le> obj_order sz then sz else MEM_HEAP_CHUNK_SIZE) g st n))) \<and>
    (\<forall>(p, sz) \<in> objs. mem_heap_free win p sz st = None \<longrightarrow>
       12 \<le> obj_order sz \<and> (\<exists>r rg. ph_ranges st r = Some rg \<and> rg_next rg = 1 \<and> rg_drop rg \<noteq> 0))"
proof -
  note inv = heap_run_inv [OF run ready]
  obtain g h where h: "heap_inv win g h st"
    and o: "\<And>p sz. (p, sz) \<in> objs \<Longrightarrow> win < p \<and> sz \<le> 2 ^ obj_order sz \<and> obj_block win (p, sz) \<in> heap_objs h"
    by (rule run_invE [OF inv]) blast
  have "(p = 0 \<and> st' = st) \<or> (win < p \<and> p + sz < 2 ^ 64 \<and> (\<forall>x \<in> objs. span_of (p, sz) \<inter> span_of x = {} \<and>
          (\<forall>w \<in> obj_cells win x. ph_mem st' w = ph_mem st w)))"
    if a: "mem_heap_alloc_on_behalf win sz node st = Some (p, st')" for sz node p st'
  proof (cases "p = 0 \<and> st' = st")
    case False
    then have r: "run_inv win (insert (p, sz) objs) st'" "(p, sz) \<notin> objs"
        "\<forall>x \<in> objs. \<forall>w \<in> cells (obj_block win x). ph_mem st' w = ph_mem st w"
      using run_alloc [OF inv a] by blast+
    have "\<forall>x \<in> objs. span_of (p, sz) \<inter> span_of x = {}" using run_spans(2) [OF r(1), of "(p, sz)"] r(2) by blast
    moreover have "\<forall>w \<in> obj_cells win x. ph_mem st' w = ph_mem st w" if "x \<in> objs" for x
      using obj_cells_block [of x win] o [of "fst x" "snd x"] r(3) that by auto
    ultimately show ?thesis using run_spans(1) [OF r(1), of "(p, sz)"] by simp
  qed simp
  moreover have "neighbours_of st node = None \<or> (\<exists>nb n. neighbours_of st node = Some nb \<and> n \<in> set nb \<and>
         stuck_node win (if 12 \<le> obj_order sz then sz else MEM_HEAP_CHUNK_SIZE) g st n)"
    if "mem_heap_alloc_on_behalf win sz node st = None" for sz node
    using heap_alloc_spec [OF h, of node sz] that by simp
  moreover have "12 \<le> obj_order sz \<and> (\<exists>r rg. ph_ranges st r = Some rg \<and> rg_next rg = 1 \<and> rg_drop rg \<noteq> 0)"
    if "(p, sz) \<in> objs" "mem_heap_free win p sz st = None" for p sz
    using heap_free_spec [OF h, of p sz] o [OF that(1)] that(2) by simp
  ultimately show ?thesis using run_spans [OF inv] heap_invD(1) [OF h] by blast
qed

text \<open>C22: reallocation keeps the data. After any history, reallocating an object to a size other than zero gives nothing and changes
  nothing, or an object of the new size, disjoint from the other objects in use, that starts with the
  contents of the old one, as far as both reach; the contents of the other objects stay as they are.\<close>

theorem heap_realloc_correct:
  assumes ready: "heap_ready win st0" and run: "heap_run win st0 objs st" and x: "(p, sz) \<in> objs"
    and a: "mem_heap_realloc win numa_id p newsize sz st = Some (q, st')" and n: "newsize \<noteq> 0"
  shows "(q = 0 \<and> st' = st) \<or>
    (win < q \<and> q + newsize < 2 ^ 64 \<and> (\<forall>i < min sz newsize. ph_mem st' (q - win + i) = ph_mem st (p - win + i)) \<and>
     (\<forall>y \<in> objs - {(p, sz)}. span_of (q, newsize) \<inter> span_of y = {} \<and>
        (\<forall>w \<in> obj_cells win y. ph_mem st' w = ph_mem st w)))"
proof -
  have r: "run_inv win (after_realloc objs (p, sz) newsize q) st'" and m: "moved win objs (p, sz) newsize st q st'"
    using run_realloc [OF heap_run_inv [OF run ready] x a] by blast+
  show ?thesis
  proof (cases "q = 0")
    case False
    then have r': "run_inv win ((objs - {(p, sz)}) \<union> {(q, newsize)}) st'" using r n by (simp add: after_realloc_def)
    have "(q, newsize) \<notin> objs - {(p, sz)}" using m n False by (simp add: moved_def)
    then have "span_of (q, newsize) \<inter> span_of y = {}" if "y \<in> objs - {(p, sz)}" for y
      using run_spans(2) [OF r', of "(q, newsize)" y] that by blast
    then show ?thesis using run_spans(1) [OF r', of "(q, newsize)"] m n False unfolding moved_def by simp
  qed (use m n in \<open>simp add: moved_def\<close>)
qed

text \<open>The example machine: one object of 4 KiB is in use.\<close>

lemma boot_heap_ready: "heap_ready boot_win (boot_run 0 32768 (Some boot_info))"
proof -
  have "in_window boot_win (boot_run 0 32768 (Some boot_info))"
    by (auto simp: in_window_def regions_def boot_run_def boot_win_def MEM_HEAP_SLAB_SIZE_def boot_slab_def split: if_splits)
  then show ?thesis
    using boot_ready by (auto simp: heap_ready_def boot_run_def node_of_def boot_done_def boot_node_def split: if_splits)
qed

lemma boot_order: "obj_order 4096 = 12" "obj_order 8192 = 13"
  by (simp_all add: mem_heap_get_size_order_def size_order_loop.simps u64_def)

lemma boot_heap_run: "heap_run boot_win (boot_run 0 32768 (Some boot_info)) {(boot_win + 2134016, 4096)} boot_used"
proof -
  have "mem_heap_alloc_on_behalf boot_win 4096 0 (boot_run 0 32768 (Some boot_info)) = Some (boot_win + 2134016, boot_used)"
    by (simp add: mem_heap_alloc_on_behalf_def MEM_HEAP_SLAB_ORDERS_def heap_order boot_order boot_used_eq slab_consts)
  from heap_run.alloc [OF heap_run.start this] show ?thesis by (simp add: boot_win_def)
qed

definition boot_two :: phys_state where
  "boot_two = boot_run 2 45056 (Some (boot_info[521 := Some \<lparr>po_range = boot_win + 2097152, po_size = 4096, po_node_id = 0\<rparr>,
     522 := Some \<lparr>po_range = boot_win + 2097152, po_size = 8192, po_node_id = 0\<rparr>]))"

lemma boot_two_eq: "mem_heap_alloc_on_behalf boot_win 8192 0 boot_used = Some (boot_win + 2138112, boot_two)"
proof -
  let ?i = "boot_info[521 := Some \<lparr>po_range = boot_win + 2097152, po_size = 4096, po_node_id = 0\<rparr>]"
  have inc: "inc64 (Suc 0) = 2" by (simp add: inc64_def u64_def)
  have "mem_phys_slab_get_order 8192 = 13" by (rule get_order_eqI; simp)
  from boot_alloc [OF this, of 36864 "Some ?i" 1] have "mem_phys_alloc_on_behalf boot_win 8192 0 boot_used = Some (2138112, boot_two)"
    by (simp add: boot_used_def boot_two_def boot_info_def inc)
  then show ?thesis
    by (simp add: mem_heap_alloc_on_behalf_def MEM_HEAP_SLAB_ORDERS_def heap_order boot_order slab_consts)
qed

lemma boot_realloc:
  "\<exists>st'. mem_heap_realloc boot_win 0 (boot_win + 2134016) 8192 4096 boot_used = Some (boot_win + 2138112, st')"
proof -
  have o: "mem_phys_slab_get_order 4096 = 12" by (rule get_order_eqI; simp)
  have "mem_heap_free boot_win (boot_win + 2134016) 4096 (mem_copy d s n boot_two) \<noteq> None" for d s n
    by (simp add: mem_heap_free_def MEM_HEAP_SLAB_ORDERS_def heap_order boot_order mem_phys_free_def mem_phys_get_data_def mem_copy_def
        boot_two_def boot_run_def boot_info_def node_of_def boot_done_def boot_win_def sub64_def u64_def slab_consts Let_def
        mem_phys_slab_free_def mem_phys_slab_enqueue_def o drop_range_def boot_slab_def)
  then obtain st' where "mem_heap_free boot_win (boot_win + 2134016) 4096 (mem_copy 2138112 2134016 4096 boot_two) = Some st'" by blast
  then show ?thesis using boot_two_eq by (simp add: mem_heap_realloc_def mem_heap_alloc_def boot_order Let_def boot_win_def)
qed

theorem heap_alloc_safe_witness:
  "\<exists>p st'. mem_heap_alloc_on_behalf boot_win 8192 0 boot_used = Some (p, st') \<and> p = boot_win + 2138112 \<and>
     span_of (p, 8192) \<inter> span_of (boot_win + 2134016, 4096) = {}"
proof -
  have "span_of (boot_win + 2138112, 8192) \<inter> span_of (boot_win + 2134016, 4096) = {}"
    using heap_alloc_safe [OF boot_heap_ready boot_heap_run, THEN conjunct2, THEN conjunct2, THEN conjunct1, rule_format, OF boot_two_eq]
    by simp
  then show ?thesis using boot_two_eq by blast
qed

theorem heap_realloc_correct_witness:
  "\<exists>st'. mem_heap_realloc boot_win 0 (boot_win + 2134016) 8192 4096 boot_used = Some (boot_win + 2138112, st') \<and>
     ph_mem st' 2138119 = ph_mem boot_used 2134023"
proof -
  obtain st' where r: "mem_heap_realloc boot_win 0 (boot_win + 2134016) 8192 4096 boot_used = Some (boot_win + 2138112, st')"
    using boot_realloc by blast
  have "\<forall>i < 4096. ph_mem st' (2138112 + i) = ph_mem boot_used (2134016 + i)"
    using heap_realloc_correct [OF boot_heap_ready boot_heap_run _ r] by (simp add: boot_win_def)
  from this [rule_format, of 7] have "ph_mem st' 2138119 = ph_mem boot_used 2134023" by simp
  then show ?thesis using r by blast
qed

end
