(* ===== verification/Paging.thy ===== *)
theory Paging
  imports Heap "HOL-Library.Word"
begin

text \<open>
  \<^verbatim>\<open>mem/virt/paging.c\<close>: page tables. Tables are pages of physical memory, an entry is a 64-bit word of \<open>ph_mem\<close>.
  \<open>five\<close> is \<open>mem_5level_paging_enabled\<close>, \<open>numa_id\<close> the node of the current processor. The mapper is
  the array of zeroed pages of the calling task; sections under the lock of a root are atomic.
\<close>

unbundle bit_operations_syntax

type_synonym entry = nat

definition FLAGS_MASK :: "64 word" where
  "FLAGS_MASK = 511 OR push_bit 63 1"

definition FLAG_PRESENT :: "64 word" where "FLAG_PRESENT = 1"

definition FLAG_WRITABLE :: "64 word" where "FLAG_WRITABLE = 2"

definition FLAGS_USER :: "64 word" where "FLAGS_USER = 4"

definition FLAGS_NOEXEC :: "64 word" where "FLAGS_NOEXEC = push_bit 63 1"

definition MEM_PAGING_WRITABLE :: "32 word" where "MEM_PAGING_WRITABLE = 2"

definition MEM_PAGING_EXECUTABLE :: "32 word" where "MEM_PAGING_EXECUTABLE = 4"

definition MEM_PAGING_USER :: "32 word" where "MEM_PAGING_USER = 8"

text \<open>An entry with flags, and the address in an entry.\<close>

definition mk_entry :: "addr \<Rightarrow> 64 word \<Rightarrow> entry" where
  "mk_entry a flags = unat (word_of_nat a OR flags)"

definition entry_addr :: "entry \<Rightarrow> addr" where
  "entry_addr e = unat (word_of_nat e AND NOT FLAGS_MASK)"

record mem_paging_root =
  rt_refcount :: nat
  rt_cr3 :: addr

definition SIZEOF_mem_paging_root :: nat where
  "SIZEOF_mem_paging_root = 40"

record mem_paging_mapper =
  zeroed_pages :: "addr list"

definition mapper_pages :: "bool \<Rightarrow> nat" where
  "mapper_pages five = (if five then 4 else 3)"

definition paging_levels :: "bool \<Rightarrow> nat" where
  "paging_levels five = (if five then 5 else 4)"

section \<open>Operations\<close>

definition mem_paging_get_lvl_index :: "addr \<Rightarrow> nat \<Rightarrow> nat" where
  "mem_paging_get_lvl_index a lvl = drop_bit (9 * lvl + 3) a AND 511"

definition mem_paging_new_zeroed :: "addr \<Rightarrow> nat \<Rightarrow> phys_state \<Rightarrow> (addr \<times> phys_state) option" where
  "mem_paging_new_zeroed win numa_id st = do {
     (res, st) \<leftarrow> mem_phys_alloc_on_behalf win PAGE_SIZE numa_id st;
     if res = PHYS_NULL then Some (PHYS_NULL, st)
     else Some (res, st\<lparr>ph_mem := (\<lambda>a. if res \<le> a \<and> a < res + PAGE_SIZE then 0 else ph_mem st a)\<rparr>) }"

text \<open>Disposal of the entries of a table from the index \<open>i\<close> on. The level is a byte and wraps below zero.\<close>

definition dec8 :: "nat \<Rightarrow> nat" where
  "dec8 n = (if n = 0 then 255 else n - 1)"

partial_function (option) dispose_from :: "addr \<Rightarrow> addr \<Rightarrow> nat \<Rightarrow> nat \<Rightarrow> phys_state \<Rightarrow> phys_state option" where
  "dispose_from win table level i st =
     (if i \<ge> 512 then Some st
      else if ph_mem st (table + 8 * i) = 0 then dispose_from win table level (Suc i) st
      else let next = entry_addr (ph_mem st (table + 8 * i)) in
        Option.bind (if dec8 level = 0 then mem_phys_free win next st else Some st) (\<lambda>st.
        Option.bind (dispose_from win next (dec8 level) 0 st) (\<lambda>st.
        dispose_from win table level (Suc i) st)))"

definition mem_paging_dispose_at_level :: "addr \<Rightarrow> addr \<Rightarrow> nat \<Rightarrow> phys_state \<Rightarrow> phys_state option" where
  "mem_paging_dispose_at_level win a level st = do {
     st \<leftarrow> (if level = 0 then mem_phys_free win a st else Some st);
     dispose_from win a level 0 st }"

definition mem_paging_dispose_root :: "bool \<Rightarrow> addr \<Rightarrow> addr \<Rightarrow> mem_paging_root \<Rightarrow> phys_state \<Rightarrow> phys_state option" where
  "mem_paging_dispose_root five win root rt st = do {
     st \<leftarrow> fold_opt (\<lambda>i st. let e = ph_mem st (rt_cr3 rt + 8 * i) in
         if e = 0 then Some st else mem_paging_dispose_at_level win (entry_addr e) (if five then 4 else 3) st) [0..<256] st;
     st \<leftarrow> mem_phys_free win (rt_cr3 rt) st;
     mem_heap_free win root SIZEOF_mem_paging_root st }"

definition copy_upper_half :: "addr \<Rightarrow> addr \<Rightarrow> phys_state \<Rightarrow> phys_state" where
  "copy_upper_half new_root_table current_root_table =
     fold (\<lambda>i st. put_mem (new_root_table + 8 * i) (ph_mem st (current_root_table + 8 * i)) st) [256..<512]"

text \<open>The lock of the new root is written before the pointer is tested, so that there is no result without memory.
  \<open>cr3\<close> is the register of the current processor.\<close>

definition mem_paging_new_root ::
  "addr \<Rightarrow> nat \<Rightarrow> addr \<Rightarrow> phys_state \<Rightarrow> ((addr \<times> mem_paging_root) option \<times> phys_state) option" where
  "mem_paging_new_root win numa_id cr3 st = do {
     (res, st) \<leftarrow> mem_heap_alloc win numa_id SIZEOF_mem_paging_root st;
     if res = 0 then None
     else do {
       (table, st) \<leftarrow> mem_paging_new_zeroed win numa_id st;
       if table = PHYS_NULL then do {
         st \<leftarrow> mem_heap_free win res SIZEOF_mem_paging_root st;
         Some (None, st) }
       else Some (Some (res, \<lparr>rt_refcount = 1, rt_cr3 = table\<rparr>),
         copy_upper_half table cr3 st) } }"

fun init_pages :: "addr \<Rightarrow> nat \<Rightarrow> nat list \<Rightarrow> mem_paging_mapper \<times> phys_state \<Rightarrow> (bool \<times> mem_paging_mapper \<times> phys_state) option" where
  "init_pages win numa_id [] (mapper, st) = Some (True, mapper, st)"
| "init_pages win numa_id (i # is) (mapper, st) = do {
     (page, st) \<leftarrow> mem_paging_new_zeroed win numa_id st;
     let mapper = mapper\<lparr>zeroed_pages := (zeroed_pages mapper)[i := page]\<rparr>;
     if page = PHYS_NULL then do {
       st \<leftarrow> fold_opt (\<lambda>j. mem_phys_free win (zeroed_pages mapper ! j)) [0..<i] st;
       Some (False, mapper, st) }
     else init_pages win numa_id is (mapper, st) }"

definition mem_paging_init_mapper ::
  "bool \<Rightarrow> addr \<Rightarrow> nat \<Rightarrow> mem_paging_mapper \<times> phys_state \<Rightarrow> (bool \<times> mem_paging_mapper \<times> phys_state) option" where
  "mem_paging_init_mapper five win numa_id = init_pages win numa_id [0..<mapper_pages five]"

definition mem_paging_deinit_mapper :: "bool \<Rightarrow> addr \<Rightarrow> mem_paging_mapper \<Rightarrow> phys_state \<Rightarrow> phys_state option" where
  "mem_paging_deinit_mapper five win mapper = fold_opt (\<lambda>i st.
     if zeroed_pages mapper ! i \<noteq> PHYS_NULL then mem_phys_free win (zeroed_pages mapper ! i) st else Some st) [0..<mapper_pages five]"

fun regen_pages :: "addr \<Rightarrow> nat \<Rightarrow> nat list \<Rightarrow> mem_paging_mapper \<times> phys_state \<Rightarrow> (bool \<times> mem_paging_mapper \<times> phys_state) option" where
  "regen_pages win numa_id [] (mapper, st) = Some (True, mapper, st)"
| "regen_pages win numa_id (i # is) (mapper, st) =
     (if zeroed_pages mapper ! i = PHYS_NULL then do {
        (page, st) \<leftarrow> mem_paging_new_zeroed win numa_id st;
        let mapper = mapper\<lparr>zeroed_pages := (zeroed_pages mapper)[i := page]\<rparr>;
        if page = PHYS_NULL then Some (False, mapper, st)
        else regen_pages win numa_id is (mapper, st) }
      else regen_pages win numa_id is (mapper, st))"

definition mem_paging_regen_cache ::
  "bool \<Rightarrow> addr \<Rightarrow> nat \<Rightarrow> mem_paging_mapper \<times> phys_state \<Rightarrow> (bool \<times> mem_paging_mapper \<times> phys_state) option" where
  "mem_paging_regen_cache five win numa_id = regen_pages win numa_id [0..<mapper_pages five]"

text \<open>The walk that creates missing tables, from level \<open>Suc n\<close> down to level 1.\<close>

fun map_walk :: "addr \<Rightarrow> nat \<Rightarrow> addr \<Rightarrow> mem_paging_mapper \<times> phys_state \<Rightarrow> addr \<times> mem_paging_mapper \<times> phys_state" where
  "map_walk vaddr 0 current_phys (mapper, st) = (current_phys, mapper, st)"
| "map_walk vaddr (Suc n) current_phys (mapper, st) =
     (let index = mem_paging_get_lvl_index vaddr (n + 2);
          interm_perms = FLAG_PRESENT OR FLAG_WRITABLE OR FLAGS_USER in
      if ph_mem st (current_phys + 8 * index) = 0 then
        let page = zeroed_pages mapper ! n in
        map_walk vaddr n page (mapper\<lparr>zeroed_pages := (zeroed_pages mapper)[n := PHYS_NULL]\<rparr>,
          put_mem (current_phys + 8 * index) (mk_entry page interm_perms) st)
      else map_walk vaddr n (entry_addr (ph_mem st (current_phys + 8 * index))) (mapper, st))"

definition perms_mask :: "32 word \<Rightarrow> 64 word" where
  "perms_mask perms = FLAG_PRESENT
     OR (if perms AND MEM_PAGING_WRITABLE \<noteq> 0 then FLAG_WRITABLE else 0)
     OR (if perms AND MEM_PAGING_EXECUTABLE = 0 then FLAGS_NOEXEC else 0)
     OR (if perms AND MEM_PAGING_USER \<noteq> 0 then FLAGS_USER else 0)"

definition mem_paging_map_at ::
  "bool \<Rightarrow> addr \<Rightarrow> nat \<Rightarrow> mem_paging_root \<Rightarrow> addr \<Rightarrow> addr \<Rightarrow> 32 word \<Rightarrow> mem_paging_mapper \<times> phys_state \<Rightarrow>
   (bool \<times> mem_paging_mapper \<times> phys_state) option" where
  "mem_paging_map_at five win numa_id root vaddr paddr perms s =
     (if \<not> vaddr < win \<or> vaddr mod PAGE_SIZE \<noteq> 0 then None
      else do {
        (ok, mapper, st) \<leftarrow> mem_paging_regen_cache five win numa_id s;
        if \<not> ok then Some (False, mapper, st)
        else do {
          let (current_phys, mapper, st) = map_walk vaddr (paging_levels five - 1) (rt_cr3 root) (mapper, st);
          Some (True, mapper, put_mem (current_phys + 8 * mem_paging_get_lvl_index vaddr 1) (mk_entry paddr (perms_mask perms)) st) } })"

fun unmap_walk :: "addr \<Rightarrow> nat \<Rightarrow> addr \<Rightarrow> phys_state \<Rightarrow> addr" where
  "unmap_walk vaddr 0 current_phys st = current_phys"
| "unmap_walk vaddr (Suc n) current_phys st =
     unmap_walk vaddr n (entry_addr (ph_mem st (current_phys + 8 * mem_paging_get_lvl_index vaddr (n + 2)))) st"

definition mem_paging_unmap_at :: "bool \<Rightarrow> addr \<Rightarrow> mem_paging_root \<Rightarrow> addr \<Rightarrow> phys_state \<Rightarrow> (addr \<times> phys_state) option" where
  "mem_paging_unmap_at five win root vaddr st =
     (if \<not> vaddr < win \<or> vaddr mod PAGE_SIZE \<noteq> 0 then None
      else let current_phys = unmap_walk vaddr (paging_levels five - 1) (rt_cr3 root) st;
             cell = current_phys + 8 * mem_paging_get_lvl_index vaddr 1 in
        Some (entry_addr (ph_mem st cell), put_mem cell 0 st))"

text \<open>The new value of the register.\<close>

definition mem_paging_switch_to :: "mem_paging_root \<Rightarrow> addr" where
  "mem_paging_switch_to root = rt_cr3 root"

section \<open>Entries and indices\<close>

lemma index_div_mod: "mem_paging_get_lvl_index a lvl = a div 2 ^ (9 * lvl + 3) mod 512"
proof -
  have "drop_bit (9 * lvl + 3) a AND 511 = take_bit 9 (drop_bit (9 * lvl + 3) a)" by (simp add: take_bit_eq_mask mask_eq_exp_minus_1)
  then show ?thesis by (simp add: mem_paging_get_lvl_index_def take_bit_eq_mod drop_bit_eq_div)
qed

lemma index_less: "mem_paging_get_lvl_index a lvl < 512"
  by (simp add: index_div_mod)

lemma page_bits:
  assumes "PAGE_SIZE dvd a" "a < 2 ^ 52"
  shows "(word_of_nat a :: 64 word) AND NOT FLAGS_MASK = word_of_nat a"
proof (rule bit_word_eqI)
  fix n assume n: "n < LENGTH(64)"
  have lo: "\<not> bit a n" if "n < 12"
  proof -
    obtain q where "a = PAGE_SIZE * q" using assms(1) by (rule dvdE)
    then have "a = push_bit 12 q" by (simp add: push_bit_eq_mult slab_consts)
    then show ?thesis using that by (simp add: bit_push_bit_iff)
  qed
  have "take_bit 52 a = a" using assms(2) by (simp add: take_bit_nat_eq_self)
  then have hi: "\<not> bit a n" if "52 \<le> n" using that by (metis bit_take_bit_iff not_le)
  have "bit FLAGS_MASK n \<Longrightarrow> n < 9 \<or> n = 63"
  proof -
    assume b: "bit FLAGS_MASK n"
    have "(511 :: 64 word) = mask 9" by (simp add: mask_eq_exp_minus_1)
    then show ?thesis using b n unfolding FLAGS_MASK_def bit_or_iff bit_push_bit_iff by (auto simp only: bit_mask_iff bit_1_iff)
  qed
  then show "bit ((word_of_nat a :: 64 word) AND NOT FLAGS_MASK) n = bit (word_of_nat a :: 64 word) n"
    using lo hi n by (auto simp: bit_and_iff bit_not_iff bit_of_nat_iff)
qed

lemma entry_addr_mk:
  assumes "PAGE_SIZE dvd a" "a < 2 ^ 52" "flags AND NOT FLAGS_MASK = 0"
  shows "entry_addr (mk_entry a flags) = a"
proof -
  have "(word_of_nat a OR flags) AND NOT FLAGS_MASK = (word_of_nat a :: 64 word)"
    using page_bits [OF assms(1,2)] assms(3) by (simp add: bit.conj_disj_distrib2)
  then show ?thesis using assms(2) by (simp add: entry_addr_def mk_entry_def unsigned_of_nat take_bit_nat_eq_self)
qed

lemma mk_entry_pos:
  assumes "flags AND FLAG_PRESENT \<noteq> 0"
  shows "mk_entry a flags \<noteq> 0"
proof
  assume "mk_entry a flags = 0"
  then have "word_of_nat a OR flags = 0" by (simp add: mk_entry_def unat_eq_zero)
  then have "flags = 0" by (simp add: or_eq_0_iff)
  then show False using assms by simp
qed

lemma flags_ok:
  "perms_mask perms AND NOT FLAGS_MASK = 0" "perms_mask perms AND FLAG_PRESENT \<noteq> 0"
  "(FLAG_PRESENT OR FLAG_WRITABLE OR FLAGS_USER) AND NOT FLAGS_MASK = 0" "(FLAG_PRESENT OR FLAG_WRITABLE OR FLAGS_USER) AND FLAG_PRESENT \<noteq> 0"
  by (simp_all add: perms_mask_def FLAGS_MASK_def FLAG_PRESENT_def FLAG_WRITABLE_def FLAGS_USER_def FLAGS_NOEXEC_def push_bit_eq_mult)

section \<open>Hierarchies\<close>

text \<open>
  The translation of an address, as the processor walks the tables: the entry for its page, or zero. \<open>N\<close> is the
  number of levels above the last one.
\<close>

fun table_walk :: "addr \<Rightarrow> nat \<Rightarrow> addr \<Rightarrow> phys_mem \<Rightarrow> addr option" where
  "table_walk vaddr 0 cur mem = Some cur"
| "table_walk vaddr (Suc n) cur mem = (let e = mem (cur + 8 * mem_paging_get_lvl_index vaddr (n + 2)) in
     if e = 0 then None else table_walk vaddr n (entry_addr e) mem)"

definition translation :: "nat \<Rightarrow> addr \<Rightarrow> phys_mem \<Rightarrow> addr \<Rightarrow> entry" where
  "translation N cr3 mem vaddr = (case table_walk vaddr N cr3 mem of
     None \<Rightarrow> 0 | Some t \<Rightarrow> mem (t + 8 * mem_paging_get_lvl_index vaddr 1))"

text \<open>Ghost state: the table at each path of indices from the root. The upper half of the root belongs to the kernel.\<close>

type_synonym tables = "nat list \<Rightarrow> addr option"

fun path :: "addr \<Rightarrow> nat \<Rightarrow> nat list" where
  "path vaddr 0 = []"
| "path vaddr (Suc n) = mem_paging_get_lvl_index vaddr (n + 2) # path vaddr n"

definition slot :: "nat list \<Rightarrow> nat \<Rightarrow> bool" where
  "slot p x \<longleftrightarrow> x < 512 \<and> (p = [] \<longrightarrow> x < 256)"

definition tables_inv :: "nat \<Rightarrow> addr \<Rightarrow> tables \<Rightarrow> phys_mem \<Rightarrow> bool" where
  "tables_inv N cr3 T mem \<longleftrightarrow> T [] = Some cr3 \<and>
     (\<forall>p x. T (p @ [x]) \<noteq> None \<longrightarrow> T p \<noteq> None \<and> length p < N \<and> slot p x) \<and>
     (\<forall>p t x. T p = Some t \<longrightarrow> length p < N \<longrightarrow> slot p x \<longrightarrow>
        T (p @ [x]) = (if mem (t + 8 * x) = 0 then None else Some (entry_addr (mem (t + 8 * x))))) \<and>
     (\<forall>p q t. T p = Some t \<longrightarrow> T q = Some t \<longrightarrow> p = q)"

definition page_owned :: "ghost \<Rightarrow> addr \<Rightarrow> bool" where
  "page_owned g a \<longleftrightarrow> (\<exists>r. (a, 12) \<in># gh_rec g r)"

definition mapper_inv :: "nat \<Rightarrow> ghost \<Rightarrow> tables \<Rightarrow> addr list \<Rightarrow> phys_mem \<Rightarrow> bool" where
  "mapper_inv N g T zp mem \<longleftrightarrow> N \<le> length zp \<and>
     (\<forall>i < N. zp ! i \<noteq> 0 \<longrightarrow> page_owned g (zp ! i) \<and> (\<forall>p. T p \<noteq> Some (zp ! i)) \<and> (\<forall>w \<in> {zp ! i..<zp ! i + PAGE_SIZE}. mem w = 0)) \<and>
     (\<forall>i < N. \<forall>j < N. i \<noteq> j \<longrightarrow> zp ! i \<noteq> 0 \<longrightarrow> zp ! i \<noteq> zp ! j)"

definition paging_inv :: "nat \<Rightarrow> addr \<Rightarrow> addr \<Rightarrow> ghost \<Rightarrow> tables \<Rightarrow> mem_paging_mapper \<times> phys_state \<Rightarrow> bool" where
  "paging_inv N win cr3 g T s \<longleftrightarrow> phys_inv win g (snd s) \<and> ph_info (snd s) \<noteq> None \<and> tables_inv N cr3 T (ph_mem (snd s)) \<and>
     (\<forall>p t. T p = Some t \<longrightarrow> page_owned g t) \<and> mapper_inv N g T (zeroed_pages (fst s)) (ph_mem (snd s))"

lemma paging_invD:
  assumes "paging_inv N win cr3 g T (m, st)"
  shows "phys_inv win g st" "ph_info st \<noteq> None" "tables_inv N cr3 T (ph_mem st)" "T p = Some t \<Longrightarrow> page_owned g t"
    "mapper_inv N g T (zeroed_pages m) (ph_mem st)"
  using assms by (auto simp: paging_inv_def)

lemma tables_invD:
  assumes "tables_inv N cr3 T mem"
  shows "T [] = Some cr3" "T (p @ [x]) \<noteq> None \<Longrightarrow> T p \<noteq> None \<and> length p < N \<and> slot p x"
    "T p = Some t \<Longrightarrow> length p < N \<Longrightarrow> slot p x \<Longrightarrow>
        T (p @ [x]) = (if mem (t + 8 * x) = 0 then None else Some (entry_addr (mem (t + 8 * x))))"
    "T p = Some t \<Longrightarrow> T q = Some t \<Longrightarrow> p = q"
proof -
  note i = assms [unfolded tables_inv_def]
  from i show "T [] = Some cr3" by simp
  from i show "T (p @ [x]) \<noteq> None \<Longrightarrow> T p \<noteq> None \<and> length p < N \<and> slot p x" by meson
  from i show "T p = Some t \<Longrightarrow> length p < N \<Longrightarrow> slot p x \<Longrightarrow>
        T (p @ [x]) = (if mem (t + 8 * x) = 0 then None else Some (entry_addr (mem (t + 8 * x))))" by meson
  from i show "T p = Some t \<Longrightarrow> T q = Some t \<Longrightarrow> p = q" by meson
qed

lemma mapper_invD:
  assumes "mapper_inv N g T zp mem" "i < N"
  shows "N \<le> length zp" "zp ! i \<noteq> 0 \<Longrightarrow> page_owned g (zp ! i)" "zp ! i \<noteq> 0 \<Longrightarrow> T p \<noteq> Some (zp ! i)"
    "zp ! i \<noteq> 0 \<Longrightarrow> w \<in> {zp ! i..<zp ! i + PAGE_SIZE} \<Longrightarrow> mem w = 0" "j < N \<Longrightarrow> i \<noteq> j \<Longrightarrow> zp ! i \<noteq> 0 \<Longrightarrow> zp ! i \<noteq> zp ! j"
  using assms unfolding mapper_inv_def by blast+

lemma prefix_none: "tables_inv N cr3 T mem \<Longrightarrow> T p = None \<Longrightarrow> T (p @ q) = None"
proof (induction q rule: rev_induct)
  case (snoc x q)
  then show ?case using tables_invD(2) [of N cr3 T mem "p @ q" x] by (cases "T (p @ q @ [x])") auto
qed simp

lemma path_length: "length (path vaddr n) = n"
  by (induction n) simp_all

text \<open>The walk finds the table at the path of an address.\<close>

lemma table_walk_path:
  assumes inv: "tables_inv N cr3 T mem"
  shows "T p = Some cur \<Longrightarrow> length p + n = N \<Longrightarrow> (p = [] \<Longrightarrow> n \<noteq> 0 \<Longrightarrow> mem_paging_get_lvl_index vaddr (n + 1) < 256) \<Longrightarrow>
    table_walk vaddr n cur mem = T (p @ path vaddr n)"
proof (induction n arbitrary: p cur)
  case (Suc n)
  let ?x = "mem_paging_get_lvl_index vaddr (n + 2)"
  have "slot p ?x" using Suc.prems(3) by (simp add: slot_def index_less)
  then have T: "T (p @ [?x]) = (if mem (cur + 8 * ?x) = 0 then None else Some (entry_addr (mem (cur + 8 * ?x))))"
    using tables_invD(3) [OF inv Suc.prems(1)] Suc.prems(2) by simp
  show ?case
  proof (cases "mem (cur + 8 * ?x) = 0")
    case True
    then have "T ((p @ [?x]) @ path vaddr n) = None" using T prefix_none [OF inv, of "p @ [?x]"] by simp
    then show ?thesis using True by simp
  next
    case False
    then show ?thesis using Suc.IH [of "p @ [?x]" "entry_addr (mem (cur + 8 * ?x))"] T Suc.prems(2) by simp
  qed
qed simp

text \<open>The entries of the last level, by path and index.\<close>

definition leaf :: "tables \<Rightarrow> phys_mem \<Rightarrow> nat list \<Rightarrow> nat \<Rightarrow> entry" where
  "leaf T mem p x = (case T p of None \<Rightarrow> 0 | Some t \<Rightarrow> mem (t + 8 * x))"

definition low_page :: "nat \<Rightarrow> addr \<Rightarrow> bool" where
  "low_page N vaddr \<longleftrightarrow> PAGE_SIZE dvd vaddr \<and> vaddr < 2 ^ (9 * N + 20)"

lemma low_index:
  assumes "low_page N vaddr"
  shows "mem_paging_get_lvl_index vaddr (N + 1) < 256"
proof -
  have "vaddr < 256 * 2 ^ (9 * N + 12)" using assms by (simp add: low_page_def power_add)
  then have "vaddr div 2 ^ (9 * N + 12) < 256" by (simp add: less_mult_imp_div_less mult.commute)
  moreover have e: "9 * (N + 1) + 3 = 9 * N + 12" by simp
  ultimately show ?thesis unfolding index_div_mod e by (meson le_less_trans mod_less_eq_dividend)
qed

lemma translation_leaf:
  assumes "tables_inv N cr3 T mem" "low_page N vaddr"
  shows "translation N cr3 mem vaddr = leaf T mem (path vaddr N) (mem_paging_get_lvl_index vaddr 1)"
  using table_walk_path [OF assms(1) tables_invD(1) [OF assms(1)], of N vaddr] low_index [OF assms(2)]
  by (auto simp: translation_def leaf_def split: option.splits)

text \<open>Different pages have different paths or indices.\<close>

lemma path_inj:
  assumes "path v n = path v' n" "mem_paging_get_lvl_index v 1 = mem_paging_get_lvl_index v' 1"
  shows "v div 4096 mod 512 ^ Suc n = v' div 4096 mod 512 ^ Suc n"
  using assms
proof (induction n)
  case 0
  then show ?case by (simp add: index_div_mod)
next
  case (Suc n)
  have split: "a mod 512 ^ Suc (Suc n) = 512 ^ Suc n * (a div 512 ^ Suc n mod 512) + a mod 512 ^ Suc n" for a :: nat
  proof -
    have "(512::nat) ^ Suc (Suc n) = 512 ^ Suc n * 512" by simp
    then show ?thesis using mod_mult2_eq [of a "512 ^ Suc n" 512] by simp
  qed
  have "a div 4096 div 512 ^ Suc n mod 512 = mem_paging_get_lvl_index a (n + 2)" for a :: nat
  proof -
    have "(512::nat) ^ Suc n = 2 ^ (9 * Suc n)" by (simp only: power_mult) simp
    then have "4096 * (512::nat) ^ Suc n = 2 ^ 12 * 2 ^ (9 * Suc n)" by simp
    also have "\<dots> = 2 ^ (9 * (n + 2) + 3)" unfolding power_add [symmetric] by simp
    finally show ?thesis unfolding index_div_mod div_mult2_eq [symmetric] by (simp only:)
  qed
  then have "v div 4096 div 512 ^ Suc n mod 512 = v' div 4096 div 512 ^ Suc n mod 512" using Suc.prems(1) by simp
  then show ?case unfolding split [of "v div 4096"] split [of "v' div 4096"] using Suc by simp
qed

lemma low_page_inj:
  assumes "low_page N v" "low_page N v'" "path v N = path v' N" "mem_paging_get_lvl_index v 1 = mem_paging_get_lvl_index v' 1"
  shows "v = v'"
proof -
  have small: "a div 4096 mod 512 ^ Suc N = a div 4096" if "low_page N a" for a
  proof -
    have "a < 2 ^ (9 * N + 20)" using that by (simp add: low_page_def)
    also have "(2::nat) ^ (9 * N + 20) \<le> 2 ^ (9 * Suc N + 12)" by (intro power_increasing) auto
    also have "(2::nat) ^ (9 * Suc N + 12) = 512 ^ Suc N * 4096" by (simp add: power_add power_mult)
    finally have "a div 4096 < 512 ^ Suc N" by (simp add: less_mult_imp_div_less)
    then show ?thesis by simp
  qed
  have "v div 4096 = v' div 4096" using path_inj [OF assms(3,4)] small assms(1,2) by simp
  then show ?thesis using assms(1,2) unfolding low_page_def by (auto simp: slab_consts elim!: dvdE)
qed

section \<open>Changes to tables\<close>

text \<open>Pages that are owned are aligned, and their entries are apart.\<close>

lemma owned_page:
  assumes "phys_inv win g st" "page_owned g a"
  shows "PAGE_SIZE dvd a" "0 < a" "a + PAGE_SIZE \<le> 2 ^ 52"
proof -
  obtain r where "(a, 12) \<in># gh_rec g r" using assms(2) by (auto simp: page_owned_def)
  then have l: "(a, 12) \<in># gh_live g r" using mset_subset_eqD [OF phys_invD(4) [OF assms(1)]] by blast
  obtain rg where rg: "ph_ranges st r = Some rg" using phys_invD(5) [OF assms(1) l] by blast
  show "PAGE_SIZE dvd a" using slab_inv_live [OF phys_invD(2) [OF assms(1) rg]] l by (auto simp: blocks_in_def)
  show "0 < a" "a + PAGE_SIZE \<le> 2 ^ 52" using block_small [OF assms(1) l] by (simp_all add: slab_consts)
qed

lemma pages_apart:
  assumes "PAGE_SIZE dvd a" "PAGE_SIZE dvd b" "i < PAGE_SIZE" "j < PAGE_SIZE" "a + i = b + j"
  shows "a = b"
proof -
  have "a = (a + i) div PAGE_SIZE * PAGE_SIZE" "b = (b + j) div PAGE_SIZE * PAGE_SIZE"
    using assms(1-4) by (auto elim!: dvdE simp: slab_consts)
  then show ?thesis using assms(5) by simp
qed

lemma slot_in_page: "x < 512 \<Longrightarrow> 8 * x < PAGE_SIZE"
  by (simp add: slab_consts)

lemma owned_write:
  assumes "phys_inv win g st" "page_owned g a" "x < 512"
  shows "phys_inv win g (put_mem (a + 8 * x) v st)"
proof -
  obtain r where "(a, 12) \<in># gh_rec g r" using assms(2) by (auto simp: page_owned_def)
  then have l: "(a, 12) \<in># gh_live g r" using mset_subset_eqD [OF phys_invD(4) [OF assms(1)]] by blast
  show ?thesis unfolding put_mem_def by (rule client_step [OF assms(1) l]) (use assms(3) in simp)
qed

text \<open>Writing one entry of one table: what the other entries and the zeroed pages see.\<close>

lemma entry_frame:
  assumes inv: "paging_inv N win cr3 g T (m, st)" and t: "T p = Some t" and x: "x < 512"
  shows "T q = Some u \<Longrightarrow> y < 512 \<Longrightarrow> (q, y) \<noteq> (p, x) \<Longrightarrow> ph_mem (put_mem (t + 8 * x) v st) (u + 8 * y) = ph_mem st (u + 8 * y)"
    "i < N \<Longrightarrow> zeroed_pages m ! i \<noteq> 0 \<Longrightarrow> w \<in> {zeroed_pages m ! i..<zeroed_pages m ! i + PAGE_SIZE} \<Longrightarrow>
      ph_mem (put_mem (t + 8 * x) v st) w = 0"
proof -
  note I = paging_invD [OF inv]
  have pt: "PAGE_SIZE dvd t" by (rule owned_page(1) [OF I(1) I(4) [OF t]])
  show "ph_mem (put_mem (t + 8 * x) v st) (u + 8 * y) = ph_mem st (u + 8 * y)"
    if "T q = Some u" "y < 512" "(q, y) \<noteq> (p, x)"
  proof -
    have "PAGE_SIZE dvd u" by (rule owned_page(1) [OF I(1) I(4) [OF that(1)]])
    have "u + 8 * y \<noteq> t + 8 * x"
    proof
      assume e: "u + 8 * y = t + 8 * x"
      then have "u = t" using pages_apart [OF \<open>PAGE_SIZE dvd u\<close> pt slot_in_page [OF that(2)] slot_in_page [OF x]] by blast
      then have "q = p" "y = x" using tables_invD(4) [OF I(3) that(1)] t e by auto
      then show False using that(3) by simp
    qed
    then show ?thesis by simp
  qed
  show "ph_mem (put_mem (t + 8 * x) v st) w = 0"
    if i: "i < N" "zeroed_pages m ! i \<noteq> 0" and w: "w \<in> {zeroed_pages m ! i..<zeroed_pages m ! i + PAGE_SIZE}"
  proof -
    let ?z = "zeroed_pages m ! i"
    have z: "PAGE_SIZE dvd ?z" by (rule owned_page(1) [OF I(1) mapper_invD(2) [OF I(5) i]])
    have "w \<noteq> t + 8 * x"
    proof
      assume "w = t + 8 * x"
      then have "?z + (w - ?z) = t + 8 * x" "w - ?z < PAGE_SIZE" using w by auto
      then have "?z = t" using pages_apart [OF z pt _ slot_in_page [OF x]] by blast
      then show False using mapper_invD(3) [OF I(5) i] t by blast
    qed
    then show ?thesis using mapper_invD(4) [OF I(5) i w] by simp
  qed
qed

text \<open>An entry of the last level.\<close>

lemma put_leaf:
  assumes inv: "paging_inv N win cr3 g T (m, st)" and t: "T p = Some t" and p: "length p = N" and x: "x < 512"
  shows "paging_inv N win cr3 g T (m, put_mem (t + 8 * x) v st)"
    "y < 512 \<Longrightarrow> leaf T (ph_mem (put_mem (t + 8 * x) v st)) q y = (if (q, y) = (p, x) then v else leaf T (ph_mem st) q y)"
proof -
  note I = paging_invD [OF inv]
  let ?mem = "ph_mem (put_mem (t + 8 * x) v st)"
  show "leaf T ?mem q y = (if (q, y) = (p, x) then v else leaf T (ph_mem st) q y)" if "y < 512"
    using entry_frame(1) [OF inv t x _ that, of q] t by (cases "T q") (auto simp: leaf_def)
  have "tables_inv N cr3 T ?mem"
  proof -
    have "?mem (u + 8 * y) = ph_mem st (u + 8 * y)" if "T q = Some u" "length q < N" "slot q y" for q u y
      by (rule entry_frame(1) [OF inv t x that(1)]) (use that(2,3) p in \<open>auto simp: slot_def\<close>)
    then show ?thesis using I(3) unfolding tables_inv_def by simp
  qed
  moreover have "mapper_inv N g T (zeroed_pages m) ?mem"
    using I(5) entry_frame(2) [OF inv t x] unfolding mapper_inv_def by blast
  ultimately show "paging_inv N win cr3 g T (m, put_mem (t + 8 * x) v st)"
    using I owned_write [OF I(1) I(4) [OF t] x] by (simp add: paging_inv_def)
qed

text \<open>A zeroed page becomes a table.\<close>

lemma add_table:
  assumes inv: "paging_inv N win cr3 g T (m, st)" and t: "T p = Some t" and p: "length p < N" and x: "slot p x"
    and e: "ph_mem st (t + 8 * x) = 0" and i: "i < N" "zeroed_pages m ! i \<noteq> 0"
  defines "z \<equiv> zeroed_pages m ! i"
  defines "T' \<equiv> T(p @ [x] \<mapsto> z)" and "m' \<equiv> m\<lparr>zeroed_pages := (zeroed_pages m)[i := PHYS_NULL]\<rparr>"
    and "st' \<equiv> put_mem (t + 8 * x) (mk_entry z (FLAG_PRESENT OR FLAG_WRITABLE OR FLAGS_USER)) st"
  shows "paging_inv N win cr3 g T' (m', st')" "length q = N \<Longrightarrow> y < 512 \<Longrightarrow> leaf T' (ph_mem st') q y = leaf T (ph_mem st) q y"
proof -
  note I = paging_invD [OF inv] and M = mapper_invD [OF paging_invD(5) [OF inv] i(1)]
  have x5: "x < 512" using x by (simp add: slot_def)
  note zp = owned_page [OF I(1) M(2) [OF i(2)], folded z_def]
  let ?e = "mk_entry z (FLAG_PRESENT OR FLAG_WRITABLE OR FLAGS_USER)"
  have ent: "?e \<noteq> 0" "entry_addr ?e = z"
    using mk_entry_pos [OF flags_ok(4)] entry_addr_mk [OF zp(1) _ flags_ok(3)] zp(3) by (simp_all add: slab_consts)
  have none: "T (p @ [x]) = None" using tables_invD(3) [OF I(3) t p x] e by simp
  have zT: "T q \<noteq> Some z" for q using M(3) [OF i(2)] by (simp add: z_def)
  have frame: "ph_mem st' (u + 8 * y) = ph_mem st (u + 8 * y)" if "T q = Some u" "y < 512" "(q, y) \<noteq> (p, x)" for q u y
    using entry_frame(1) [OF inv t x5 that] by (simp add: st'_def)
  have here: "ph_mem st' (t + 8 * x) = ?e" by (simp add: st'_def)
  have zero: "ph_mem st' (z + 8 * y) = 0" if "y < 512" for y
    using entry_frame(2) [OF inv t x5 i, of "z + 8 * y"] that by (simp add: st'_def z_def slab_consts)
  have deep: "T (p @ [x, y]) = None" for y using prefix_none [OF I(3) none, of "[y]"] by simp
  show "leaf T' (ph_mem st') q y = leaf T (ph_mem st) q y" if "length q = N" "y < 512"
    using that p none frame [of q _ y] zero [of y] by (cases "q = p @ [x]"; cases "T q") (auto simp: leaf_def T'_def)
  have "tables_inv N cr3 T' (ph_mem st')"
    unfolding tables_inv_def
  proof (intro conjI allI impI)
    show "T' [] = Some cr3" using tables_invD(1) [OF I(3)] by (simp add: T'_def)
    show "T' q \<noteq> None" "length q < N" "slot q y" if "T' (q @ [y]) \<noteq> None" for q y
      using that tables_invD(2) [OF I(3), of q y] t p x by (auto simp: T'_def split: if_splits)
    show "T' (q @ [y]) = (if ph_mem st' (u + 8 * y) = 0 then None else Some (entry_addr (ph_mem st' (u + 8 * y))))"
      if q: "T' q = Some u" "length q < N" "slot q y" for q u y
    proof -
      have y: "y < 512" using q(3) by (simp add: slot_def)
      consider "q = p @ [x]" | "q = p" "y = x" | "q \<noteq> p @ [x]" "(q, y) \<noteq> (p, x)" by blast
      then show ?thesis
      proof cases
        case 1
        then show ?thesis using q(1) zero [OF y] deep [of y] by (simp add: T'_def)
      next
        case 2
        then show ?thesis using q(1) t here ent by (simp add: T'_def)
      next
        case 3
        then have "T q = Some u" using q(1) by (simp add: T'_def)
        then show ?thesis using tables_invD(3) [OF I(3) _ q(2,3)] frame [OF _ y 3(2)] 3 by (auto simp: T'_def)
      qed
    qed
    show "q = q'" if "T' q = Some u" "T' q' = Some u" for q q' u
      using that tables_invD(4) [OF I(3), of q u q'] zT by (auto simp: T'_def split: if_splits)
  qed
  moreover have "mapper_inv N g T' (zeroed_pages m') (ph_mem st')"
    unfolding mapper_inv_def
  proof (intro conjI allI impI ballI)
    show "N \<le> length (zeroed_pages m')" using M(1) by (simp add: m'_def)
    show "page_owned g (zeroed_pages m' ! j)" "T' q \<noteq> Some (zeroed_pages m' ! j)"
      if "j < N" "zeroed_pages m' ! j \<noteq> 0" for j q
      using that mapper_invD(2,3) [OF I(5) that(1)] M(5) [OF that(1)] i M(1)
      by (auto simp: m'_def T'_def z_def nth_list_update slab_consts split: if_splits)
    show "ph_mem st' w = 0" if "j < N" "zeroed_pages m' ! j \<noteq> 0" "w \<in> {zeroed_pages m' ! j..<zeroed_pages m' ! j + PAGE_SIZE}" for j w
      unfolding st'_def
    proof (rule entry_frame(2) [OF inv t x5 that(1)])
      have "j \<noteq> i" using that(2) M(1) i(1) by (auto simp: m'_def slab_consts)
      then show "zeroed_pages m ! j \<noteq> 0" "w \<in> {zeroed_pages m ! j..<zeroed_pages m ! j + PAGE_SIZE}" using that by (simp_all add: m'_def)
    qed
    show "zeroed_pages m' ! j \<noteq> zeroed_pages m' ! k" if "j < N" "k < N" "j \<noteq> k" "zeroed_pages m' ! j \<noteq> 0" for j k
      using that mapper_invD(5) [OF I(5) that(1,2)] M(1) i(1) by (auto simp: m'_def nth_list_update slab_consts split: if_splits)
  qed
  ultimately show "paging_inv N win cr3 g T' (m', st')"
    using I(2,4) M(2) [OF i(2)] owned_write [OF I(1) I(4) [OF t] x5]
    by (auto simp: paging_inv_def T'_def st'_def z_def split: if_splits)
qed

section \<open>Zeroed pages\<close>

lemma new_zeroed:
  assumes inv: "phys_inv win g st" "ph_info st \<noteq> None" and a: "mem_paging_new_zeroed win numa_id st = Some (b, st')"
  shows "(b = PHYS_NULL \<and> st' = st) \<or> (b \<noteq> 0 \<and> ph_info st' \<noteq> None \<and> \<not> page_owned g b \<and>
    (\<forall>w \<in> {b..<b + PAGE_SIZE}. ph_mem st' w = 0) \<and>
    (\<forall>a w. page_owned g a \<longrightarrow> w \<in> {a..<a + PAGE_SIZE} \<longrightarrow> ph_mem st' w = ph_mem st w) \<and>
    (\<exists>g'. phys_inv win g' st' \<and> page_owned g' b \<and> (\<forall>a. page_owned g a \<longrightarrow> page_owned g' a)))"
proof -
  obtain st1 where al: "mem_phys_alloc_on_behalf win PAGE_SIZE numa_id st = Some (b, st1)"
    and st': "st' = (if b = PHYS_NULL then st1 else st1\<lparr>ph_mem := (\<lambda>a. if b \<le> a \<and> a < b + PAGE_SIZE then 0 else ph_mem st1 a)\<rparr>)"
    using a by (auto simp: mem_paging_new_zeroed_def bind_eq_Some_conv split: if_splits)
  have o: "mem_phys_slab_get_order PAGE_SIZE = 12" by (rule get_order_eqI) (simp_all add: slab_consts)
  consider "b = PHYS_NULL" "st1 = st" | "granted win PAGE_SIZE g st b st1" using alloc_on_behalf_safe [OF al inv(1)] by blast
  then show ?thesis
  proof cases
    case 2
    then obtain r where r: "phys_inv win (add_block g st r (b, 12)) st1" and b: "b \<noteq> PHYS_NULL" and sh: "same_shape st st1" and kp: "keeps g st st1"
      by (auto simp: granted_def o)
    let ?g = "add_block g st r (b, 12)"
    have "(b, 12) \<in># gh_rec ?g r" using inv(2) by (auto simp: add_block_def)
    then have own: "page_owned ?g b" by (auto simp: page_owned_def)
    have live: "(b, 12) \<in># gh_live ?g r" by (simp add: add_block_def)
    have p: "phys_inv win ?g st'" unfolding st' if_not_P [OF b]
      by (rule client_change [OF r live]) (auto simp: slab_consts)
    have dj: "cells (b, 12) \<inter> cells (a, 12) = {}" if ow: "page_owned g a" for a
    proof -
      obtain q where "(a, 12) \<in># gh_rec g q" using ow by (auto simp: page_owned_def)
      then have "(a, 12) \<in># gh_live g q" using mset_subset_eqD [OF phys_invD(4) [OF inv(1)]] by blast
      then show ?thesis using granted_disj(1) [OF 2] blk_disj_cells by (simp add: o)
    qed
    then have "\<not> page_owned g b" using cells_nonempty [of "(b, 12)"] by blast
    moreover have "ph_mem st' w = ph_mem st w" if ow: "page_owned g a" and w: "w \<in> {a..<a + PAGE_SIZE}" for a w
    proof -
      obtain q where "(a, 12) \<in># gh_rec g q" using ow by (auto simp: page_owned_def)
      then have "(a, 12) \<in># gh_live g q" using mset_subset_eqD [OF phys_invD(4) [OF inv(1)]] by blast
      then have "ph_mem st1 w = ph_mem st w" using kp w unfolding keeps_def by (fastforce simp: slab_consts)
      moreover have "w \<notin> {b..<b + PAGE_SIZE}" using dj [OF ow] w by (auto simp: cells_def slab_consts)
      ultimately show ?thesis by (auto simp: st')
    qed
    moreover have "page_owned ?g a" if "page_owned g a" for a
      using that unfolding page_owned_def add_block_def by (auto split: if_splits)
    ultimately show ?thesis using own p b sh inv(2) by (auto simp: st' same_shape_def slab_consts)
  qed (use st' in simp)
qed

text \<open>A new page enters the cache.\<close>

lemma cache_page:
  assumes inv: "paging_inv N win cr3 g T (m, st)" and i: "i < N" "zeroed_pages m ! i = PHYS_NULL"
    and a: "mem_paging_new_zeroed win numa_id st = Some (b, st')"
  defines "m' \<equiv> m\<lparr>zeroed_pages := (zeroed_pages m)[i := b]\<rparr>"
  shows "\<exists>g'. paging_inv N win cr3 g' T (m', st')" "\<And>p t w. T p = Some t \<Longrightarrow> w \<in> {t..<t + PAGE_SIZE} \<Longrightarrow> ph_mem st' w = ph_mem st w"
proof -
  note I = paging_invD [OF inv] and M = mapper_invD [OF paging_invD(5) [OF inv]]
  have "(\<exists>g'. paging_inv N win cr3 g' T (m', st')) \<and> (\<forall>p t w. T p = Some t \<longrightarrow> w \<in> {t..<t + PAGE_SIZE} \<longrightarrow> ph_mem st' w = ph_mem st w)"
  proof (cases "b = PHYS_NULL")
    case True
    then have "st' = st" using new_zeroed [OF I(1,2) a] by (auto simp: slab_consts)
    moreover have "m' = m" using True i M(1) [OF i(1)] by (simp add: m'_def list_update_same_conv)
    ultimately show ?thesis using inv by auto
  next
    case False
    then obtain g' where b: "b \<noteq> 0" "ph_info st' \<noteq> None" "\<not> page_owned g b" "\<forall>w \<in> {b..<b + PAGE_SIZE}. ph_mem st' w = 0"
      and kp: "\<And>a w. page_owned g a \<Longrightarrow> w \<in> {a..<a + PAGE_SIZE} \<Longrightarrow> ph_mem st' w = ph_mem st w"
      and g': "phys_inv win g' st'" "page_owned g' b" "\<And>a. page_owned g a \<Longrightarrow> page_owned g' a"
      using new_zeroed [OF I(1,2) a] by blast
    have tk: "ph_mem st' w = ph_mem st w" if "T p = Some t" "w \<in> {t..<t + PAGE_SIZE}" for p t w using kp [OF I(4) [OF that(1)] that(2)] .
    have "ph_mem st' (t + 8 * x) = ph_mem st (t + 8 * x)" if "T p = Some t" "slot p x" for p t x
      by (rule tk [OF that(1)]) (use that(2) slot_in_page in \<open>auto simp: slot_def\<close>)
    then have "tables_inv N cr3 T (ph_mem st')" using I(3) unfolding tables_inv_def by simp
    moreover have "mapper_inv N g' T (zeroed_pages m') (ph_mem st')"
      unfolding mapper_inv_def
    proof (intro conjI allI impI ballI)
      have len: "N \<le> length (zeroed_pages m)" by (rule M(1) [OF i(1)])
      then have nth: "zeroed_pages m' ! j = (if j = i then b else zeroed_pages m ! j)" if "j < N" for j
        using that i(1) by (simp add: m'_def nth_list_update)
      have nb: "zeroed_pages m ! j \<noteq> b" if "j < N" "zeroed_pages m ! j \<noteq> 0" for j using M(2) [OF that] b(3) by metis
      have Tb: "T p \<noteq> Some b" for p using I(4) b(3) by blast
      show "N \<le> length (zeroed_pages m')" using len by (simp add: m'_def)
      show "page_owned g' (zeroed_pages m' ! j)" "T q \<noteq> Some (zeroed_pages m' ! j)"
        if "j < N" "zeroed_pages m' ! j \<noteq> 0" for j q
        using that M(2,3) [OF that(1)] g'(2,3) Tb nth [OF that(1)] by (auto split: if_splits)
      show "ph_mem st' w = 0" if j: "j < N" "zeroed_pages m' ! j \<noteq> 0" "w \<in> {zeroed_pages m' ! j..<zeroed_pages m' ! j + PAGE_SIZE}" for j w
        using j b(4) kp [OF M(2) [OF j(1)], of w] M(4) [OF j(1), of w] nth [OF j(1)] by (cases "j = i") simp_all
      show "zeroed_pages m' ! j \<noteq> zeroed_pages m' ! k" if jk: "j < N" "k < N" "j \<noteq> k" "zeroed_pages m' ! j \<noteq> 0" for j k
        using jk M(5) [OF jk(1,2)] nth [OF jk(1)] nth [OF jk(2)] nb [OF jk(1)] nb [OF jk(2)] b(1) i(2)
        by (auto simp: slab_consts split: if_splits)
    qed
    ultimately show ?thesis using g' b(2) I(4) tk by (auto simp: paging_inv_def)
  qed
  then show "\<exists>g'. paging_inv N win cr3 g' T (m', st')" "\<And>p t w. T p = Some t \<Longrightarrow> w \<in> {t..<t + PAGE_SIZE} \<Longrightarrow> ph_mem st' w = ph_mem st w"
    by blast+
qed

text \<open>The leaf entries of an unchanged set of tables.\<close>

lemma leaf_kept:
  assumes "\<And>p t w. T p = Some t \<Longrightarrow> w \<in> {t..<t + PAGE_SIZE} \<Longrightarrow> mem' w = mem w" "y < 512"
  shows "leaf T mem' q y = leaf T mem q y"
  using assms(1) [of q _ "_ + 8 * y"] slot_in_page [OF assms(2)] by (auto simp: leaf_def split: option.splits)

lemma regen_pages_spec:
  assumes "regen_pages win numa_id is (m, st) = Some (ok, m', st')" "paging_inv N win cr3 g T (m, st)" "\<forall>i \<in> set is. i < N"
  shows "(\<exists>g'. paging_inv N win cr3 g' T (m', st')) \<and> (\<forall>p t w. T p = Some t \<longrightarrow> w \<in> {t..<t + PAGE_SIZE} \<longrightarrow> ph_mem st' w = ph_mem st w) \<and>
    (\<forall>i < N. zeroed_pages m ! i \<noteq> 0 \<longrightarrow> zeroed_pages m' ! i \<noteq> 0) \<and> (ok \<longrightarrow> (\<forall>i \<in> set is. zeroed_pages m' ! i \<noteq> 0))"
  using assms
proof (induction "is" arbitrary: m st g)
  case (Cons i js)
  have i: "i < N" using Cons.prems(3) by simp
  have len: "N \<le> length (zeroed_pages m)" using mapper_invD(1) [OF paging_invD(5) [OF Cons.prems(2)] i] .
  show ?case
  proof (cases "zeroed_pages m ! i = PHYS_NULL")
    case True
    then obtain b st1 where a: "mem_paging_new_zeroed win numa_id st = Some (b, st1)"
      and rest: "(if b = PHYS_NULL then Some (False, m\<lparr>zeroed_pages := (zeroed_pages m)[i := b]\<rparr>, st1)
        else regen_pages win numa_id js (m\<lparr>zeroed_pages := (zeroed_pages m)[i := b]\<rparr>, st1)) = Some (ok, m', st')"
      using Cons.prems(1) by (auto simp: bind_eq_Some_conv Let_def)
    let ?m = "m\<lparr>zeroed_pages := (zeroed_pages m)[i := b]\<rparr>"
    note C = cache_page [OF Cons.prems(2) i True a]
    have keep: "\<forall>j < N. zeroed_pages m ! j \<noteq> 0 \<longrightarrow> zeroed_pages ?m ! j \<noteq> 0"
    proof (intro allI impI)
      fix j assume "j < N" "zeroed_pages m ! j \<noteq> 0"
      then have "i \<noteq> j" using True by (auto simp: slab_consts)
      then show "zeroed_pages ?m ! j \<noteq> 0" using \<open>zeroed_pages m ! j \<noteq> 0\<close> by simp
    qed
    show ?thesis
    proof (cases "b = PHYS_NULL")
      case True
      then show ?thesis using rest C keep by auto
    next
      case False
      obtain g1 where "paging_inv N win cr3 g1 T (?m, st1)" using C(1) by blast
      then have IH: "(\<exists>g'. paging_inv N win cr3 g' T (m', st')) \<and> (\<forall>p t w. T p = Some t \<longrightarrow> w \<in> {t..<t + PAGE_SIZE} \<longrightarrow> ph_mem st' w = ph_mem st1 w) \<and>
          (\<forall>i < N. zeroed_pages ?m ! i \<noteq> 0 \<longrightarrow> zeroed_pages m' ! i \<noteq> 0) \<and> (ok \<longrightarrow> (\<forall>i \<in> set js. zeroed_pages m' ! i \<noteq> 0))"
        using Cons.IH [of ?m st1 g1] rest False Cons.prems(3) by simp
      have "zeroed_pages ?m ! i \<noteq> 0" using False i len by (simp add: slab_consts)
      then have "zeroed_pages m' ! i \<noteq> 0" using IH i by blast
      moreover have "ph_mem st' w = ph_mem st w" if "T p = Some t" "w \<in> {t..<t + PAGE_SIZE}" for p t w
        using IH C(2) [OF that] that by metis
      ultimately show ?thesis using IH keep by auto
    qed
  next
    case False
    then show ?thesis using Cons by (auto simp: slab_consts)
  qed
qed auto

section \<open>Mapping\<close>

lemma map_walk_spec:
  assumes "map_walk vaddr n cur (m, st) = (t, m', st')" "paging_inv N win cr3 g T (m, st)" "T p = Some cur" "length p + n = N"
    and "p = [] \<Longrightarrow> n \<noteq> 0 \<Longrightarrow> mem_paging_get_lvl_index vaddr (n + 1) < 256" and "\<forall>i < n. zeroed_pages m ! i \<noteq> 0"
  shows "\<exists>T'. paging_inv N win cr3 g T' (m', st') \<and> T' (p @ path vaddr n) = Some t \<and>
    (\<forall>q y. length q = N \<longrightarrow> y < 512 \<longrightarrow> leaf T' (ph_mem st') q y = leaf T (ph_mem st) q y)"
  using assms
proof (induction n arbitrary: cur m st T p)
  case 0
  then show ?case by auto
next
  case (Suc n)
  let ?x = "mem_paging_get_lvl_index vaddr (n + 2)"
  have slot: "slot p ?x" using Suc.prems(5) by (simp add: slot_def index_less)
  have pN: "length p < N" using Suc.prems(4) by simp
  show ?case
  proof (cases "ph_mem st (cur + 8 * ?x) = 0")
    case True
    let ?z = "zeroed_pages m ! n"
    let ?T = "T(p @ [?x] \<mapsto> ?z)" and ?m = "m\<lparr>zeroed_pages := (zeroed_pages m)[n := PHYS_NULL]\<rparr>"
    let ?st = "put_mem (cur + 8 * ?x) (mk_entry ?z (FLAG_PRESENT OR FLAG_WRITABLE OR FLAGS_USER)) st"
    have n: "n < N" "?z \<noteq> 0" using Suc.prems(4,6) by auto
    note A = add_table [OF Suc.prems(2,3) pN slot True n]
    have w: "map_walk vaddr n ?z (?m, ?st) = (t, m', st')" using Suc.prems(1) True by (simp add: Let_def)
    have "\<exists>T'. paging_inv N win cr3 g T' (m', st') \<and> T' ((p @ [?x]) @ path vaddr n) = Some t \<and>
        (\<forall>q y. length q = N \<longrightarrow> y < 512 \<longrightarrow> leaf T' (ph_mem st') q y = leaf ?T (ph_mem ?st) q y)"
      by (rule Suc.IH [OF w A(1)]) (use Suc.prems(4,6) in auto)
    then show ?thesis using A(2) by auto
  next
    case False
    then have w: "map_walk vaddr n (entry_addr (ph_mem st (cur + 8 * ?x))) (m, st) = (t, m', st')" using Suc.prems(1) by (simp add: Let_def)
    have "T (p @ [?x]) = Some (entry_addr (ph_mem st (cur + 8 * ?x)))"
      using tables_invD(3) [OF paging_invD(3) [OF Suc.prems(2)] Suc.prems(3) pN slot] False by simp
    from Suc.IH [OF w Suc.prems(2) this] show ?thesis using Suc.prems(4,6) by auto
  qed
qed

text \<open>Mapping a page, over the ghost tables.\<close>

lemma map_at_spec:
  assumes inv: "paging_inv (mapper_pages five) win (rt_cr3 root) g T (m, st)" and v: "low_page (mapper_pages five) vaddr"
    and a: "mem_paging_map_at five win numa_id root vaddr paddr perms (m, st) = Some (ok, m', st')"
  shows "\<exists>g' T'. paging_inv (mapper_pages five) win (rt_cr3 root) g' T' (m', st') \<and>
    (\<forall>q y. length q = mapper_pages five \<longrightarrow> y < 512 \<longrightarrow> leaf T' (ph_mem st') q y =
      (if ok \<and> q = path vaddr (mapper_pages five) \<and> y = mem_paging_get_lvl_index vaddr 1 then mk_entry paddr (perms_mask perms)
       else leaf T (ph_mem st) q y))"
proof -
  let ?N = "mapper_pages five" and ?y = "mem_paging_get_lvl_index vaddr 1"
  obtain ok1 m1 st1 where r: "regen_pages win numa_id [0..<?N] (m, st) = Some (ok1, m1, st1)"
    and rest: "(if \<not> ok1 then Some (False, m1, st1) else
      (let (current_phys, mapper, st) = map_walk vaddr (paging_levels five - 1) (rt_cr3 root) (m1, st1) in
        Some (True, mapper, put_mem (current_phys + 8 * ?y) (mk_entry paddr (perms_mask perms)) st))) = Some (ok, m', st')"
    using a by (auto simp: mem_paging_map_at_def mem_paging_regen_cache_def bind_eq_Some_conv split: if_splits)
  note R = regen_pages_spec [OF r inv]
  obtain g1 where g1: "paging_inv ?N win (rt_cr3 root) g1 T (m1, st1)" using R by auto
  have keep: "leaf T (ph_mem st1) q y = leaf T (ph_mem st) q y" if "y < 512" for q y
    by (rule leaf_kept [OF _ that]) (use R in auto)
  show ?thesis
  proof (cases ok1)
    case False
    then show ?thesis using rest g1 keep by auto
  next
    case True
    obtain t m2 st2 where w: "map_walk vaddr ?N (rt_cr3 root) (m1, st1) = (t, m2, st2)" by (metis prod_cases3)
    have "paging_levels five - 1 = ?N" by (simp add: paging_levels_def mapper_pages_def)
    then have res: "ok" "m' = m2" "st' = put_mem (t + 8 * ?y) (mk_entry paddr (perms_mask perms)) st2" using rest True w by auto
    have "\<exists>T'. paging_inv ?N win (rt_cr3 root) g1 T' (m2, st2) \<and> T' ([] @ path vaddr ?N) = Some t \<and>
        (\<forall>q y. length q = ?N \<longrightarrow> y < 512 \<longrightarrow> leaf T' (ph_mem st2) q y = leaf T (ph_mem st1) q y)"
      by (rule map_walk_spec [OF w g1 tables_invD(1) [OF paging_invD(3) [OF g1]]]) (use R True low_index [OF v] in auto)
    then obtain T' where T': "paging_inv ?N win (rt_cr3 root) g1 T' (m2, st2)" "T' (path vaddr ?N) = Some t"
        "\<And>q y. length q = ?N \<Longrightarrow> y < 512 \<Longrightarrow> leaf T' (ph_mem st2) q y = leaf T (ph_mem st1) q y"
      by auto
    let ?e = "mk_entry paddr (perms_mask perms)"
    have L: "paging_inv ?N win (rt_cr3 root) g1 T' (m', st')"
      unfolding res by (rule put_leaf(1) [OF T'(1,2) path_length index_less])
    have "leaf T' (ph_mem st') q y = (if (q, y) = (path vaddr ?N, ?y) then ?e else leaf T' (ph_mem st2) q y)" if "y < 512" for q y
      unfolding res by (rule put_leaf(2) [OF T'(1,2) path_length index_less that])
    then show ?thesis using L T'(3) keep res(1)
      by (intro exI [of _ g1] exI [of _ T']) simp
  qed
qed

section \<open>Unmapping\<close>

lemma unmap_walk_table: "table_walk vaddr n cur (ph_mem st) = Some t \<Longrightarrow> unmap_walk vaddr n cur st = t"
  by (induction n arbitrary: cur) (auto simp: Let_def split: if_splits)

lemma entry_addr_0: "entry_addr 0 = 0"
  by (simp add: entry_addr_def)

text \<open>Without a table on the way the walk goes on in the page at the physical address zero.\<close>

lemma unmap_walk_zero:
  assumes "ph_mem st (cur + 8 * mem_paging_get_lvl_index vaddr (n + 2)) = 0"
  shows "unmap_walk vaddr (Suc n) cur st = unmap_walk vaddr n 0 st"
  using assms by (simp add: entry_addr_0)

definition paging_ok :: "bool \<Rightarrow> addr \<Rightarrow> mem_paging_root \<Rightarrow> mem_paging_mapper \<times> phys_state \<Rightarrow> bool" where
  "paging_ok five win root s \<longleftrightarrow> (\<exists>g T. paging_inv (mapper_pages five) win (rt_cr3 root) g T s)"

abbreviation translate :: "bool \<Rightarrow> mem_paging_root \<Rightarrow> phys_state \<Rightarrow> addr \<Rightarrow> entry" where
  "translate five root st \<equiv> translation (mapper_pages five) (rt_cr3 root) (ph_mem st)"

lemma map_translate:
  assumes ok: "paging_ok five win root (m, st)" and v: "low_page (mapper_pages five) vaddr"
    and a: "mem_paging_map_at five win numa_id root vaddr paddr perms (m, st) = Some (b, m', st')"
  shows "paging_ok five win root (m', st')" "low_page (mapper_pages five) u \<Longrightarrow>
    translate five root st' u = (if b \<and> u = vaddr then mk_entry paddr (perms_mask perms) else translate five root st u)"
proof -
  let ?N = "mapper_pages five"
  obtain g T where inv: "paging_inv ?N win (rt_cr3 root) g T (m, st)" using ok by (auto simp: paging_ok_def)
  obtain g' T' where inv': "paging_inv ?N win (rt_cr3 root) g' T' (m', st')"
    and l: "\<And>q y. length q = ?N \<Longrightarrow> y < 512 \<Longrightarrow> leaf T' (ph_mem st') q y =
      (if b \<and> q = path vaddr ?N \<and> y = mem_paging_get_lvl_index vaddr 1 then mk_entry paddr (perms_mask perms) else leaf T (ph_mem st) q y)"
    using map_at_spec [OF inv v a] by blast
  show "paging_ok five win root (m', st')" using inv' by (auto simp: paging_ok_def)
  show "translate five root st' u = (if b \<and> u = vaddr then mk_entry paddr (perms_mask perms) else translate five root st u)"
    if u: "low_page ?N u"
  proof -
    have "path u ?N = path vaddr ?N \<and> mem_paging_get_lvl_index u 1 = mem_paging_get_lvl_index vaddr 1 \<longleftrightarrow> u = vaddr"
      using low_page_inj [OF u v] by blast
    then show ?thesis
      unfolding translation_leaf [OF paging_invD(3) [OF inv'] u] translation_leaf [OF paging_invD(3) [OF inv] u]
        l [OF path_length index_less] by auto
  qed
qed

lemma unmap_translate:
  assumes ok: "paging_ok five win root (m, st)" and v: "low_page (mapper_pages five) vaddr" "vaddr < win"
    and t: "translate five root st vaddr \<noteq> 0"
  shows "\<exists>st'. mem_paging_unmap_at five win root vaddr st = Some (entry_addr (translate five root st vaddr), st') \<and>
    paging_ok five win root (m, st') \<and> (\<forall>u. low_page (mapper_pages five) u \<longrightarrow>
      translate five root st' u = (if u = vaddr then 0 else translate five root st u))"
proof -
  let ?N = "mapper_pages five" and ?y = "mem_paging_get_lvl_index vaddr 1"
  obtain g T where inv: "paging_inv ?N win (rt_cr3 root) g T (m, st)" using ok by (auto simp: paging_ok_def)
  note I = paging_invD [OF inv]
  obtain w where w: "table_walk vaddr ?N (rt_cr3 root) (ph_mem st) = Some w" "translate five root st vaddr = ph_mem st (w + 8 * ?y)"
    using t by (auto simp: translation_def split: option.splits)
  have T: "T (path vaddr ?N) = Some w"
    using table_walk_path [OF I(3) tables_invD(1) [OF I(3)], of ?N vaddr] low_index [OF v(1)] w(1) by simp
  let ?st = "put_mem (w + 8 * ?y) 0 st"
  have lv: "paging_levels five - 1 = ?N" by (simp add: paging_levels_def mapper_pages_def)
  have "mem_paging_unmap_at five win root vaddr st = Some (entry_addr (ph_mem st (w + 8 * ?y)), ?st)"
    unfolding mem_paging_unmap_at_def lv using v unmap_walk_table [OF w(1)] by (simp add: low_page_def Let_def mod_eq_0_iff_dvd)
  then have "mem_paging_unmap_at five win root vaddr st = Some (entry_addr (translate five root st vaddr), ?st)" using w(2) by simp
  moreover have inv': "paging_inv ?N win (rt_cr3 root) g T (m, ?st)" by (rule put_leaf(1) [OF inv T path_length index_less])
  moreover have "translate five root ?st u = (if u = vaddr then 0 else translate five root st u)" if u: "low_page ?N u" for u
  proof -
    have "leaf T (ph_mem ?st) (path u ?N) (mem_paging_get_lvl_index u 1) =
        (if (path u ?N, mem_paging_get_lvl_index u 1) = (path vaddr ?N, ?y) then 0 else leaf T (ph_mem st) (path u ?N) (mem_paging_get_lvl_index u 1))"
      by (rule put_leaf(2) [OF inv T path_length index_less index_less])
    moreover have "path u ?N = path vaddr ?N \<and> mem_paging_get_lvl_index u 1 = ?y \<longleftrightarrow> u = vaddr"
      using low_page_inj [OF u v(1)] by blast
    ultimately show ?thesis
      unfolding translation_leaf [OF paging_invD(3) [OF inv'] u] translation_leaf [OF I(3) u] by auto
  qed
  ultimately show ?thesis by (auto simp: paging_ok_def)
qed

text \<open>With a full cache no memory is needed.\<close>

lemma regen_full: "\<forall>i \<in> set is. zeroed_pages m ! i \<noteq> 0 \<Longrightarrow> regen_pages win numa_id is (m, st) = Some (True, m, st)"
  by (induction "is") (auto simp: slab_consts)

text \<open>A new root has an empty lower half.\<close>

definition empty_mapper :: mem_paging_mapper where
  "empty_mapper = \<lparr>zeroed_pages = replicate 4 0\<rparr>"

lemma copy_upper:
  assumes "phys_inv win g st" "page_owned g t" "set is \<subseteq> {256..<512}"
  shows "phys_inv win g (fold (\<lambda>i st. put_mem (t + 8 * i) (ph_mem st (cr3 + 8 * i)) st) is st) \<and>
    ph_info (fold (\<lambda>i st. put_mem (t + 8 * i) (ph_mem st (cr3 + 8 * i)) st) is st) = ph_info st \<and>
    (\<forall>x < 256. ph_mem (fold (\<lambda>i st. put_mem (t + 8 * i) (ph_mem st (cr3 + 8 * i)) st) is st) (t + 8 * x) = ph_mem st (t + 8 * x))"
  using assms
proof (induction "is" arbitrary: st)
  case (Cons i js)
  then have "phys_inv win g (put_mem (t + 8 * i) (ph_mem st (cr3 + 8 * i)) st)" by (intro owned_write) auto
  from Cons.IH [OF this Cons.prems(2)] Cons.prems(3) show ?case by auto
qed simp

lemma new_root_ok:
  assumes run: "run_inv win objs st" and a: "mem_paging_new_root win numa_id cr3 st = Some (Some (p, rt), st')"
  shows "paging_ok five win rt (empty_mapper, st')" "low_page (mapper_pages five) u \<Longrightarrow> translate five rt st' u = 0"
proof -
  obtain st1 t st2 where h: "mem_heap_alloc win numa_id SIZEOF_mem_paging_root st = Some (p, st1)" "p \<noteq> 0"
    and z: "mem_paging_new_zeroed win numa_id st1 = Some (t, st2)" "t \<noteq> PHYS_NULL" and rt: "rt_cr3 rt = t"
    and st': "st' = copy_upper_half t cr3 st2"
    using a by (auto simp: mem_paging_new_root_def bind_eq_Some_conv split: if_splits)
  have "run_inv win (insert (p, SIZEOF_mem_paging_root) objs) st1" using run_alloc [OF run] h by (auto simp: mem_heap_alloc_def)
  then obtain g h where "heap_inv win g h st1" by (auto simp: run_inv_def)
  then have "phys_inv win g st1" "ph_info st1 \<noteq> None" by (rule heap_invD)+
  from new_zeroed [OF this z(1)] z(2) obtain g' where g': "phys_inv win g' st2" "page_owned g' t"
    and st2: "ph_info st2 \<noteq> None" "\<forall>w \<in> {t..<t + PAGE_SIZE}. ph_mem st2 w = 0" by blast
  have C: "phys_inv win g' st'" "ph_info st' = ph_info st2" "\<forall>x < 256. ph_mem st' (t + 8 * x) = ph_mem st2 (t + 8 * x)"
    unfolding st' copy_upper_half_def using copy_upper [OF g', of "[256..<512]"] by (auto simp del: upt_conv_Cons upt_rec_numeral)
  let ?T = "[[] \<mapsto> t] :: tables" and ?N = "mapper_pages five"
  have "ph_mem st' (t + 8 * x) = 0" if "x < 256" for x
  proof -
    have "t + 8 * x \<in> {t..<t + PAGE_SIZE}" using slot_in_page [of x] that by simp
    then have "ph_mem st2 (t + 8 * x) = 0" using st2(2) by blast
    then show ?thesis using C(3) that by simp
  qed
  then have ti: "tables_inv ?N t ?T (ph_mem st')" by (auto simp: tables_inv_def slot_def split: if_splits)
  moreover have "mapper_inv ?N g' ?T (zeroed_pages empty_mapper) (ph_mem st')"
    by (auto simp: mapper_inv_def mapper_pages_def empty_mapper_def)
  ultimately have "paging_inv ?N win t g' ?T (empty_mapper, st')"
    using C g'(2) st2(1) by (auto simp: paging_inv_def split: if_splits)
  then show "paging_ok five win rt (empty_mapper, st')" unfolding paging_ok_def rt by blast
  have "path u ?N \<noteq> []" using path_length [of u ?N] by (auto simp: mapper_pages_def split: if_splits)
  then show "translate five rt st' u = 0" if "low_page ?N u"
    unfolding rt translation_leaf [OF ti that] by (simp add: leaf_def)
qed

section \<open>Properties\<close>

text \<open>C23: page tables are a map from pages to entries. In a hierarchy whose tables are apart, mapping a page of the lower half
  that returns keeps the hierarchy intact; if it succeeds the page has the given address and rights and
  every other page its old translation, if not no translation changes; with a full cache of zeroed pages it succeeds. Unmapping the page again
  returns its address and restores the absence of a translation, with every other page as before the mapping.\<close>

theorem paging_map_unmap:
  assumes ok: "paging_ok five win root (m, st)" and v: "low_page (mapper_pages five) vaddr" "vaddr < win"
    and p: "PAGE_SIZE dvd paddr" "paddr < 2 ^ 52"
  shows "((\<forall>i < mapper_pages five. zeroed_pages m ! i \<noteq> 0) \<longrightarrow>
      (\<exists>m' st'. mem_paging_map_at five win numa_id root vaddr paddr perms (m, st) = Some (True, m', st'))) \<and>
    (\<forall>b m' st'. mem_paging_map_at five win numa_id root vaddr paddr perms (m, st) = Some (b, m', st') \<longrightarrow>
      paging_ok five win root (m', st') \<and>
      (\<forall>u. low_page (mapper_pages five) u \<longrightarrow>
        translate five root st' u = (if b \<and> u = vaddr then mk_entry paddr (perms_mask perms) else translate five root st u)) \<and>
      (b \<longrightarrow> (\<exists>st''. mem_paging_unmap_at five win root vaddr st' = Some (paddr, st'') \<and> paging_ok five win root (m', st'') \<and>
        (\<forall>u. low_page (mapper_pages five) u \<longrightarrow> translate five root st'' u = (if u = vaddr then 0 else translate five root st u)))))"
proof (intro conjI allI impI)
  assume "\<forall>i < mapper_pages five. zeroed_pages m ! i \<noteq> 0"
  then have "mem_paging_regen_cache five win numa_id (m, st) = Some (True, m, st)"
    unfolding mem_paging_regen_cache_def by (intro regen_full) simp
  then show "\<exists>m' st'. mem_paging_map_at five win numa_id root vaddr paddr perms (m, st) = Some (True, m', st')"
    using v by (auto simp: mem_paging_map_at_def low_page_def mod_eq_0_iff_dvd split: prod.splits)
next
  fix b m' st'
  assume a: "mem_paging_map_at five win numa_id root vaddr paddr perms (m, st) = Some (b, m', st')"
  note M = map_translate [OF ok v(1) a]
  show "paging_ok five win root (m', st')" by (rule M(1))
  show "translate five root st' u = (if b \<and> u = vaddr then mk_entry paddr (perms_mask perms) else translate five root st u)"
    if "low_page (mapper_pages five) u" for u by (rule M(2) [OF that])
  assume b: b
  let ?e = "mk_entry paddr (perms_mask perms)"
  have t: "translate five root st' vaddr = ?e" using M(2) [OF v(1)] b by simp
  have e: "?e \<noteq> 0" "entry_addr ?e = paddr" by (rule mk_entry_pos [OF flags_ok(2)], rule entry_addr_mk [OF p flags_ok(1)])
  obtain st'' where "mem_paging_unmap_at five win root vaddr st' = Some (paddr, st'')" "paging_ok five win root (m', st'')"
      "\<forall>u. low_page (mapper_pages five) u \<longrightarrow> translate five root st'' u = (if u = vaddr then 0 else translate five root st' u)"
    using unmap_translate [OF M(1) v] t e by auto
  then show "\<exists>st''. mem_paging_unmap_at five win root vaddr st' = Some (paddr, st'') \<and> paging_ok five win root (m', st'') \<and>
        (\<forall>u. low_page (mapper_pages five) u \<longrightarrow> translate five root st'' u = (if u = vaddr then 0 else translate five root st u))"
    using M(2) by auto
qed

text \<open>An empty hierarchy on the example machine.\<close>

definition boot_root :: mem_paging_root where
  "boot_root = \<lparr>rt_refcount = 1, rt_cr3 = 2134016\<rparr>"

lemma boot_paging_ok: "paging_ok five boot_win boot_root (empty_mapper, boot_used)"
proof -
  obtain g where g: "phys_inv boot_win g boot_used" "gh_rec g (boot_win + 2097152) = {#(2134016, 12)#}" using boot_ghost by blast
  let ?T = "[[] \<mapsto> 2134016] :: tables"
  have "page_owned g 2134016" unfolding page_owned_def by (rule exI [of _ "boot_win + 2097152"]) (simp add: g(2))
  moreover have "ph_mem boot_used w = 0" for w by (simp add: boot_used_def boot_run_def boot_done_def)
  then have "tables_inv (mapper_pages five) 2134016 ?T (ph_mem boot_used)" by (auto simp: tables_inv_def split: if_splits)
  moreover have "mapper_inv (mapper_pages five) g ?T (replicate 4 0) (ph_mem boot_used)"
    by (auto simp: mapper_inv_def mapper_pages_def)
  moreover have "ph_info boot_used \<noteq> None" by (simp add: boot_used_def boot_run_def)
  ultimately have "paging_inv (mapper_pages five) boot_win (rt_cr3 boot_root) g ?T (empty_mapper, boot_used)"
    using g(1) by (auto simp: paging_inv_def boot_root_def empty_mapper_def split: if_splits)
  then show ?thesis by (auto simp: paging_ok_def)
qed

lemma boot_zeroed:
  assumes "brk + 4096 \<le> 1044480" "length i = 768"
  shows "mem_paging_new_zeroed boot_win 0 (boot_run refs brk (Some i)) = Some (brk + 2101248, boot_run (inc64 refs) (brk + 4096)
    (Some (i[(brk + 2101248) div 4096 := Some \<lparr>po_range = boot_win + 2097152, po_size = 4096, po_node_id = 0\<rparr>])))"
proof -
  have "mem_phys_slab_get_order 4096 = 12" by (rule get_order_eqI) simp_all
  moreover have "ph_mem (boot_run r b j) a = 0" "(boot_run r b j)\<lparr>ph_mem := (\<lambda>_. 0)\<rparr> = boot_run r b j" for r b j a
    by (simp_all add: boot_run_def boot_done_def)
  ultimately show ?thesis
    using boot_alloc [of 4096 12 brk "Some i" refs] assms by (simp add: mem_paging_new_zeroed_def slab_consts cong: if_cong)
qed

lemma boot_map:
  "\<exists>m' st'. mem_paging_map_at False boot_win 0 boot_root 4096 3141632 MEM_PAGING_WRITABLE (empty_mapper, boot_used) = Some (True, m', st')"
proof -
  have "[0..<mapper_pages False] = [0, 1, 2]" by (simp add: mapper_pages_def upt_rec)
  then have "\<exists>m st. mem_paging_regen_cache False boot_win 0 (empty_mapper, boot_used) = Some (True, m, st)"
    by (simp add: mem_paging_regen_cache_def empty_mapper_def boot_used_def boot_zeroed boot_info_def slab_consts Let_def)
  then show ?thesis by (auto simp: mem_paging_map_at_def boot_win_def slab_consts split: prod.splits)
qed

theorem paging_map_unmap_witness:
  "\<exists>m' st' st''. mem_paging_map_at False boot_win 0 boot_root 4096 3141632 MEM_PAGING_WRITABLE (empty_mapper, boot_used) = Some (True, m', st') \<and>
     translate False boot_root st' 4096 = mk_entry 3141632 (perms_mask MEM_PAGING_WRITABLE) \<and>
     mem_paging_unmap_at False boot_win boot_root 4096 st' = Some (3141632, st'') \<and> translate False boot_root st'' 4096 = 0"
proof -
  obtain m' st' where a: "mem_paging_map_at False boot_win 0 boot_root 4096 3141632 MEM_PAGING_WRITABLE (empty_mapper, boot_used) = Some (True, m', st')"
    using boot_map by blast
  have v: "low_page (mapper_pages False) 4096" "(4096::nat) < boot_win" by (simp_all add: low_page_def mapper_pages_def slab_consts boot_win_def)
  have p: "PAGE_SIZE dvd 3141632" "(3141632::nat) < 2 ^ 52" by (simp_all add: slab_consts)
  show ?thesis using paging_map_unmap [OF boot_paging_ok v p, THEN conjunct2, rule_format, OF a] a v(1) by auto
qed

end
