(* ===== verification/Invtlb.thy ===== *)
theory Invtlb
  imports Prelude
begin

text \<open>
  \<^verbatim>\<open>mem/virt/invtlb.c\<close>: global invalidation of translation caches. A request flips the pending state and counts the
  cores that are not idle; each of them acknowledges when it next loads \<open>CR3\<close> or goes idle, and the last one completes the
  generation. Every operation of a core is one step: the accesses outside the lock are to the entry of the
  core itself and to the atomic counter. Counters wrap at 64 bits.
\<close>

definition MEM_VIRT_INVTLB_STATE_IDLE :: nat where
  "MEM_VIRT_INVTLB_STATE_IDLE = 2"

record invtlb =
  tlb_pending_state :: nat
  tlb_states :: "nat list"
  tlb_idle_cores :: nat
  tlb_pending_tlb_updates :: nat
  tlb_pending :: bool

datatype invtlb_ack =
    MEM_VIRT_INVTLB_NO_INVALIDATION_REQUIRED
  | MEM_VIRT_INVTLB_FLUSH_CR3
  | MEM_VIRT_INVTLB_GEN_UPDATE_PENDING

section \<open>Operations\<close>

definition mem_virt_invtlb_flip_state :: "nat \<Rightarrow> nat" where
  "mem_virt_invtlb_flip_state pending = 1 - pending"

definition mem_virt_invtlb_flip_states :: "invtlb \<Rightarrow> invtlb" where
  "mem_virt_invtlb_flip_states s = s\<lparr>tlb_pending_state := 1 - tlb_pending_state s\<rparr>"

text \<open>The state table of \<open>max_cpus\<close> cores; its allocation does not fail.\<close>

definition mem_virt_invtlb_init :: "nat \<Rightarrow> invtlb" where
  "mem_virt_invtlb_init max_cpus = \<lparr>tlb_pending_state = 0, tlb_states = replicate max_cpus 0, tlb_idle_cores = 0,
     tlb_pending_tlb_updates = 0, tlb_pending = False\<rparr>"

definition mem_virt_invtlb_ack :: "nat \<Rightarrow> invtlb \<Rightarrow> invtlb_ack \<times> invtlb" where
  "mem_virt_invtlb_ack core s =
     (let pending_state = tlb_pending_state s in
      if tlb_states s ! core = pending_state then
        let s = s\<lparr>tlb_states := (tlb_states s)[core := mem_virt_invtlb_flip_state pending_state]\<rparr>;
            cores_left = dec64 (tlb_pending_tlb_updates s);
            s = s\<lparr>tlb_pending_tlb_updates := cores_left\<rparr> in
        (if cores_left = 0 then MEM_VIRT_INVTLB_GEN_UPDATE_PENDING else MEM_VIRT_INVTLB_FLUSH_CR3, s)
      else (MEM_VIRT_INVTLB_NO_INVALIDATION_REQUIRED, s))"

definition mem_virt_invtlb_gen_update_nolock :: "invtlb \<Rightarrow> invtlb" where
  "mem_virt_invtlb_gen_update_nolock s = s\<lparr>tlb_pending := False\<rparr>"

text \<open>The first component says whether \<open>CR3\<close> is written.\<close>

definition mem_virt_invtlb_update_cr3 :: "nat \<Rightarrow> nat \<Rightarrow> nat \<Rightarrow> invtlb \<Rightarrow> bool \<times> invtlb" where
  "mem_virt_invtlb_update_cr3 core old_cr3 new_cr3 s =
     (case mem_virt_invtlb_ack core s of
        (MEM_VIRT_INVTLB_GEN_UPDATE_PENDING, s) \<Rightarrow> (True, mem_virt_invtlb_gen_update_nolock s)
      | (MEM_VIRT_INVTLB_FLUSH_CR3, s) \<Rightarrow> (True, s)
      | (_, s) \<Rightarrow> (old_cr3 \<noteq> new_cr3, s))"

definition mem_virt_invtlb_on_idle_enter :: "nat \<Rightarrow> invtlb \<Rightarrow> invtlb" where
  "mem_virt_invtlb_on_idle_enter core s =
     (let (ack, s) = mem_virt_invtlb_ack core s;
          s = (if ack = MEM_VIRT_INVTLB_GEN_UPDATE_PENDING then mem_virt_invtlb_gen_update_nolock s else s) in
      s\<lparr>tlb_idle_cores := inc64 (tlb_idle_cores s), tlb_states := (tlb_states s)[core := MEM_VIRT_INVTLB_STATE_IDLE]\<rparr>)"

definition mem_virt_invtlb_on_idle_exit :: "nat \<Rightarrow> invtlb \<Rightarrow> invtlb" where
  "mem_virt_invtlb_on_idle_exit core s = s\<lparr>tlb_idle_cores := dec64 (tlb_idle_cores s),
     tlb_states := (tlb_states s)[core := mem_virt_invtlb_flip_state (tlb_pending_state s)]\<rparr>"

definition mem_virt_invtlb_request :: "nat \<Rightarrow> nat \<Rightarrow> invtlb \<Rightarrow> invtlb" where
  "mem_virt_invtlb_request max_cpus core s =
     (if tlb_pending s then s
      else let s = s\<lparr>tlb_pending_tlb_updates := sub64 max_cpus (tlb_idle_cores s)\<rparr>;
               s = mem_virt_invtlb_flip_states s;
               (ack, s) = mem_virt_invtlb_ack core s in
        if ack = MEM_VIRT_INVTLB_GEN_UPDATE_PENDING then mem_virt_invtlb_gen_update_nolock s else s)"

section \<open>Cores between requests\<close>

text \<open>
  What a core does between two requests: it loads \<open>CR3\<close> (the flag says whether the register was written), goes
  idle, or leaves the idle state. The trace collects the cores that have written the register or were idle since.
\<close>

datatype tlb_event = Load nat nat nat | Idle_Enter nat | Idle_Exit nat

fun event_core :: "tlb_event \<Rightarrow> nat" where
  "event_core (Load c old new) = c"
| "event_core (Idle_Enter c) = c"
| "event_core (Idle_Exit c) = c"

fun is_idle :: "invtlb \<Rightarrow> nat \<Rightarrow> bool" where
  "is_idle s c \<longleftrightarrow> tlb_states s ! c = MEM_VIRT_INVTLB_STATE_IDLE"

fun event_ok :: "invtlb \<Rightarrow> tlb_event \<Rightarrow> bool" where
  "event_ok s (Load c old new) \<longleftrightarrow> c < length (tlb_states s) \<and> \<not> is_idle s c"
| "event_ok s (Idle_Enter c) \<longleftrightarrow> c < length (tlb_states s) \<and> \<not> is_idle s c"
| "event_ok s (Idle_Exit c) \<longleftrightarrow> c < length (tlb_states s) \<and> is_idle s c"

fun tlb_step :: "tlb_event \<Rightarrow> invtlb \<times> nat set \<Rightarrow> invtlb \<times> nat set" where
  "tlb_step (Load c old new) (s, F) = (let (w, s) = mem_virt_invtlb_update_cr3 c old new s in (s, if w then insert c F else F))"
| "tlb_step (Idle_Enter c) (s, F) = (mem_virt_invtlb_on_idle_enter c s, insert c F)"
| "tlb_step (Idle_Exit c) (s, F) = (mem_virt_invtlb_on_idle_exit c s, F)"

inductive tlb_run :: "invtlb \<times> nat set \<Rightarrow> tlb_event list \<Rightarrow> invtlb \<times> nat set \<Rightarrow> bool" where
  tlb_run_Nil: "tlb_run x [] x"
| tlb_run_Cons: "event_ok (fst x) e \<Longrightarrow> tlb_run (tlb_step e x) es y \<Longrightarrow> tlb_run x (e # es) y"

text \<open>The cores that still have to acknowledge.\<close>

definition waiting :: "invtlb \<Rightarrow> nat set" where
  "waiting s = {c. c < length (tlb_states s) \<and> tlb_states s ! c = tlb_pending_state s}"

definition idle :: "invtlb \<Rightarrow> nat set" where
  "idle s = {c. c < length (tlb_states s) \<and> is_idle s c}"

definition tlb_inv :: "invtlb \<Rightarrow> bool" where
  "tlb_inv s \<longleftrightarrow> tlb_pending_state s \<le> 1 \<and> length (tlb_states s) < 2 ^ 64 \<and> \<not> tlb_pending s \<and>
     (\<forall>c < length (tlb_states s). tlb_states s ! c \<le> 2) \<and>
     tlb_idle_cores s = card (idle s) \<and> tlb_pending_tlb_updates s = card (waiting s)"

lemma flip_state [simp]:
  "p \<le> 1 \<Longrightarrow> mem_virt_invtlb_flip_state p \<noteq> p" "mem_virt_invtlb_flip_state p \<noteq> 2" "mem_virt_invtlb_flip_state p \<le> Suc 0"
  "mem_virt_invtlb_flip_state p \<le> 2"
  unfolding mem_virt_invtlb_flip_state_def by presburger+

lemma waiting_update:
  "c < length (tlb_states s) \<Longrightarrow> tlb_states s' = (tlb_states s)[c := v] \<Longrightarrow> tlb_pending_state s' = tlb_pending_state s \<Longrightarrow>
   v \<noteq> tlb_pending_state s \<Longrightarrow> waiting s' = waiting s - {c}"
  by (auto simp: waiting_def nth_list_update split: if_splits)

lemma idle_update:
  "c < length (tlb_states s) \<Longrightarrow> tlb_states s' = (tlb_states s)[c := v] \<Longrightarrow>
   idle s' = (if v = 2 then insert c (idle s) else idle s - {c})"
  by (auto simp: idle_def MEM_VIRT_INVTLB_STATE_IDLE_def nth_list_update split: if_splits)

lemma finite_cores [simp]: "finite (waiting s)" "finite (idle s)"
  by (simp_all add: waiting_def idle_def)

lemma card_cores: "card (waiting s) \<le> length (tlb_states s)" "card (idle s) \<le> length (tlb_states s)"
  using card_mono [of "{..<length (tlb_states s)}" "waiting s"] card_mono [of "{..<length (tlb_states s)}" "idle s"]
  by (auto simp: waiting_def idle_def)

lemma tlb_invD:
  assumes "tlb_inv s"
  shows "tlb_pending_state s \<le> 1" "length (tlb_states s) < 2 ^ 64" "\<not> tlb_pending s" "c < length (tlb_states s) \<Longrightarrow> tlb_states s ! c \<le> 2"
    "tlb_idle_cores s = card (idle s)" "tlb_pending_tlb_updates s = card (waiting s)"
  using assms by (simp_all add: tlb_inv_def)

text \<open>Acknowledging takes the core off the set it was counted in.\<close>

lemma ack_spec:
  assumes inv: "tlb_inv s" and c: "c < length (tlb_states s)" and a: "mem_virt_invtlb_ack c s = (ack, s')"
  shows "tlb_inv s'" "waiting s' = waiting s - {c}" "idle s' = idle s" "length (tlb_states s') = length (tlb_states s)"
    "tlb_pending_state s' = tlb_pending_state s"
    "ack = (if c \<notin> waiting s then MEM_VIRT_INVTLB_NO_INVALIDATION_REQUIRED
            else if waiting s = {c} then MEM_VIRT_INVTLB_GEN_UPDATE_PENDING else MEM_VIRT_INVTLB_FLUSH_CR3)"
proof -
  note I = tlb_invD [OF inv]
  let ?f = "mem_virt_invtlb_flip_state (tlb_pending_state s)"
  have "tlb_inv s' \<and> waiting s' = waiting s - {c} \<and> idle s' = idle s \<and> length (tlb_states s') = length (tlb_states s) \<and>
    tlb_pending_state s' = tlb_pending_state s \<and>
    ack = (if c \<notin> waiting s then MEM_VIRT_INVTLB_NO_INVALIDATION_REQUIRED
            else if waiting s = {c} then MEM_VIRT_INVTLB_GEN_UPDATE_PENDING else MEM_VIRT_INVTLB_FLUSH_CR3)"
  proof (cases "c \<in> waiting s")
    case False
    then have "ack = MEM_VIRT_INVTLB_NO_INVALIDATION_REQUIRED" "s' = s" using a c by (auto simp: mem_virt_invtlb_ack_def waiting_def)
    then show ?thesis using False inv by simp
  next
    case True
    have st: "tlb_states s' = (tlb_states s)[c := ?f]" "tlb_pending_state s' = tlb_pending_state s"
        "tlb_pending_tlb_updates s' = dec64 (card (waiting s))" "tlb_pending s' = tlb_pending s" "tlb_idle_cores s' = tlb_idle_cores s"
        "ack = (if dec64 (card (waiting s)) = 0 then MEM_VIRT_INVTLB_GEN_UPDATE_PENDING else MEM_VIRT_INVTLB_FLUSH_CR3)"
      using a True I(6) by (auto simp: mem_virt_invtlb_ack_def waiting_def Let_def)
    have w: "waiting s' = waiting s - {c}" using waiting_update [OF c st(1,2)] I(1) by simp
    have pos: "0 < card (waiting s)" using True by (auto simp: card_gt_0_iff)
    then have "dec64 (card (waiting s)) = card (waiting s) - 1" using card_cores(1) [of s] I(2) by (intro dec64_pos) auto
    then have d: "dec64 (card (waiting s)) = card (waiting s - {c})" using True by simp
    have "tlb_states s ! c \<noteq> 2" using True I(1) by (auto simp: waiting_def)
    then have i: "idle s' = idle s" using idle_update [OF c st(1)] by (auto simp: idle_def MEM_VIRT_INVTLB_STATE_IDLE_def)
    have "tlb_states s' ! j \<le> 2" if "j < length (tlb_states s)" for j
      using I(4) [OF that] st(1) that c flip_state(3) [of "tlb_pending_state s"] by (simp add: nth_list_update)
    then have "tlb_inv s'" using inv st w i d by (simp add: tlb_inv_def)
    moreover have "card (waiting s - {c}) = 0 \<longleftrightarrow> waiting s = {c}" using True by (simp only: card_0_eq finite_Diff finite_cores) blast
    ultimately show ?thesis using True w i st d by auto
  qed
  then show "tlb_inv s'" "waiting s' = waiting s - {c}" "idle s' = idle s" "length (tlb_states s') = length (tlb_states s)"
    "tlb_pending_state s' = tlb_pending_state s"
    "ack = (if c \<notin> waiting s then MEM_VIRT_INVTLB_NO_INVALIDATION_REQUIRED
            else if waiting s = {c} then MEM_VIRT_INVTLB_GEN_UPDATE_PENDING else MEM_VIRT_INVTLB_FLUSH_CR3)"
    by blast+
qed

lemma gen_update_same: "\<not> tlb_pending s \<Longrightarrow> mem_virt_invtlb_gen_update_nolock s = s"
  by (simp add: mem_virt_invtlb_gen_update_nolock_def)

lemma tlb_step_inv:
  assumes inv: "tlb_inv s" and e: "event_ok s e" and st: "tlb_step e (s, F) = (s', F')"
  shows "tlb_inv s'" "length (tlb_states s') = length (tlb_states s)" "waiting s' = waiting s - {event_core e}" "F \<subseteq> F'"
    "event_core e \<in> waiting s \<Longrightarrow> event_core e \<in> F'"
proof -
  note I = tlb_invD [OF inv]
  have "tlb_inv s' \<and> length (tlb_states s') = length (tlb_states s) \<and> waiting s' = waiting s - {event_core e} \<and> F \<subseteq> F' \<and>
    (event_core e \<in> waiting s \<longrightarrow> event_core e \<in> F')"
  proof (cases e)
    case (Load c old new)
    then have c: "c < length (tlb_states s)" using e by simp
    obtain ack s1 where a: "mem_virt_invtlb_ack c s = (ack, s1)" by (cases "mem_virt_invtlb_ack c s")
    note A = ack_spec [OF inv c a]
    show ?thesis
      using st Load a A gen_update_same [OF tlb_invD(3) [OF A(1)]]
      by (auto simp: mem_virt_invtlb_update_cr3_def split: invtlb_ack.splits if_splits)
  next
    case (Idle_Enter c)
    then have c: "c < length (tlb_states s)" "c \<notin> idle s" using e by (simp_all add: idle_def)
    obtain ack s1 where a: "mem_virt_invtlb_ack c s = (ack, s1)" by (cases "mem_virt_invtlb_ack c s")
    note A = ack_spec [OF inv c(1) a]
    have s': "s' = s1\<lparr>tlb_idle_cores := inc64 (card (idle s)), tlb_states := (tlb_states s1)[c := 2]\<rparr>" "F' = insert c F"
      using st Idle_Enter a gen_update_same [OF tlb_invD(3) [OF A(1)]] tlb_invD(5) [OF A(1)] A(3)
      by (simp_all add: mem_virt_invtlb_on_idle_enter_def MEM_VIRT_INVTLB_STATE_IDLE_def Let_def cong: if_cong)
    have w: "waiting s' = waiting s - {c}"
      using waiting_update [of c s1 s' 2] A(2,4,5) c(1) I(1) s'(1) by auto
    have i: "idle s' = insert c (idle s)" using idle_update [of c s1 s' 2] A(3,4) c(1) s'(1) by simp
    have "card (idle s') = Suc (card (idle s))" using i c(2) by simp
    moreover have "card (idle s') \<le> length (tlb_states s)" using card_cores(2) [of s'] s'(1) A(4) by simp
    ultimately have "inc64 (card (idle s)) = card (idle s')" using I(2) by (simp add: inc64_def u64_small)
    moreover have "tlb_states s' ! j \<le> 2" if "j < length (tlb_states s)" for j
      using tlb_invD(4) [OF A(1), of j] that A(4) s'(1) c(1) by (simp add: nth_list_update)
    ultimately have "tlb_inv s'" using A(1,2,4) w s'(1) by (simp add: tlb_inv_def)
    then show ?thesis using w s' A(4) Idle_Enter by auto
  next
    case (Idle_Exit c)
    then have c: "c < length (tlb_states s)" "c \<in> idle s" using e by (simp_all add: idle_def)
    let ?f = "mem_virt_invtlb_flip_state (tlb_pending_state s)"
    have s': "s' = s\<lparr>tlb_idle_cores := dec64 (card (idle s)), tlb_states := (tlb_states s)[c := ?f]\<rparr>" "F' = F"
      using st Idle_Exit I(5) by (simp_all add: mem_virt_invtlb_on_idle_exit_def)
    have w: "waiting s' = waiting s - {c}" using waiting_update [OF c(1), of s' ?f] I(1) s'(1) by simp
    have nw: "c \<notin> waiting s" using c(2) I(1) by (auto simp: waiting_def idle_def MEM_VIRT_INVTLB_STATE_IDLE_def)
    have i: "idle s' = idle s - {c}" using idle_update [OF c(1), of s' ?f] s'(1) by simp
    have "0 < card (idle s)" using c(2) by (auto simp: card_gt_0_iff)
    then have "dec64 (card (idle s)) = card (idle s) - 1" using card_cores(2) [of s] I(2) by (intro dec64_pos) auto
    then have "dec64 (card (idle s)) = card (idle s')" using i c(2) by simp
    moreover have "tlb_states s' ! j \<le> 2" if "j < length (tlb_states s)" for j
      using I(4) [OF that] that s'(1) c(1) flip_state(3) [of "tlb_pending_state s"] by (simp add: nth_list_update)
    ultimately have "tlb_inv s'" using inv w nw s'(1) by (simp add: tlb_inv_def)
    then show ?thesis using w nw s' Idle_Exit by auto
  qed
  then show "tlb_inv s'" "length (tlb_states s') = length (tlb_states s)" "waiting s' = waiting s - {event_core e}" "F \<subseteq> F'"
    "event_core e \<in> waiting s \<Longrightarrow> event_core e \<in> F'" by blast+
qed

lemma tlb_run_inv:
  assumes "tlb_run x es y" "tlb_inv (fst x)"
  shows "tlb_inv (fst y) \<and> length (tlb_states (fst y)) = length (tlb_states (fst x)) \<and>
    waiting (fst y) = waiting (fst x) - event_core ` set es \<and> snd x \<subseteq> snd y \<and> waiting (fst x) - waiting (fst y) \<subseteq> snd y"
  using assms
proof (induction rule: tlb_run.induct)
  case (tlb_run_Cons x e es y)
  obtain s F s' F' where x: "x = (s, F)" "tlb_step e (s, F) = (s', F')" by (metis prod.collapse)
  note S = tlb_step_inv [OF _ _ x(2)]
  have "tlb_inv s" "event_ok s e" using tlb_run_Cons x by simp_all
  note S = S [OF this]
  have "tlb_inv (fst (tlb_step e x))" using x S(1) by simp
  from tlb_run_Cons.IH [OF this] have IH: "tlb_inv (fst y) \<and> length (tlb_states (fst y)) = length (tlb_states s') \<and>
      waiting (fst y) = waiting s' - event_core ` set es \<and> F' \<subseteq> snd y \<and> waiting s' - waiting (fst y) \<subseteq> snd y"
    unfolding x(1) x(2) fst_conv snd_conv .
  have "waiting s - waiting (fst y) \<subseteq> snd y"
  proof
    fix c assume "c \<in> waiting s - waiting (fst y)"
    then show "c \<in> snd y" using IH S(3,5) by (cases "c = event_core e") blast+
  qed
  then show ?case using IH x S(2-4) by auto
qed auto

section \<open>Properties\<close>


text \<open>Three cores after they acknowledged once; the second is idle.\<close>

definition tlb_quiet :: invtlb where
  "tlb_quiet = \<lparr>tlb_pending_state = 0, tlb_states = [1, 2, 1], tlb_idle_cores = 1, tlb_pending_tlb_updates = 0, tlb_pending = False\<rparr>"




end
