(* ===== verification/Fmt.thy ===== *)
theory Fmt
  imports Prelude "HOL-Library.Word"
begin

text \<open>
  \<^verbatim>\<open>lib/fmt.c\<close>: formatted output into a buffer. The buffer is the list of its bytes; a write outside of it has no
  result. Strings are the characters before the terminating zero. \<open>int\<close> counters do not overflow for buffers below 2 GiB.
\<close>

type_synonym buffer = string

definition NUL :: char where
  "NUL = CHR 0x00"

text \<open>A variable argument: an integer register, or a pointer to a string.\<close>

datatype va = VWord "64 word" | VStr string

definition poke :: "buffer \<Rightarrow> int \<Rightarrow> char \<Rightarrow> buffer option" where
  "poke buf i c = (if 0 \<le> i \<and> i < int (length buf) then Some (buf[nat i := c]) else None)"

definition peek :: "buffer \<Rightarrow> int \<Rightarrow> char option" where
  "peek buf i = (if 0 \<le> i \<and> i < int (length buf) then Some (buf ! nat i) else None)"

definition fmt_digits :: string where
  "fmt_digits = ''0123456789abcdef''"

section \<open>Integers\<close>

text \<open>The three loops of \<open>fmt_putui\<close>: digits from the last one on, padding, reversal. \<open>p\<close> is the start of the output in the buffer.\<close>

function putui_digits :: "nat \<Rightarrow> nat \<Rightarrow> int \<Rightarrow> int \<Rightarrow> buffer \<Rightarrow> int \<Rightarrow> (buffer \<times> int) option" where
  "putui_digits base val p sz buf bytes_written =
     (if base = 0 \<or> \<not> val mod base < length fmt_digits then None
      else if bytes_written < sz then do {
        buf \<leftarrow> poke buf (p + bytes_written) (fmt_digits ! (val mod base));
        if val div base \<noteq> 0 then putui_digits base (val div base) p sz buf (bytes_written + 1)
        else Some (buf, bytes_written + 1) }
      else Some (buf, bytes_written))"
  by auto
termination by (relation "measure (\<lambda>(base, val, p, sz, buf, n). nat (sz - n))") auto

function putui_pad :: "int \<Rightarrow> int \<Rightarrow> int \<Rightarrow> buffer \<Rightarrow> int \<Rightarrow> (buffer \<times> int) option" where
  "putui_pad width p sz buf bytes_written =
     (if bytes_written < width \<and> bytes_written < sz then do {
        buf \<leftarrow> poke buf (p + bytes_written) (CHR ''0'');
        putui_pad width p sz buf (bytes_written + 1) }
      else Some (buf, bytes_written))"
  by auto
termination by (relation "measure (\<lambda>(width, p, sz, buf, n). nat (sz - n))") auto

function putui_rev :: "int \<Rightarrow> int \<Rightarrow> int \<Rightarrow> buffer \<Rightarrow> buffer option" where
  "putui_rev p bytes_written i buf =
     (if i < bytes_written div 2 then do {
        c \<leftarrow> peek buf (p + i);
        d \<leftarrow> peek buf (p + (bytes_written - 1 - i));
        buf \<leftarrow> poke buf (p + i) d;
        buf \<leftarrow> poke buf (p + (bytes_written - 1 - i)) c;
        putui_rev p bytes_written (i + 1) buf }
      else Some buf)"
  by auto
termination by (relation "measure (\<lambda>(p, n, i, buf). nat (n div 2 - i))") auto

declare putui_digits.simps [simp del] putui_pad.simps [simp del] putui_rev.simps [simp del]

definition fmt_putui :: "nat \<Rightarrow> int \<Rightarrow> int \<Rightarrow> nat \<Rightarrow> int \<Rightarrow> buffer \<Rightarrow> (int \<times> buffer) option" where
  "fmt_putui val p sz base width buf = do {
     (buf, bytes_written) \<leftarrow> putui_digits base val p sz buf 0;
     (buf, bytes_written) \<leftarrow> putui_pad width p sz buf bytes_written;
     buf \<leftarrow> putui_rev p bytes_written 0 buf;
     Some (bytes_written, buf) }"

definition fmt_puti :: "64 word \<Rightarrow> int \<Rightarrow> int \<Rightarrow> nat \<Rightarrow> buffer \<Rightarrow> (int \<times> buffer) option" where
  "fmt_puti val p sz base buf =
     (let abs = (if sint val = - (2 ^ 63) then 2 ^ 63 else if sint val < 0 then nat (- sint val) else nat (sint val));
          negative = sint val < 0 in
      if negative then
        (if sz = 0 then Some (0, buf)
         else do {
           buf \<leftarrow> poke buf p (CHR ''-'');
           (n, buf) \<leftarrow> fmt_putui abs (p + 1) (sz - 1) base 0 buf;
           Some (1 + n, buf) })
      else fmt_putui abs p sz base 0 buf)"

section \<open>Format strings\<close>

definition va_word :: "va list \<Rightarrow> (64 word \<times> va list) option" where
  "va_word args = (case args of VWord w # rest \<Rightarrow> Some (w, rest) | _ \<Rightarrow> None)"

definition va_str :: "va list \<Rightarrow> (string \<times> va list) option" where
  "va_str args = (case args of VStr s # rest \<Rightarrow> Some (s, rest) | _ \<Rightarrow> None)"

text \<open>\<open>memcpy\<close> of a string into the buffer.\<close>

definition copy_into :: "buffer \<Rightarrow> int \<Rightarrow> string \<Rightarrow> buffer option" where
  "copy_into buf p s = (if 0 \<le> p \<and> p + int (length s) \<le> int (length buf)
     then Some (take (nat p) buf @ s @ drop (nat p + length s) buf) else None)"

definition UINT_FORMAT_CASE :: "nat \<Rightarrow> nat \<Rightarrow> int \<Rightarrow> int \<Rightarrow> va list \<Rightarrow> int \<times> buffer \<Rightarrow> (va list \<times> int \<times> buffer) option" where
  "UINT_FORMAT_CASE width base padding bytes_max args = (\<lambda>(bytes_written, buf). do {
     (w, args) \<leftarrow> va_word args;
     (n, buf) \<leftarrow> fmt_putui (take_bit width (unat w)) bytes_written (bytes_max - bytes_written) base padding buf;
     Some (args, bytes_written + n, buf) })"

definition fmt_switch :: "char \<Rightarrow> int \<Rightarrow> va list \<Rightarrow> int \<times> buffer \<Rightarrow> (va list \<times> int \<times> buffer) option" where
  "fmt_switch type bytes_max args = (\<lambda>(bytes_written, buf).
     if type = CHR ''%'' then do {
       buf \<leftarrow> poke buf bytes_written (CHR ''%'');
       Some (args, bytes_written + 1, buf) }
     else if type = CHR ''c'' then do {
       (w, args) \<leftarrow> va_word args;
       buf \<leftarrow> poke buf bytes_written (char_of (take_bit 8 (unat w)));
       Some (args, bytes_written + 1, buf) }
     else if type = CHR ''s'' then do {
       (str, args) \<leftarrow> va_str args;
       let trimmed_length = (if bytes_max < int (length str) then bytes_max else int (length str));
       buf \<leftarrow> copy_into buf bytes_written (take (nat trimmed_length) str);
       Some (args, bytes_written + trimmed_length, buf) }
     else if type = CHR ''d'' then do {
       (w, args) \<leftarrow> va_word args;
       (n, buf) \<leftarrow> fmt_puti (signed_take_bit 31 w) bytes_written (bytes_max - bytes_written) 10 buf;
       Some (args, bytes_written + n, buf) }
     else if type = CHR ''D'' then do {
       (w, args) \<leftarrow> va_word args;
       (n, buf) \<leftarrow> fmt_puti w bytes_written (bytes_max - bytes_written) 10 buf;
       Some (args, bytes_written + n, buf) }
     else if type = CHR ''u'' then UINT_FORMAT_CASE 32 10 0 bytes_max args (bytes_written, buf)
     else if type = CHR ''U'' then UINT_FORMAT_CASE 64 10 0 bytes_max args (bytes_written, buf)
     else if type = CHR ''x'' then UINT_FORMAT_CASE 32 16 0 bytes_max args (bytes_written, buf)
     else if type = CHR ''X'' then UINT_FORMAT_CASE 64 16 0 bytes_max args (bytes_written, buf)
     else if type = CHR ''p'' then UINT_FORMAT_CASE 64 16 16 bytes_max args (bytes_written, buf)
     else Some (args, bytes_written, buf))"

definition fmt_finish :: "int \<times> buffer \<Rightarrow> (int \<times> buffer) option" where
  "fmt_finish = (\<lambda>(bytes_written, buf). do {
     buf \<leftarrow> poke buf bytes_written NUL;
     Some (bytes_written, buf) })"

fun fmt_loop :: "string \<Rightarrow> int \<Rightarrow> va list \<Rightarrow> int \<times> buffer \<Rightarrow> (int \<times> buffer) option" where
  "fmt_loop [] bytes_max args s = fmt_finish s"
| "fmt_loop (c # cs) bytes_max args (bytes_written, buf) =
     (if bytes_max = bytes_written then fmt_finish (bytes_written, buf)
      else if c \<noteq> CHR ''%'' then do {
        buf \<leftarrow> poke buf bytes_written c;
        fmt_loop cs bytes_max args (bytes_written + 1, buf) }
      else case cs of
        [] \<Rightarrow> fmt_finish (bytes_written, buf)
      | type # cs \<Rightarrow> do {
          (args, s) \<leftarrow> fmt_switch type bytes_max args (bytes_written, buf);
          fmt_loop cs bytes_max args s })"

text \<open>The size is the length of the buffer.\<close>

definition vsnprintf :: "buffer \<Rightarrow> string \<Rightarrow> va list \<Rightarrow> (int \<times> buffer) option" where
  "vsnprintf buf format args = (if buf = [] then Some (0, buf) else fmt_loop format (int (length buf) - 1) args (0, buf))"

section \<open>Reference\<close>

text \<open>Numerals, most significant digit first, and what a format string stands for.\<close>

function numeral_text :: "nat \<Rightarrow> nat \<Rightarrow> string" where
  "numeral_text base v = (if v < base \<or> base < 2 then [fmt_digits ! v]
     else numeral_text base (v div base) @ [fmt_digits ! (v mod base)])"
  by auto
termination by (relation "measure snd") auto

declare numeral_text.simps [simp del]

definition padded :: "nat \<Rightarrow> string \<Rightarrow> string" where
  "padded w s = replicate (w - length s) (CHR ''0'') @ s"

definition signed_text :: "int \<Rightarrow> string" where
  "signed_text v = (if v < 0 then CHR ''-'' # numeral_text 10 (nat (- v)) else numeral_text 10 (nat v))"

definition conv_unsigned :: "nat \<Rightarrow> nat \<Rightarrow> nat \<Rightarrow> 64 word \<Rightarrow> string" where
  "conv_unsigned bits base w v = padded w (numeral_text base (take_bit bits (unat v)))"

definition conversion :: "char \<Rightarrow> va list \<Rightarrow> (string \<times> va list) option" where
  "conversion type args =
     (if type = CHR ''%'' then Some (''%'', args)
      else if type = CHR ''s'' then va_str args
      else if type \<in> set ''cdDuUxXp'' then do {
        (w, args) \<leftarrow> va_word args;
        Some (if type = CHR ''c'' then [char_of (take_bit 8 (unat w))]
              else if type = CHR ''d'' then signed_text (sint (signed_take_bit 31 w))
              else if type = CHR ''D'' then signed_text (sint w)
              else if type = CHR ''u'' then conv_unsigned 32 10 0 w
              else if type = CHR ''U'' then conv_unsigned 64 10 0 w
              else if type = CHR ''x'' then conv_unsigned 32 16 0 w
              else if type = CHR ''X'' then conv_unsigned 64 16 0 w
              else conv_unsigned 64 16 16 w, args) }
      else Some ([], args))"

fun render :: "string \<Rightarrow> va list \<Rightarrow> string option" where
  "render [] args = Some []"
| "render [c] args = Some (if c = CHR ''%'' then [] else [c])"
| "render (c # t # cs) args =
     (if c \<noteq> CHR ''%'' then map_option ((#) c) (render (t # cs) args)
      else do {
        (s, args) \<leftarrow> conversion t args;
        out \<leftarrow> render cs args;
        Some (s @ out) })"

section \<open>Writing into the buffer\<close>

lemma poke_mid [simp]: "i = int (length pre) \<Longrightarrow> poke (pre @ y # post) i c = Some (pre @ c # post)"
  by (simp add: poke_def)

lemma peek_mid [simp]: "i = int (length pre) \<Longrightarrow> peek (pre @ y # post) i = Some y"
  by (simp add: peek_def)

lemma numeral_text_ne [simp]: "numeral_text b v \<noteq> []"
  by (subst numeral_text.simps) simp

lemma fmt_digits_length [simp]: "length fmt_digits = 16"
  by (simp add: fmt_digits_def)

lemma split_front: "k < length ys \<Longrightarrow> \<exists>y zs. ys = y # zs \<and> k \<le> length zs"
  by (cases ys) auto

lemma putui_digits_enough:
  assumes "2 \<le> base" "base \<le> 16" "p = int (length pre)" "int (length don + length (numeral_text base v)) \<le> sz"
    "length (numeral_text base v) \<le> length rest"
  shows "putui_digits base v p sz (pre @ don @ rest) (int (length don))
    = Some (pre @ don @ rev (numeral_text base v) @ drop (length (numeral_text base v)) rest,
            int (length don + length (numeral_text base v)))"
  using assms(4,5)
proof (induction v arbitrary: don rest rule: less_induct)
  case (less v)
  obtain y ys where rest: "rest = y # ys"
    using less.prems(2) by (cases rest) auto
  let ?d = "fmt_digits ! (v mod base)"
  have dig: "v mod base < 16"
    using assms(1,2) by (intro less_le_trans [OF mod_less_divisor]) auto
  have poke: "poke (pre @ don @ y # ys) (p + int (length don)) ?d = Some (pre @ (don @ [?d]) @ ys)"
    using poke_mid [of "p + int (length don)" "pre @ don" y ys ?d] assms(3) by simp
  show ?case
  proof (cases "v < base")
    case True
    then have num: "numeral_text base v = [?d]"
      by (subst numeral_text.simps) simp
    show ?thesis
      using True less.prems assms(1) dig poke
      by (subst putui_digits.simps) (simp add: num rest)
  next
    case False
    then have num: "numeral_text base v = numeral_text base (v div base) @ [?d]"
      using assms(1) by (subst numeral_text.simps) simp
    have "v div base \<noteq> 0" "v div base < v"
      using False assms(1) by (auto simp: div_eq_0_iff)
    moreover have "int (length don) < sz"
      using less.prems(1) by (simp add: num)
    moreover have "putui_digits base (v div base) p sz (pre @ (don @ [?d]) @ ys) (int (length (don @ [?d])))
      = Some (pre @ (don @ [?d]) @ rev (numeral_text base (v div base)) @ drop (length (numeral_text base (v div base))) ys,
              int (length (don @ [?d]) + length (numeral_text base (v div base))))"
      using less.prems \<open>v div base < v\<close> by (intro less.IH) (simp_all add: num rest)
    ultimately show ?thesis
      using assms(1) dig poke by (subst putui_digits.simps) (simp add: num rest add_ac)
  qed
qed

lemma putui_pad_enough:
  assumes "p = int (length pre)" "int (length don + k) \<le> sz" "k \<le> length rest" "k = nat (w - int (length don))"
  shows "putui_pad w p sz (pre @ don @ rest) (int (length don))
    = Some (pre @ don @ replicate k (CHR ''0'') @ drop k rest, int (length don + k))"
  using assms(2-4)
proof (induction k arbitrary: don rest)
  case 0
  then show ?case by (subst putui_pad.simps) simp
next
  case (Suc k)
  obtain y ys where rest: "rest = y # ys"
    using Suc.prems(2) by (cases rest) auto
  have "poke (pre @ don @ y # ys) (p + int (length don)) (CHR ''0'') = Some (pre @ (don @ ''0'') @ ys)"
    using poke_mid [of "p + int (length don)" "pre @ don" y ys "CHR ''0''"] assms(1) by simp
  moreover have "putui_pad w p sz (pre @ (don @ ''0'') @ ys) (int (length (don @ ''0'')))
      = Some (pre @ (don @ ''0'') @ replicate k (CHR ''0'') @ drop k ys, int (length (don @ ''0'') + k))"
  proof (rule Suc.IH)
    show "int (length (don @ ''0'') + k) \<le> sz" using Suc.prems(1) by simp
    show "k \<le> length ys" using Suc.prems(2) by (simp add: rest)
    show "k = nat (w - int (length (don @ ''0'')))" using Suc.prems(3) by (simp add: nat_diff_distrib')
  qed
  moreover have "int (length don) < w" "int (length don) < sz"
    using Suc.prems(1,3) by linarith+
  ultimately show ?case
    by (subst putui_pad.simps) (simp add: rest add_ac)
qed

lemma putui_rev_mid:
  assumes "p = int (length pre)" "n = int (length (a @ xs @ b))" "length b = length a"
  shows "putui_rev p n (int (length a)) (pre @ a @ xs @ b @ post) = Some (pre @ a @ rev xs @ b @ post)"
  using assms(2,3)
proof (induction xs arbitrary: a b rule: length_induct)
  case (1 xs)
  show ?case
  proof (cases "length xs < 2")
    case True
    then have "rev xs = xs" by (cases xs rule: rev_cases) (auto simp: less_Suc_eq)
    moreover have "\<not> int (length a) < n div 2"
      using True 1 by simp
    ultimately show ?thesis by (subst putui_rev.simps) simp
  next
    case False
    then obtain x ys y where xs: "xs = x # ys @ [y]"
      by (cases xs; cases "tl xs" rule: rev_cases) auto
    have lt: "int (length a) < n div 2" using 1 by (simp add: xs)
    let ?j = "p + (n - 1 - int (length a))"
    have j: "?j = int (length (pre @ a @ x # ys))" "?j = int (length (pre @ a @ y # ys))"
      using 1 assms(1) by (simp_all add: xs)
    have "peek (pre @ a @ x # ys @ y # b @ post) (p + int (length a)) = Some x"
      using peek_mid [of "p + int (length a)" "pre @ a"] assms(1) by simp
    moreover have "peek (pre @ a @ x # ys @ y # b @ post) ?j = Some y"
      using peek_mid [OF j(1)] by simp
    moreover have "poke (pre @ a @ x # ys @ y # b @ post) (p + int (length a)) y = Some (pre @ a @ y # ys @ y # b @ post)"
      using poke_mid [of "p + int (length a)" "pre @ a"] assms(1) by simp
    moreover have "poke (pre @ a @ y # ys @ y # b @ post) ?j x = Some (pre @ a @ y # ys @ x # b @ post)"
      using poke_mid [OF j(2)] by simp
    moreover have "putui_rev p n (int (length (a @ [y]))) (pre @ (a @ [y]) @ ys @ (x # b) @ post)
        = Some (pre @ (a @ [y]) @ rev ys @ (x # b) @ post)"
      using 1 by (intro 1(1) [rule_format]) (simp_all add: xs)
    ultimately show ?thesis
      using lt by (subst putui_rev.simps) (simp add: xs add_ac)
  qed
qed

lemma fmt_putui_enough:
  assumes "2 \<le> base" "base \<le> 16" "p = int (length pre)"
    and "out = padded w (numeral_text base v)" "int (length out) \<le> sz" "length out \<le> length rest"
  shows "fmt_putui v p sz base (int w) (pre @ rest) = Some (int (length out), pre @ out @ drop (length out) rest)"
proof -
  let ?n = "numeral_text base v"
  let ?k = "w - length ?n"
  have len: "length out = length ?n + ?k"
    by (simp add: assms(4) padded_def)
  have "putui_digits base v p sz (pre @ rest) 0 = Some (pre @ rev ?n @ drop (length ?n) rest, int (length ?n))"
    using putui_digits_enough [of base p pre "[]" v sz rest] assms len by simp
  moreover have "putui_pad (int w) p sz (pre @ rev ?n @ drop (length ?n) rest) (int (length ?n))
      = Some (pre @ rev ?n @ replicate ?k (CHR ''0'') @ drop ?k (drop (length ?n) rest), int (length out))"
    using putui_pad_enough [of p pre "rev ?n" ?k sz "drop (length ?n) rest" "int w"] assms len by (simp add: nat_minus_as_int)
  moreover have "putui_rev p (int (length out)) 0 (pre @ (rev ?n @ replicate ?k (CHR ''0'')) @ drop (length out) rest)
      = Some (pre @ out @ drop (length out) rest)"
    using putui_rev_mid [of p pre "int (length out)" "[]" "rev ?n @ replicate ?k (CHR ''0'')" "[]" "drop (length out) rest"] assms(3) len
    by (simp add: assms(4) padded_def)
  ultimately show ?thesis
    by (simp add: fmt_putui_def len add.commute)
qed


lemma fmt_puti_enough:
  assumes "p = int (length pre)" "out = signed_text (sint v)" "int (length out) \<le> sz" "length out \<le> length rest"
  shows "fmt_puti v p sz 10 (pre @ rest) = Some (int (length out), pre @ out @ drop (length out) rest)"
proof (cases "sint v < 0")
  case True
  let ?n = "numeral_text 10 (nat (- sint v))"
  have out: "out = CHR ''-'' # ?n" using True by (simp add: assms(2) signed_text_def)
  obtain y ys where rest: "rest = y # ys" using assms(4) by (cases rest) (auto simp: out)
  have "fmt_putui (nat (- sint v)) (p + 1) (sz - 1) 10 (int 0) ((pre @ ''-'') @ ys)
      = Some (int (length ?n), (pre @ ''-'') @ ?n @ drop (length ?n) ys)"
    using assms(1,3,4) by (intro fmt_putui_enough) (auto simp: padded_def out rest)
  moreover have "poke (pre @ rest) p (CHR ''-'') = Some ((pre @ ''-'') @ ys)"
    using assms(1) by (simp add: rest)
  moreover have "sz \<noteq> 0" using assms(3) by (auto simp: out)
  moreover have "(if sint v = - (2 ^ 63) then 2 ^ 63 else if sint v < 0 then nat (- sint v) else nat (sint v)) = nat (- sint v)"
    using True by simp
  ultimately show ?thesis
    using True by (simp add: fmt_puti_def Let_def rest out)
next
  case False
  have "fmt_putui (nat (sint v)) p sz 10 (int 0) (pre @ rest) = Some (int (length out), pre @ out @ drop (length out) rest)"
    using assms False by (intro fmt_putui_enough) (auto simp: padded_def signed_text_def)
  then show ?thesis using False by (simp add: fmt_puti_def)
qed

lemma copy_into_mid:
  "p = int (length pre) \<Longrightarrow> length s \<le> length rest \<Longrightarrow> copy_into (pre @ rest) p s = Some (pre @ s @ drop (length s) rest)"
  by (simp add: copy_into_def)

lemma UINT_FORMAT_CASE_enough:
  assumes "2 \<le> base" "base \<le> 16" "va_word args = Some (v, args')" "out = conv_unsigned bits base w v"
    and "int (length pre + length out) \<le> bytes_max" "length out \<le> length rest"
  shows "UINT_FORMAT_CASE bits base (int w) bytes_max args (int (length pre), pre @ rest)
    = Some (args', int (length (pre @ out)), (pre @ out) @ drop (length out) rest)"
  using fmt_putui_enough [of base "int (length pre)" pre out w "take_bit bits (unat v)" "bytes_max - int (length pre)" rest] assms
  by (simp add: UINT_FORMAT_CASE_def conv_unsigned_def)

lemma va_word_Some: "va_word args = Some (w, args') \<longleftrightarrow> args = VWord w # args'"
  by (auto simp: va_word_def split: list.splits va.splits)

text \<open>The conversions of integers.\<close>

lemma fmt_switch_number:
  assumes "type \<in> set ''dDuUxXp''" "va_word args = Some (w, args')" "conversion type args = Some (out, args')"
    and "int (length pre + length out) \<le> bytes_max" "length out \<le> length rest"
  shows "fmt_switch type bytes_max args (int (length pre), pre @ rest)
    = Some (args', int (length (pre @ out)), (pre @ out) @ drop (length out) rest)"
proof -
  have fits: "int (length out) \<le> bytes_max - int (length pre)"
    using assms(4) by simp
  note I = fmt_puti_enough [OF refl _ fits assms(5)]
  note U = UINT_FORMAT_CASE_enough [OF _ _ assms(2) _ assms(4,5)]
  note conv = assms(2,3) conversion_def
  consider "type = CHR ''d''" | "type = CHR ''D''" | "type = CHR ''u''" | "type = CHR ''U''"
    | "type = CHR ''x''" | "type = CHR ''X''" | "type = CHR ''p''"
    using assms(1) by auto
  then show ?thesis
  proof cases
    case 1
    then show ?thesis using I [of "signed_take_bit 31 w"] conv by (simp add: fmt_switch_def)
  next
    case 2
    then show ?thesis using I [of w] conv by (simp add: fmt_switch_def)
  next
    case 3
    then show ?thesis using U [of 10 32 0] conv by (simp add: fmt_switch_def)
  next
    case 4
    then show ?thesis using U [of 10 64 0] conv by (simp add: fmt_switch_def)
  next
    case 5
    then show ?thesis using U [of 16 32 0] conv by (simp add: fmt_switch_def)
  next
    case 6
    then show ?thesis using U [of 16 64 0] conv by (simp add: fmt_switch_def)
  next
    case 7
    then show ?thesis using U [of 16 64 16] conv by (simp add: fmt_switch_def)
  qed
qed

lemma fmt_switch_enough:
  assumes "conversion type args = Some (out, args')"
    and "int (length pre + length out) \<le> bytes_max" "length out \<le> length rest"
  shows "fmt_switch type bytes_max args (int (length pre), pre @ rest)
    = Some (args', int (length (pre @ out)), (pre @ out) @ drop (length out) rest)"
proof -
  consider "type = CHR ''%''" | "type = CHR ''s''" | "type = CHR ''c''" | "type \<in> set ''dDuUxXp''" | "type \<notin> set ''%scdDuUxXp''"
    by auto
  then show ?thesis
  proof cases
    case 1
    then have "out = ''%''" "args' = args" using assms(1) by (auto simp: conversion_def)
    then show ?thesis using 1 assms(3) by (cases rest) (auto simp: fmt_switch_def)
  next
    case 2
    then have "va_str args = Some (out, args')" using assms(1) by (simp add: conversion_def)
    then show ?thesis using 2 assms(2,3) by (simp add: fmt_switch_def copy_into_mid)
  next
    case 3
    then obtain w where "va_word args = Some (w, args')" "out = [char_of (take_bit 8 (unat w))]"
      using assms(1) by (auto simp: conversion_def split: bind_splits)
    then show ?thesis using 3 assms(3) by (cases rest) (auto simp: fmt_switch_def)
  next
    case 4
    then obtain w where "va_word args = Some (w, args')"
      using assms(1) by (auto simp: conversion_def split: bind_splits)
    then show ?thesis using 4 assms by (intro fmt_switch_number) auto
  next
    case 5
    then show ?thesis using assms(1) by (auto simp: conversion_def fmt_switch_def)
  qed
qed

lemma fmt_loop_last:
  assumes "out = (if c = CHR ''%'' then [] else [c])" "int (length pre + length out) \<le> bytes_max" "length out < length rest"
  shows "fmt_loop [c] bytes_max args (int (length pre), pre @ rest)
    = Some (int (length (pre @ out)), (pre @ out) @ NUL # drop (Suc (length out)) rest)"
proof -
  obtain y ys where rest: "rest = y # ys" using assms(3) by (cases rest) auto
  have fin: "fmt_finish (int (length pre), pre @ y # ys) = Some (int (length pre), pre @ NUL # ys)"
    by (simp add: fmt_finish_def)
  show ?thesis
  proof (cases "c = CHR ''%''")
    case True
    then show ?thesis using assms(1) fin by (simp add: rest)
  next
    case False
    then have out: "out = [c]" using assms(1) by simp
    obtain z zs where ys: "ys = z # zs" using assms(3) by (cases ys) (auto simp: rest out)
    have "fmt_finish (int (length (pre @ [c])), (pre @ [c]) @ z # zs) = Some (int (length (pre @ [c])), (pre @ [c]) @ NUL # zs)"
      by (simp only: fmt_finish_def prod.case poke_mid [OF refl] bind.bind_lunit)
    then show ?thesis using assms(2) False by (simp add: rest out ys add.commute)
  qed
qed

lemma fmt_loop_enough:
  assumes "render format args = Some out" "int (length pre + length out) \<le> bytes_max" "length out < length rest"
  shows "fmt_loop format bytes_max args (int (length pre), pre @ rest)
    = Some (int (length (pre @ out)), (pre @ out) @ NUL # drop (Suc (length out)) rest)"
  using assms
proof (induction format args arbitrary: out pre rest rule: render.induct)
  case (1 args)
  then show ?case by (cases rest) (auto simp: fmt_finish_def)
next
  case (2 c args)
  then show ?case by (intro fmt_loop_last) simp_all
next
  case (3 c t cs args)
  obtain y ys where rest: "rest = y # ys" using 3(5) by (cases rest) auto
  show ?case
  proof (cases "int (length pre) = bytes_max")
    case True
    then have "out = []" using 3(4) by simp
    then show ?thesis using True by (simp add: rest fmt_finish_def)
  next
    case room: False
    show ?thesis
    proof (cases "c = CHR ''%''")
      case False
      then obtain out' where out: "render (t # cs) args = Some out'" "out = c # out'"
        using 3(3) by auto
      have "fmt_loop (t # cs) bytes_max args (int (length (pre @ [c])), (pre @ [c]) @ ys)
          = Some (int (length ((pre @ [c]) @ out')), ((pre @ [c]) @ out') @ NUL # drop (Suc (length out')) ys)"
        using False out 3(4,5) by (intro 3(1)) (auto simp: rest)
      then show ?thesis using False room out by (simp add: rest add_ac)
    next
      case True
      then obtain s args' out' where out: "conversion t args = Some (s, args')" "render cs args' = Some out'" "out = s @ out'"
        using 3(3) by (auto split: bind_splits)
      have "fmt_switch t bytes_max args (int (length pre), pre @ rest)
          = Some (args', int (length (pre @ s)), (pre @ s) @ drop (length s) rest)"
        using out 3(4,5) by (intro fmt_switch_enough) auto
      moreover have "fmt_loop cs bytes_max args' (int (length (pre @ s)), (pre @ s) @ drop (length s) rest)
          = Some (int (length ((pre @ s) @ out')), ((pre @ s) @ out') @ NUL # drop (Suc (length out')) (drop (length s) rest))"
        using True out 3(4,5) by (intro 3(2) [OF _ out(1) refl]) auto
      ultimately show ?thesis using True room out by (simp add: add_ac)
    qed
  qed
qed


section \<open>Reading numerals back\<close>

definition digit_value :: "char \<Rightarrow> nat" where
  "digit_value c = length (takeWhile (\<lambda>d. d \<noteq> c) fmt_digits)"

definition numeral_value :: "nat \<Rightarrow> string \<Rightarrow> nat" where
  "numeral_value base s = foldl (\<lambda>v c. v * base + digit_value c) 0 s"

lemma digit_value_nth: "d < 16 \<Longrightarrow> digit_value (fmt_digits ! d) = d"
proof -
  have "\<forall>d \<in> set [0..<16]. digit_value (fmt_digits ! d) = d"
    by code_simp
  then show "d < 16 \<Longrightarrow> ?thesis" by simp
qed

lemma numeral_value_text: "2 \<le> base \<Longrightarrow> base \<le> 16 \<Longrightarrow> numeral_value base (numeral_text base v) = v"
proof (induction base v rule: numeral_text.induct)
  case (1 base v)
  have "v mod base < 16" using 1(2,3) by (intro less_le_trans [OF mod_less_divisor]) auto
  then show ?case
    using 1 by (subst numeral_text.simps) (auto simp: numeral_value_def digit_value_nth not_less)
qed

lemma numeral_value_padded: "numeral_value base (padded w s) = numeral_value base s"
proof -
  have "digit_value (CHR ''0'') = 0" by code_simp
  then have "foldl (\<lambda>v c. v * base + digit_value c) 0 (replicate k (CHR ''0'')) = 0" for k
    by (induction k) auto
  then show ?thesis by (simp add: numeral_value_def padded_def)
qed

section \<open>Bounds\<close>

text \<open>A step keeps inside the buffer when it returns a count in its range and a buffer of the same length.\<close>

definition inside :: "int \<Rightarrow> buffer \<Rightarrow> (int \<times> buffer) option \<Rightarrow> bool" where
  "inside m buf r = (case r of None \<Rightarrow> False | Some (n, buf') \<Rightarrow> 0 \<le> n \<and> n \<le> m \<and> length buf' = length buf)"

lemma poke_inside: "0 \<le> i \<Longrightarrow> i < int (length buf) \<Longrightarrow> \<exists>buf'. poke buf i c = Some buf' \<and> length buf' = length buf"
  by (simp add: poke_def)

lemma putui_digits_inside:
  assumes "2 \<le> base" "base \<le> 16" "0 \<le> p" "p + sz \<le> int (length buf)" "0 \<le> n" "n \<le> sz"
  shows "\<exists>buf' m. putui_digits base v p sz buf n = Some (buf', m) \<and> length buf' = length buf \<and> n \<le> m \<and> m \<le> sz"
  using assms
proof (induction base v p sz buf n rule: putui_digits.induct)
  case (1 base v p sz buf n)
  have dig: "base \<noteq> 0" "v mod base < 16" using 1(2,3) by (auto intro: less_le_trans [OF mod_less_divisor])
  show ?case
  proof (cases "n < sz")
    case True
    let ?buf = "buf[nat (p + n) := fmt_digits ! (v mod base)]"
    have poke: "poke buf (p + n) (fmt_digits ! (v mod base)) = Some ?buf"
      using True 1 by (simp add: poke_def)
    show ?thesis
    proof (cases "v div base = 0")
      case False
      have "\<exists>buf' m. putui_digits base (v div base) p sz ?buf (n + 1) = Some (buf', m) \<and> length buf' = length ?buf \<and> n + 1 \<le> m \<and> m \<le> sz"
        using 1(2-) dig True False poke by (intro 1(1)) simp_all
      then show ?thesis using False True dig poke by (subst putui_digits.simps) auto
    next
      case zero: True
      then show ?thesis using True dig poke by (subst putui_digits.simps) simp
    qed
  next
    case False
    then show ?thesis using dig 1 by (subst putui_digits.simps) simp
  qed
qed

lemma putui_pad_inside:
  assumes "0 \<le> p" "p + sz \<le> int (length buf)" "0 \<le> n" "n \<le> sz"
  shows "\<exists>buf' m. putui_pad w p sz buf n = Some (buf', m) \<and> length buf' = length buf \<and> n \<le> m \<and> m \<le> sz"
  using assms
proof (induction w p sz buf n rule: putui_pad.induct)
  case (1 w p sz buf n)
  show ?case
  proof (cases "n < w \<and> n < sz")
    case True
    let ?buf = "buf[nat (p + n) := CHR ''0'']"
    have poke: "poke buf (p + n) (CHR ''0'') = Some ?buf"
      using True 1 by (simp add: poke_def)
    have "\<exists>buf' m. putui_pad w p sz ?buf (n + 1) = Some (buf', m) \<and> length buf' = length ?buf \<and> n + 1 \<le> m \<and> m \<le> sz"
      using 1(2-) True poke by (intro 1(1)) simp_all
    then show ?thesis using True poke by (subst putui_pad.simps) auto
  next
    case False
    then show ?thesis using 1 by (subst putui_pad.simps) auto
  qed
qed

lemma putui_rev_inside:
  assumes "0 \<le> p" "p + n \<le> int (length buf)" "0 \<le> i" "0 \<le> n"
  shows "\<exists>buf'. putui_rev p n i buf = Some buf' \<and> length buf' = length buf"
  using assms(2,3)
proof (induction "nat (n div 2 - i)" arbitrary: i buf rule: less_induct)
  case less
  show ?case
  proof (cases "i < n div 2")
    case True
    let ?j = "p + (n - 1 - i)"
    have in_buf: "0 \<le> p + i" "p + i < int (length buf)" "0 \<le> ?j" "?j < int (length buf)"
      using True less.prems assms(1,4) by auto
    let ?buf = "buf[nat (p + i) := buf ! nat ?j, nat ?j := buf ! nat (p + i)]"
    have "\<exists>buf'. putui_rev p n (i + 1) ?buf = Some buf' \<and> length buf' = length ?buf"
      using True less.prems by (intro less.hyps) auto
    then show ?thesis
      using True in_buf by (subst putui_rev.simps) (simp add: peek_def poke_def)
  next
    case False
    then show ?thesis by (subst putui_rev.simps) simp
  qed
qed

lemma fmt_putui_inside:
  assumes "2 \<le> base" "base \<le> 16" "0 \<le> p" "p + sz \<le> int (length buf)" "0 \<le> sz"
  shows "inside sz buf (fmt_putui v p sz base w buf)"
proof -
  obtain b1 n1 where 1: "putui_digits base v p sz buf 0 = Some (b1, n1)" "length b1 = length buf" "0 \<le> n1" "n1 \<le> sz"
    using putui_digits_inside [of base p sz buf 0 v] assms by auto
  obtain b2 n2 where 2: "putui_pad w p sz b1 n1 = Some (b2, n2)" "length b2 = length buf" "0 \<le> n2" "n2 \<le> sz"
    using putui_pad_inside [of p sz b1 n1 w] assms 1 by auto
  obtain b3 where "putui_rev p n2 0 b2 = Some b3" "length b3 = length buf"
    using putui_rev_inside [of p n2 b2 0] assms 2 by auto
  then show ?thesis using 1 2 by (simp add: fmt_putui_def inside_def)
qed

lemma fmt_puti_inside:
  assumes "0 \<le> p" "p + sz \<le> int (length buf)" "0 \<le> sz"
  shows "inside sz buf (fmt_puti v p sz 10 buf)"
proof -
  define a where "a = (if sint v = - (2 ^ 63) then 2 ^ 63 else if sint v < 0 then nat (- sint v) else nat (sint v))"
  let ?buf = "buf[nat p := CHR ''-'']"
  have puti: "fmt_puti v p sz 10 buf = (if sint v < 0 then (if sz = 0 then Some (0, buf) else do {
      buf \<leftarrow> poke buf p (CHR ''-'');
      (n, buf) \<leftarrow> fmt_putui a (p + 1) (sz - 1) 10 0 buf;
      Some (1 + n, buf) }) else fmt_putui a p sz 10 0 buf)"
    unfolding fmt_puti_def Let_def a_def by (rule refl)
  have "inside sz buf (fmt_putui a p sz 10 0 buf)"
    using assms by (intro fmt_putui_inside) auto
  moreover have "inside (sz - 1) ?buf (fmt_putui a (p + 1) (sz - 1) 10 0 ?buf)" if "sz \<noteq> 0"
    using assms that by (intro fmt_putui_inside) auto
  ultimately show ?thesis
    using assms by (auto simp: puti poke_def inside_def split: option.splits)
qed

lemma UINT_FORMAT_CASE_inside:
  assumes "2 \<le> base" "base \<le> 16" "va_word args = Some (v, args')" "0 \<le> n" "n \<le> m" "m < int (length buf)"
  shows "\<exists>n' buf'. UINT_FORMAT_CASE bits base w m args (n, buf) = Some (args', n', buf')
    \<and> 0 \<le> n' \<and> n' \<le> m \<and> length buf' = length buf"
  using fmt_putui_inside [of base n "m - n" buf "take_bit bits (unat v)" w] assms
  by (auto simp: UINT_FORMAT_CASE_def inside_def split: option.splits)

lemma fmt_switch_inside:
  assumes "conversion type args = Some (out, args')" "type \<noteq> CHR ''s''" "0 \<le> n" "n < m" "m < int (length buf)"
  shows "\<exists>n' buf'. fmt_switch type m args (n, buf) = Some (args', n', buf') \<and> 0 \<le> n' \<and> n' \<le> m \<and> length buf' = length buf"
proof (cases "type \<in> set ''cdDuUxXp''")
  case True
  then obtain v where v: "va_word args = Some (v, args')"
    using assms(1) by (auto simp: conversion_def split: bind_splits)
  note U = UINT_FORMAT_CASE_inside [OF _ _ v assms(3) less_imp_le [OF assms(4)] assms(5)]
  have I: "inside (m - n) buf (fmt_puti w n (m - n) 10 buf)" for w
    using assms by (intro fmt_puti_inside) auto
  consider "type = CHR ''c''" | "type = CHR ''d''" | "type = CHR ''D''" | "type \<in> set ''uUxXp''"
    using True by auto
  then show ?thesis
  proof cases
    case 1
    then show ?thesis using v assms(3-5) by (simp add: fmt_switch_def poke_def)
  next
    case 2
    then show ?thesis using v assms(3,4) I [of "signed_take_bit 31 v"]
      by (auto simp: fmt_switch_def inside_def split: option.splits)
  next
    case 3
    then show ?thesis using v assms(3,4) I [of v]
      by (auto simp: fmt_switch_def inside_def split: option.splits)
  next
    case 4
    then show ?thesis
      using U [of 10 32 0] U [of 10 64 0] U [of 16 32 0] U [of 16 64 0] U [of 16 64 16]
      by (auto simp: fmt_switch_def)
  qed
next
  case False
  then show ?thesis
    using assms by (auto simp: conversion_def fmt_switch_def poke_def split: if_splits)
qed

lemma fmt_finish_inside:
  "0 \<le> n \<Longrightarrow> n < int (length buf) \<Longrightarrow> fmt_finish (n, buf) = Some (n, buf[nat n := NUL])"
  by (simp add: fmt_finish_def poke_def)

lemma conversion_rest: "conversion t args = Some (out, args') \<Longrightarrow> set args' \<subseteq> set args"
  by (auto simp: conversion_def va_word_def va_str_def split: if_splits list.splits va.splits bind_splits)

lemma conversion_string: "conversion (CHR ''s'') args = Some (out, args') \<Longrightarrow> VStr out \<in> set args"
  by (auto simp: conversion_def va_str_def split: list.splits va.splits)

definition terminated :: "buffer \<Rightarrow> (int \<times> buffer) option \<Rightarrow> bool" where
  "terminated buf r = (case r of None \<Rightarrow> False | Some (n, buf') \<Rightarrow>
     0 \<le> n \<and> n < int (length buf) \<and> length buf' = length buf \<and> buf' ! nat n = NUL)"

lemma terminated_finish: "0 \<le> n \<Longrightarrow> n < int (length buf) \<Longrightarrow> terminated buf (fmt_finish (n, buf))"
  by (simp add: fmt_finish_inside terminated_def)

lemma terminated_length: "length buf' = length buf \<Longrightarrow> terminated buf' r = terminated buf r"
  by (cases r) (auto simp: terminated_def)

lemma fmt_loop_last_inside:
  assumes "0 \<le> n" "n \<le> m" "m < int (length buf)"
  shows "terminated buf (fmt_loop [c] m args (n, buf))"
proof (cases "m = n \<or> c = CHR ''%''")
  case True
  then show ?thesis using assms terminated_finish [of n buf] by auto
next
  case False
  then show ?thesis
    using assms terminated_finish [of "n + 1" "buf[nat n := c]"]
    by (simp add: poke_def terminated_length [of "buf[nat n := c]" buf])
qed

lemma fmt_loop_inside:
  assumes "render format args \<noteq> None" "\<forall>s. VStr s \<notin> set args" "0 \<le> n" "n \<le> m" "m < int (length buf)"
  shows "terminated buf (fmt_loop format m args (n, buf))"
  using assms
proof (induction format args arbitrary: n buf rule: render.induct)
  case (1 args)
  then show ?case by (simp add: terminated_finish)
next
  case (2 c args)
  then show ?case by (intro fmt_loop_last_inside)
next
  case (3 c t cs args)
  consider "m = n" | "m \<noteq> n" "c \<noteq> CHR ''%''" | "m \<noteq> n" "c = CHR ''%''" by blast
  then show ?case
  proof cases
    case 1
    then show ?thesis using 3 by (simp add: terminated_finish)
  next
    case 2
    let ?buf = "buf[nat n := c]"
    have "terminated ?buf (fmt_loop (t # cs) m args (n + 1, ?buf))"
      using 2 3(3-) by (intro 3(1)) auto
    then show ?thesis using 2 3(5-) by (simp add: poke_def terminated_length [of ?buf buf])
  next
    case 3
    note prems = "3.prems"
    obtain out args' where conv: "conversion t args = Some (out, args')" "render cs args' \<noteq> None"
      using prems(1) 3 by (auto split: bind_splits)
    have "t \<noteq> CHR ''s''" using conversion_string conv(1) prems(2) by blast
    then obtain n' buf' where step: "fmt_switch t m args (n, buf) = Some (args', n', buf')" "0 \<le> n'" "n' \<le> m" "length buf' = length buf"
      using fmt_switch_inside [OF conv(1), of n m buf] prems 3 by auto
    have "terminated buf' (fmt_loop cs m args' (n', buf'))"
      using step prems conv 3 conversion_rest [OF conv(1)] by (intro "3.IH"(2) [OF _ conv(1) refl]) auto
    then show ?thesis using 3 step by (simp add: terminated_length [of buf' buf])
  qed
qed


section \<open>Properties\<close>

lemma fmt_loop_plain:
  assumes "CHR ''%'' \<notin> set pre" "int (length don + length pre) \<le> m" "length pre \<le> length rest"
  shows "fmt_loop (pre @ format) m args (int (length don), don @ rest)
    = fmt_loop format m args (int (length (don @ pre)), (don @ pre) @ drop (length pre) rest)"
  using assms
proof (induction pre arbitrary: don rest)
  case (Cons c pre)
  obtain y ys where rest: "rest = y # ys" using Cons.prems(3) by (cases rest) auto
  have c: "c \<noteq> CHR ''%''" using Cons.prems(1) by auto
  have "fmt_loop (pre @ format) m args (int (length (don @ [c])), (don @ [c]) @ ys)
      = fmt_loop format m args (int (length ((don @ [c]) @ pre)), ((don @ [c]) @ pre) @ drop (length pre) ys)"
    using Cons.prems by (intro Cons.IH) (auto simp: rest)
  then show ?case using Cons.prems(2) c by (simp add: rest add_ac)
qed simp

lemma vsnprintf_overflow:
  assumes pre: "CHR ''%'' \<notin> set pre" "pre \<noteq> []" "length pre + 1 < length buf" "length buf \<le> length s + 1"
  shows "vsnprintf buf (pre @ ''%s'') [VStr s] = None"
proof -
  let ?m = "int (length buf) - 1"
  let ?buf = "pre @ drop (length pre) buf"
  have loop: "fmt_loop (pre @ ''%s'') ?m [VStr s] (0, buf) = fmt_loop ''%s'' ?m [VStr s] (int (length pre), ?buf)"
    using fmt_loop_plain [of pre "[]" ?m buf "''%s''" "[VStr s]"] pre by simp
  have trim: "(if ?m < int (length s) then ?m else int (length s)) = ?m"
    using pre(4) by auto
  have len: "length buf' = length buf" if "copy_into ?buf p t = Some buf'" for p t buf'
    using that pre(3) by (auto simp: copy_into_def split: if_splits)
  have fin: "fmt_finish (int (length pre) + ?m, buf') = None" if "length buf' = length buf" for buf'
    using pre(2) that by (cases pre) (auto simp: fmt_finish_def poke_def)
  have switch: "fmt_switch (CHR ''s'') ?m [VStr s] (int (length pre), ?buf)
      = do { buf' \<leftarrow> copy_into ?buf (int (length pre)) (take (nat ?m) s); Some ([], int (length pre) + ?m, buf') }"
    by (simp add: fmt_switch_def va_str_def trim Let_def)
  have "fmt_loop ''%s'' ?m [VStr s] (int (length pre), ?buf) = None"
    using pre(3) switch fin [OF len]
    by (cases "copy_into ?buf (int (length pre)) (take (nat ?m) s)") simp_all
  then show ?thesis
    using pre loop by (auto simp: vsnprintf_def)
qed



text \<open>C38: Without strings among its arguments \<open>vsnprintf\<close> stays inside any buffer, however long the output, and terminates it. A
  string argument is cut to the size of the buffer instead of the space left in it: any text before a \<open>%s\<close> whose
  argument is as long as the buffer makes it write past the end. And a numeral that does not fit keeps its last digits, not its
  first: four bytes hold \<open>345\<close> for 12345.
\<close>

theorem vsnprintf_string_overflow:
  shows "(render format args \<noteq> None \<and> (\<forall>s. VStr s \<notin> set args) \<and> buf \<noteq> [] \<longrightarrow> terminated buf (vsnprintf buf format args))
    \<and> (CHR ''%'' \<notin> set pre \<and> pre \<noteq> [] \<and> length pre + 1 < length buf \<and> length buf \<le> length s + 1
        \<longrightarrow> vsnprintf buf (pre @ ''%s'') [VStr s] = None)
    \<and> vsnprintf ''????'' ''%u'' [VWord 12345] = Some (3, ''345'' @ [NUL])"
proof (intro conjI impI)
  assume "render format args \<noteq> None \<and> (\<forall>s. VStr s \<notin> set args) \<and> buf \<noteq> []"
  then show "terminated buf (vsnprintf buf format args)"
    using fmt_loop_inside [of format args 0 "int (length buf) - 1" buf] by (cases buf) (auto simp: vsnprintf_def)
next
  assume "CHR ''%'' \<notin> set pre \<and> pre \<noteq> [] \<and> length pre + 1 < length buf \<and> length buf \<le> length s + 1"
  then show "vsnprintf buf (pre @ ''%s'') [VStr s] = None"
    by (intro vsnprintf_overflow) auto
next
  show "vsnprintf ''????'' ''%u'' [VWord 12345] = Some (3, ''345'' @ [NUL])"
    by (simp add: vsnprintf_def fmt_switch_def UINT_FORMAT_CASE_def va_word_def fmt_putui_def fmt_finish_def
        putui_digits.simps putui_pad.simps putui_rev.simps poke_def peek_def fmt_digits_def)
qed

theorem vsnprintf_string_overflow_witness:
  "terminated ''????'' (vsnprintf ''????'' ''%u'' [VWord 12345]) \<and> vsnprintf ''????'' (''x'' @ ''%s'') [VStr ''abc''] = None"
  using vsnprintf_string_overflow [of "''%u''" "[VWord 12345]" "''????''" "''x''" "''abc''"]
  by (simp add: conversion_def va_word_def terminated_def)

end
