(* ===== verification/Log.thy ===== *)
theory Log
  imports Fmt Locks
begin

text \<open>
  \<^verbatim>\<open>lib/log.c\<close>: the kernel log. The state is that of the log as one core sees it while no other core uses it: the list of
  registered subsystems, linked by their \<open>next\<close> fields, the spinlock, the interrupt flag of the core, the two static buffers, and
  the calls of callbacks made so far. A lock that is taken already is never released, so that grabbing it does not return.
\<close>

datatype log_type = LOG_TYPE_INFO | LOG_TYPE_SUCCESS | LOG_TYPE_WARN | LOG_TYPE_ERR | LOG_TYPE_PANIC

record log_state =
  lg_first :: addr
  lg_next :: "addr \<Rightarrow> addr"
  lg_lock :: thread_spinlock
  lg_flag :: bool
  lg_printf_buf :: string
  lg_logf_buf :: string
  lg_calls :: "(addr \<times> string) list"

definition LOG_BUFFER_SIZE :: nat where
  "LOG_BUFFER_SIZE = 4096"

definition log_static :: "bool \<Rightarrow> log_state" where
  "log_static flag = \<lparr>lg_first = 0, lg_next = (\<lambda>_. 0), lg_lock = THREAD_SPINLOCK_INIT, lg_flag = flag,
     lg_printf_buf = replicate LOG_BUFFER_SIZE NUL, lg_logf_buf = replicate LOG_BUFFER_SIZE NUL, lg_calls = []\<rparr>"

text \<open>\<open>thread_spinlock_lock\<close> and \<open>thread_spinlock_unlock\<close> run by one core alone.\<close>

definition lock_alone :: "log_state \<Rightarrow> (bool \<times> log_state) option" where
  "lock_alone s =
     (let (state, flag) = intlevel_elevate (lg_flag s);
          (ticket, lock) = grab_ticket (lg_lock s) in
      if grab_done lock ticket then Some (state, s\<lparr>lg_flag := flag, lg_lock := lock\<rparr>) else None)"

definition unlock_alone :: "bool \<Rightarrow> log_state \<Rightarrow> log_state" where
  "unlock_alone state s =
     s\<lparr>lg_lock := ungrab_store (lg_lock s) (ungrab_load (lg_lock s)), lg_flag := intlevel_recover state (lg_flag s)\<rparr>"

section \<open>Output\<close>

partial_function (option) write_from :: "string \<Rightarrow> addr \<Rightarrow> log_state \<Rightarrow> log_state option" where
  "write_from data current s =
     (if current = 0 then Some s
      else write_from data (lg_next s current) (s\<lparr>lg_calls := lg_calls s @ [(current, data)]\<rparr>))"

definition log_write_lockless :: "string \<Rightarrow> log_state \<Rightarrow> log_state option" where
  "log_write_lockless data s = write_from data (lg_first s) s"

definition log_write :: "string \<Rightarrow> log_state \<Rightarrow> log_state option" where
  "log_write data s = do {
     (state, s) \<leftarrow> lock_alone s;
     s \<leftarrow> log_write_lockless data s;
     Some (unlock_alone state s) }"

definition log_putc :: "char \<Rightarrow> log_state \<Rightarrow> log_state option" where
  "log_putc character = log_write [character]"

definition log_vaprintf_lockless :: "string \<Rightarrow> va list \<Rightarrow> log_state \<Rightarrow> log_state option" where
  "log_vaprintf_lockless fmt args s = do {
     (bytes_written, buf) \<leftarrow> vsnprintf (lg_printf_buf s) fmt args;
     log_write_lockless (take (nat bytes_written) buf) (s\<lparr>lg_printf_buf := buf\<rparr>) }"

definition log_printf_lockless :: "string \<Rightarrow> va list \<Rightarrow> log_state \<Rightarrow> log_state option" where
  "log_printf_lockless fmt args = log_vaprintf_lockless fmt args"

definition log_printf :: "string \<Rightarrow> va list \<Rightarrow> log_state \<Rightarrow> log_state option" where
  "log_printf fmt args s = do {
     (state, s) \<leftarrow> lock_alone s;
     s \<leftarrow> log_vaprintf_lockless fmt args s;
     Some (unlock_alone state s) }"

text \<open>The colour sequence of a type of message; the control character starts it.\<close>

definition ESC :: char where
  "ESC = CHR 0x1B"

definition NEWLINE :: char where
  "NEWLINE = CHR 0x0A"

definition log_prefix :: "log_type \<Rightarrow> string" where
  "log_prefix type = (case type of
     LOG_TYPE_SUCCESS \<Rightarrow> ''['' @ ESC # ''[32m''
   | LOG_TYPE_WARN \<Rightarrow> ''['' @ ESC # ''[33m''
   | LOG_TYPE_ERR \<Rightarrow> ''['' @ ESC # ''[35m''
   | LOG_TYPE_PANIC \<Rightarrow> ''['' @ ESC # ''[31m''
   | LOG_TYPE_INFO \<Rightarrow> ''['' @ ESC # ''[36m'')"

definition log_suffix :: "log_type \<Rightarrow> string" where
  "log_suffix type = (case type of
     LOG_TYPE_SUCCESS \<Rightarrow> '':success'' @ ESC # ''[0m] ''
   | LOG_TYPE_WARN \<Rightarrow> '':warning'' @ ESC # ''[0m] ''
   | LOG_TYPE_ERR \<Rightarrow> '':error'' @ ESC # ''[0m] ''
   | LOG_TYPE_PANIC \<Rightarrow> '':panic'' @ ESC # ''[0m] ''
   | LOG_TYPE_INFO \<Rightarrow> '':info'' @ ESC # ''[0m] '')"

text \<open>The last call passes a string of two characters with the length one.\<close>

definition log_valogf_lockless :: "log_type \<Rightarrow> string \<Rightarrow> string \<Rightarrow> va list \<Rightarrow> log_state \<Rightarrow> log_state option" where
  "log_valogf_lockless type subsystem fmt args s = do {
     s \<leftarrow> log_write_lockless (log_prefix type) s;
     s \<leftarrow> log_write_lockless subsystem s;
     s \<leftarrow> log_write_lockless (log_suffix type) s;
     (bytes_written, buf) \<leftarrow> vsnprintf (lg_logf_buf s) fmt args;
     s \<leftarrow> log_write_lockless (take (nat bytes_written) buf) (s\<lparr>lg_logf_buf := buf\<rparr>);
     log_write_lockless [NEWLINE] s }"

definition log_logf_lockless :: "log_type \<Rightarrow> string \<Rightarrow> string \<Rightarrow> va list \<Rightarrow> log_state \<Rightarrow> log_state option" where
  "log_logf_lockless type subsystem fmt args = log_valogf_lockless type subsystem fmt args"

definition log_logf :: "log_type \<Rightarrow> string \<Rightarrow> string \<Rightarrow> va list \<Rightarrow> log_state \<Rightarrow> log_state option" where
  "log_logf type subsystem fmt args s = do {
     (state, s) \<leftarrow> lock_alone s;
     s \<leftarrow> log_valogf_lockless type subsystem fmt args s;
     Some (unlock_alone state s) }"

definition log_lock :: "log_state \<Rightarrow> (bool \<times> log_state) option" where
  "log_lock = lock_alone"

section \<open>Subsystems\<close>

definition log_register_subsystem :: "addr \<Rightarrow> log_state \<Rightarrow> log_state option" where
  "log_register_subsystem subsystem s = do {
     (state, s) \<leftarrow> lock_alone s;
     let s = s\<lparr>lg_next := (lg_next s)(subsystem := lg_first s)\<rparr>;
     let s = s\<lparr>lg_first := subsystem\<rparr>;
     Some (unlock_alone state s) }"

text \<open>The branch that finds the subsystem returns with the lock taken and interrupts off.\<close>

partial_function (option) unregister_from :: "bool \<Rightarrow> addr \<Rightarrow> addr \<Rightarrow> addr \<Rightarrow> log_state \<Rightarrow> log_state option" where
  "unregister_from state subsystem prev current s =
     (if current = 0 then Some (unlock_alone state s)
      else if current = subsystem then
        Some (if prev = 0 then s\<lparr>lg_first := lg_next s subsystem\<rparr>
              else s\<lparr>lg_next := (lg_next s)(prev := lg_next s subsystem)\<rparr>)
      else unregister_from state subsystem current (lg_next s current) s)"

definition log_unregister_subsystem :: "addr \<Rightarrow> log_state \<Rightarrow> log_state option" where
  "log_unregister_subsystem subsystem s = do {
     (state, s) \<leftarrow> lock_alone s;
     unregister_from state subsystem 0 (lg_first s) s }"

section \<open>Boot output\<close>

text \<open>
  The two drivers of \<^verbatim>\<open>drivers/output\<close> and their use by \<^verbatim>\<open>init/init.c\<close>. The addresses of the static subsystem objects are
  parameters, as are the answer of port 0xe9 and the tags the boot loader passes: a linked list of tags with their identifiers.
\<close>

definition e9_register :: "addr \<Rightarrow> bool \<Rightarrow> log_state \<Rightarrow> (bool \<times> log_state) option" where
  "e9_register instance_addr e9_detect s =
     (if e9_detect then do {
        s \<leftarrow> log_register_subsystem instance_addr s;
        s \<leftarrow> log_logf LOG_TYPE_SUCCESS ''drivers/output/e9'' ''e9 log subsystem regsitered!'' [] s;
        Some (True, s) }
      else Some (False, s))"

record stivale2_tag =
  tag_identifier :: nat
  tag_next :: addr

partial_function (option) stivale2_query :: "(addr \<Rightarrow> stivale2_tag) \<Rightarrow> nat \<Rightarrow> addr \<Rightarrow> addr option" where
  "stivale2_query mem ident tag =
     (if tag \<noteq> 0 then
        if tag_identifier (mem tag) = ident then Some tag else stivale2_query mem ident (tag_next (mem tag))
      else Some tag)"

definition STIVALE2_STRUCT_TAG_TERMINAL_ID :: nat where
  "STIVALE2_STRUCT_TAG_TERMINAL_ID = 0xc2b3f4c3233b0974"

text \<open>The flag \<open>kernel_stivale2_term_loaded\<close> goes along with the log.\<close>

definition kernel_load_stivale2_term ::
  "addr \<Rightarrow> (addr \<Rightarrow> stivale2_tag) \<Rightarrow> addr \<Rightarrow> bool \<times> log_state \<Rightarrow> (bool \<times> log_state) option" where
  "kernel_load_stivale2_term term_subsystem mem tags = (\<lambda>(loaded, s). do {
     term_tag \<leftarrow> stivale2_query mem STIVALE2_STRUCT_TAG_TERMINAL_ID tags;
     if term_tag \<noteq> 0 then do {
       s \<leftarrow> log_register_subsystem term_subsystem s;
       s \<leftarrow> log_logf LOG_TYPE_SUCCESS ''init'' ''Stivale2 terminal registered!'' [] s;
       Some (True, s) }
     else do {
       s \<leftarrow> log_logf LOG_TYPE_WARN ''init'' ''Stivale 2 terminal was not found!'' [] s;
       Some (loaded, s) } })"

definition kernel_unload_stivale2_term :: "addr \<Rightarrow> bool \<times> log_state \<Rightarrow> (bool \<times> log_state) option" where
  "kernel_unload_stivale2_term term_subsystem = (\<lambda>(loaded, s).
     if loaded then do {
       s \<leftarrow> log_unregister_subsystem term_subsystem s;
       s \<leftarrow> log_logf LOG_TYPE_SUCCESS ''init'' ''Stivale2 terminal unregistered!'' [] s;
       Some (loaded, s) }
     else Some (loaded, s))"

section \<open>The log as a list of subsystems\<close>

fun schain :: "(addr \<Rightarrow> addr) \<Rightarrow> addr \<Rightarrow> addr list \<Rightarrow> bool" where
  "schain nx p [] \<longleftrightarrow> p = 0"
| "schain nx p (x # xs) \<longleftrightarrow> p = x \<and> x \<noteq> 0 \<and> schain nx (nx x) xs"

definition unlocked :: "log_state \<Rightarrow> bool" where
  "unlocked s \<longleftrightarrow> sp_current (lg_lock s) = sp_allocated (lg_lock s)"

text \<open>The subsystems of a log that is not in use.\<close>

definition log_rep :: "log_state \<Rightarrow> addr list \<Rightarrow> bool" where
  "log_rep s xs \<longleftrightarrow> distinct xs \<and> schain (lg_next s) (lg_first s) xs \<and> unlocked s
     \<and> length (lg_printf_buf s) = LOG_BUFFER_SIZE \<and> length (lg_logf_buf s) = LOG_BUFFER_SIZE"

text \<open>What a subsystem has been given to print.\<close>

definition received :: "log_state \<Rightarrow> addr \<Rightarrow> string" where
  "received s x = concat (map snd (filter (\<lambda>c. fst c = x) (lg_calls s)))"

lemma write_from_chain:
  assumes "schain (lg_next s) p xs"
  shows "write_from data p s = Some (s\<lparr>lg_calls := lg_calls s @ map (\<lambda>x. (x, data)) xs\<rparr>)"
  using assms
proof (induction xs arbitrary: p s)
  case Nil
  then show ?case by (simp add: write_from.simps)
next
  case (Cons x xs)
  then show ?case by (simp add: write_from.simps [of data x])
qed

lemma received_write:
  assumes "distinct xs"
  shows "received (s\<lparr>lg_calls := lg_calls s @ map (\<lambda>x. (x, data)) xs\<rparr>) x
    = received s x @ (if x \<in> set xs then data else [])"
  using assms by (induction xs) (auto simp: received_def filter_empty_conv)

lemma schain_unaffected: "x \<notin> set xs \<Longrightarrow> schain (nx(x := v)) p xs = schain nx p xs"
  by (induction xs arbitrary: p) auto

lemma schain_nonzero: "schain nx p xs \<Longrightarrow> 0 \<notin> set xs"
  by (induction xs arbitrary: p) auto

text \<open>Taking and releasing the lock of a log that is not in use.\<close>

definition taken :: "log_state \<Rightarrow> log_state" where
  "taken s = s\<lparr>lg_flag := False, lg_lock := (lg_lock s)\<lparr>sp_allocated := sp_allocated (lg_lock s) + 1\<rparr>\<rparr>"

lemma lock_alone_unlocked: "unlocked s \<Longrightarrow> lock_alone s = Some (lg_flag s, taken s)"
  by (simp add: lock_alone_def taken_def unlocked_def intlevel_elevate_def grab_ticket_def grab_done_def)

lemma lock_alone_taken: "\<not> unlocked s \<Longrightarrow> lock_alone s = None"
  by (simp add: lock_alone_def unlocked_def intlevel_elevate_def grab_ticket_def grab_done_def)

lemma taken_sel [simp]:
  "lg_first (taken s) = lg_first s" "lg_next (taken s) = lg_next s" "lg_calls (taken s) = lg_calls s"
  "lg_printf_buf (taken s) = lg_printf_buf s" "lg_logf_buf (taken s) = lg_logf_buf s" "\<not> lg_flag (taken s)"
  by (simp_all add: taken_def)

lemma unlock_alone_sel [simp]:
  "lg_first (unlock_alone b s) = lg_first s" "lg_next (unlock_alone b s) = lg_next s" "lg_calls (unlock_alone b s) = lg_calls s"
  "lg_printf_buf (unlock_alone b s) = lg_printf_buf s" "lg_logf_buf (unlock_alone b s) = lg_logf_buf s"
  by (simp_all add: unlock_alone_def)

lemma unlock_alone_unlocked:
  assumes "lg_lock s = lg_lock (taken s0)" "unlocked s0"
  shows "unlocked (unlock_alone b s)"
  using assms by (simp add: unlock_alone_def unlocked_def taken_def ungrab_store_def ungrab_load_def)

lemma unlock_alone_flag: "\<not> lg_flag s \<Longrightarrow> lg_flag (unlock_alone b s) = b"
  by (simp add: unlock_alone_def intlevel_recover_def)

lemma taken_not_unlocked: "unlocked s \<Longrightarrow> lg_lock s' = lg_lock (taken s) \<Longrightarrow> \<not> unlocked s'"
  by (simp add: unlocked_def taken_def)

section \<open>Messages\<close>

text \<open>Output without the lock: everything but the calls and the buffers stays.\<close>

definition wrote :: "log_state \<Rightarrow> addr list \<Rightarrow> string \<Rightarrow> log_state \<Rightarrow> bool" where
  "wrote s xs text s' \<longleftrightarrow> lg_first s' = lg_first s \<and> lg_next s' = lg_next s \<and> lg_lock s' = lg_lock s \<and> lg_flag s' = lg_flag s
     \<and> length (lg_printf_buf s') = length (lg_printf_buf s) \<and> length (lg_logf_buf s') = length (lg_logf_buf s)
     \<and> (\<forall>x. received s' x = received s x @ (if x \<in> set xs then text else []))"

lemma wrote_trans: "wrote s xs t s' \<Longrightarrow> wrote s' xs u s'' \<Longrightarrow> wrote s xs (t @ u) s''"
  by (auto simp: wrote_def)

lemma write_lockless_wrote:
  assumes "distinct xs" "schain (lg_next s) (lg_first s) xs"
  shows "\<exists>s'. log_write_lockless data s = Some s' \<and> wrote s xs data s'
    \<and> lg_printf_buf s' = lg_printf_buf s \<and> lg_logf_buf s' = lg_logf_buf s"
  using write_from_chain [OF assms(2)] received_write [OF assms(1)] by (simp add: log_write_lockless_def wrote_def)

lemma wrote_chain: "wrote s xs t s' \<Longrightarrow> schain (lg_next s) (lg_first s) xs \<Longrightarrow> schain (lg_next s') (lg_first s') xs"
  by (simp add: wrote_def)

lemma vsnprintf_text:
  assumes "render fmt args = Some out" "length out < length buf"
  shows "\<exists>buf'. vsnprintf buf fmt args = Some (int (length out), buf') \<and> length buf' = length buf \<and> take (length out) buf' = out"
  using fmt_loop_enough [OF assms(1), of "[]" "int (length buf) - 1" buf] assms(2) by (auto simp: vsnprintf_def)

lemma valogf_wrote:
  assumes xs: "distinct xs" "schain (lg_next s) (lg_first s) xs"
    and out: "render fmt args = Some out" "length out < length (lg_logf_buf s)"
  shows "\<exists>s'. log_valogf_lockless type sub fmt args s = Some s'
    \<and> wrote s xs (log_prefix type @ sub @ log_suffix type @ out @ [NEWLINE]) s'"
proof -
  obtain s1 where s1: "log_write_lockless (log_prefix type) s = Some s1" "wrote s xs (log_prefix type) s1"
    using write_lockless_wrote [OF xs] by blast
  note c1 = wrote_chain [OF s1(2) xs(2)]
  obtain s2 where s2: "log_write_lockless sub s1 = Some s2" "wrote s1 xs sub s2"
    using write_lockless_wrote [OF xs(1) c1] by blast
  note c2 = wrote_chain [OF s2(2) c1]
  obtain s3 where s3: "log_write_lockless (log_suffix type) s2 = Some s3" "wrote s2 xs (log_suffix type) s3"
    using write_lockless_wrote [OF xs(1) c2] by blast
  note c3 = wrote_chain [OF s3(2) c2]
  have "length out < length (lg_logf_buf s3)"
    using s1(2) s2(2) s3(2) out(2) by (simp add: wrote_def)
  then obtain buf where buf: "vsnprintf (lg_logf_buf s3) fmt args = Some (int (length out), buf)"
    "length buf = length (lg_logf_buf s3)" "take (length out) buf = out"
    using vsnprintf_text [OF out(1)] by blast
  let ?s4 = "s3\<lparr>lg_logf_buf := buf\<rparr>"
  have s4: "wrote s3 xs [] ?s4" using buf(2) by (simp add: wrote_def received_def)
  note c4 = wrote_chain [OF s4 c3]
  obtain s5 where s5: "log_write_lockless out ?s4 = Some s5" "wrote ?s4 xs out s5"
    using write_lockless_wrote [OF xs(1) c4] by blast
  note c5 = wrote_chain [OF s5(2) c4]
  obtain s6 where s6: "log_write_lockless [NEWLINE] s5 = Some s6" "wrote s5 xs [NEWLINE] s6"
    using write_lockless_wrote [OF xs(1) c5] by blast
  have "wrote s xs (log_prefix type @ sub @ log_suffix type @ out @ [NEWLINE]) s6"
    using wrote_trans [OF s1(2) wrote_trans [OF s2(2) wrote_trans [OF s3(2) wrote_trans [OF s4 wrote_trans [OF s5(2) s6(2)]]]]]
    by simp
  moreover have "log_valogf_lockless type sub fmt args s = Some s6"
    using s1(1) s2(1) s3(1) s5(1) s6(1) buf by (simp add: log_valogf_lockless_def)
  ultimately show ?thesis by blast
qed

lemma received_taken [simp]: "received (taken s) x = received s x" "received (unlock_alone b s) x = received s x"
  by (simp_all add: received_def)

text \<open>A section under the lock that only writes: the log is as before, with the text added.\<close>

lemma locked_section:
  assumes "log_rep s xs" "\<exists>s'. act (taken s) = Some s' \<and> wrote (taken s) xs text s'"
  shows "\<exists>s'. do { (state, s) \<leftarrow> lock_alone s; s \<leftarrow> act s; Some (unlock_alone state s) } = Some s'
    \<and> log_rep s' xs \<and> lg_flag s' = lg_flag s \<and> (\<forall>x. received s' x = received s x @ (if x \<in> set xs then text else []))"
proof -
  have free: "unlocked s" using assms(1) by (simp add: log_rep_def)
  obtain s1 where s1: "act (taken s) = Some s1" "wrote (taken s) xs text s1" using assms(2) by blast
  have "unlocked (unlock_alone (lg_flag s) s1)"
    using s1(2) free by (intro unlock_alone_unlocked [of s1 s]) (simp_all add: wrote_def)
  moreover have "lg_flag (unlock_alone (lg_flag s) s1) = lg_flag s"
    using s1(2) by (intro unlock_alone_flag) (simp add: wrote_def)
  ultimately show ?thesis
    using assms(1) s1 by (simp add: lock_alone_unlocked [OF free] log_rep_def wrote_def)
qed

lemma taken_rep: "log_rep s xs \<Longrightarrow> distinct xs \<and> schain (lg_next (taken s)) (lg_first (taken s)) xs \<and> length (lg_logf_buf (taken s)) = LOG_BUFFER_SIZE"
  by (simp add: log_rep_def)

lemma log_logf_ok:
  assumes "log_rep s xs" "render fmt args = Some out" "length out < LOG_BUFFER_SIZE"
  shows "\<exists>s'. log_logf type sub fmt args s = Some s' \<and> log_rep s' xs \<and> lg_flag s' = lg_flag s
    \<and> (\<forall>x. received s' x = received s x @ (if x \<in> set xs then log_prefix type @ sub @ log_suffix type @ out @ [NEWLINE] else []))"
  unfolding log_logf_def using taken_rep [OF assms(1)] assms(2,3)
  by (intro locked_section [OF assms(1)] valogf_wrote) simp_all

lemma log_register_ok:
  assumes "log_rep s xs" "x \<noteq> 0" "x \<notin> set xs"
  shows "\<exists>s'. log_register_subsystem x s = Some s' \<and> log_rep s' (x # xs) \<and> lg_flag s' = lg_flag s \<and> lg_calls s' = lg_calls s"
proof -
  have free: "unlocked s" using assms(1) by (simp add: log_rep_def)
  let ?s = "taken s\<lparr>lg_next := (lg_next s)(x := lg_first s), lg_first := x\<rparr>"
  have "unlocked (unlock_alone (lg_flag s) ?s)"
    using free by (intro unlock_alone_unlocked [of ?s s]) simp_all
  moreover have "lg_flag (unlock_alone (lg_flag s) ?s) = lg_flag s"
    by (intro unlock_alone_flag) simp
  ultimately show ?thesis
    using assms by (simp add: log_register_subsystem_def lock_alone_unlocked [OF free] Let_def log_rep_def schain_unaffected)
qed

text \<open>Unregistering: the subsystem goes from the list, and the lock stays taken.\<close>

lemma unregister_from_found:
  assumes "schain (lg_next s) current xs" "distinct xs" "x \<in> set xs" "prev \<noteq> 0" "prev \<notin> set xs" "lg_next s prev = current"
  shows "\<exists>nx. unregister_from state x prev current s = Some (s\<lparr>lg_next := nx\<rparr>)
    \<and> (\<forall>y. y \<notin> insert prev (set xs) \<longrightarrow> nx y = lg_next s y) \<and> schain nx (nx prev) (remove1 x xs)"
  using assms
proof (induction xs arbitrary: current prev)
  case (Cons y ys)
  have cur: "current = y" "y \<noteq> 0" using Cons.prems(1) by auto
  show ?case
  proof (cases "y = x")
    case True
    let ?nx = "(lg_next s)(prev := lg_next s x)"
    have "unregister_from state x prev current s = Some (s\<lparr>lg_next := ?nx\<rparr>)"
      using True cur Cons.prems(4) by (subst unregister_from.simps) simp
    moreover have "schain ?nx (?nx prev) (remove1 x (y # ys))"
      using True Cons.prems(1,5) schain_unaffected [of prev ys] by simp
    moreover have "\<forall>z. z \<notin> insert prev (set (y # ys)) \<longrightarrow> ?nx z = lg_next s z"
      by simp
    ultimately show ?thesis by blast
  next
    case False
    obtain nx where nx: "unregister_from state x y (lg_next s y) s = Some (s\<lparr>lg_next := nx\<rparr>)"
      "\<forall>z. z \<notin> insert y (set ys) \<longrightarrow> nx z = lg_next s z" "schain nx (nx y) (remove1 x ys)"
      using Cons.IH [of "lg_next s y" y] Cons.prems cur False by auto
    have "nx prev = y" using nx(2) Cons.prems(5,6) cur by auto
    then show ?thesis
      using nx cur False by (intro exI [of _ nx]) (auto simp: unregister_from.simps [of state x prev y])
  qed
qed simp

lemma log_unregister_found:
  assumes "log_rep s xs" "x \<in> set xs"
  shows "\<exists>s'. log_unregister_subsystem x s = Some s' \<and> schain (lg_next s') (lg_first s') (remove1 x xs) \<and> \<not> unlocked s' \<and> \<not> lg_flag s'"
proof -
  have free: "unlocked s" using assms(1) by (simp add: log_rep_def)
  have lock: "\<not> unlocked s'" if "lg_lock s' = lg_lock (taken s)" for s'
    using taken_not_unlocked [OF free that] .
  obtain y ys where xs: "xs = y # ys" using assms(2) by (cases xs) auto
  have y: "lg_first s = y" "y \<noteq> 0" "schain (lg_next s) (lg_next s y) ys" "distinct ys" "y \<notin> set ys"
    using assms(1) by (auto simp: log_rep_def xs)
  show ?thesis
  proof (cases "x = y")
    case True
    then show ?thesis
      using y by (auto simp: log_unregister_subsystem_def lock_alone_unlocked [OF free] unregister_from.simps [of _ y] xs intro!: lock)
  next
    case False
    obtain nx where nx: "unregister_from (lg_flag s) x y (lg_next s y) (taken s) = Some (taken s\<lparr>lg_next := nx\<rparr>)"
      "\<forall>z. z \<notin> insert y (set ys) \<longrightarrow> nx z = lg_next s z" "schain nx (nx y) (remove1 x ys)"
      using unregister_from_found [of "taken s" "lg_next s y" ys x y "lg_flag s"] y False assms(2) by (auto simp: xs)
    have "log_unregister_subsystem x s = Some (taken s\<lparr>lg_next := nx\<rparr>)"
      using nx(1) y False by (simp add: log_unregister_subsystem_def lock_alone_unlocked [OF free] unregister_from.simps [of _ x 0 y])
    then show ?thesis
      using nx(3) y False by (auto simp: xs intro!: lock)
  qed
qed

text \<open>A subsystem registered twice is its own successor.\<close>

lemma write_from_cycle:
  assumes "lg_next s p = p" "p \<noteq> 0"
  shows "write_from data p s = None"
proof (cases "write_from data p s")
  case (Some r)
  have "\<not> (lg_next s p = p \<and> p \<noteq> 0)"
    by (rule write_from.raw_induct [of "\<lambda>data p s r. \<not> (lg_next s p = p \<and> p \<noteq> 0)", OF _ Some])
      (fastforce split: if_splits)
  with assms show ?thesis by simp
qed simp

lemma log_register_twice:
  assumes "log_rep s xs" "x \<noteq> 0" "xs = x # ys"
  shows "\<exists>s'. log_register_subsystem x s = Some s' \<and> log_logf type sub fmt args s' = None"
proof -
  have free: "unlocked s" using assms(1) by (simp add: log_rep_def)
  let ?s = "taken s\<lparr>lg_next := (lg_next s)(x := x), lg_first := x\<rparr>"
  let ?s' = "unlock_alone (lg_flag s) ?s"
  have "lg_first s = x" using assms(1,3) by (simp add: log_rep_def)
  then have reg: "log_register_subsystem x s = Some ?s'"
    by (simp add: log_register_subsystem_def lock_alone_unlocked [OF free] Let_def)
  have "unlocked ?s'"
    using free by (intro unlock_alone_unlocked [of ?s s]) simp_all
  moreover have "log_write_lockless data (taken ?s') = None" for data
    using assms(2) by (simp add: log_write_lockless_def write_from_cycle)
  ultimately show ?thesis
    using reg by (simp add: log_logf_def log_valogf_lockless_def lock_alone_unlocked)
qed

section \<open>The log at boot\<close>

lemma stivale2_query_chain:
  "schain (\<lambda>t. tag_next (mem t)) p ts \<Longrightarrow>
   stivale2_query mem ident p = Some (case find (\<lambda>t. tag_identifier (mem t) = ident) ts of None \<Rightarrow> 0 | Some t \<Rightarrow> t)"
  by (induction ts arbitrary: p) (auto simp: stivale2_query.simps)

lemma find_chain_nonzero: "schain nx p ts \<Longrightarrow> find P ts = Some t \<Longrightarrow> t \<noteq> 0"
  by (auto simp: find_Some_iff dest!: schain_nonzero) (metis gr0I nth_mem)

text \<open>With an output present it is registered, and the message that says so is printed.\<close>

lemma e9_register_ok:
  assumes "log_rep s []" "e9 \<noteq> 0"
  shows "\<exists>s'. e9_register e9 True s = Some (True, s') \<and> log_rep s' [e9] \<and> lg_flag s' = lg_flag s"
proof -
  obtain s1 where s1: "log_register_subsystem e9 s = Some s1" "log_rep s1 [e9]" "lg_flag s1 = lg_flag s"
    using log_register_ok [OF assms(1), of e9] assms(2) by auto
  have "render ''e9 log subsystem regsitered!'' [] = Some ''e9 log subsystem regsitered!''"
    by simp
  from log_logf_ok [OF s1(2) this, of LOG_TYPE_SUCCESS "''drivers/output/e9''"] show ?thesis
    using s1 by (auto simp: e9_register_def LOG_BUFFER_SIZE_def)
qed

lemma kernel_load_stivale2_term_ok:
  assumes "log_rep s xs" "term \<noteq> 0" "term \<notin> set xs" "schain (\<lambda>t. tag_next (mem t)) p ts"
    and "find (\<lambda>t. tag_identifier (mem t) = STIVALE2_STRUCT_TAG_TERMINAL_ID) ts = Some t"
  shows "\<exists>s'. kernel_load_stivale2_term term mem p (loaded, s) = Some (True, s') \<and> log_rep s' (term # xs) \<and> lg_flag s' = lg_flag s"
proof -
  obtain s1 where s1: "log_register_subsystem term s = Some s1" "log_rep s1 (term # xs)" "lg_flag s1 = lg_flag s"
    using log_register_ok [OF assms(1-3)] by auto
  have "render ''Stivale2 terminal registered!'' [] = Some ''Stivale2 terminal registered!''"
    by simp
  from log_logf_ok [OF s1(2) this, of LOG_TYPE_SUCCESS "''init''"] show ?thesis
    using s1 stivale2_query_chain [OF assms(4)] assms(5) find_chain_nonzero [OF assms(4,5)]
    by (auto simp: kernel_load_stivale2_term_def LOG_BUFFER_SIZE_def)
qed

section \<open>Properties\<close>

text \<open>C29: A message reaches every registered subsystem, and nothing else does: when the text of a message fits into the buffer of 4096
  bytes, \<open>log_logf\<close> returns with the lock free and the interrupt flag as before, each registered subsystem has been given one
  line (the colour and name of the message's origin, then the formatted text) after what it got before, and no other subsystem
  has been given anything. Registering adds a subsystem to the list and prints nothing.
\<close>

theorem log_message_reaches_all:
  assumes "log_rep s xs" "render fmt args = Some out" "length out < LOG_BUFFER_SIZE" "x \<noteq> 0" "x \<notin> set xs"
  shows "(\<exists>s'. log_logf type sub fmt args s = Some s' \<and> log_rep s' xs \<and> lg_flag s' = lg_flag s
      \<and> (\<forall>y. received s' y = received s y
            @ (if y \<in> set xs then log_prefix type @ sub @ log_suffix type @ out @ [NEWLINE] else [])))
    \<and> (\<exists>s'. log_register_subsystem x s = Some s' \<and> log_rep s' (x # xs) \<and> lg_flag s' = lg_flag s \<and> received s' = received s)"
proof
  show "\<exists>s'. log_logf type sub fmt args s = Some s' \<and> log_rep s' xs \<and> lg_flag s' = lg_flag s
      \<and> (\<forall>y. received s' y = received s y
            @ (if y \<in> set xs then log_prefix type @ sub @ log_suffix type @ out @ [NEWLINE] else []))"
    by (rule log_logf_ok [OF assms(1-3)])
  show "\<exists>s'. log_register_subsystem x s = Some s' \<and> log_rep s' (x # xs) \<and> lg_flag s' = lg_flag s \<and> received s' = received s"
    using log_register_ok [OF assms(1,4,5)] by (auto simp: received_def fun_eq_iff)
qed

definition log_example :: log_state where
  "log_example = (log_static True)\<lparr>lg_first := 64\<rparr>"

lemma log_example_rep: "log_rep log_example [64]" "received log_example x = []" "lg_first log_example = 64"
  by (simp_all add: log_example_def log_rep_def log_static_def unlocked_def THREAD_SPINLOCK_INIT_def received_def)

theorem log_message_reaches_all_witness:
  "\<exists>s'. log_logf LOG_TYPE_INFO ''a'' ''x=%u'' [VWord 7] log_example = Some s'
    \<and> received s' 64 = ''['' @ ESC # ''[36ma:info'' @ ESC # ''[0m] x=7'' @ [NEWLINE] \<and> received s' 65 = []"
proof -
  have "render ''x=%u'' [VWord 7] = Some ''x=7''" "length ''x=7'' < LOG_BUFFER_SIZE"
    by (simp_all add: conversion_def va_word_def conv_unsigned_def padded_def numeral_text.simps fmt_digits_def LOG_BUFFER_SIZE_def)
  from log_message_reaches_all [OF log_example_rep(1) this, of 65 LOG_TYPE_INFO "''a''"]
  show ?thesis by (auto simp: log_example_rep log_prefix_def log_suffix_def)
qed

text \<open>Unregistering a subsystem takes it off the list but returns with the lock taken and interrupts off: nothing can be logged
  after it, so that unloading the boot terminal hangs on the very message that reports it. And a subsystem registered twice
  in a row makes the list a cycle that no message gets through.
\<close>

lemma log_unregister_hangs:
  assumes "log_rep s xs" "x \<in> set xs"
  shows "(\<exists>s'. log_unregister_subsystem x s = Some s' \<and> schain (lg_next s') (lg_first s') (remove1 x xs) \<and> \<not> lg_flag s'
        \<and> log_logf type sub fmt args s' = None \<and> log_write data s' = None \<and> log_register_subsystem y s' = None)
    \<and> kernel_unload_stivale2_term x (True, s) = None
    \<and> (\<exists>s'. log_register_subsystem (lg_first s) s = Some s' \<and> log_logf type sub fmt args s' = None)"
proof (intro conjI)
  obtain s' where s': "log_unregister_subsystem x s = Some s'" "schain (lg_next s') (lg_first s') (remove1 x xs)"
    "\<not> unlocked s'" "\<not> lg_flag s'"
    using log_unregister_found [OF assms] by blast
  then show "\<exists>s'. log_unregister_subsystem x s = Some s' \<and> schain (lg_next s') (lg_first s') (remove1 x xs) \<and> \<not> lg_flag s'
      \<and> log_logf type sub fmt args s' = None \<and> log_write data s' = None \<and> log_register_subsystem y s' = None"
    by (simp add: log_logf_def log_write_def log_register_subsystem_def lock_alone_taken)
  show "kernel_unload_stivale2_term x (True, s) = None"
    using s' by (simp add: kernel_unload_stivale2_term_def log_logf_def lock_alone_taken)
  obtain ys where "xs = lg_first s # ys" "lg_first s \<noteq> 0"
    using assms by (cases xs) (auto simp: log_rep_def)
  then show "\<exists>s'. log_register_subsystem (lg_first s) s = Some s' \<and> log_logf type sub fmt args s' = None"
    using log_register_twice [OF assms(1)] by blast
qed

end
