(* ===== verification/Timer.thy ===== *)
theory Timer
  imports Acpi "HOL-Library.Word"
begin

unbundle bit_operations_syntax

text \<open>
  \<^verbatim>\<open>sys/timers/timer.c\<close> and \<^verbatim>\<open>sys/timers/acpi.c\<close>: busy waiting on the best timer registered, and the ACPI timer, a counter of 24
  or 32 bits that runs at 3.58 MHz. Timers are objects in a store, linked by \<open>next\<close>; their callbacks are arguments of the generic
  layer. The counter is read from the hardware: \<open>io n\<close> and \<open>mm n\<close> are what ports and memory-mapped registers hold at the
  \<open>n\<close>-th read.
\<close>

section \<open>Timers\<close>

record timer =
  tm_coolness :: "64 word"
  tm_next :: addr

type_synonym timers = "addr \<Rightarrow> timer"

definition set_tm_next :: "addr \<Rightarrow> addr \<Rightarrow> timers \<Rightarrow> timers" where
  "set_tm_next a n ts = ts(a := (ts a)\<lparr>tm_next := n\<rparr>)"

text \<open>The loops do not advance along the list.\<close>

partial_function (option) register_loop :: "addr \<Rightarrow> addr \<Rightarrow> timers \<Rightarrow> timers option" where
  "register_loop timer current ts =
     (if tm_next (ts current) \<noteq> 0 then
        if tm_coolness (ts (tm_next (ts current))) < tm_coolness (ts timer) then
          Some (set_tm_next current timer (set_tm_next timer (tm_next (ts current)) ts))
        else register_loop timer current ts
      else Some (set_tm_next current timer ts))"

definition timer_register :: "addr \<Rightarrow> addr \<Rightarrow> timers \<Rightarrow> timers option" where
  "timer_register timer_list_head timer ts = register_loop timer timer_list_head (set_tm_next timer 0 ts)"

partial_function (option) make_goal_loop ::
  "timers \<Rightarrow> (addr \<Rightarrow> 32 word \<Rightarrow> 'w \<Rightarrow> (bool \<times> 'w) option) \<Rightarrow> addr \<Rightarrow> 32 word \<Rightarrow> 'w \<Rightarrow> (addr \<times> 'w) option" where
  "make_goal_loop ts make_goal prev ms w =
     (if tm_next (ts prev) \<noteq> 0 then
        Option.bind (make_goal (tm_next (ts prev)) ms w) (\<lambda>(done, w).
          if \<not> done then make_goal_loop ts make_goal prev ms w
          else Some (tm_next (ts prev), w))
      else None)"

definition timer_make_goal ::
  "addr \<Rightarrow> timers \<Rightarrow> (addr \<Rightarrow> 32 word \<Rightarrow> 'w \<Rightarrow> (bool \<times> 'w) option) \<Rightarrow> 32 word \<Rightarrow> 'w \<Rightarrow> (addr \<times> 'w) option" where
  "timer_make_goal timer_list_head ts make_goal ms w = make_goal_loop ts make_goal timer_list_head ms w"

definition timer_poll_goal :: "(addr \<Rightarrow> 'w \<Rightarrow> (bool \<times> 'w) option) \<Rightarrow> addr \<Rightarrow> 'w \<Rightarrow> (bool \<times> 'w) option" where
  "timer_poll_goal is_goal_reached goal w = is_goal_reached goal w"

partial_function (option) timer_busy_wait_on_goal :: "(addr \<Rightarrow> 'w \<Rightarrow> (bool \<times> 'w) option) \<Rightarrow> addr \<Rightarrow> 'w \<Rightarrow> 'w option" where
  "timer_busy_wait_on_goal is_goal_reached goal w =
     Option.bind (timer_poll_goal is_goal_reached goal w) (\<lambda>(reached, w).
       if \<not> reached then timer_busy_wait_on_goal is_goal_reached goal w else Some w)"

definition timer_busy_wait_ms ::
  "addr \<Rightarrow> timers \<Rightarrow> (addr \<Rightarrow> 32 word \<Rightarrow> 'w \<Rightarrow> (bool \<times> 'w) option) \<Rightarrow> (addr \<Rightarrow> 'w \<Rightarrow> (bool \<times> 'w) option)
    \<Rightarrow> 32 word \<Rightarrow> 'w \<Rightarrow> 'w option" where
  "timer_busy_wait_ms timer_list_head ts make_goal is_goal_reached ms w = do {
     (goal, w) \<leftarrow> timer_make_goal timer_list_head ts make_goal ms w;
     timer_busy_wait_on_goal is_goal_reached goal w }"

section \<open>The ACPI timer\<close>

definition ACPI_GAS_MMIO_ADDRESS_SPACE :: nat where
  "ACPI_GAS_MMIO_ADDRESS_SPACE = 0"

definition ACPI_GAS_PORT_IO_ADDRESS_SPACE :: nat where
  "ACPI_GAS_PORT_IO_ADDRESS_SPACE = 1"

definition TIMER_ACPI_COOLNESS :: "64 word" where
  "TIMER_ACPI_COOLNESS = 1"

record acpi_timer_state =
  at_goal :: "32 word"
  at_init_val :: "32 word"
  at_space :: nat
  at_address :: nat
  at_32bit :: bool
  at_reads :: nat

definition acpi_timer_read_counter ::
  "(nat \<Rightarrow> nat \<Rightarrow> 32 word) \<Rightarrow> (nat \<Rightarrow> addr \<Rightarrow> 32 word) \<Rightarrow> addr \<Rightarrow> acpi_timer_state \<Rightarrow> (32 word \<times> acpi_timer_state) option" where
  "acpi_timer_read_counter io mm win s =
     (let s' = s\<lparr>at_reads := at_reads s + 1\<rparr> in
      if at_space s = ACPI_GAS_PORT_IO_ADDRESS_SPACE then
        (if at_address s < 65536 then Some (io (at_reads s) (at_address s), s') else None)
      else if at_space s = ACPI_GAS_MMIO_ADDRESS_SPACE then Some (mm (at_reads s) (u64 (win + at_address s)), s')
      else None)"

definition acpi_timer_make_goal ::
  "(nat \<Rightarrow> nat \<Rightarrow> 32 word) \<Rightarrow> (nat \<Rightarrow> addr \<Rightarrow> 32 word) \<Rightarrow> addr \<Rightarrow> addr \<Rightarrow> 32 word \<Rightarrow> acpi_timer_state
    \<Rightarrow> (bool \<times> acpi_timer_state) option" where
  "acpi_timer_make_goal io mm win self ms s = do {
     (val, s) \<leftarrow> acpi_timer_read_counter io mm win s;
     let s = s\<lparr>at_init_val := val\<rparr>;
     let s = s\<lparr>at_goal := at_init_val s + ms * 3580\<rparr>;
     let s = (if \<not> at_32bit s then s\<lparr>at_goal := at_goal s AND 0xffffff\<rparr> else s);
     Some (True, s) }"

definition acpi_timer_is_goal_reached ::
  "(nat \<Rightarrow> nat \<Rightarrow> 32 word) \<Rightarrow> (nat \<Rightarrow> addr \<Rightarrow> 32 word) \<Rightarrow> addr \<Rightarrow> addr \<Rightarrow> acpi_timer_state
    \<Rightarrow> (bool \<times> acpi_timer_state) option" where
  "acpi_timer_is_goal_reached io mm win self s = do {
     (current_val, s) \<leftarrow> acpi_timer_read_counter io mm win s;
     Some (if at_init_val s < at_goal s then current_val \<ge> at_goal s \<or> current_val < at_init_val s
           else if at_init_val s = at_goal s then True
           else current_val \<ge> at_goal s \<and> current_val < at_init_val s, s) }"

text \<open>The fields of the FADT are offsets: length of the timer block 91, its port 76, flags 112, its extended address 208.\<close>

definition acpi_timer_init ::
  "bytes \<Rightarrow> acpi_state \<Rightarrow> addr \<Rightarrow> addr \<Rightarrow> acpi_timer_state \<times> timers \<Rightarrow> (acpi_timer_state \<times> timers) option" where
  "acpi_timer_init rd8 acpi timer_list_head acpi_timer = (\<lambda>(s, ts).
     let fadt = acpi_boot_fadt acpi in
     if fadt = 0 then Some (s, ts)
     else if rd8 (fadt + 91) \<noteq> 4 then Some (s, ts)
     else do {
       let s = (if acpi_revision acpi \<ge> 2 \<and> rd64 rd8 (fadt + 208 + 4) \<noteq> 0
                then s\<lparr>at_space := rd8 (fadt + 208), at_address := rd64 rd8 (fadt + 208 + 4)\<rparr>
                else s\<lparr>at_space := ACPI_GAS_PORT_IO_ADDRESS_SPACE, at_address := rd32 rd8 (fadt + 76)\<rparr>);
       let s = (if bit (rd32 rd8 (fadt + 112)) 8 then s\<lparr>at_32bit := True\<rparr> else s);
       let ts = ts(acpi_timer := (ts acpi_timer)\<lparr>tm_coolness := TIMER_ACPI_COOLNESS\<rparr>);
       ts \<leftarrow> timer_register timer_list_head acpi_timer ts;
       Some (s, ts) })"

section \<open>Lists that do not end\<close>

lemma register_loop_hangs:
  assumes "tm_next (ts current) \<noteq> 0" "\<not> tm_coolness (ts (tm_next (ts current))) < tm_coolness (ts timer)"
  shows "register_loop timer current ts = None"
proof (cases "register_loop timer current ts")
  case (Some r)
  let ?P = "\<lambda>timer current ts r. \<not> (tm_next (ts current) \<noteq> 0
    \<and> \<not> tm_coolness (ts (tm_next (ts current))) < tm_coolness (ts timer))"
  have "?P timer current ts r"
  proof (rule register_loop.raw_induct [of ?P, OF _ Some], rule notI)
    fix loop timer current ts r
    assume IH: "\<And>timer current ts r. loop timer current ts = Some r \<Longrightarrow> ?P timer current ts r"
      and body: "(if tm_next (ts current) \<noteq> 0 then
        if tm_coolness (ts (tm_next (ts current))) < tm_coolness (ts timer) then
          Some (set_tm_next current timer (set_tm_next timer (tm_next (ts current)) ts))
        else loop timer current ts
      else Some (set_tm_next current timer ts)) = Some r"
      and hyp: "tm_next (ts current) \<noteq> 0 \<and> \<not> tm_coolness (ts (tm_next (ts current))) < tm_coolness (ts timer)"
    from body hyp have "loop timer current ts = Some r" by simp
    from IH [OF this] hyp show False by blast
  qed
  with assms show ?thesis by simp
qed simp

lemma timer_register_first:
  assumes "tm_next (ts head_addr) = 0" "t \<noteq> head_addr"
  shows "timer_register head_addr t ts = Some (set_tm_next head_addr t (set_tm_next t 0 ts))"
  using assms by (simp add: timer_register_def register_loop.simps set_tm_next_def)

text \<open>A second timer that is not cooler than the first is never registered, and a timer that declines is asked forever.\<close>

lemma timer_register_hangs:
  assumes "tm_next (ts head_addr) = t" "t \<noteq> 0" "new \<notin> {head_addr, t}" "tm_coolness (ts new) \<le> tm_coolness (ts t)"
  shows "timer_register head_addr new ts = None"
  unfolding timer_register_def using assms by (intro register_loop_hangs) (auto simp: set_tm_next_def)

lemma make_goal_hangs:
  assumes "\<And>w. \<exists>w'. mg (tm_next (ts p)) ms w = Some (False, w')"
  shows "make_goal_loop ts mg p ms w = None"
proof (cases "make_goal_loop ts mg p ms w")
  case (Some r)
  let ?P = "\<lambda>ts mg p ms w r. \<not> (tm_next (ts p) \<noteq> 0 \<and> (\<forall>w. \<exists>w'. mg (tm_next (ts p)) ms w = Some (False, w')))"
  have "?P ts mg p ms w r"
  proof (rule make_goal_loop.raw_induct [of ?P, OF _ Some], rule notI)
    fix loop :: "timers \<Rightarrow> (addr \<Rightarrow> 32 word \<Rightarrow> 'a \<Rightarrow> (bool \<times> 'a) option) \<Rightarrow> addr \<Rightarrow> 32 word \<Rightarrow> 'a \<Rightarrow> (addr \<times> 'a) option"
      and ts mg p ms w r
    assume IH: "\<And>ts mg p ms w r. loop ts mg p ms w = Some r \<Longrightarrow> ?P ts mg p ms w r"
      and body: "(if tm_next (ts p) \<noteq> 0 then
        Option.bind (mg (tm_next (ts p)) ms w) (\<lambda>(done, w). if \<not> done then loop ts mg p ms w else Some (tm_next (ts p), w))
        else None) = Some r"
      and hyp: "tm_next (ts p) \<noteq> 0 \<and> (\<forall>w. \<exists>w'. mg (tm_next (ts p)) ms w = Some (False, w'))"
    obtain w' where "mg (tm_next (ts p)) ms w = Some (False, w')" using hyp by blast
    with body hyp have "loop ts mg p ms w' = Some r" by simp
    from IH [OF this] hyp show False by blast
  qed
  with assms Some show ?thesis by (cases "tm_next (ts p) = 0") (auto simp: make_goal_loop.simps)
qed simp

section \<open>The counter\<close>

text \<open>Distances on a counter of \<open>M\<close> values.\<close>

lemma counter_mod:
  fixes i c M :: nat
  assumes "i < M" "c < M"
  shows "(c + M - i) mod M = (if i \<le> c then c - i else c + M - i)"
proof (cases "i \<le> c")
  case True
  then have "c + M - i = (c - i) + M" by simp
  then show ?thesis using True assms by (simp only: mod_add_self2) simp
next
  case False
  then show ?thesis using assms by simp
qed

lemma goal_reached_dist:
  fixes i c d M :: nat
  assumes "i < M" "c < M" "d < M" "g = (i + d) mod M"
  shows "(if i < g then g \<le> c \<or> c < i else if i = g then True else g \<le> c \<and> c < i) \<longleftrightarrow> d \<le> (c + M - i) mod M"
proof (cases "i + d < M")
  case True
  then show ?thesis using assms by (auto simp: counter_mod)
next
  case False
  then have "g = i + d - M" using assms by (simp add: mod_if)
  then show ?thesis using assms False by (auto simp: counter_mod)
qed

definition timer_mod :: "acpi_timer_state \<Rightarrow> nat" where
  "timer_mod s = (if at_32bit s then 2 ^ 32 else 2 ^ 24)"

lemma goal_value:
  assumes "s' = s\<lparr>at_init_val := val, at_goal := val + ms * 3580\<rparr>"
  shows "unat (at_goal (if \<not> at_32bit s' then s'\<lparr>at_goal := at_goal s' AND 0xffffff\<rparr> else s'))
    = (unat val + 3580 * unat ms) mod timer_mod s"
proof -
  have sum: "unat (val + ms * 3580) = (unat val + 3580 * unat ms) mod 2 ^ 32"
    by (simp add: unat_word_ariths mod_simps mult.commute)
  have "x AND 0xffffff = take_bit 24 x" for x :: "32 word"
    by (simp add: take_bit_eq_mask mask_eq_exp_minus_1)
  then have "unat ((val + ms * 3580) AND 0xffffff) = (unat val + 3580 * unat ms) mod 2 ^ 32 mod 2 ^ 24"
    by (simp only: unsigned_take_bit_eq sum) (simp add: take_bit_eq_mod)
  also have "\<dots> = (unat val + 3580 * unat ms) mod 2 ^ 24"
    by (rule mod_mod_cancel) simp
  finally show ?thesis using sum by (simp add: assms timer_mod_def)
qed

section \<open>Waiting\<close>

text \<open>
  The hardware: the counter can be read, and at the \<open>n\<close>-th read it shows \<open>ticks n\<close>, the number of ticks that have passed,
  modulo its range.
\<close>

definition counts_ticks ::
  "(nat \<Rightarrow> nat \<Rightarrow> 32 word) \<Rightarrow> (nat \<Rightarrow> addr \<Rightarrow> 32 word) \<Rightarrow> addr \<Rightarrow> acpi_timer_state \<Rightarrow> (nat \<Rightarrow> nat) \<Rightarrow> bool" where
  "counts_ticks io mm win s ticks \<longleftrightarrow>
     (at_space s = ACPI_GAS_PORT_IO_ADDRESS_SPACE \<and> at_address s < 65536
        \<and> (\<forall>n. unat (io n (at_address s)) = ticks n mod timer_mod s)
      \<or> at_space s = ACPI_GAS_MMIO_ADDRESS_SPACE
        \<and> (\<forall>n. unat (mm n (u64 (win + at_address s))) = ticks n mod timer_mod s))"

lemma read_counter_ticks:
  assumes "counts_ticks io mm win s ticks"
  shows "\<exists>val. acpi_timer_read_counter io mm win s = Some (val, s\<lparr>at_reads := at_reads s + 1\<rparr>)
    \<and> unat val = ticks (at_reads s) mod timer_mod s"
  using assms
  by (auto simp: counts_ticks_def acpi_timer_read_counter_def ACPI_GAS_MMIO_ADDRESS_SPACE_def ACPI_GAS_PORT_IO_ADDRESS_SPACE_def Let_def)

text \<open>A goal: \<open>d\<close> ticks after the read \<open>start\<close>.\<close>

definition goal_set :: "acpi_timer_state \<Rightarrow> (nat \<Rightarrow> nat) \<Rightarrow> nat \<Rightarrow> nat \<Rightarrow> bool" where
  "goal_set s ticks start d \<longleftrightarrow> unat (at_init_val s) = ticks start mod timer_mod s
     \<and> unat (at_goal s) = (unat (at_init_val s) + d) mod timer_mod s"

lemma make_goal_sets:
  assumes "counts_ticks io mm win s ticks"
  shows "\<exists>s'. acpi_timer_make_goal io mm win self ms s = Some (True, s') \<and> counts_ticks io mm win s' ticks
    \<and> at_reads s' = at_reads s + 1 \<and> timer_mod s' = timer_mod s \<and> goal_set s' ticks (at_reads s) (3580 * unat ms)"
proof -
  obtain val where val: "acpi_timer_read_counter io mm win s = Some (val, s\<lparr>at_reads := at_reads s + 1\<rparr>)"
    "unat val = ticks (at_reads s) mod timer_mod s"
    using read_counter_ticks [OF assms] by blast
  let ?s = "s\<lparr>at_reads := at_reads s + 1, at_init_val := val, at_goal := val + ms * 3580\<rparr>"
  let ?t = "if \<not> at_32bit ?s then ?s\<lparr>at_goal := at_goal ?s AND 0xffffff\<rparr> else ?s"
  have "acpi_timer_make_goal io mm win self ms s = Some (True, ?t)"
    by (simp add: acpi_timer_make_goal_def val(1) Let_def)
  moreover have "unat (at_goal ?t) = (unat val + 3580 * unat ms) mod timer_mod s"
    using goal_value [where s' = ?s and s = "s\<lparr>at_reads := at_reads s + 1\<rparr>" and val = val and ms = ms] by (simp add: timer_mod_def)
  moreover have "timer_mod ?t = timer_mod s" "at_reads ?t = at_reads s + 1" "at_init_val ?t = val" "at_space ?t = at_space s"
    "at_address ?t = at_address s"
    by (simp_all add: timer_mod_def)
  ultimately show ?thesis
    using assms val(2) unfolding counts_ticks_def goal_set_def by auto
qed

lemma dist_mod:
  fixes a b M :: nat
  assumes "a \<le> b" "0 < M"
  shows "(b mod M + M - a mod M) mod M = (b - a) mod M"
proof -
  have "a mod M \<le> M" using assms(2) by (simp add: less_imp_le)
  then have "int ((b mod M + M - a mod M) mod M) = (int b - int a) mod int M"
    by (simp add: of_nat_diff zmod_int mod_simps algebra_simps) (metis add_diff_eq mod_add_self1 mod_diff_left_eq mod_diff_right_eq)
  also have "\<dots> = int ((b - a) mod M)" using assms(1) by (simp add: of_nat_diff zmod_int)
  finally show ?thesis by simp
qed

text \<open>A poll less than one turn of the counter after the start tells whether the time has passed.\<close>

lemma goal_reached_ticks:
  assumes "counts_ticks io mm win s ticks" "goal_set s ticks start d" "d < timer_mod s"
    and "ticks start \<le> ticks (at_reads s)" "ticks (at_reads s) - ticks start < timer_mod s"
  shows "acpi_timer_is_goal_reached io mm win self s
    = Some (d \<le> ticks (at_reads s) - ticks start, s\<lparr>at_reads := at_reads s + 1\<rparr>)"
proof -
  let ?M = "timer_mod s"
  have M: "0 < ?M" by (simp add: timer_mod_def)
  obtain val where val: "acpi_timer_read_counter io mm win s = Some (val, s\<lparr>at_reads := at_reads s + 1\<rparr>)"
    "unat val = ticks (at_reads s) mod ?M"
    using read_counter_ticks [OF assms(1)] by blast
  let ?i = "unat (at_init_val s)" and ?g = "unat (at_goal s)" and ?c = "unat val"
  have small: "?i < ?M" "?c < ?M" using val(2) assms(2) M by (simp_all add: goal_set_def)
  have "(?c + ?M - ?i) mod ?M = (ticks (at_reads s) - ticks start) mod ?M"
    using assms(2) val(2) dist_mod [OF assms(4) M] by (simp add: goal_set_def)
  then have "(if ?i < ?g then ?g \<le> ?c \<or> ?c < ?i else if ?i = ?g then True else ?g \<le> ?c \<and> ?c < ?i)
      \<longleftrightarrow> d \<le> ticks (at_reads s) - ticks start"
    using goal_reached_dist [OF small assms(3), of ?g] assms(2,5) by (simp add: goal_set_def)
  then show ?thesis
    by (auto simp: acpi_timer_is_goal_reached_def val(1) word_less_nat_alt word_le_nat_alt word_unat_eq_iff split: if_splits)
qed

text \<open>Polls that come often enough end at the first one after the time has passed.\<close>

lemma busy_wait_ends:
  assumes "counts_ticks io mm win s ticks" "goal_set s ticks start d" "d < timer_mod s" "mono ticks"
    and "\<And>n. ticks (Suc n) - ticks n \<le> timer_mod s - d" "start < at_reads s" "at_reads s \<le> N"
    and "d \<le> ticks N - ticks start" "\<And>n. start \<le> n \<Longrightarrow> n < N \<Longrightarrow> ticks n - ticks start < d"
  shows "timer_busy_wait_on_goal (acpi_timer_is_goal_reached io mm win) goal s = Some (s\<lparr>at_reads := N + 1\<rparr>)"
  using assms(1,2,3,5,6,7)
proof (induction "N - at_reads s" arbitrary: s)
  case (Suc k)
  let ?s = "s\<lparr>at_reads := at_reads s + 1\<rparr>"
  have now: "ticks (at_reads s) - ticks start < d" using assms(9) Suc.hyps(2) Suc.prems(5) by simp
  have "acpi_timer_is_goal_reached io mm win goal s = Some (False, ?s)"
    using goal_reached_ticks [OF Suc.prems(1-3), of goal] monoD [OF assms(4), of start "at_reads s"] Suc.prems(3,5) now by simp
  moreover have "timer_busy_wait_on_goal (acpi_timer_is_goal_reached io mm win) goal ?s = Some (?s\<lparr>at_reads := N + 1\<rparr>)"
    using Suc.prems Suc.hyps(2)
    by (intro Suc.hyps(1)) (simp_all add: counts_ticks_def goal_set_def timer_mod_def)
  ultimately show ?case by (subst timer_busy_wait_on_goal.simps) (simp add: timer_poll_goal_def)
next
  case 0
  then have N: "at_reads s = N" by simp
  have "ticks start \<le> ticks (N - 1)" "ticks (N - 1) \<le> ticks N"
    using 0(6) N by (auto intro!: monoD [OF assms(4)])
  moreover have "ticks (N - 1) - ticks start < d" using assms(9) [of "N - 1"] 0(6) N by auto
  moreover have "ticks N - ticks (N - 1) \<le> timer_mod s - d" using 0(5) [of "N - 1"] 0(6) N by simp
  ultimately have "ticks start \<le> ticks N" "ticks N - ticks start < timer_mod s" using 0(4) by simp_all
  then have "acpi_timer_is_goal_reached io mm win goal s = Some (True, s\<lparr>at_reads := N + 1\<rparr>)"
    using goal_reached_ticks [OF 0(2-4), of goal] assms(8) N by simp
  then show ?case by (subst timer_busy_wait_on_goal.simps) (simp add: timer_poll_goal_def)
qed



text \<open>A 24-bit counter 256 ticks before its end, read every 1000 ticks: a millisecond is over at the fourth poll.\<close>

definition timer_example :: acpi_timer_state where
  "timer_example = \<lparr>at_goal = 0, at_init_val = 0, at_space = 1, at_address = 0x608, at_32bit = False, at_reads = 0\<rparr>"


end
