(* ===== verification/Ic.thy ===== *)
theory Ic
  imports Prelude "HOL-Library.Word"
begin

unbundle bit_operations_syntax

text \<open>
  \<^verbatim>\<open>sys/ic.c\<close> and \<^verbatim>\<open>sys/tsc.c\<close>: the local interrupt controller of a core, driven through memory-mapped registers (xAPIC) or
  model-specific registers (x2APIC), whichever the processor has. The kernel's side is the sequence of accesses it makes. What a
  read returns is up to the hardware and a parameter: \<open>dev t a\<close> is the register at the address \<open>a\<close>, and \<open>msr t m\<close> the
  model-specific register \<open>m\<close>, after the accesses \<open>t\<close>.
\<close>

datatype ic_mode = IC_X2APIC_USED | IC_XAPIC_USED

datatype access = MmioW addr "32 word" | MmioR addr | MsrW nat "64 word" | MsrR nat

type_synonym mmio_dev = "access list \<Rightarrow> addr \<Rightarrow> 32 word"
type_synonym msr_dev = "access list \<Rightarrow> nat \<Rightarrow> 64 word"

record ic_core_state =
  timer_ticks_per_us :: "32 word"
  tsc_deadline_supported :: bool

record ic =
  ic_state :: ic_mode
  ic_xapic_phys_base :: "64 word"
  ic_xapic_base :: addr
  ic_core :: ic_core_state
  ic_tsc_freq :: "64 word"
  ic_trace :: "access list"

definition ic_spur_vec :: "32 word" where
  "ic_spur_vec = 127"

definition ic_timer_vec :: "32 word" where
  "ic_timer_vec = 32"

section \<open>Registers\<close>

datatype lapic_reg = SPUR | ID | VER | LVT_CMCI | LVT_TIMER | LVT_THERMAL_SENSOR | LVT_PERFMON | LVT_LINT0 | LVT_LINT1 | LVT_ERR
  | INIT_CNT | CNT | DCR | EOI | TPR

fun LAPIC_XAPIC_REG :: "lapic_reg \<Rightarrow> nat" where
  "LAPIC_XAPIC_REG SPUR = 0xf0 div 4"
| "LAPIC_XAPIC_REG ID = 0x20 div 4"
| "LAPIC_XAPIC_REG VER = 0x30 div 4"
| "LAPIC_XAPIC_REG LVT_CMCI = 0x2f0 div 4"
| "LAPIC_XAPIC_REG LVT_TIMER = 0x320 div 4"
| "LAPIC_XAPIC_REG LVT_THERMAL_SENSOR = 0x330 div 4"
| "LAPIC_XAPIC_REG LVT_PERFMON = 0x340 div 4"
| "LAPIC_XAPIC_REG LVT_LINT0 = 0x350 div 4"
| "LAPIC_XAPIC_REG LVT_LINT1 = 0x360 div 4"
| "LAPIC_XAPIC_REG LVT_ERR = 0x370 div 4"
| "LAPIC_XAPIC_REG INIT_CNT = 0x380 div 4"
| "LAPIC_XAPIC_REG CNT = 0x390 div 4"
| "LAPIC_XAPIC_REG DCR = 0x3e0 div 4"
| "LAPIC_XAPIC_REG EOI = 0xb0 div 4"
| "LAPIC_XAPIC_REG TPR = 0x80 div 4"

definition LAPIC_XAPIC_ICR_LOW_REG :: nat where
  "LAPIC_XAPIC_ICR_LOW_REG = 0x300 div 4"

definition LAPIC_XAPIC_ICR_HIGH_REG :: nat where
  "LAPIC_XAPIC_ICR_HIGH_REG = 0x310 div 4"

fun LAPIC_X2APIC_REG :: "lapic_reg \<Rightarrow> nat" where
  "LAPIC_X2APIC_REG SPUR = 0x80f"
| "LAPIC_X2APIC_REG ID = 0x802"
| "LAPIC_X2APIC_REG VER = 0x803"
| "LAPIC_X2APIC_REG LVT_CMCI = 0x82f"
| "LAPIC_X2APIC_REG LVT_TIMER = 0x832"
| "LAPIC_X2APIC_REG LVT_THERMAL_SENSOR = 0x833"
| "LAPIC_X2APIC_REG LVT_PERFMON = 0x834"
| "LAPIC_X2APIC_REG LVT_LINT0 = 0x835"
| "LAPIC_X2APIC_REG LVT_LINT1 = 0x836"
| "LAPIC_X2APIC_REG LVT_ERR = 0x837"
| "LAPIC_X2APIC_REG INIT_CNT = 0x838"
| "LAPIC_X2APIC_REG CNT = 0x839"
| "LAPIC_X2APIC_REG DCR = 0x83e"
| "LAPIC_X2APIC_REG EOI = 0x80b"
| "LAPIC_X2APIC_REG TPR = 0x808"

definition LAPIC_X2APIC_ICR_REG :: nat where
  "LAPIC_X2APIC_ICR_REG = 0x830"

definition LAPIC_ENABLE :: "32 word" where "LAPIC_ENABLE = 0x100"
definition X2APIC_ENABLE :: "64 word" where "X2APIC_ENABLE = 0x400"
definition LAPIC_INIT_IPI :: "32 word" where "LAPIC_INIT_IPI = 0x4500"
definition LAPIC_STARTUP_IPI :: "32 word" where "LAPIC_STARTUP_IPI = 0x4600"
definition XAPIC_DELIEVERED :: "32 word" where "XAPIC_DELIEVERED = 0x1000"
definition LAPIC_LVT_DISABLE_MASK :: "32 word" where "LAPIC_LVT_DISABLE_MASK = 0x10000"
definition LAPIC_TMR_ONE_SHOT :: "32 word" where "LAPIC_TMR_ONE_SHOT = 0"
definition LAPIC_TMR_TSC :: "32 word" where "LAPIC_TMR_TSC = 0x40000"
definition LAPIC_IA32_TSC_DEADLINE_MSR :: nat where "LAPIC_IA32_TSC_DEADLINE_MSR = 0x6e0"
definition LAPIC_IA32_APIC_BASE :: nat where "LAPIC_IA32_APIC_BASE = 0x1b"

section \<open>Accesses\<close>

definition did :: "access \<Rightarrow> ic \<Rightarrow> ic" where
  "did a s = s\<lparr>ic_trace := ic_trace s @ [a]\<rparr>"

definition reg_addr :: "ic \<Rightarrow> nat \<Rightarrow> addr" where
  "reg_addr s i = ic_xapic_base s + 4 * i"

definition wrmsr :: "nat \<Rightarrow> 64 word \<Rightarrow> ic \<Rightarrow> ic" where
  "wrmsr m val = did (MsrW m val)"

definition LAPIC_READ :: "mmio_dev \<Rightarrow> msr_dev \<Rightarrow> lapic_reg \<Rightarrow> ic \<Rightarrow> 32 word \<times> ic" where
  "LAPIC_READ dev msr reg s =
     (if ic_state s = IC_XAPIC_USED
      then (dev (ic_trace s) (reg_addr s (LAPIC_XAPIC_REG reg)), did (MmioR (reg_addr s (LAPIC_XAPIC_REG reg))) s)
      else (ucast (msr (ic_trace s) (LAPIC_X2APIC_REG reg)), did (MsrR (LAPIC_X2APIC_REG reg)) s))"

definition LAPIC_WRITE :: "lapic_reg \<Rightarrow> 32 word \<Rightarrow> ic \<Rightarrow> ic" where
  "LAPIC_WRITE reg val s =
     (if ic_state s = IC_XAPIC_USED then did (MmioW (reg_addr s (LAPIC_XAPIC_REG reg)) val) s
      else wrmsr (LAPIC_X2APIC_REG reg) (ucast val) s)"

definition ic_handle_spur_irq :: "ic \<Rightarrow> ic" where
  "ic_handle_spur_irq = LAPIC_WRITE EOI 0"

definition ic_get_apic_id :: "mmio_dev \<Rightarrow> msr_dev \<Rightarrow> ic \<Rightarrow> 32 word \<times> ic" where
  "ic_get_apic_id dev msr = LAPIC_READ dev msr ID"

definition lvt_disable :: "bool \<Rightarrow> lapic_reg \<Rightarrow> ic \<Rightarrow> ic" where
  "lvt_disable present reg s = (if present then LAPIC_WRITE reg (LAPIC_LVT_DISABLE_MASK OR 0xff) s else s)"

definition ic_enable :: "mmio_dev \<Rightarrow> msr_dev \<Rightarrow> ic \<Rightarrow> ic" where
  "ic_enable dev msr s =
     (let s = (if ic_state s = IC_X2APIC_USED then
                 let flags = msr (ic_trace s) LAPIC_IA32_APIC_BASE AND 0xfff;
                     s = did (MsrR LAPIC_IA32_APIC_BASE) s;
                     s = wrmsr LAPIC_IA32_APIC_BASE (ic_xapic_phys_base s OR flags OR X2APIC_ENABLE) s
                 in wrmsr (LAPIC_X2APIC_REG SPUR) (ucast (LAPIC_ENABLE OR ic_spur_vec)) s
               else did (MmioW (reg_addr s (LAPIC_XAPIC_REG SPUR)) (LAPIC_ENABLE OR ic_spur_vec)) s);
          s = LAPIC_WRITE TPR 0 s;
          (raw_ver, s) = LAPIC_READ dev msr VER s;
          max_lvt_entry = drop_bit 16 raw_ver AND 255;
          s = lvt_disable (max_lvt_entry \<ge> 3) LVT_ERR s;
          s = lvt_disable True LVT_LINT0 s;
          s = lvt_disable True LVT_LINT1 s;
          s = lvt_disable True LVT_TIMER s;
          s = lvt_disable (max_lvt_entry \<ge> 4) LVT_PERFMON s;
          s = lvt_disable (max_lvt_entry \<ge> 5) LVT_THERMAL_SENSOR s
      in lvt_disable (max_lvt_entry \<ge> 6) LVT_CMCI s)"

section \<open>Interrupts between cores\<close>

partial_function (option) wait_delivered :: "mmio_dev \<Rightarrow> ic \<Rightarrow> ic option" where
  "wait_delivered dev s =
     (if dev (ic_trace s) (reg_addr s LAPIC_XAPIC_ICR_LOW_REG) AND XAPIC_DELIEVERED \<noteq> 0
      then wait_delivered dev (did (MmioR (reg_addr s LAPIC_XAPIC_ICR_LOW_REG)) s)
      else Some (did (MmioR (reg_addr s LAPIC_XAPIC_ICR_LOW_REG)) s))"

definition ic_ipi_send_raw :: "mmio_dev \<Rightarrow> 32 word \<Rightarrow> 32 word \<Rightarrow> ic \<Rightarrow> ic option" where
  "ic_ipi_send_raw dev ident msg s =
     (if ic_state s = IC_XAPIC_USED then
        if ident < 256 then
          let s = did (MmioW (reg_addr s LAPIC_XAPIC_ICR_HIGH_REG) (push_bit 24 ident)) s;
              s = did (MmioW (reg_addr s LAPIC_XAPIC_ICR_LOW_REG) msg) s
          in wait_delivered dev s
        else None
      else Some (wrmsr LAPIC_X2APIC_ICR_REG (push_bit 32 (ucast ident) OR ucast msg) s))"

definition ic_send_init_ipi :: "mmio_dev \<Rightarrow> 32 word \<Rightarrow> ic \<Rightarrow> ic option" where
  "ic_send_init_ipi dev ident = ic_ipi_send_raw dev ident LAPIC_INIT_IPI"

definition ic_send_startup_ipi :: "mmio_dev \<Rightarrow> 32 word \<Rightarrow> 32 word \<Rightarrow> ic \<Rightarrow> ic option" where
  "ic_send_startup_ipi dev ident trampoline = ic_ipi_send_raw dev ident (LAPIC_STARTUP_IPI OR (trampoline div 0x1000))"

definition ic_send_ipi :: "mmio_dev \<Rightarrow> 32 word \<Rightarrow> 8 word \<Rightarrow> ic \<Rightarrow> ic option" where
  "ic_send_ipi dev ident vec = ic_ipi_send_raw dev ident (ucast vec)"

section \<open>The timer\<close>

definition THREAD_TRAMPOLINE_CALIBRATION_PERIOD :: nat where
  "THREAD_TRAMPOLINE_CALIBRATION_PERIOD = 200"

text \<open>\<open>ecx\<close> is what \<open>cpuid\<close> answers for leaf 1.\<close>

definition ic_timer_tsc_deadline_detect :: "32 word \<Rightarrow> ic \<Rightarrow> ic" where
  "ic_timer_tsc_deadline_detect ecx s = s\<lparr>ic_core := (ic_core s)\<lparr>tsc_deadline_supported := bit ecx 24\<rparr>\<rparr>"

definition ic_timer_start_calibration :: "32 word \<Rightarrow> ic \<Rightarrow> ic" where
  "ic_timer_start_calibration ecx s =
     (let s = ic_timer_tsc_deadline_detect ecx s in
      if tsc_deadline_supported (ic_core s) then LAPIC_WRITE LVT_TIMER (LAPIC_TMR_TSC OR ic_timer_vec) s
      else LAPIC_WRITE INIT_CNT 0xffffffff (LAPIC_WRITE LVT_TIMER (LAPIC_TMR_ONE_SHOT OR ic_timer_vec) (LAPIC_WRITE DCR 0b1010 s)))"

definition ic_timer_cancel_one_shot :: "ic \<Rightarrow> ic" where
  "ic_timer_cancel_one_shot s =
     (if tsc_deadline_supported (ic_core s) then wrmsr LAPIC_IA32_TSC_DEADLINE_MSR 0 s else LAPIC_WRITE INIT_CNT 0 s)"

definition ic_timer_end_calibration :: "mmio_dev \<Rightarrow> msr_dev \<Rightarrow> ic \<Rightarrow> ic" where
  "ic_timer_end_calibration dev msr s =
     (if \<not> tsc_deadline_supported (ic_core s) then
        let (val, s) = LAPIC_READ dev msr CNT s;
            s = s\<lparr>ic_core := (ic_core s)\<lparr>timer_ticks_per_us :=
              (0xffffffff - val) div of_nat (THREAD_TRAMPOLINE_CALIBRATION_PERIOD * 1000)\<rparr>\<rparr>
        in ic_timer_cancel_one_shot s
      else s)"

text \<open>\<open>tsc\<close> is the value \<open>rdtsc\<close> gives.\<close>

definition ic_timer_one_shot :: "64 word \<Rightarrow> 64 word \<Rightarrow> ic \<Rightarrow> ic" where
  "ic_timer_one_shot tsc us s =
     (if tsc_deadline_supported (ic_core s) then wrmsr LAPIC_IA32_TSC_DEADLINE_MSR (tsc + ic_tsc_freq s * us) s
      else LAPIC_WRITE INIT_CNT (ucast (ucast (timer_ticks_per_us (ic_core s)) * us :: 64 word)) s)"

definition ic_ack :: "ic \<Rightarrow> ic" where
  "ic_ack = LAPIC_WRITE EOI 0"

definition tsc_begin_calibration :: "64 word \<Rightarrow> ic \<Rightarrow> ic" where
  "tsc_begin_calibration tsc s = s\<lparr>ic_tsc_freq := tsc\<rparr>"

definition tsc_end_calibration :: "64 word \<Rightarrow> ic \<Rightarrow> ic" where
  "tsc_end_calibration tsc s =
     (let passed = tsc - ic_tsc_freq s in s\<lparr>ic_tsc_freq := passed div of_nat (THREAD_TRAMPOLINE_CALIBRATION_PERIOD * 1000)\<rparr>)"

text \<open>\<open>ecx\<close> and \<open>edx\<close> are the answer of \<open>cpuid\<close>, \<open>win\<close> the base of the physical window.\<close>

definition ic_bsp_init :: "mmio_dev \<Rightarrow> msr_dev \<Rightarrow> addr \<Rightarrow> 32 word \<Rightarrow> 32 word \<Rightarrow> ic \<Rightarrow> ic option" where
  "ic_bsp_init dev msr win ecx edx s =
     (if \<not> bit edx 9 then None
      else
        let s = s\<lparr>ic_state := if bit ecx 21 then IC_X2APIC_USED else IC_XAPIC_USED\<rparr>;
            base = msr (ic_trace s) LAPIC_IA32_APIC_BASE;
            s = did (MsrR LAPIC_IA32_APIC_BASE) s;
            s = s\<lparr>ic_xapic_phys_base := base AND NOT 0xfff\<rparr>;
            s = s\<lparr>ic_xapic_base := u64 (win + unat (ic_xapic_phys_base s))\<rparr>
        in Some (ic_enable dev msr s))"

section \<open>What the controller is told\<close>

text \<open>
  The architecture's view: the registers by their documented byte offsets, the same for both modes (the model-specific register
  0x800 + n stands for the offset 16 * n), and the commands a sequence of accesses amounts to. In xAPIC mode an interrupt is sent by the
  write to the low half of the command register, to the destination in the top byte of its high half.
\<close>

datatype command = Set lapic_reg "32 word" | Ipi "32 word" "32 word" | Deadline "64 word"

definition reg_at :: "nat \<Rightarrow> lapic_reg option" where
  "reg_at = map_of [(0x20, ID), (0x30, VER), (0x80, TPR), (0xb0, EOI), (0xf0, SPUR), (0x2f0, LVT_CMCI), (0x320, LVT_TIMER),
     (0x330, LVT_THERMAL_SENSOR), (0x340, LVT_PERFMON), (0x350, LVT_LINT0), (0x360, LVT_LINT1), (0x370, LVT_ERR),
     (0x380, INIT_CNT), (0x390, CNT), (0x3e0, DCR)]"

definition set_at :: "nat \<Rightarrow> 32 word \<Rightarrow> command list" where
  "set_at offset v = (case reg_at offset of None \<Rightarrow> [] | Some r \<Rightarrow> [Set r v])"

fun commands :: "addr \<Rightarrow> 32 word \<Rightarrow> access list \<Rightarrow> command list" where
  "commands base high [] = []"
| "commands base high (MmioW a v # t) =
     (if a = base + 0x310 then commands base v t
      else if a = base + 0x300 then Ipi (drop_bit 24 high) v # commands base high t
      else set_at (a - base) v @ commands base high t)"
| "commands base high (MsrW m v # t) =
     (if m = 0x830 then Ipi (ucast (drop_bit 32 v)) (ucast v) # commands base high t
      else if m = 0x6e0 then Deadline v # commands base high t
      else if m < 0x800 then commands base high t
      else set_at ((m - 0x800) * 16) (ucast v) @ commands base high t)"
| "commands base high (MmioR a # t) = commands base high t"
| "commands base high (MsrR m # t) = commands base high t"

definition issues :: "ic \<Rightarrow> command list \<Rightarrow> ic \<Rightarrow> bool" where
  "issues s cs s' \<longleftrightarrow> ic_state s' = ic_state s \<and> ic_xapic_base s' = ic_xapic_base s
     \<and> (\<exists>t. ic_trace s' = ic_trace s @ t \<and> (\<forall>high. commands (ic_xapic_base s) high t = cs))"

lemma commands_append: "\<exists>high'. commands base high (t @ u) = commands base high t @ commands base high' u"
proof (induction t arbitrary: high)
  case (Cons a t)
  then show ?case by (cases a) auto
qed auto

lemma issues_trans:
  assumes "issues s cs s'" "issues s' ds s''"
  shows "issues s (cs @ ds) s''"
proof -
  obtain t u where t: "ic_trace s' = ic_trace s @ t" "\<And>high. commands (ic_xapic_base s) high t = cs"
    and u: "ic_trace s'' = ic_trace s' @ u" "\<And>high. commands (ic_xapic_base s') high u = ds"
    using assms unfolding issues_def by blast
  have "commands (ic_xapic_base s) high (t @ u) = cs @ ds" for high
    using commands_append [of "ic_xapic_base s" high t u] t(2) u(2) assms by (auto simp: issues_def)
  then show ?thesis using assms t(1) u(1) unfolding issues_def by auto
qed

lemma issues_did:
  "(\<And>high. commands (ic_xapic_base s) high [a] = cs) \<Longrightarrow> issues s cs (did a s)"
  by (simp add: issues_def did_def)

lemma reg_at_xapic: "reg_at (4 * LAPIC_XAPIC_REG r) = Some r" "4 * LAPIC_XAPIC_REG r \<noteq> 0x300" "4 * LAPIC_XAPIC_REG r \<noteq> 0x310"
  by (cases r; simp add: reg_at_def)+

lemma reg_at_x2apic: "reg_at ((LAPIC_X2APIC_REG r - 0x800) * 16) = Some r" "0x800 \<le> LAPIC_X2APIC_REG r" "LAPIC_X2APIC_REG r \<noteq> 0x830"
  by (cases r; simp add: reg_at_def)+

lemma low_half [simp]: "ucast (ucast v :: 64 word) = v" for v :: "32 word"
  by (rule bit_word_eqI) (simp add: bit_simps)

lemma did_sel [simp]:
  "ic_state (did a s) = ic_state s" "ic_xapic_base (did a s) = ic_xapic_base s" "ic_xapic_phys_base (did a s) = ic_xapic_phys_base s"
  by (simp_all add: did_def)

text \<open>A write to a register is the same command in both modes.\<close>

lemma issues_write: "issues s [Set r v] (LAPIC_WRITE r v s)"
  using reg_at_xapic [of r] reg_at_x2apic [of r]
  by (auto simp: LAPIC_WRITE_def wrmsr_def reg_addr_def set_at_def simp del: unsigned_ucast_eq intro!: issues_did)

lemma issues_nothing: "issues s [] s"
  by (simp add: issues_def)

lemma issues_lvt: "issues s (if p then [Set r (LAPIC_LVT_DISABLE_MASK OR 0xff)] else []) (lvt_disable p r s)"
  by (simp add: lvt_disable_def issues_write issues_nothing)


definition lvt_commands :: "32 word \<Rightarrow> command list" where
  "lvt_commands ver = (let n = drop_bit 16 ver AND 255; off = 0x100ff in
     (if n \<ge> 3 then [Set LVT_ERR off] else []) @ [Set LVT_LINT0 off, Set LVT_LINT1 off, Set LVT_TIMER off]
     @ (if n \<ge> 4 then [Set LVT_PERFMON off] else []) @ (if n \<ge> 5 then [Set LVT_THERMAL_SENSOR off] else [])
     @ (if n \<ge> 6 then [Set LVT_CMCI off] else []))"

text \<open>What the hardware does: the version register is the same in both modes, and a message is delivered eventually.\<close>

definition version_is :: "mmio_dev \<Rightarrow> msr_dev \<Rightarrow> addr \<Rightarrow> 32 word \<Rightarrow> bool" where
  "version_is dev msr base ver \<longleftrightarrow> (\<forall>t. dev t (base + 0x30) = ver \<and> ucast (msr t 0x803) = ver)"

definition delivers :: "mmio_dev \<Rightarrow> addr \<Rightarrow> bool" where
  "delivers dev base \<longleftrightarrow> (\<forall>t. \<exists>k. dev (t @ replicate k (MmioR (base + 0x300))) (base + 0x300) AND 0x1000 = 0)"

lemma LAPIC_READ_version:
  assumes "version_is dev msr (ic_xapic_base s) ver"
  shows "\<exists>s'. LAPIC_READ dev msr VER s = (ver, s') \<and> issues s [] s'"
  using assms by (auto simp: LAPIC_READ_def version_is_def reg_addr_def intro!: issues_did)

lemma issues_spur:
  "issues s [Set SPUR (LAPIC_ENABLE OR ic_spur_vec)]
    (if ic_state s = IC_X2APIC_USED then
       wrmsr (LAPIC_X2APIC_REG SPUR) (ucast (LAPIC_ENABLE OR ic_spur_vec))
         (wrmsr LAPIC_IA32_APIC_BASE x (did (MsrR LAPIC_IA32_APIC_BASE) s))
     else did (MmioW (reg_addr s (LAPIC_XAPIC_REG SPUR)) (LAPIC_ENABLE OR ic_spur_vec)) s)"
proof (cases "ic_state s = IC_X2APIC_USED")
  case True
  then show ?thesis
    by (simp add: issues_def did_def wrmsr_def LAPIC_IA32_APIC_BASE_def set_at_def reg_at_def del: unsigned_ucast_eq)
next
  case False
  then show ?thesis
    using issues_write [of s SPUR] by (cases "ic_state s") (auto simp: LAPIC_WRITE_def)
qed

lemma ic_enable_issues:
  assumes "version_is dev msr (ic_xapic_base s) ver"
  shows "issues s ([Set SPUR 0x17f, Set TPR 0] @ lvt_commands ver) (ic_enable dev msr s)"
proof -
  define s1 where "s1 = (if ic_state s = IC_X2APIC_USED then
       wrmsr (LAPIC_X2APIC_REG SPUR) (ucast (LAPIC_ENABLE OR ic_spur_vec))
         (wrmsr LAPIC_IA32_APIC_BASE (ic_xapic_phys_base s OR msr (ic_trace s) LAPIC_IA32_APIC_BASE AND 0xfff OR X2APIC_ENABLE)
           (did (MsrR LAPIC_IA32_APIC_BASE) s))
     else did (MmioW (reg_addr s (LAPIC_XAPIC_REG SPUR)) (LAPIC_ENABLE OR ic_spur_vec)) s)"
  have i1: "issues s [Set SPUR (LAPIC_ENABLE OR ic_spur_vec)] s1"
    unfolding s1_def by (rule issues_spur)
  define s2 where "s2 = LAPIC_WRITE TPR 0 s1"
  have i2: "issues s ([Set SPUR (LAPIC_ENABLE OR ic_spur_vec)] @ [Set TPR 0]) s2"
    unfolding s2_def by (intro issues_trans [OF i1] issues_write)
  have "version_is dev msr (ic_xapic_base s2) ver"
    using i2 assms by (simp add: issues_def)
  then obtain s3 where s3: "LAPIC_READ dev msr VER s2 = (ver, s3)" "issues s2 [] s3"
    using LAPIC_READ_version by blast
  let ?n = "drop_bit 16 ver AND 255"
  let ?off = "LAPIC_LVT_DISABLE_MASK OR 0xff"
  let ?t = "lvt_disable (?n \<ge> 6) LVT_CMCI (lvt_disable (?n \<ge> 5) LVT_THERMAL_SENSOR
      (lvt_disable (?n \<ge> 4) LVT_PERFMON (lvt_disable True LVT_TIMER (lvt_disable True LVT_LINT1 (lvt_disable True LVT_LINT0
      (lvt_disable (?n \<ge> 3) LVT_ERR s3))))))"
  let ?cs = "(if ?n \<ge> 3 then [Set LVT_ERR ?off] else []) @ (if True then [Set LVT_LINT0 ?off] else [])
      @ (if True then [Set LVT_LINT1 ?off] else []) @ (if True then [Set LVT_TIMER ?off] else [])
      @ (if ?n \<ge> 4 then [Set LVT_PERFMON ?off] else []) @ (if ?n \<ge> 5 then [Set LVT_THERMAL_SENSOR ?off] else [])
      @ (if ?n \<ge> 6 then [Set LVT_CMCI ?off] else [])"
  have "ic_enable dev msr s = ?t"
    using s3(1) by (cases "ic_state s = IC_X2APIC_USED") (simp_all add: ic_enable_def Let_def s1_def s2_def wrmsr_def)
  moreover have "issues s3 ?cs ?t"
    by (intro issues_trans [OF issues_lvt] issues_lvt)
  then have "issues s ((([Set SPUR (LAPIC_ENABLE OR ic_spur_vec)] @ [Set TPR 0]) @ []) @ ?cs) ?t"
    by (rule issues_trans [OF issues_trans [OF i2 s3(2)]])
  moreover have "(([Set SPUR (LAPIC_ENABLE OR ic_spur_vec)] @ [Set TPR 0]) @ []) @ ?cs = [Set SPUR 0x17f, Set TPR 0] @ lvt_commands ver"
    by (simp add: lvt_commands_def Let_def LAPIC_LVT_DISABLE_MASK_def LAPIC_ENABLE_def ic_spur_vec_def)
  ultimately show ?thesis by (simp only:)
qed

text \<open>Sending: whatever number of polls it takes, one interrupt is sent.\<close>

lemma wait_delivered_ends:
  assumes "dev (ic_trace s @ replicate k (MmioR (ic_xapic_base s + 0x300))) (ic_xapic_base s + 0x300) AND 0x1000 = 0"
  shows "\<exists>n. wait_delivered dev s = Some (s\<lparr>ic_trace := ic_trace s @ replicate n (MmioR (ic_xapic_base s + 0x300))\<rparr>)"
  using assms
proof (induction k arbitrary: s)
  case 0
  then show ?case
    by (subst wait_delivered.simps)
      (auto simp: reg_addr_def LAPIC_XAPIC_ICR_LOW_REG_def XAPIC_DELIEVERED_def did_def intro!: exI [of _ 1])
next
  case (Suc k)
  let ?r = "MmioR (ic_xapic_base s + 0x300)"
  show ?case
  proof (cases "dev (ic_trace s) (ic_xapic_base s + 0x300) AND 0x1000 = 0")
    case True
    then show ?thesis
      by (subst wait_delivered.simps)
        (auto simp: reg_addr_def LAPIC_XAPIC_ICR_LOW_REG_def XAPIC_DELIEVERED_def did_def intro!: exI [of _ 1])
  next
    case False
    then have "wait_delivered dev s = wait_delivered dev (did ?r s)"
      by (subst wait_delivered.simps) (simp add: reg_addr_def LAPIC_XAPIC_ICR_LOW_REG_def XAPIC_DELIEVERED_def)
    moreover have "\<exists>n. wait_delivered dev (did ?r s)
        = Some ((did ?r s)\<lparr>ic_trace := ic_trace (did ?r s) @ replicate n (MmioR (ic_xapic_base (did ?r s) + 0x300))\<rparr>)"
      using Suc.prems by (intro Suc.IH) (simp add: did_def)
    then obtain n where "wait_delivered dev (did ?r s)
        = Some ((did ?r s)\<lparr>ic_trace := ic_trace (did ?r s) @ replicate n (MmioR (ic_xapic_base (did ?r s) + 0x300))\<rparr>)" ..
    ultimately show ?thesis
      by (intro exI [of _ "Suc n"]) (simp add: did_def)
  qed
qed

lemma commands_reads: "commands base high (t @ replicate n (MmioR a)) = commands base high t"
proof (induction t arbitrary: high)
  case Nil
  show ?case by (induction n) auto
next
  case (Cons a t)
  then show ?case by (cases a) auto
qed

lemma icr_high: "drop_bit 24 (push_bit 24 ident) = ident" if "ident < 256" for ident :: "32 word"
proof -
  have "take_bit 8 ident = ident" using that by (simp add: word_unat_eq_iff unsigned_take_bit_eq take_bit_nat_eq_self word_less_nat_alt)
  then have "bit ident n \<Longrightarrow> n < 8" for n by (metis bit_take_bit_iff)
  then show ?thesis by (intro bit_word_eqI) (auto simp: bit_simps)
qed

lemma icr_wide:
  fixes ident msg :: "32 word"
  shows "ucast (drop_bit 32 (push_bit 32 (ucast ident) OR ucast msg :: 64 word)) = ident"
    and "ucast (push_bit 32 (ucast ident) OR ucast msg :: 64 word) = msg"
  by (rule bit_word_eqI, auto simp: bit_simps dest: bit_imp_le_length)+

lemma ic_ipi_issues:
  assumes "delivers dev (ic_xapic_base s)" "ident < 256"
  shows "\<exists>s'. ic_ipi_send_raw dev ident msg s = Some s' \<and> issues s [Ipi ident msg] s'"
proof (cases "ic_state s = IC_XAPIC_USED")
  case True
  let ?b = "ic_xapic_base s"
  let ?w = "[MmioW (?b + 0x310) (push_bit 24 ident), MmioW (?b + 0x300) msg]"
  let ?s = "s\<lparr>ic_trace := ic_trace s @ ?w\<rparr>"
  obtain k where "dev (ic_trace ?s @ replicate k (MmioR (?b + 0x300))) (?b + 0x300) AND 0x1000 = 0"
    using assms(1) unfolding delivers_def by blast
  then obtain n where "wait_delivered dev ?s = Some (?s\<lparr>ic_trace := ic_trace ?s @ replicate n (MmioR (?b + 0x300))\<rparr>)"
    using wait_delivered_ends [of dev ?s k] by auto
  moreover have "commands ?b high (?w @ replicate n (MmioR (?b + 0x300))) = [Ipi ident msg]" for high
    unfolding commands_reads using icr_high [OF assms(2)] by simp
  ultimately show ?thesis
    using True assms(2)
    by (auto simp: ic_ipi_send_raw_def Let_def did_def reg_addr_def LAPIC_XAPIC_ICR_HIGH_REG_def LAPIC_XAPIC_ICR_LOW_REG_def issues_def)
next
  case False
  have "issues s [Ipi ident msg] (did (MsrW 0x830 (push_bit 32 (ucast ident) OR ucast msg)) s)"
    using icr_wide [of ident msg] by (intro issues_did) (simp del: drop_bit_or unsigned_or_eq)
  with False show ?thesis
    by (simp add: ic_ipi_send_raw_def LAPIC_X2APIC_ICR_REG_def wrmsr_def)
qed

lemma ic_bsp_init_issues:
  assumes "bit edx 9" "\<And>base. version_is dev msr base ver"
  shows "\<exists>s0 s'. ic_bsp_init dev msr win ecx edx s = Some s' \<and> ic_state s' = (if bit ecx 21 then IC_X2APIC_USED else IC_XAPIC_USED)
    \<and> ic_xapic_base s' = u64 (win + unat (msr (ic_trace s) 0x1b AND NOT 0xfff))
    \<and> issues s0 ([Set SPUR 0x17f, Set TPR 0] @ lvt_commands ver) s' \<and> ic_trace s0 = ic_trace s @ [MsrR 0x1b]"
proof -
  define s0 where "s0 = (did (MsrR LAPIC_IA32_APIC_BASE) (s\<lparr>ic_state := if bit ecx 21 then IC_X2APIC_USED else IC_XAPIC_USED\<rparr>))
    \<lparr>ic_xapic_phys_base := msr (ic_trace s) LAPIC_IA32_APIC_BASE AND NOT 0xfff,
      ic_xapic_base := u64 (win + unat (msr (ic_trace s) LAPIC_IA32_APIC_BASE AND NOT 0xfff))\<rparr>"
  have s0: "ic_state s0 = (if bit ecx 21 then IC_X2APIC_USED else IC_XAPIC_USED)" "ic_trace s0 = ic_trace s @ [MsrR 0x1b]"
    "ic_xapic_base s0 = u64 (win + unat (msr (ic_trace s) 0x1b AND NOT 0xfff))"
    by (simp_all add: s0_def did_def LAPIC_IA32_APIC_BASE_def)
  have enable: "issues s0 ([Set SPUR 0x17f, Set TPR 0] @ lvt_commands ver) (ic_enable dev msr s0)"
    by (rule ic_enable_issues [OF assms(2)])
  moreover have "ic_bsp_init dev msr win ecx edx s = Some (ic_enable dev msr s0)"
    using assms(1) by (simp add: ic_bsp_init_def Let_def s0_def)
  moreover have "ic_state (ic_enable dev msr s0) = ic_state s0" "ic_xapic_base (ic_enable dev msr s0) = ic_xapic_base s0"
    using enable by (simp_all add: issues_def)
  ultimately show ?thesis using s0 by metis
qed

text \<open>
  In xAPIC mode the register of the id holds it in its top byte. The kernel takes the whole register for the id, so that on every core
  but the one with the id zero it gets an id that it cannot send to.
\<close>

lemma xapic_id_not_shifted:
  assumes "ic_state s = IC_XAPIC_USED" "\<And>t. dev t (ic_xapic_base s + 0x20) = push_bit 24 k" "k \<noteq> 0" "k < 256"
  shows "fst (ic_get_apic_id dev msr s) = push_bit 24 k \<and> ic_ipi_send_raw dev (fst (ic_get_apic_id dev msr s)) msg s = None"
proof -
  have "2 ^ 24 \<le> unat (push_bit 24 k)"
    using assms(3,4) by (simp add: word_unat_eq_iff word_less_nat_alt push_bit_eq_mult unat_word_ariths)
  then have "\<not> push_bit 24 k < (256 :: 32 word)" by (simp add: word_less_nat_alt)
  then show ?thesis
    using assms by (simp add: ic_get_apic_id_def LAPIC_READ_def reg_addr_def ic_ipi_send_raw_def)
qed

section \<open>Properties\<close>


definition ic_example :: ic where
  "ic_example = \<lparr>ic_state = IC_XAPIC_USED, ic_xapic_phys_base = 0xfee00000, ic_xapic_base = 0xfee00000,
     ic_core = \<lparr>timer_ticks_per_us = 5, tsc_deadline_supported = False\<rparr>, ic_tsc_freq = 0, ic_trace = []\<rparr>"


end
