(* ===== verification/Tables.thy ===== *)
theory Tables
  imports Prelude "HOL-Library.Word"
begin

unbundle bit_operations_syntax

text \<open>
  \<^verbatim>\<open>sys/arch/gdt.c\<close>, \<^verbatim>\<open>sys/arch/interrupts.c\<close>, \<^verbatim>\<open>sys/arch/tss.h\<close>: the descriptor tables of the processor and the dispatch of
  interrupts. What the processor reads from a descriptor is defined from its documented layout; loading the tables is left to
  the processor, the limit passed with a table is kept.
\<close>

section \<open>Segments\<close>

definition GDT_DESCRIPTORS :: nat where
  "GDT_DESCRIPTORS = 11"

definition GDT_CODE64 :: "16 word" where
  "GDT_CODE64 = 0x28"

definition GDT_DATA64 :: "16 word" where
  "GDT_DATA64 = 0x30"

definition gdt_fill_seg :: "32 word \<Rightarrow> 32 word \<Rightarrow> bool \<Rightarrow> bool \<Rightarrow> bool \<Rightarrow> 8 word \<Rightarrow> 64 word" where
  "gdt_fill_seg base limit exe sz l dpl =
     (let exei = (if exe then 1 else 0); szi = (if sz then 1 else 0); li = (if l then 1 else 0);
          limit_low = ucast (limit AND 0xffff);
          base_low = ucast (base AND 0xffff);
          base_mid = ucast (drop_bit 16 base AND 0xff);
          access = push_bit 3 exei OR 0b010 OR push_bit 4 0b1001 OR push_bit 5 (ucast dpl);
          flags = ucast (drop_bit 16 limit AND 0xf) OR 0b10000000 OR push_bit 5 li OR push_bit 6 szi;
          base_high = ucast (drop_bit 24 base AND 0xff)
      in limit_low OR push_bit 16 base_low OR push_bit 32 base_mid OR push_bit 40 access OR push_bit 48 flags OR push_bit 56 base_high)"

definition gdt_init :: "64 word list" where
  "gdt_init = [0,
     gdt_fill_seg 0 0xfffff True False False 0,
     gdt_fill_seg 0 0xfffff False False False 0,
     gdt_fill_seg 0 0xfffff True True False 0,
     gdt_fill_seg 0 0xfffff False True False 0,
     gdt_fill_seg 0 0xfffff True False True 0,
     gdt_fill_seg 0 0xfffff False False True 0,
     gdt_fill_seg 0 0xfffff True False True 3,
     gdt_fill_seg 0 0xfffff False False True 3,
     0, 0]"

definition SIZEOF_tss :: nat where
  "SIZEOF_tss = 104"

definition gdt_load_tss :: "64 word list \<Rightarrow> 64 word \<Rightarrow> 64 word list" where
  "gdt_load_tss descrs tss =
     descrs[9 := ((of_nat SIZEOF_tss - 1) AND 0xffff) OR push_bit 16 (tss AND 0xffffff) OR push_bit 40 0b1001 OR push_bit 47 1
                 OR push_bit 56 (drop_bit 24 tss AND 0xff),
            10 := drop_bit 32 tss]"

text \<open>What the processor reads: the fields of a descriptor, and of the sixteen bytes of a system descriptor.\<close>

definition seg_base :: "64 word \<Rightarrow> 32 word" where
  "seg_base d = ucast (take_bit 24 (drop_bit 16 d)) OR push_bit 24 (ucast (drop_bit 56 d))"

definition seg_limit :: "64 word \<Rightarrow> 32 word" where
  "seg_limit d = ucast (take_bit 16 d) OR push_bit 16 (ucast (take_bit 4 (drop_bit 48 d)))"

definition seg_dpl :: "64 word \<Rightarrow> 8 word" where
  "seg_dpl d = ucast (take_bit 2 (drop_bit 45 d))"

definition seg_present :: "64 word \<Rightarrow> bool" where "seg_present d = bit d 47"
definition seg_code :: "64 word \<Rightarrow> bool" where "seg_code d = bit d 43"
definition seg_long :: "64 word \<Rightarrow> bool" where "seg_long d = bit d 53"
definition seg_32bit :: "64 word \<Rightarrow> bool" where "seg_32bit d = bit d 54"

definition sys_base :: "64 word \<Rightarrow> 64 word \<Rightarrow> 64 word" where
  "sys_base d e = ucast (seg_base d) OR push_bit 32 (take_bit 32 e)"

section \<open>Interrupts\<close>

definition INTERRUPT_VECTORS_MAX :: nat where
  "INTERRUPT_VECTORS_MAX = 256"

record idt_descriptor =
  offset_low :: "16 word"
  segment_selector :: "16 word"
  idt_flags :: "16 word"
  offset_mid :: "16 word"
  offset_high :: "32 word"

text \<open>Callbacks and contexts are addresses, zero when there is none.\<close>

record idt =
  idt_descriptors :: "nat \<Rightarrow> idt_descriptor"
  interrupt_callbacks :: "nat \<Rightarrow> addr"
  interrupt_contexts :: "nat \<Rightarrow> addr"

definition interrupt_encode_idt_gate :: "64 word \<Rightarrow> 8 word \<Rightarrow> 8 word \<Rightarrow> bool \<Rightarrow> idt_descriptor" where
  "interrupt_encode_idt_gate callback dpl ist noints =
     \<lparr>offset_low = ucast (callback AND 0xffff),
      segment_selector = GDT_CODE64,
      idt_flags = ucast ist OR push_bit 8 (if noints then 0b1110 else 0b1111) OR push_bit 13 (ucast dpl) OR push_bit 15 1,
      offset_mid = ucast (drop_bit 16 callback AND 0xffff),
      offset_high = ucast (drop_bit 32 callback AND 0xffffffff)\<rparr>"

text \<open>\<open>raw\<close> are the entry points of \<^verbatim>\<open>sys/arch/isrs.asm\<close>. A vector that is taken is an assertion failure.\<close>

definition interrupt_register_handler ::
  "(nat \<Rightarrow> 64 word) \<Rightarrow> nat \<Rightarrow> addr \<Rightarrow> addr \<Rightarrow> 8 word \<Rightarrow> 8 word \<Rightarrow> bool \<Rightarrow> idt \<Rightarrow> idt option" where
  "interrupt_register_handler raw intno callback ctx dpl ist noints s =
     (if interrupt_callbacks s intno = 0
      then Some (s\<lparr>interrupt_callbacks := (interrupt_callbacks s)(intno := callback),
                   interrupt_contexts := (interrupt_contexts s)(intno := ctx),
                   idt_descriptors := (idt_descriptors s)(intno := interrupt_encode_idt_gate (raw intno) dpl ist noints)\<rparr>)
      else None)"

fun idt_fill_loop :: "(nat \<Rightarrow> 64 word) \<Rightarrow> nat \<Rightarrow> idt \<Rightarrow> idt" where
  "idt_fill_loop raw 0 s = s"
| "idt_fill_loop raw (Suc k) s =
     (let i = INTERRUPT_VECTORS_MAX - Suc k in
      idt_fill_loop raw k (s\<lparr>idt_descriptors := (idt_descriptors s)(i := interrupt_encode_idt_gate (raw i) 0 0 False)\<rparr>))"

definition idt_fill :: "(nat \<Rightarrow> 64 word) \<Rightarrow> idt \<Rightarrow> idt" where
  "idt_fill raw = idt_fill_loop raw INTERRUPT_VECTORS_MAX"

text \<open>The limit that \<open>idt_init\<close> loads.\<close>

definition idt_init :: "16 word" where
  "idt_init = of_nat (INTERRUPT_VECTORS_MAX * 8 - 1)"

text \<open>The callback to run and its context, or a panic.\<close>

definition interrupt_handle :: "idt \<Rightarrow> nat \<Rightarrow> (addr \<times> addr) option" where
  "interrupt_handle s intno =
     (if interrupt_callbacks s intno \<noteq> 0 then Some (interrupt_callbacks s intno, interrupt_contexts s intno) else None)"

text \<open>What the processor does with a vector: a gate of sixteen bytes inside the limit of the table, its entry point and attributes.\<close>

record gate =
  g_entry :: "64 word"
  g_selector :: "16 word"
  g_ist :: "16 word"
  g_dpl :: "16 word"
  g_noints :: bool
  g_present :: bool

definition gate_of :: "idt_descriptor \<Rightarrow> gate" where
  "gate_of d = \<lparr>g_entry = ucast (offset_low d) OR push_bit 16 (ucast (offset_mid d)) OR push_bit 32 (ucast (offset_high d)),
     g_selector = segment_selector d, g_ist = take_bit 3 (idt_flags d), g_dpl = take_bit 2 (drop_bit 13 (idt_flags d)),
     g_noints = (take_bit 4 (drop_bit 8 (idt_flags d)) = 0b1110), g_present = bit (idt_flags d) 15\<rparr>"

definition vector_gate :: "16 word \<Rightarrow> idt \<Rightarrow> nat \<Rightarrow> gate option" where
  "vector_gate limit s v = (if 16 * v + 15 \<le> unat limit then Some (gate_of (idt_descriptors s v)) else None)"

section \<open>Descriptors read back\<close>

lemma low_masks:
  "x AND 0xffff = take_bit 16 x" "x AND 0xff = take_bit 8 x" "x AND 0xf = take_bit 4 x" "x AND 0xffffff = take_bit 24 x"
  "x AND 0xffffffff = take_bit 32 x" for x :: "'a :: len word"
  by (simp_all add: take_bit_eq_mask mask_eq_exp_minus_1)

lemma bits_below:
  fixes x :: "'a :: len word"
  assumes "unat x < 2 ^ k" "k \<le> n"
  shows "\<not> bit x n"
proof -
  have "take_bit k x = x" using assms(1) by (simp add: word_unat_eq_iff unsigned_take_bit_eq take_bit_nat_eq_self)
  then show ?thesis using assms(2) by (metis bit_take_bit_iff not_le)
qed

lemma bit_literals:
  "bit (0b010 :: 64 word) n \<longleftrightarrow> n = 1" "bit (0b1001 :: 64 word) n \<longleftrightarrow> n = 0 \<or> n = 3" "bit (0b10000000 :: 64 word) n \<longleftrightarrow> n = 7"
proof -
  have "(0b010 :: 64 word) = push_bit 1 1" "(0b1001 :: 64 word) = 1 OR push_bit 3 1" "(0b10000000 :: 64 word) = push_bit 7 1"
    by simp_all
  then show "bit (0b010 :: 64 word) n \<longleftrightarrow> n = 1" "bit (0b1001 :: 64 word) n \<longleftrightarrow> n = 0 \<or> n = 3" "bit (0b10000000 :: 64 word) n \<longleftrightarrow> n = 7"
    by (auto simp only: bit_push_bit_iff bit_or_iff bit_1_iff) auto
qed

text \<open>The bits of a segment descriptor, field by field.\<close>

lemma gdt_fill_seg_bits:
  assumes "unat dpl < 4"
  shows "bit (gdt_fill_seg base limit exe sz l dpl) n \<longleftrightarrow> n < 64 \<and>
    (n < 16 \<and> bit limit n \<or> 16 \<le> n \<and> n < 40 \<and> bit base (n - 16) \<or> n = 41 \<or> n = 43 \<and> exe \<or> n = 44 \<or> n = 47
     \<or> 45 \<le> n \<and> bit dpl (n - 45) \<or> 48 \<le> n \<and> n < 52 \<and> bit limit (n - 32) \<or> n = 53 \<and> l \<or> n = 54 \<and> sz \<or> n = 55
     \<or> 56 \<le> n \<and> bit base (n - 32))"
proof -
  have d: "\<not> bit dpl k" if "2 \<le> k" for k
    using bits_below [of dpl 2] assms that by simp
  note opened = gdt_fill_seg_def Let_def low_masks bit_or_iff bit_push_bit_iff bit_literals
  note bits = bit_take_bit_iff bit_unsigned_iff bit_drop_bit_eq bit_0_eq bit_1_iff possible_bit_def
  consider "n < 16" | "16 \<le> n" "n < 40" | "40 \<le> n" "n < 48" | "48 \<le> n" "n < 56" | "56 \<le> n" "n < 64" | "64 \<le> n"
    by linarith
  then show ?thesis
  proof cases
    case 1
    then show ?thesis unfolding opened by (simp add: bits)
  next
    case 2
    then show ?thesis unfolding opened by (auto simp: bits)
  next
    case 3
    then have "n \<in> {40, 41, 42, 43, 44, 45, 46, 47}" by auto
    then show ?thesis unfolding opened by (elim insertE emptyE) (simp_all add: bits d)
  next
    case 4
    then have "n \<in> {48, 49, 50, 51, 52, 53, 54, 55}" by auto
    then show ?thesis unfolding opened by (elim insertE emptyE) (simp_all add: bits d)
  next
    case 5
    then have "n \<in> {56, 57, 58, 59, 60, 61, 62, 63}" by auto
    then show ?thesis unfolding opened by (elim insertE emptyE) (simp_all add: bits d)
  next
    case 6
    then show ?thesis by (auto dest: bit_imp_le_length)
  qed
qed

lemma gdt_fill_seg_fields:
  assumes "unat limit < 2 ^ 20" "unat dpl < 4"
  shows "seg_base (gdt_fill_seg base limit exe sz l dpl) = base"
    and "seg_limit (gdt_fill_seg base limit exe sz l dpl) = limit"
    and "seg_dpl (gdt_fill_seg base limit exe sz l dpl) = dpl"
    and "seg_present (gdt_fill_seg base limit exe sz l dpl)"
    and "seg_code (gdt_fill_seg base limit exe sz l dpl) = exe"
    and "seg_long (gdt_fill_seg base limit exe sz l dpl) = l"
    and "seg_32bit (gdt_fill_seg base limit exe sz l dpl) = sz"
proof -
  note bits = gdt_fill_seg_bits [OF assms(2)] bit_or_iff bit_take_bit_iff bit_unsigned_iff bit_drop_bit_eq bit_push_bit_iff possible_bit_def
  have lim: "\<not> bit limit n" if "20 \<le> n" for n
    using bits_below [OF assms(1) that] .
  have d: "\<not> bit dpl n" if "2 \<le> n" for n
    using bits_below [of dpl 2] assms(2) that by simp
  show "seg_base (gdt_fill_seg base limit exe sz l dpl) = base"
  proof (rule bit_word_eqI)
    fix n assume "n < LENGTH(32)"
    then show "bit (seg_base (gdt_fill_seg base limit exe sz l dpl)) n = bit base n"
      by (cases "n < 24") (auto simp: seg_base_def bits d)
  qed
  show "seg_limit (gdt_fill_seg base limit exe sz l dpl) = limit"
  proof (rule bit_word_eqI)
    fix n assume "n < LENGTH(32)"
    then show "bit (seg_limit (gdt_fill_seg base limit exe sz l dpl)) n = bit limit n"
      by (cases "n < 16"; cases "n < 20") (auto simp: seg_limit_def bits d lim)
  qed
  show "seg_dpl (gdt_fill_seg base limit exe sz l dpl) = dpl"
  proof (rule bit_word_eqI)
    fix n assume "n < LENGTH(8)"
    show "bit (seg_dpl (gdt_fill_seg base limit exe sz l dpl)) n = bit dpl n"
    proof (cases "n < 2")
      case True
      then have "n = 0 \<or> n = 1" by auto
      then show ?thesis by (auto simp: seg_dpl_def bits)
    qed (simp add: seg_dpl_def bits d)
  qed
  show "seg_present (gdt_fill_seg base limit exe sz l dpl)" "seg_code (gdt_fill_seg base limit exe sz l dpl) = exe"
    "seg_long (gdt_fill_seg base limit exe sz l dpl) = l" "seg_32bit (gdt_fill_seg base limit exe sz l dpl) = sz"
    by (simp_all add: seg_present_def seg_code_def seg_long_def seg_32bit_def bits d)
qed

text \<open>The selectors the kernel uses are the 64-bit segments of its ring.\<close>

lemma kernel_segments:
  "seg_code (gdt_init ! (unat GDT_CODE64 div 8)) \<and> seg_long (gdt_init ! (unat GDT_CODE64 div 8)) \<and> seg_dpl (gdt_init ! (unat GDT_CODE64 div 8)) = 0"
  "\<not> seg_code (gdt_init ! (unat GDT_DATA64 div 8)) \<and> seg_dpl (gdt_init ! (unat GDT_DATA64 div 8)) = 0"
  "length gdt_init = GDT_DESCRIPTORS"
  by (simp_all add: GDT_CODE64_def GDT_DATA64_def gdt_init_def GDT_DESCRIPTORS_def gdt_fill_seg_fields)

section \<open>Gates read back\<close>

lemma gate_entry:
  "ucast (ucast (x AND 0xffff) :: 16 word) OR push_bit 16 (ucast (ucast (drop_bit 16 x AND 0xffff) :: 16 word))
     OR push_bit 32 (ucast (ucast (drop_bit 32 x AND 0xffffffff) :: 32 word)) = x" for x :: "64 word"
proof (rule bit_word_eqI)
  fix n assume "n < LENGTH(64)"
  then consider "n < 16" | "16 \<le> n" "n < 32" | "32 \<le> n" "n < 64" by fastforce
  then show "bit (ucast (ucast (x AND 0xffff) :: 16 word) OR push_bit 16 (ucast (ucast (drop_bit 16 x AND 0xffff) :: 16 word))
     OR push_bit 32 (ucast (ucast (drop_bit 32 x AND 0xffffffff) :: 32 word)) :: 64 word) n = bit x n"
    unfolding low_masks by cases (auto simp: bit_simps)
qed

lemma flag_literals:
  "bit (0b1110 :: 16 word) n \<longleftrightarrow> n = 1 \<or> n = 2 \<or> n = 3" "bit (0b1111 :: 16 word) n \<longleftrightarrow> n = 0 \<or> n = 1 \<or> n = 2 \<or> n = 3"
proof -
  have "(0b1110 :: 16 word) = push_bit 1 1 OR push_bit 2 1 OR push_bit 3 1"
    "(0b1111 :: 16 word) = 1 OR push_bit 1 1 OR push_bit 2 1 OR push_bit 3 1"
    by simp_all
  then show "bit (0b1110 :: 16 word) n \<longleftrightarrow> n = 1 \<or> n = 2 \<or> n = 3"
    "bit (0b1111 :: 16 word) n \<longleftrightarrow> n = 0 \<or> n = 1 \<or> n = 2 \<or> n = 3"
    by (auto simp only: bit_push_bit_iff bit_or_iff bit_1_iff) auto
qed

definition gate_flags :: "8 word \<Rightarrow> 8 word \<Rightarrow> bool \<Rightarrow> 16 word" where
  "gate_flags dpl ist noints = ucast ist OR push_bit 8 (if noints then 0b1110 else 0b1111) OR push_bit 13 (ucast dpl) OR push_bit 15 1"

lemma gate_flags_bits:
  assumes "unat dpl < 4" "unat ist < 8"
  shows "bit (gate_flags dpl ist noints) n \<longleftrightarrow> n < 3 \<and> bit ist n \<or> n = 8 \<and> \<not> noints \<or> n = 9 \<or> n = 10 \<or> n = 11
    \<or> 13 \<le> n \<and> n < 15 \<and> bit dpl (n - 13) \<or> n = 15"
proof -
  have d: "\<not> bit dpl k" if "2 \<le> k" for k using bits_below [of dpl 2] assms(1) that by simp
  have i: "\<not> bit ist k" if "3 \<le> k" for k using bits_below [of ist 3] assms(2) that by simp
  note opened = gate_flags_def bit_or_iff bit_push_bit_iff
  note bits = bit_unsigned_iff bit_1_iff possible_bit_def flag_literals d i
  show ?thesis
  proof (cases "n < 16")
    case True
    then have "n \<in> {0, 1, 2, 3, 4, 5, 6, 7, 8, 9, 10, 11, 12, 13, 14, 15}"
      unfolding insert_iff empty_iff by presburger
    then show ?thesis unfolding opened by (cases noints) (elim insertE emptyE; simp add: bits)+
  next
    case False
    then show ?thesis by (auto dest: bit_imp_le_length)
  qed
qed

lemma gate_flags_fields:
  assumes "unat dpl < 4" "unat ist < 8"
  shows "take_bit 3 (gate_flags dpl ist noints) = ucast ist" "take_bit 2 (drop_bit 13 (gate_flags dpl ist noints)) = ucast dpl"
    "take_bit 4 (drop_bit 8 (gate_flags dpl ist noints)) = 0b1110 \<longleftrightarrow> noints" "bit (gate_flags dpl ist noints) 15"
proof -
  note bits = gate_flags_bits [OF assms] bit_take_bit_iff bit_drop_bit_eq bit_unsigned_iff possible_bit_def
  have d: "k < 2" if "bit dpl k" for k using bits_below [of dpl 2 k] assms(1) that by (cases "2 \<le> k") simp_all
  have i: "k < 3" if "bit ist k" for k using bits_below [of ist 3 k] assms(2) that by (cases "3 \<le> k") simp_all
  show "take_bit 3 (gate_flags dpl ist noints) = ucast ist"
    by (rule bit_word_eqI) (auto simp: bits dest: i)
  show "take_bit 2 (drop_bit 13 (gate_flags dpl ist noints)) = ucast dpl"
    by (rule bit_word_eqI) (auto simp: bits dest: d)
  show "take_bit 4 (drop_bit 8 (gate_flags dpl ist noints)) = 0b1110 \<longleftrightarrow> noints"
  proof
    assume "take_bit 4 (drop_bit 8 (gate_flags dpl ist noints)) = 0b1110"
    then have "bit (take_bit 4 (drop_bit 8 (gate_flags dpl ist noints))) 0 = bit (0b1110 :: 16 word) 0" by simp
    then show noints by (simp add: bits)
  next
    assume noints
    then show "take_bit 4 (drop_bit 8 (gate_flags dpl ist noints)) = 0b1110"
    proof (intro bit_word_eqI)
      fix n
      show "bit (take_bit 4 (drop_bit 8 (gate_flags dpl ist noints))) n = bit (0b1110 :: 16 word) n"
        using \<open>noints\<close> unfolding flag_literals by (auto simp: bits)
    qed
  qed
  show "bit (gate_flags dpl ist noints) 15" by (simp add: bits)
qed

lemma gate_of_encode:
  assumes "unat dpl < 4" "unat ist < 8"
  shows "gate_of (interrupt_encode_idt_gate entry dpl ist noints)
    = \<lparr>g_entry = entry, g_selector = GDT_CODE64, g_ist = ucast ist, g_dpl = ucast dpl, g_noints = noints, g_present = True\<rparr>"
  using gate_flags_fields [OF assms, of noints] gate_entry [of entry]
  by (simp only: gate_of_def interrupt_encode_idt_gate_def idt_descriptor.select_convs gate_flags_def [symmetric])

lemma idt_fill_loop_gates:
  "k \<le> INTERRUPT_VECTORS_MAX \<Longrightarrow> idt_descriptors (idt_fill_loop raw k s) v
    = (if INTERRUPT_VECTORS_MAX - k \<le> v \<and> v < INTERRUPT_VECTORS_MAX then interrupt_encode_idt_gate (raw v) 0 0 False else idt_descriptors s v)
   \<and> interrupt_callbacks (idt_fill_loop raw k s) = interrupt_callbacks s"
  by (induction k arbitrary: s) (auto simp: Let_def)

text \<open>The processor finds the task state segment where it is.\<close>

definition tss_low :: "64 word \<Rightarrow> 64 word" where
  "tss_low tss = ((of_nat SIZEOF_tss - 1) AND 0xffff) OR push_bit 16 (tss AND 0xffffff) OR push_bit 40 0b1001 OR push_bit 47 1
     OR push_bit 56 (drop_bit 24 tss AND 0xff)"

lemma tss_low_bits:
  "16 \<le> n \<Longrightarrow> n < 40 \<Longrightarrow> bit (tss_low tss) n = bit tss (n - 16)" "56 \<le> n \<Longrightarrow> n < 64 \<Longrightarrow> bit (tss_low tss) n = bit tss (n - 32)"
  unfolding tss_low_def low_masks bit_or_iff bit_push_bit_iff bit_literals
  by (auto simp: bit_take_bit_iff bit_drop_bit_eq bit_1_iff possible_bit_def)

lemma tss_base:
  assumes "10 < length descrs"
  shows "sys_base (gdt_load_tss descrs tss ! 9) (gdt_load_tss descrs tss ! 10) = tss"
proof -
  have "gdt_load_tss descrs tss ! 9 = tss_low tss" "gdt_load_tss descrs tss ! 10 = drop_bit 32 tss"
    using assms by (simp_all only: gdt_load_tss_def tss_low_def nth_list_update length_list_update) simp_all
  moreover have "bit (sys_base (tss_low tss) (drop_bit 32 tss)) n = bit tss n" if "n < 64" for n
  proof -
    consider "n < 24" | "24 \<le> n" "n < 32" | "32 \<le> n" by linarith
    then show ?thesis
      using that by cases (auto simp: sys_base_def seg_base_def bit_or_iff bit_push_bit_iff bit_take_bit_iff bit_drop_bit_eq bit_unsigned_iff
          possible_bit_def tss_low_bits)
  qed
  ultimately show ?thesis by (auto intro: bit_word_eqI)
qed

section \<open>Properties\<close>

text \<open>C28: registering an interrupt handler connects its vector: the processor finds a gate with the entry point of the vector, the
  kernel's code segment and the privilege, stack and interrupt flag asked for, and the dispatcher runs the handler with its context. Other
  vectors stay as they are, and a vector cannot be taken twice. The table has 256 gates of sixteen bytes, but the limit loaded is that of
  eight-byte ones: a handler for a vector from 128 on is never reached.\<close>

theorem interrupt_dispatch:
  assumes "interrupt_callbacks s v = 0" "callback \<noteq> 0" "unat dpl < 4" "unat ist < 8"
  shows "\<exists>s'. interrupt_register_handler raw v callback ctx dpl ist noints s = Some s'
    \<and> vector_gate idt_init s' v = (if v < 128
        then Some \<lparr>g_entry = raw v, g_selector = GDT_CODE64, g_ist = ucast ist, g_dpl = ucast dpl, g_noints = noints, g_present = True\<rparr>
        else None)
    \<and> interrupt_handle s' v = Some (callback, ctx)
    \<and> (\<forall>w. w \<noteq> v \<longrightarrow> vector_gate idt_init s' w = vector_gate idt_init s w \<and> interrupt_handle s' w = interrupt_handle s w)
    \<and> interrupt_register_handler raw v callback' ctx' dpl' ist' noints' s' = None"
proof -
  have "unat idt_init = 2047" by (simp add: idt_init_def INTERRUPT_VECTORS_MAX_def)
  then show ?thesis
    using assms by (simp add: interrupt_register_handler_def vector_gate_def interrupt_handle_def gate_of_encode)
qed

definition idt_example :: idt where
  "idt_example = idt_fill (\<lambda>v. of_nat (4096 + 16 * v)) \<lparr>idt_descriptors = (\<lambda>_. \<lparr>offset_low = 0, segment_selector = 0, idt_flags = 0,
     offset_mid = 0, offset_high = 0\<rparr>), interrupt_callbacks = (\<lambda>_. 0), interrupt_contexts = (\<lambda>_. 0)\<rparr>"

theorem interrupt_dispatch_witness:
  "\<exists>s'. interrupt_register_handler (\<lambda>v. of_nat (4096 + 16 * v)) 32 77 5 0 1 True idt_example = Some s'
    \<and> vector_gate idt_init s' 32 = Some \<lparr>g_entry = 4608, g_selector = GDT_CODE64, g_ist = 1, g_dpl = 0, g_noints = True, g_present = True\<rparr>
    \<and> interrupt_handle s' 32 = Some (77, 5)"
proof -
  have "interrupt_callbacks idt_example 32 = 0"
    using idt_fill_loop_gates [of INTERRUPT_VECTORS_MAX] by (simp add: idt_example_def idt_fill_def)
  from interrupt_dispatch [OF this, of 77 0 1 "\<lambda>v. of_nat (4096 + 16 * v)" 5 True 1 0 0 0 False] show ?thesis by auto
qed

end
