(* ===== verification/Bringup.thy ===== *)
theory Bringup
  imports Prelude
begin

text \<open>
  \<^verbatim>\<open>thread/smp/boot_bringup.c\<close> and \<^verbatim>\<open>thread/smp/trampoline.c\<close>: starting the other processors. The boot processor and each other
  core run concurrently and share the status words of the cores and the state of the trampoline. A step is one access of one core to them, or
  an interrupt sent; delays let the others take any number of steps. What a core does between its accesses (its interrupt controller,
  its tables, its calibration) is its own. A core that has been sent a start-up interrupt after an \<open>INIT\<close> starts at some
  time, or never.
\<close>

datatype core_status =
    THREAD_SMP_CORE_STATUS_ASLEEP
  | THREAD_SMP_CORE_STATUS_WAKEUP_INITIATED
  | THREAD_SMP_CORE_WAITING_FOR_CALIBRATION
  | THREAD_SMP_CORE_STATUS_ONLINE
  | THREAD_SMP_CORE_STATUS_GAVE_UP

datatype trampoline_state =
    THREAD_SMP_TRAMPOLINE_WAIT
  | THREAD_SMP_TRAMPOLINE_BEGIN_CALIBRATION
  | THREAD_SMP_TRAMPOLINE_END_CALIBRATION

text \<open>Where the boot processor is in \<open>thread_smp_ap_boot_bringup\<close>: the loops with their index and \<open>everyone_started\<close>.\<close>

datatype bsp_pc =
    Send_Inits nat
  | Wait_Inits
  | Send_Startups nat
  | Wait_Startups
  | Check_Started nat bool
  | Second_Chance
  | Check_Late nat
  | Give_Up nat
  | Begin_Calibration
  | End_Calibration
  | Check_Online nat
  | All_Up

text \<open>Where another core is in \<open>thread_smp_trampoline_ap_init\<close>.\<close>

datatype ap_pc = Off | Reset | Starting | Entered | Checked | Waits_Begin | Calibrates | Calibrated | Runs | Hung

text \<open>\<open>sm_given\<close> remembers which cores the boot processor has given up on.\<close>

record smp =
  sm_status :: "nat \<Rightarrow> core_status"
  sm_tramp :: trampoline_state
  sm_bsp :: bsp_pc
  sm_ap :: "nat \<Rightarrow> ap_pc"
  sm_given :: "nat \<Rightarrow> bool"

definition set_status :: "nat \<Rightarrow> core_status \<Rightarrow> smp \<Rightarrow> smp" where
  "set_status i st s = s\<lparr>sm_status := (sm_status s)(i := st)\<rparr>"

definition set_ap :: "nat \<Rightarrow> ap_pc \<Rightarrow> smp \<Rightarrow> smp" where
  "set_ap i pc s = s\<lparr>sm_ap := (sm_ap s)(i := pc)\<rparr>"

text \<open>The effect of the two interrupts on the core they are sent to: one that runs already ignores a start-up interrupt.\<close>

definition recv_init :: "nat \<Rightarrow> smp \<Rightarrow> smp" where
  "recv_init i s = set_ap i Reset s"

definition recv_startup :: "nat \<Rightarrow> smp \<Rightarrow> smp" where
  "recv_startup i s = (if sm_ap s i = Reset then set_ap i Starting s else s)"

definition bsp_goto :: "bsp_pc \<Rightarrow> smp \<Rightarrow> smp" where
  "bsp_goto pc s = s\<lparr>sm_bsp := pc\<rparr>"

fun bsp_step :: "nat \<Rightarrow> smp \<Rightarrow> bsp_pc \<Rightarrow> smp" where
  "bsp_step max_cpus s (Send_Inits i) =
     (if i < max_cpus then
        bsp_goto (Send_Inits (i + 1))
          (if sm_status s i = THREAD_SMP_CORE_STATUS_ASLEEP
           then recv_init i (set_status i THREAD_SMP_CORE_STATUS_WAKEUP_INITIATED s) else s)
      else bsp_goto Wait_Inits s)"
| "bsp_step max_cpus s Wait_Inits = bsp_goto (Send_Startups 0) s"
| "bsp_step max_cpus s (Send_Startups i) =
     (if i < max_cpus then
        bsp_goto (Send_Startups (i + 1))
          (if sm_status s i = THREAD_SMP_CORE_STATUS_WAKEUP_INITIATED then recv_startup i s else s)
      else bsp_goto Wait_Startups s)"
| "bsp_step max_cpus s Wait_Startups = bsp_goto (Check_Started 0 True) s"
| "bsp_step max_cpus s (Check_Started i everyone_started) =
     (if i < max_cpus then
        if sm_status s i = THREAD_SMP_CORE_STATUS_WAKEUP_INITIATED
        then bsp_goto (Check_Started (i + 1) False) (recv_startup i s)
        else bsp_goto (Check_Started (i + 1) everyone_started) s
      else bsp_goto (if everyone_started then Begin_Calibration else Second_Chance) s)"
| "bsp_step max_cpus s Second_Chance = bsp_goto (Check_Late 0) s"
| "bsp_step max_cpus s (Check_Late i) =
     (if i < max_cpus then
        if sm_status s i = THREAD_SMP_CORE_STATUS_WAKEUP_INITIATED then bsp_goto (Give_Up i) s
        else bsp_goto (Check_Late (i + 1)) s
      else bsp_goto Begin_Calibration s)"
| "bsp_step max_cpus s (Give_Up i) =
     bsp_goto (Check_Late (i + 1)) (set_status i THREAD_SMP_CORE_STATUS_GAVE_UP (s\<lparr>sm_given := (sm_given s)(i := True)\<rparr>))"
| "bsp_step max_cpus s Begin_Calibration = bsp_goto End_Calibration (s\<lparr>sm_tramp := THREAD_SMP_TRAMPOLINE_BEGIN_CALIBRATION\<rparr>)"
| "bsp_step max_cpus s End_Calibration = bsp_goto (Check_Online 0) (s\<lparr>sm_tramp := THREAD_SMP_TRAMPOLINE_END_CALIBRATION\<rparr>)"
| "bsp_step max_cpus s (Check_Online i) =
     (if i < max_cpus then
        if sm_status s i \<noteq> THREAD_SMP_CORE_STATUS_ONLINE \<and> sm_status s i \<noteq> THREAD_SMP_CORE_STATUS_GAVE_UP
        then bsp_goto (Check_Online 0) s
        else bsp_goto (Check_Online (i + 1)) s
      else bsp_goto All_Up s)"
| "bsp_step max_cpus s All_Up = s"

definition thread_smp_ap_boot_bringup :: "nat \<Rightarrow> smp \<Rightarrow> smp" where
  "thread_smp_ap_boot_bringup max_cpus s = bsp_step max_cpus s (sm_bsp s)"

fun ap_step :: "nat \<Rightarrow> smp \<Rightarrow> ap_pc \<Rightarrow> smp" where
  "ap_step i s Off = s"
| "ap_step i s Reset = s"
| "ap_step i s Starting = set_ap i Entered s"
| "ap_step i s Entered = set_ap i (if sm_status s i = THREAD_SMP_CORE_STATUS_GAVE_UP then Hung else Checked) s"
| "ap_step i s Checked = set_ap i Waits_Begin (set_status i THREAD_SMP_CORE_WAITING_FOR_CALIBRATION s)"
| "ap_step i s Waits_Begin =
     (if sm_tramp s \<noteq> THREAD_SMP_TRAMPOLINE_BEGIN_CALIBRATION then
        if sm_tramp s = THREAD_SMP_TRAMPOLINE_END_CALIBRATION then set_ap i Hung s else s
      else set_ap i Calibrates s)"
| "ap_step i s Calibrates =
     (if sm_tramp s \<noteq> THREAD_SMP_TRAMPOLINE_END_CALIBRATION then s else set_ap i Calibrated s)"
| "ap_step i s Calibrated = set_ap i Runs (set_status i THREAD_SMP_CORE_STATUS_ONLINE s)"
| "ap_step i s Runs = s"
| "ap_step i s Hung = s"

definition thread_smp_trampoline_ap_init :: "nat \<Rightarrow> smp \<Rightarrow> smp" where
  "thread_smp_trampoline_ap_init i s = ap_step i s (sm_ap s i)"

section \<open>The system\<close>

text \<open>\<open>thread_smp_core_init\<close> leaves every core asleep but the boot processor.\<close>

definition smp_boot :: "nat \<Rightarrow> smp" where
  "smp_boot boot = \<lparr>sm_status = (\<lambda>_. THREAD_SMP_CORE_STATUS_ASLEEP)(boot := THREAD_SMP_CORE_STATUS_ONLINE),
     sm_tramp = THREAD_SMP_TRAMPOLINE_WAIT, sm_bsp = Send_Inits 0, sm_ap = (\<lambda>_. Off), sm_given = (\<lambda>_. False)\<rparr>"

inductive smp_step :: "nat \<Rightarrow> nat \<Rightarrow> smp \<Rightarrow> smp \<Rightarrow> bool" for max_cpus boot where
  Bsp: "smp_step max_cpus boot s (thread_smp_ap_boot_bringup max_cpus s)"
| Ap: "i < max_cpus \<Longrightarrow> i \<noteq> boot \<Longrightarrow> smp_step max_cpus boot s (thread_smp_trampoline_ap_init i s)"

inductive_cases smp_stepE: "smp_step max_cpus boot s s'"

text \<open>A schedule: the core that takes the next step.\<close>

fun smp_run :: "nat \<Rightarrow> nat \<Rightarrow> nat list \<Rightarrow> smp \<Rightarrow> smp" where
  "smp_run max_cpus boot [] s = s"
| "smp_run max_cpus boot (i # is) s =
     smp_run max_cpus boot is (if i = boot then thread_smp_ap_boot_bringup max_cpus s else thread_smp_trampoline_ap_init i s)"

lemma smp_run_steps:
  assumes "set is \<subseteq> {..<max_cpus}"
  shows "(smp_step max_cpus boot)\<^sup>*\<^sup>* s (smp_run max_cpus boot is s)"
  using assms
proof (induction "is" arbitrary: s)
  case (Cons i "is")
  let ?s = "if i = boot then thread_smp_ap_boot_bringup max_cpus s else thread_smp_trampoline_ap_init i s"
  have "smp_step max_cpus boot s ?s" using Cons.prems by (auto intro: smp_step.intros)
  then show ?case using Cons by (simp add: converse_rtranclp_into_rtranclp)
qed simp

section \<open>Invariant\<close>

fun tramp_at :: "bsp_pc \<Rightarrow> trampoline_state" where
  "tramp_at End_Calibration = THREAD_SMP_TRAMPOLINE_BEGIN_CALIBRATION"
| "tramp_at (Check_Online i) = THREAD_SMP_TRAMPOLINE_END_CALIBRATION"
| "tramp_at All_Up = THREAD_SMP_TRAMPOLINE_END_CALIBRATION"
| "tramp_at _ = THREAD_SMP_TRAMPOLINE_WAIT"

text \<open>The status a core may have at each point, and what has happened to the trampoline.\<close>

fun ap_ok :: "ap_pc \<Rightarrow> core_status \<Rightarrow> bool \<Rightarrow> trampoline_state \<Rightarrow> bool" where
  "ap_ok Off st given t \<longleftrightarrow> st = THREAD_SMP_CORE_STATUS_ASLEEP \<and> \<not> given"
| "ap_ok Reset st given t \<longleftrightarrow> st = (if given then THREAD_SMP_CORE_STATUS_GAVE_UP else THREAD_SMP_CORE_STATUS_WAKEUP_INITIATED)"
| "ap_ok Starting st given t \<longleftrightarrow> st = (if given then THREAD_SMP_CORE_STATUS_GAVE_UP else THREAD_SMP_CORE_STATUS_WAKEUP_INITIATED)"
| "ap_ok Entered st given t \<longleftrightarrow> st = (if given then THREAD_SMP_CORE_STATUS_GAVE_UP else THREAD_SMP_CORE_STATUS_WAKEUP_INITIATED)"
| "ap_ok Checked st given t \<longleftrightarrow> st = (if given then THREAD_SMP_CORE_STATUS_GAVE_UP else THREAD_SMP_CORE_STATUS_WAKEUP_INITIATED)"
| "ap_ok Waits_Begin st given t \<longleftrightarrow> st = THREAD_SMP_CORE_WAITING_FOR_CALIBRATION \<or> given \<and> st = THREAD_SMP_CORE_STATUS_GAVE_UP"
| "ap_ok Calibrates st given t \<longleftrightarrow> t \<noteq> THREAD_SMP_TRAMPOLINE_WAIT
     \<and> (st = THREAD_SMP_CORE_WAITING_FOR_CALIBRATION \<or> given \<and> st = THREAD_SMP_CORE_STATUS_GAVE_UP)"
| "ap_ok Calibrated st given t \<longleftrightarrow> t = THREAD_SMP_TRAMPOLINE_END_CALIBRATION
     \<and> (st = THREAD_SMP_CORE_WAITING_FOR_CALIBRATION \<or> given \<and> st = THREAD_SMP_CORE_STATUS_GAVE_UP)"
| "ap_ok Runs st given t \<longleftrightarrow> t = THREAD_SMP_TRAMPOLINE_END_CALIBRATION \<and> st = THREAD_SMP_CORE_STATUS_ONLINE"
| "ap_ok Hung st given t \<longleftrightarrow> given \<and> st = THREAD_SMP_CORE_STATUS_GAVE_UP
     \<or> t = THREAD_SMP_TRAMPOLINE_END_CALIBRATION \<and> st = THREAD_SMP_CORE_WAITING_FOR_CALIBRATION"

text \<open>What the boot processor's position says about the cores.\<close>

fun bsp_ok :: "nat \<Rightarrow> (nat \<Rightarrow> core_status) \<Rightarrow> (nat \<Rightarrow> bool) \<Rightarrow> bsp_pc \<Rightarrow> bool" where
  "bsp_ok n st given (Send_Inits i) \<longleftrightarrow> (\<forall>k<n. k < i \<longrightarrow> st k \<noteq> THREAD_SMP_CORE_STATUS_ASLEEP)"
| "bsp_ok n st given (Check_Online i) \<longleftrightarrow>
     (\<forall>k<n. st k \<noteq> THREAD_SMP_CORE_STATUS_ASLEEP \<and> (k < i \<longrightarrow> st k = THREAD_SMP_CORE_STATUS_ONLINE \<or> given k))"
| "bsp_ok n st given All_Up \<longleftrightarrow>
     (\<forall>k<n. st k \<noteq> THREAD_SMP_CORE_STATUS_ASLEEP \<and> (st k = THREAD_SMP_CORE_STATUS_ONLINE \<or> given k))"
| "bsp_ok n st given (Give_Up i) \<longleftrightarrow> i < n \<and> st i \<noteq> THREAD_SMP_CORE_STATUS_ONLINE \<and> (\<forall>k<n. st k \<noteq> THREAD_SMP_CORE_STATUS_ASLEEP)"
| "bsp_ok n st given _ \<longleftrightarrow> (\<forall>k<n. st k \<noteq> THREAD_SMP_CORE_STATUS_ASLEEP)"

definition smp_inv :: "nat \<Rightarrow> nat \<Rightarrow> smp \<Rightarrow> bool" where
  "smp_inv max_cpus boot s \<longleftrightarrow> sm_status s boot = THREAD_SMP_CORE_STATUS_ONLINE
     \<and> sm_tramp s = tramp_at (sm_bsp s)
     \<and> (\<forall>i<max_cpus. i \<noteq> boot \<longrightarrow> ap_ok (sm_ap s i) (sm_status s i) (sm_given s i) (sm_tramp s))
     \<and> bsp_ok max_cpus (sm_status s) (sm_given s) (sm_bsp s)"

lemma smp_inv_boot: "smp_inv max_cpus boot (smp_boot boot)"
  by (simp add: smp_inv_def smp_boot_def)

lemmas smp_ops = set_status_def set_ap_def recv_init_def recv_startup_def bsp_goto_def

text \<open>A step of a core: only its own state and status change.\<close>

definition ap_moved :: "core_status \<Rightarrow> core_status \<Rightarrow> trampoline_state \<Rightarrow> bool" where
  "ap_moved st st' t \<longleftrightarrow> st' = st
     \<or> st \<noteq> THREAD_SMP_CORE_STATUS_ASLEEP \<and> st \<noteq> THREAD_SMP_CORE_STATUS_ONLINE
       \<and> (st' = THREAD_SMP_CORE_WAITING_FOR_CALIBRATION
          \<or> st' = THREAD_SMP_CORE_STATUS_ONLINE \<and> t = THREAD_SMP_TRAMPOLINE_END_CALIBRATION)"

lemma ap_step_frame:
  "sm_bsp (thread_smp_trampoline_ap_init i s) = sm_bsp s" "sm_tramp (thread_smp_trampoline_ap_init i s) = sm_tramp s"
  "sm_given (thread_smp_trampoline_ap_init i s) = sm_given s"
  "k \<noteq> i \<Longrightarrow> sm_status (thread_smp_trampoline_ap_init i s) k = sm_status s k"
  "k \<noteq> i \<Longrightarrow> sm_ap (thread_smp_trampoline_ap_init i s) k = sm_ap s k"
  unfolding thread_smp_trampoline_ap_init_def by (cases "sm_ap s i"; simp add: smp_ops)+

lemma ap_step_own:
  assumes "ap_ok (sm_ap s i) (sm_status s i) (sm_given s i) (sm_tramp s)"
  shows "ap_ok (sm_ap (thread_smp_trampoline_ap_init i s) i) (sm_status (thread_smp_trampoline_ap_init i s) i) (sm_given s i) (sm_tramp s)"
    and "ap_moved (sm_status s i) (sm_status (thread_smp_trampoline_ap_init i s) i) (sm_tramp s)"
  using assms unfolding thread_smp_trampoline_ap_init_def ap_moved_def
  by (cases "sm_ap s i"; auto simp: smp_ops split: if_splits)+

text \<open>Such a step does not disturb what the boot processor knows.\<close>

lemma bsp_ok_moved:
  assumes "bsp_ok n st given pc" "\<And>k. k \<noteq> i \<Longrightarrow> st' k = st k" "ap_moved (st i) (st' i) (tramp_at pc)"
  shows "bsp_ok n st' given pc"
proof -
  have asleep: "st' k \<noteq> THREAD_SMP_CORE_STATUS_ASLEEP" if "st k \<noteq> THREAD_SMP_CORE_STATUS_ASLEEP" for k
    using assms(2) [of k] assms(3) that by (cases "k = i") (auto simp: ap_moved_def)
  have online: "st' k = THREAD_SMP_CORE_STATUS_ONLINE" if "st k = THREAD_SMP_CORE_STATUS_ONLINE" for k
    using assms(2) [of k] assms(3) that by (cases "k = i") (auto simp: ap_moved_def)
  have early: "st' k \<noteq> THREAD_SMP_CORE_STATUS_ONLINE"
    if "st k \<noteq> THREAD_SMP_CORE_STATUS_ONLINE" "tramp_at pc = THREAD_SMP_TRAMPOLINE_WAIT" for k
    using assms(2) [of k] assms(3) that by (cases "k = i") (auto simp: ap_moved_def)
  show ?thesis
    using assms(1) asleep online early by (cases pc) auto
qed

lemma smp_inv_ap:
  assumes "smp_inv max_cpus boot s" "i < max_cpus" "i \<noteq> boot"
  shows "smp_inv max_cpus boot (thread_smp_trampoline_ap_init i s)"
proof -
  let ?t = "thread_smp_trampoline_ap_init i s"
  have ok: "ap_ok (sm_ap s i) (sm_status s i) (sm_given s i) (sm_tramp s)" using assms by (auto simp: smp_inv_def)
  have "ap_ok (sm_ap ?t k) (sm_status ?t k) (sm_given ?t k) (sm_tramp ?t)" if "k < max_cpus" "k \<noteq> boot" for k
    using assms(1) ap_step_own(1) [OF ok] that by (cases "k = i") (auto simp: smp_inv_def ap_step_frame)
  moreover have "bsp_ok max_cpus (sm_status ?t) (sm_given s) (sm_bsp s)"
  proof (rule bsp_ok_moved)
    show "bsp_ok max_cpus (sm_status s) (sm_given s) (sm_bsp s)" using assms(1) by (simp add: smp_inv_def)
    show "ap_moved (sm_status s i) (sm_status ?t i) (tramp_at (sm_bsp s))"
      using assms(1) ap_step_own(2) [OF ok] by (simp add: smp_inv_def)
  qed (rule ap_step_frame)
  ultimately show ?thesis
    using assms(1,3) by (auto simp: smp_inv_def ap_step_frame)
qed

text \<open>The boot processor.\<close>

lemma ap_ok_tramp:
  "ap_ok pc st given THREAD_SMP_TRAMPOLINE_WAIT \<Longrightarrow> ap_ok pc st given THREAD_SMP_TRAMPOLINE_BEGIN_CALIBRATION"
  "ap_ok pc st given THREAD_SMP_TRAMPOLINE_BEGIN_CALIBRATION \<Longrightarrow> ap_ok pc st given THREAD_SMP_TRAMPOLINE_END_CALIBRATION"
  by (cases pc; auto)+

lemma ap_ok_give_up:
  "ap_ok pc st given t \<Longrightarrow> st \<noteq> THREAD_SMP_CORE_STATUS_ONLINE \<Longrightarrow> st \<noteq> THREAD_SMP_CORE_STATUS_ASLEEP
   \<Longrightarrow> ap_ok pc THREAD_SMP_CORE_STATUS_GAVE_UP True t"
  by (cases pc) auto

lemma ap_ok_status:
  "ap_ok pc THREAD_SMP_CORE_STATUS_ASLEEP given t \<Longrightarrow> \<not> given"
  "ap_ok pc THREAD_SMP_CORE_STATUS_GAVE_UP given t \<Longrightarrow> given"
  by (cases pc; auto split: if_splits)+

lemma smp_inv_bsp:
  assumes "smp_inv max_cpus boot s"
  shows "smp_inv max_cpus boot (thread_smp_ap_boot_bringup max_cpus s)"
proof (cases "sm_bsp s")
  case (Give_Up i)
  have "ap_ok (sm_ap s i) THREAD_SMP_CORE_STATUS_GAVE_UP True (sm_tramp s)" if "i \<noteq> boot"
    by (rule ap_ok_give_up [of _ "sm_status s i" "sm_given s i"]) (use assms Give_Up that in \<open>auto simp: smp_inv_def\<close>)
  then show ?thesis
    using assms Give_Up by (auto simp: smp_inv_def thread_smp_ap_boot_bringup_def smp_ops)
next
  case Begin_Calibration
  then show ?thesis
    using assms by (auto simp: smp_inv_def thread_smp_ap_boot_bringup_def smp_ops intro: ap_ok_tramp)
next
  case End_Calibration
  then show ?thesis
    using assms by (auto simp: smp_inv_def thread_smp_ap_boot_bringup_def smp_ops intro: ap_ok_tramp)
next
  case (Send_Inits i)
  have "\<not> sm_given s i" if "sm_status s i = THREAD_SMP_CORE_STATUS_ASLEEP" "i \<noteq> boot" "i < max_cpus"
    using assms that ap_ok_status(1) unfolding smp_inv_def by metis
  then show ?thesis
    using assms Send_Inits by (auto simp: smp_inv_def thread_smp_ap_boot_bringup_def smp_ops less_Suc_eq)
next
  case (Check_Online i)
  have "sm_given s i" if "sm_status s i = THREAD_SMP_CORE_STATUS_GAVE_UP" "i < max_cpus"
  proof -
    have "i \<noteq> boot" using assms that by (auto simp: smp_inv_def)
    then show ?thesis using assms that ap_ok_status(2) unfolding smp_inv_def by metis
  qed
  then show ?thesis
    using assms Check_Online by (auto simp: smp_inv_def thread_smp_ap_boot_bringup_def smp_ops less_Suc_eq)
qed (insert assms, auto simp: smp_inv_def thread_smp_ap_boot_bringup_def smp_ops)

lemma smp_inv_reachable:
  assumes "(smp_step max_cpus boot)\<^sup>*\<^sup>* (smp_boot boot) s"
  shows "smp_inv max_cpus boot s"
  using assms
proof (induction rule: rtranclp_induct)
  case base
  show ?case by (rule smp_inv_boot)
next
  case (step s s')
  then show ?case by (auto elim!: smp_stepE intro: smp_inv_ap smp_inv_bsp)
qed

text \<open>A core that was given up before it looked never gets past that look.\<close>

definition shut_out :: "nat \<Rightarrow> smp \<Rightarrow> bool" where
  "shut_out i s \<longleftrightarrow> sm_given s i \<and> sm_ap s i \<in> {Reset, Starting, Entered, Hung} \<and> sm_status s i = THREAD_SMP_CORE_STATUS_GAVE_UP"

lemma shut_out_step:
  assumes "smp_step max_cpus boot s s'" "shut_out i s"
  shows "shut_out i s'"
  using assms(1)
proof (cases rule: smp_step.cases)
  case Bsp
  then show ?thesis
    using assms(2) by (cases "sm_bsp s") (auto simp: shut_out_def thread_smp_ap_boot_bringup_def smp_ops)
next
  case (Ap k)
  show ?thesis
  proof (cases "k = i")
    case True
    then show ?thesis using assms(2) Ap by (auto simp: shut_out_def thread_smp_trampoline_ap_init_def smp_ops)
  next
    case False
    then show ?thesis using assms(2) Ap by (auto simp: shut_out_def ap_step_frame)
  qed
qed

lemma shut_out_stays:
  assumes "(smp_step max_cpus boot)\<^sup>*\<^sup>* s s'" "shut_out i s"
  shows "shut_out i s'"
  using assms by (induction rule: rtranclp_induct) (auto intro: shut_out_step)

text \<open>A core that came too late for the calibration holds the boot processor in its last loop.\<close>

definition blocked :: "nat \<Rightarrow> smp \<Rightarrow> bool" where
  "blocked i s \<longleftrightarrow> sm_ap s i = Hung \<and> sm_status s i = THREAD_SMP_CORE_WAITING_FOR_CALIBRATION \<and> (\<exists>j\<le>i. sm_bsp s = Check_Online j)"

lemma blocked_step:
  assumes "smp_step max_cpus boot s s'" "blocked i s" "i < max_cpus"
  shows "blocked i s'"
  using assms(1)
proof (cases rule: smp_step.cases)
  case Bsp
  obtain j where j: "j \<le> i" "sm_bsp s = Check_Online j" using assms(2) by (auto simp: blocked_def)
  show ?thesis
  proof (cases "j = i")
    case True
    then show ?thesis using Bsp j assms(2,3) by (auto simp: blocked_def thread_smp_ap_boot_bringup_def smp_ops)
  next
    case False
    then show ?thesis using Bsp j assms(2,3) by (auto simp: blocked_def thread_smp_ap_boot_bringup_def smp_ops)
  qed
next
  case (Ap k)
  show ?thesis
  proof (cases "k = i")
    case True
    then show ?thesis using assms(2) Ap by (auto simp: blocked_def thread_smp_trampoline_ap_init_def)
  next
    case False
    then show ?thesis using assms(2) Ap by (auto simp: blocked_def ap_step_frame)
  qed
qed

lemma blocked_stays:
  assumes "(smp_step max_cpus boot)\<^sup>*\<^sup>* s s'" "blocked i s" "i < max_cpus"
  shows "blocked i s'"
  using assms(1,2) by (induction rule: rtranclp_induct) (auto intro: blocked_step assms(3))

lemma blocked_not_up:
  assumes "(smp_step max_cpus boot)\<^sup>*\<^sup>* s s'" "blocked i s" "i < max_cpus"
  shows "sm_bsp s' \<noteq> All_Up"
  using blocked_stays [OF assms] by (auto simp: blocked_def)

section \<open>Schedules of two cores\<close>

definition two :: "core_status \<Rightarrow> trampoline_state \<Rightarrow> bsp_pc \<Rightarrow> ap_pc \<Rightarrow> bool \<Rightarrow> smp" where
  "two st t pc ap given = \<lparr>sm_status = (\<lambda>_. THREAD_SMP_CORE_STATUS_ASLEEP)(0 := THREAD_SMP_CORE_STATUS_ONLINE, 1 := st),
     sm_tramp = t, sm_bsp = pc, sm_ap = (\<lambda>_. Off)(1 := ap), sm_given = (\<lambda>_. False)(1 := given)\<rparr>"

lemma two_sel [simp]:
  "sm_bsp (two st t pc ap given) = pc" "sm_status (two st t pc ap given) 1 = st" "sm_ap (two st t pc ap given) 1 = ap"
  "sm_given (two st t pc ap given) 1 = given" "sm_tramp (two st t pc ap given) = t"
  by (simp_all add: two_def)

lemmas two_sel_Suc [simp] = two_sel [unfolded One_nat_def]

lemmas two_steps = smp_boot_def thread_smp_ap_boot_bringup_def thread_smp_trampoline_ap_init_def smp_ops two_def

lemma run_startup:
  "smp_run 2 0 [0, 0, 0, 0, 0, 0, 0, 0] (smp_boot 0)
   = two THREAD_SMP_CORE_STATUS_WAKEUP_INITIATED THREAD_SMP_TRAMPOLINE_WAIT (Check_Started 0 True) Starting False"
  by (simp add: two_steps fun_eq_iff)

text \<open>Both come up.\<close>

lemma run_begin:
  "smp_run 2 0 [1, 1, 1, 0, 0, 0, 0, 1]
     (two THREAD_SMP_CORE_STATUS_WAKEUP_INITIATED THREAD_SMP_TRAMPOLINE_WAIT (Check_Started 0 True) Starting False)
   = two THREAD_SMP_CORE_WAITING_FOR_CALIBRATION THREAD_SMP_TRAMPOLINE_BEGIN_CALIBRATION End_Calibration Calibrates False"
  by (simp add: two_steps)

lemma run_end:
  "smp_run 2 0 [0, 1, 1, 0, 0, 0]
     (two THREAD_SMP_CORE_WAITING_FOR_CALIBRATION THREAD_SMP_TRAMPOLINE_BEGIN_CALIBRATION End_Calibration Calibrates False)
   = two THREAD_SMP_CORE_STATUS_ONLINE THREAD_SMP_TRAMPOLINE_END_CALIBRATION All_Up Runs False"
  by (simp add: two_steps)

text \<open>The core looks at its status, is given up, and announces itself after the calibration.\<close>

lemma run_late:
  "smp_run 2 0 [1, 1, 0, 0, 0, 0, 0, 0]
     (two THREAD_SMP_CORE_STATUS_WAKEUP_INITIATED THREAD_SMP_TRAMPOLINE_WAIT (Check_Started 0 True) Starting False)
   = two THREAD_SMP_CORE_STATUS_WAKEUP_INITIATED THREAD_SMP_TRAMPOLINE_WAIT (Give_Up 1) Checked False"
  by (simp add: two_steps)

lemma run_late_hangs:
  "smp_run 2 0 [0, 0, 0, 0, 1, 1]
     (two THREAD_SMP_CORE_STATUS_WAKEUP_INITIATED THREAD_SMP_TRAMPOLINE_WAIT (Give_Up 1) Checked False)
   = two THREAD_SMP_CORE_WAITING_FOR_CALIBRATION THREAD_SMP_TRAMPOLINE_END_CALIBRATION (Check_Online 0) Hung True"
  by (simp add: two_steps)

text \<open>The core announces itself between the look of the boot processor at its status and the store that gives it up.\<close>

lemma run_race:
  "smp_run 2 0 [1, 0, 0, 0, 1, 0, 0, 0, 0]
     (two THREAD_SMP_CORE_STATUS_WAKEUP_INITIATED THREAD_SMP_TRAMPOLINE_WAIT (Give_Up 1) Checked False)
   = two THREAD_SMP_CORE_STATUS_GAVE_UP THREAD_SMP_TRAMPOLINE_END_CALIBRATION All_Up Calibrates True"
  by (simp add: two_steps)

lemma run_race_online:
  "smp_run 2 0 [1, 1] (two THREAD_SMP_CORE_STATUS_GAVE_UP THREAD_SMP_TRAMPOLINE_END_CALIBRATION All_Up Calibrates True)
   = two THREAD_SMP_CORE_STATUS_ONLINE THREAD_SMP_TRAMPOLINE_END_CALIBRATION All_Up Runs True"
  by (simp add: two_steps)

lemma two_reaches:
  "smp_run 2 0 is s = s' \<Longrightarrow> set is \<subseteq> {0, 1} \<Longrightarrow> (smp_step 2 0)\<^sup>*\<^sup>* s s'"
  using smp_run_steps [of "is" 2 0 s] by fastforce

section \<open>Properties\<close>

text \<open>C11: starting the processors is safe under every interleaving: a core is online only once it runs and the calibration
  is over; when the boot processor is done every core is online or was given up; and a core given up before it looked
  at its status never comes online.\<close>

theorem bringup_safe:
  assumes "(smp_step max_cpus boot)\<^sup>*\<^sup>* (smp_boot boot) s" "i < max_cpus" "i \<noteq> boot"
  shows "(sm_status s i = THREAD_SMP_CORE_STATUS_ONLINE
        \<longrightarrow> sm_ap s i = Runs \<and> sm_tramp s = THREAD_SMP_TRAMPOLINE_END_CALIBRATION)
    \<and> (sm_bsp s = All_Up \<longrightarrow> sm_status s i = THREAD_SMP_CORE_STATUS_ONLINE \<or> sm_given s i)
    \<and> (sm_given s i \<and> sm_ap s i \<in> {Reset, Starting, Entered} \<and> (smp_step max_cpus boot)\<^sup>*\<^sup>* s s'
        \<longrightarrow> sm_status s' i \<noteq> THREAD_SMP_CORE_STATUS_ONLINE)"
proof (intro conjI impI)
  note inv = smp_inv_reachable [OF assms(1)]
  show "sm_ap s i = Runs" "sm_tramp s = THREAD_SMP_TRAMPOLINE_END_CALIBRATION"
    if "sm_status s i = THREAD_SMP_CORE_STATUS_ONLINE"
  proof -
    have "ap_ok (sm_ap s i) THREAD_SMP_CORE_STATUS_ONLINE (sm_given s i) (sm_tramp s)"
      using inv assms(2,3) that unfolding smp_inv_def by metis
    then show "sm_ap s i = Runs" "sm_tramp s = THREAD_SMP_TRAMPOLINE_END_CALIBRATION"
      by (cases "sm_ap s i"; auto split: if_splits)+
  qed
  show "sm_status s i = THREAD_SMP_CORE_STATUS_ONLINE \<or> sm_given s i" if "sm_bsp s = All_Up"
    using inv assms(2) that by (auto simp: smp_inv_def)
  assume shut: "sm_given s i \<and> sm_ap s i \<in> {Reset, Starting, Entered} \<and> (smp_step max_cpus boot)\<^sup>*\<^sup>* s s'"
  have "ap_ok (sm_ap s i) (sm_status s i) (sm_given s i) (sm_tramp s)"
    using inv assms(2,3) by (auto simp: smp_inv_def)
  then have "shut_out i s"
    using shut by (auto simp: shut_out_def)
  then show "sm_status s' i \<noteq> THREAD_SMP_CORE_STATUS_ONLINE"
    using shut shut_out_stays by (fastforce simp: shut_out_def)
qed

theorem bringup_safe_witness:
  "sm_ap (smp_run 2 0 [0, 1, 1, 0, 0, 0] (smp_run 2 0 [1, 1, 1, 0, 0, 0, 0, 1] (smp_run 2 0 [0, 0, 0, 0, 0, 0, 0, 0] (smp_boot 0)))) 1 = Runs"
proof -
  have "(smp_step 2 0)\<^sup>*\<^sup>* (smp_boot 0) (two THREAD_SMP_CORE_STATUS_ONLINE THREAD_SMP_TRAMPOLINE_END_CALIBRATION All_Up Runs False)"
    using two_reaches [OF run_startup] two_reaches [OF run_begin] two_reaches [OF run_end] by simp
  from bringup_safe [OF this, of 1] show ?thesis
    unfolding run_startup run_begin run_end by simp
qed

text \<open>C37: giving up on a core does not free the boot processor from it. A core that looked at its status before it was given up
  can still overwrite it, find the calibration over and hang, and then the boot processor waits for it forever; or it can
  come online after the boot processor has finished without it.\<close>

theorem given_up_core_blocks_boot:
  "(\<exists>s. (smp_step 2 0)\<^sup>*\<^sup>* (smp_boot 0) s \<and> sm_given s 1 \<and> \<not> (\<exists>s'. (smp_step 2 0)\<^sup>*\<^sup>* s s' \<and> sm_bsp s' = All_Up))
   \<and> (\<exists>s s'. (smp_step 2 0)\<^sup>*\<^sup>* (smp_boot 0) s \<and> sm_bsp s = All_Up \<and> sm_status s 1 = THREAD_SMP_CORE_STATUS_GAVE_UP
        \<and> (smp_step 2 0)\<^sup>*\<^sup>* s s' \<and> sm_status s' 1 = THREAD_SMP_CORE_STATUS_ONLINE)"
proof
  have checked: "(smp_step 2 0)\<^sup>*\<^sup>* (smp_boot 0)
      (two THREAD_SMP_CORE_STATUS_WAKEUP_INITIATED THREAD_SMP_TRAMPOLINE_WAIT (Give_Up 1) Checked False)"
    using two_reaches [OF run_startup] two_reaches [OF run_late] by simp
  let ?s = "two THREAD_SMP_CORE_WAITING_FOR_CALIBRATION THREAD_SMP_TRAMPOLINE_END_CALIBRATION (Check_Online 0) Hung True"
  have "(smp_step 2 0)\<^sup>*\<^sup>* (smp_boot 0) ?s"
    using checked two_reaches [OF run_late_hangs] by simp
  moreover have "blocked 1 ?s" by (simp add: blocked_def)
  then have "\<not> (\<exists>s'. (smp_step 2 0)\<^sup>*\<^sup>* ?s s' \<and> sm_bsp s' = All_Up)"
    using blocked_not_up by fastforce
  ultimately show "\<exists>s. (smp_step 2 0)\<^sup>*\<^sup>* (smp_boot 0) s \<and> sm_given s 1 \<and> \<not> (\<exists>s'. (smp_step 2 0)\<^sup>*\<^sup>* s s' \<and> sm_bsp s' = All_Up)"
    by (intro exI [of _ ?s]) simp
  let ?t = "two THREAD_SMP_CORE_STATUS_GAVE_UP THREAD_SMP_TRAMPOLINE_END_CALIBRATION All_Up Calibrates True"
  let ?u = "two THREAD_SMP_CORE_STATUS_ONLINE THREAD_SMP_TRAMPOLINE_END_CALIBRATION All_Up Runs True"
  have "(smp_step 2 0)\<^sup>*\<^sup>* (smp_boot 0) ?t" "(smp_step 2 0)\<^sup>*\<^sup>* ?t ?u"
    using checked two_reaches [OF run_race] two_reaches [OF run_race_online] by simp_all
  then show "\<exists>s s'. (smp_step 2 0)\<^sup>*\<^sup>* (smp_boot 0) s \<and> sm_bsp s = All_Up \<and> sm_status s 1 = THREAD_SMP_CORE_STATUS_GAVE_UP
      \<and> (smp_step 2 0)\<^sup>*\<^sup>* s s' \<and> sm_status s' 1 = THREAD_SMP_CORE_STATUS_ONLINE"
    by (intro exI [of _ ?t] exI [of _ ?u]) simp
qed

end
